(* ===== verification/Sapper_Prelude.thy ===== *)
theory Sapper_Prelude
  imports Main "HOL-Library.Word" "HOL-Library.AList" "HOL-Library.Multiset"
begin

text \<open>
  Shared vocabulary of the development: node identifiers and bitmaps, Go errors and panics as
  values, the arbitrary order in which Go ranges over a map, and the string functions of the
  standard library that the sources use.
\<close>

section \<open>Collections of facts\<close>

named_theorems go_defs \<open>definitions unfolded when a Go statement sequence is executed symbolically\<close>
named_theorems store_simps \<open>simplification rules of the storage back ends\<close>

section \<open>Identifiers and bitmaps\<close>

text \<open>
  Node identifiers are \<open>uint32\<close>. A \<open>roaring.Bitmap\<close> is a set of \<open>uint32\<close> values; \<open>ToArray\<close>
  lists it in increasing order. Every set of 32-bit words is finite.
\<close>

type_synonym id = "32 word"
type_synonym bitmap = "32 word set"

definition to_array :: "bitmap \<Rightarrow> id list" where
  "to_array b = sorted_list_of_set b"

lemma set_to_array [simp]: "set (to_array b) = b"
  by (simp add: to_array_def)

lemma distinct_to_array [simp]: "distinct (to_array b)"
  by (simp add: to_array_def)

lemma sorted_to_array [simp]: "sorted (to_array b)"
  by (simp add: to_array_def)

lemma to_array_empty [simp]: "to_array {} = []"
  by (simp add: to_array_def)

lemma length_to_array [simp]: "length (to_array b) = card b"
  by (simp add: to_array_def)

lemma to_array_inject [simp]: "to_array a = to_array b \<longleftrightarrow> a = b"
  by (metis set_to_array)

lemma unat_of_nat_id: "n < 4294967296 \<Longrightarrow> unat (of_nat n :: id) = n"
  by (simp add: unat_of_nat)

lemma unat_Suc_id:
  "Suc (unat (x :: id)) < 4294967296 \<Longrightarrow> unat (x + 1) = Suc (unat x) \<and> unat (1 + x) = Suc (unat x)"
proof -
  assume a: "Suc (unat x) < 4294967296"
  then have "unat (x + 1) = Suc (unat x)" by (simp add: unat_word_ariths)
  then show ?thesis by (simp only: add.commute [of 1 x])
qed

lemma of_nat_id_inject:
  assumes "m < 4294967296" and "n < 4294967296"
  shows "(of_nat m :: id) = of_nat n \<longleftrightarrow> m = n"
proof
  assume "(of_nat m :: id) = of_nat n"
  then have "unat (of_nat m :: id) = unat (of_nat n :: id)" by simp
  with assms show "m = n" by (simp only: unat_of_nat_id)
qed simp

section \<open>Errors and panics\<close>

text \<open>
  A Go \<open>error\<close> value: a sentinel of \<open>pkg/graph/graph.go\<close>, a message, or a message that wraps
  another error (\<open>fmt.Errorf\<close> with \<open>%w\<close>). Messages keep their fixed text; the interpolated values
  are left out. A nil dereference, an index out of range or another run-time panic ends the
  request: it is the value \<open>Panic\<close>, which no error check intercepts or wraps.
\<close>

datatype fault =
    ErrNodeAlreadyExists
  | ErrSelfDependency
  | Err string
  | Wrap string fault
  | Panic string

type_synonym 'a res = "fault + 'a"

fun wrap :: "string \<Rightarrow> fault \<Rightarrow> fault" where
  "wrap m (Panic p) = Panic p"
| "wrap m e = Wrap m e"

text \<open>\<open>errors.Is\<close>: the error itself or one it wraps.\<close>

fun errors_is :: "fault \<Rightarrow> fault \<Rightarrow> bool" where
  "errors_is (Wrap m e) t = (Wrap m e = t \<or> errors_is e t)"
| "errors_is e t = (e = t)"

fun is_panic :: "fault \<Rightarrow> bool" where
  "is_panic (Panic p) = True"
| "is_panic e = False"

text \<open>\<open>if err != nil { return fmt.Errorf(m, err) }\<close> on a result, and sequencing of results.\<close>

definition ctx :: "string \<Rightarrow> 'a res \<Rightarrow> 'a res" where
  "ctx m r = (case r of Inl e \<Rightarrow> Inl (wrap m e) | Inr x \<Rightarrow> Inr x)"

definition bind_res :: "'a res \<Rightarrow> ('a \<Rightarrow> 'b res) \<Rightarrow> 'b res" where
  "bind_res r f = (case r of Inl e \<Rightarrow> Inl e | Inr x \<Rightarrow> f x)"

text \<open>The same for operations that return the state they leave next to their result.\<close>

definition ctx_st :: "string \<Rightarrow> 's \<times> 'a res \<Rightarrow> 's \<times> 'a res" where
  "ctx_st m r = (fst r, ctx m (snd r))"

definition bind_st :: "'s \<times> 'a res \<Rightarrow> ('s \<Rightarrow> 'a \<Rightarrow> 's \<times> 'b res) \<Rightarrow> 's \<times> 'b res" where
  "bind_st r f = (case snd r of Inl e \<Rightarrow> (fst r, Inl e) | Inr x \<Rightarrow> f (fst r) x)"

lemma ctx_simps [simp]:
  "ctx m (Inl e) = Inl (wrap m e)"
  "ctx m (Inr x) = Inr x"
  by (simp_all add: ctx_def)

lemma bind_res_simps [simp]:
  "bind_res (Inl e) f = Inl e"
  "bind_res (Inr x) f = f x"
  by (simp_all add: bind_res_def)

lemma ctx_st_simps [simp]:
  "ctx_st m (s, r) = (s, ctx m r)"
  by (simp add: ctx_st_def)

lemma bind_st_simps [simp]:
  "bind_st (s, Inl e) f = (s, Inl e)"
  "bind_st (s, Inr x) f = f s x"
  by (simp_all add: bind_st_def)

lemma ctx_Inr_iff [simp]: "ctx m r = Inr x \<longleftrightarrow> r = Inr x"
  by (cases r) simp_all

lemma bind_res_Inr_iff: "bind_res r f = Inr y \<longleftrightarrow> (\<exists>x. r = Inr x \<and> f x = Inr y)"
  by (cases r) simp_all

lemma bind_st_Inr_iff:
  "bind_st r f = (s', Inr y) \<longleftrightarrow> (\<exists>x. snd r = Inr x \<and> f (fst r) x = (s', Inr y))"
  by (cases "snd r") (simp_all add: bind_st_def)

lemma ctx_st_Inr_iff [simp]: "ctx_st m r = (s', Inr y) \<longleftrightarrow> r = (s', Inr y)"
  by (cases r) simp

lemma wrap_is_panic [simp]: "is_panic (wrap m e) = is_panic e"
  by (cases e) simp_all

text \<open>Run a fallible function over a list, stopping at the first failure.\<close>

fun map_res :: "('a \<Rightarrow> 'b res) \<Rightarrow> 'a list \<Rightarrow> 'b list res" where
  "map_res f [] = Inr []"
| "map_res f (x # xs) =
     bind_res (f x) (\<lambda>y. bind_res (map_res f xs) (\<lambda>ys. Inr (y # ys)))"

lemma map_res_Inr:
  "(\<And>x. x \<in> set xs \<Longrightarrow> f x = Inr (g x)) \<Longrightarrow> map_res f xs = Inr (map g xs)"
  by (induction xs) auto

lemma map_res_InrD:
  "map_res f xs = Inr ys \<Longrightarrow> list_all2 (\<lambda>x y. f x = Inr y) xs ys"
  by (induction xs arbitrary: ys) (auto simp: bind_res_Inr_iff)

lemma map_res_InlD:
  "map_res f xs = Inl e \<Longrightarrow> \<exists>x \<in> set xs. f x = Inl e"
  by (induction xs) (auto simp: bind_res_def split: sum.splits)

section \<open>Ranging over a Go map\<close>

text \<open>
  A Go map that a loop ranges over is an association list with distinct keys. Go visits its
  entries in an unspecified order: an argument \<open>ro\<close> of the model chooses it, for each range
  statement of a run (numbered) and each size, as a permutation of the positions.
\<close>

type_synonym range_order = "nat \<Rightarrow> nat \<Rightarrow> nat list"

definition range_ok :: "range_order \<Rightarrow> bool" where
  "range_ok ro \<longleftrightarrow> (\<forall>k n. mset (ro k n) = mset [0..<n])"

definition go_range :: "range_order \<Rightarrow> nat \<Rightarrow> 'a list \<Rightarrow> 'a list" where
  "go_range ro k xs = map (\<lambda>i. xs ! i) (ro k (length xs))"

lemma mset_go_range: "range_ok ro \<Longrightarrow> mset (go_range ro k xs) = mset xs"
proof -
  assume "range_ok ro"
  then have "mset (go_range ro k xs) = image_mset (\<lambda>i. xs ! i) (mset [0..<length xs])"
    by (simp add: go_range_def range_ok_def)
  also have "\<dots> = mset (map (\<lambda>i. xs ! i) [0..<length xs])" by simp
  also have "\<dots> = mset xs" by (simp only: map_nth)
  finally show ?thesis .
qed

lemma set_go_range [simp]: "range_ok ro \<Longrightarrow> set (go_range ro k xs) = set xs"
  by (metis mset_go_range set_mset_mset)

lemma distinct_go_range [simp]: "range_ok ro \<Longrightarrow> distinct (go_range ro k xs) = distinct xs"
  by (metis mset_go_range mset_eq_imp_distinct_iff)

lemma length_go_range [simp]: "range_ok ro \<Longrightarrow> length (go_range ro k xs) = length xs"
  by (metis mset_go_range size_mset)

definition in_order :: range_order where
  "in_order k n = [0..<n]"

definition in_reverse :: range_order where
  "in_reverse k n = rev [0..<n]"

lemma range_ok_in_order [simp]: "range_ok in_order"
  by (simp add: range_ok_def in_order_def)

lemma range_ok_in_reverse [simp]: "range_ok in_reverse"
  by (simp add: range_ok_def in_reverse_def)

lemma go_range_in_order [simp]: "go_range in_order k xs = xs"
  by (simp add: go_range_def in_order_def map_nth)

section \<open>Association lists as Go maps\<close>

abbreviation keys_of :: "('k \<times> 'v) list \<Rightarrow> 'k list" where
  "keys_of m \<equiv> map fst m"

lemma distinct_keys_update [simp]: "distinct (keys_of (AList.update k v m)) = distinct (keys_of m)"
proof (cases "k \<in> set (keys_of m)")
  case True
  then have "keys_of (AList.update k v m) = keys_of m" by (simp add: AList.update_keys)
  then show ?thesis by simp
next
  case False
  then have "keys_of (AList.update k v m) = keys_of m @ [k]" by (simp add: AList.update_keys)
  with False show ?thesis by simp
qed

lemma set_keys_update [simp]: "set (keys_of (AList.update k v m)) = insert k (set (keys_of m))"
  by (auto simp: AList.update_keys)

lemma map_of_update [simp]: "map_of (AList.update k v m) = (map_of m)(k \<mapsto> v)"
  by (rule AList.update_conv')

lemma map_of_filter_keys: "map_of (filter (\<lambda>p. P (fst p)) m) = (map_of m) |` {k. P k}"
  by (induction m) (auto simp: restrict_map_def fun_eq_iff)

lemma map_of_eq_None_keys: "map_of m k = None \<longleftrightarrow> k \<notin> set (keys_of m)"
  by (simp add: map_of_eq_None_iff)

lemma dom_map_of_keys: "dom (map_of m) = set (keys_of m)"
  by (simp add: dom_map_of_conv_image_fst)

lemma set_keys_go_range: "range_ok ro \<Longrightarrow> set (keys_of (go_range ro k xs)) = set (keys_of xs)"
  by simp

lemma distinct_keys_go_range:
  "range_ok ro \<Longrightarrow> distinct (keys_of (go_range ro k xs)) = distinct (keys_of xs)"
  by (metis mset_go_range mset_map mset_eq_imp_distinct_iff)

section \<open>Strings\<close>

text \<open>Strings are lists of bytes. The functions below are the \<open>strings\<close> package on ASCII text.\<close>

definition has_prefix :: "string \<Rightarrow> string \<Rightarrow> bool" where
  "has_prefix s p \<longleftrightarrow> take (length p) s = p"

definition trim_prefix :: "string \<Rightarrow> string \<Rightarrow> string" where
  "trim_prefix s p = (if has_prefix s p then drop (length p) s else s)"

lemma has_prefix_append [simp]: "has_prefix (p @ s) p"
  by (simp add: has_prefix_def)

lemma trim_prefix_append [simp]: "trim_prefix (p @ s) p = s"
  by (simp add: trim_prefix_def)

lemma has_prefixE: "has_prefix s p \<Longrightarrow> \<exists>t. s = p @ t"
  by (metis has_prefix_def append_take_drop_id)

definition byte_of :: "char \<Rightarrow> nat" where
  "byte_of c = (of_char c :: nat)"

definition is_digit_char :: "char \<Rightarrow> bool" where
  "is_digit_char c \<longleftrightarrow> 48 \<le> byte_of c \<and> byte_of c \<le> 57"

definition is_lower_char :: "char \<Rightarrow> bool" where
  "is_lower_char c \<longleftrightarrow> 97 \<le> byte_of c \<and> byte_of c \<le> 122"

definition is_upper_char :: "char \<Rightarrow> bool" where
  "is_upper_char c \<longleftrightarrow> 65 \<le> byte_of c \<and> byte_of c \<le> 90"

definition upper_char :: "char \<Rightarrow> char" where
  "upper_char c = (if is_lower_char c then char_of (byte_of c - 32) else c)"

definition lower_char :: "char \<Rightarrow> char" where
  "lower_char c = (if is_upper_char c then char_of (byte_of c + 32) else c)"

definition to_upper :: "string \<Rightarrow> string" where
  "to_upper = map upper_char"

definition to_lower :: "string \<Rightarrow> string" where
  "to_lower = map lower_char"

definition is_space_char :: "char \<Rightarrow> bool" where
  "is_space_char c \<longleftrightarrow> byte_of c \<in> {9, 10, 11, 12, 13, 32}"

definition trim_space :: "string \<Rightarrow> string" where
  "trim_space s = rev (dropWhile is_space_char (rev (dropWhile is_space_char s)))"

lemma byte_of_char_of [simp]: "n < 256 \<Longrightarrow> byte_of (char_of n) = n"
  by (simp add: byte_of_def of_char_of take_bit_eq_mod)

lemma byte_of_less [simp]: "byte_of c < 256"
  by (simp add: byte_of_def)

lemma upper_char_idem [simp]: "upper_char (upper_char c) = upper_char c"
  by (auto simp: upper_char_def is_lower_char_def)

lemma to_upper_idem [simp]: "to_upper (to_upper s) = to_upper s"
  by (simp add: to_upper_def)

text \<open>\<open>tag:key\<close>: a tag without a colon can be read back from the joined key.\<close>

definition colon_key :: "string \<Rightarrow> string \<Rightarrow> string" where
  "colon_key tag k = tag @ '':'' @ k"

lemma colon_key_inject:
  "CHR '':'' \<notin> set t \<Longrightarrow> CHR '':'' \<notin> set t' \<Longrightarrow> colon_key t k = colon_key t' k' \<longleftrightarrow> t = t' \<and> k = k'"
proof (induction t arbitrary: t')
  case Nil
  then show ?case by (cases t') (auto simp: colon_key_def)
next
  case (Cons c t)
  then show ?case by (cases t') (auto simp: colon_key_def)
qed

text \<open>\<open>strings.Compare\<close> and the order of \<open>sort.Strings\<close>: bytewise, a proper prefix first.\<close>

fun str_compare :: "string \<Rightarrow> string \<Rightarrow> int" where
  "str_compare [] [] = 0"
| "str_compare [] (y # ys) = -1"
| "str_compare (x # xs) [] = 1"
| "str_compare (x # xs) (y # ys) =
     (if byte_of x < byte_of y then -1
      else if byte_of y < byte_of x then 1
      else str_compare xs ys)"

lemma byte_of_inject [simp]: "byte_of a = byte_of b \<longleftrightarrow> a = b"
  by (simp add: byte_of_def)

lemma str_compare_refl [simp]: "str_compare s s = 0"
  by (induction s) auto

lemma str_compare_eq_0 [simp]: "str_compare a b = 0 \<longleftrightarrow> a = b"
  by (induction a b rule: str_compare.induct) auto

lemma str_compare_antisym: "str_compare b a = - str_compare a b"
  by (induction a b rule: str_compare.induct) auto

lemma str_compare_cases: "str_compare a b \<in> {-1, 0, 1}"
  by (induction a b rule: str_compare.induct) auto

lemma str_compare_trans:
  "str_compare a b < 0 \<Longrightarrow> str_compare b c < 0 \<Longrightarrow> str_compare a c < 0"
proof (induction a b arbitrary: c rule: str_compare.induct)
  case (2 y ys)
  then show ?case by (cases c) auto
next
  case (4 x xs y ys)
  show ?case
  proof (cases c)
    case Nil
    with "4.prems"(2) show ?thesis by simp
  next
    case (Cons z zs)
    have "byte_of x < byte_of y \<or> (x = y \<and> str_compare xs ys < 0)"
      using "4.prems"(1) by (auto split: if_splits)
    moreover have "byte_of y < byte_of z \<or> (y = z \<and> str_compare ys zs < 0)"
      using "4.prems"(2) Cons by (auto split: if_splits)
    ultimately show ?thesis using "4.IH" Cons by auto
  qed
qed simp_all

definition str_less :: "string \<Rightarrow> string \<Rightarrow> bool" where
  "str_less a b \<longleftrightarrow> str_compare a b < 0"

end
