(* ===== verification/Convert.thy ===== *)
theory Convert
  imports Sapper_Prelude
begin

text \<open>
  \<open>pkg/utils/convert.go\<close>: conversions between \<open>uint32\<close>, \<open>int\<close> and decimal text. The standard
  library's \<open>strconv.FormatUint\<close> and \<open>strconv.ParseUint\<close> are modelled for base 10. The lemmas
  give the round trip that the key stores and the cache rely on.
\<close>

section \<open>strconv\<close>

definition digit_char :: "nat \<Rightarrow> char" where
  "digit_char d = char_of (48 + d)"

fun FormatUint :: "nat \<Rightarrow> string" where
  "FormatUint n = (if n < 10 then [digit_char n] else FormatUint (n div 10) @ [digit_char (n mod 10)])"

declare FormatUint.simps [simp del]

text \<open>
  The digit loop of \<open>strconv.ParseUint\<close> in base 10: \<open>maxv\<close> is \<open>2 ^ bitSize - 1\<close>, and the cut-off is
  the least value whose tenfold leaves 64 bits.
\<close>

fun parse_digits :: "nat \<Rightarrow> nat \<Rightarrow> string \<Rightarrow> nat res" where
  "parse_digits maxv n [] = Inr n"
| "parse_digits maxv n (c # cs) =
     (if \<not> is_digit_char c then Inl (Err ''invalid syntax'')
      else if 1844674407370955162 \<le> n then Inl (Err ''value out of range'')
      else if maxv < n * 10 + (byte_of c - 48) then Inl (Err ''value out of range'')
      else parse_digits maxv (n * 10 + (byte_of c - 48)) cs)"

definition ParseUint :: "nat \<Rightarrow> string \<Rightarrow> nat res" where
  "ParseUint bits s =
     (if s = [] then Inl (Err ''invalid syntax'') else parse_digits (2 ^ bits - 1) 0 s)"

section \<open>convert.go\<close>

definition Uint32ToStr :: "id \<Rightarrow> string" where
  "Uint32ToStr v = FormatUint (unat v)"

definition StrToUint32 :: "string \<Rightarrow> id res" where
  "StrToUint32 val =
     bind_res (ctx ''failed to convert string to uint32'' (ParseUint 32 val))
       (\<lambda>num. Inr (of_nat num))"

definition IntToUint32 :: "int \<Rightarrow> id res" where
  "IntToUint32 val =
     (if val < 0 then Inl (Err ''negative value cannot be converted to uint32'')
      else if 4294967295 < val then Inl (Err ''value exceeds maximum uint32 value'')
      else Inr (word_of_int val))"

section \<open>Decimal text\<close>

lemma byte_of_digit_char [simp]: "d < 10 \<Longrightarrow> byte_of (digit_char d) = 48 + d"
  by (simp add: digit_char_def)

lemma is_digit_digit_char [simp]: "d < 10 \<Longrightarrow> is_digit_char (digit_char d)"
  by (simp add: is_digit_char_def)

lemma FormatUint_nonempty [simp]: "FormatUint n \<noteq> []"
  by (subst FormatUint.simps) simp

lemma FormatUint_digits: "c \<in> set (FormatUint n) \<Longrightarrow> is_digit_char c"
proof (induction n rule: FormatUint.induct)
  case (1 n)
  show ?case
  proof (cases "n < 10")
    case True
    with "1.prems" show ?thesis by (simp add: FormatUint.simps [of n])
  next
    case False
    with 1 show ?thesis by (auto simp: FormatUint.simps [of n])
  qed
qed

lemma parse_digits_append:
  "parse_digits m n (s @ t) = bind_res (parse_digits m n s) (\<lambda>k. parse_digits m k t)"
  by (induction m n s rule: parse_digits.induct) auto

lemma parse_FormatUint:
  "k \<le> maxv \<Longrightarrow> maxv < 18446744073709551616 \<Longrightarrow> parse_digits maxv 0 (FormatUint k) = Inr k"
proof (induction k rule: FormatUint.induct)
  case (1 k)
  show ?case
  proof (cases "k < 10")
    case True
    with "1.prems" show ?thesis by (simp add: FormatUint.simps [of k])
  next
    case False
    have ih: "parse_digits maxv 0 (FormatUint (k div 10)) = Inr (k div 10)"
      using False "1.prems" by (intro "1.IH") auto
    have "k div 10 < 1844674407370955162" using "1.prems" by simp
    moreover have "k div 10 * 10 + k mod 10 = k" by simp
    ultimately show ?thesis
      using False "1.prems" ih by (simp add: FormatUint.simps [of k] parse_digits_append)
  qed
qed

lemma parse_digits_bound: "parse_digits maxv n s = Inr k \<Longrightarrow> n \<le> maxv \<Longrightarrow> k \<le> maxv"
  by (induction maxv n s rule: parse_digits.induct) (auto split: if_splits)

lemma FormatUint_inject [simp]: "FormatUint a = FormatUint b \<longleftrightarrow> a = b"
proof
  have val: "foldl (\<lambda>n c. n * 10 + (byte_of c - 48)) 0 (FormatUint n) = n" for n
  proof (induction n rule: FormatUint.induct)
    case (1 n)
    then show ?case by (cases "n < 10") (simp_all add: FormatUint.simps [of n])
  qed
  assume "FormatUint a = FormatUint b"
  then show "a = b" by (metis val)
qed simp

lemma Uint32ToStr_inject [simp]: "Uint32ToStr a = Uint32ToStr b \<longleftrightarrow> a = b"
  by (simp add: Uint32ToStr_def word_unat_eq_iff)

lemma inj_Uint32ToStr [simp]: "inj_on Uint32ToStr A"
  by (simp add: inj_on_def)

lemma ParseUint_FormatUint [simp]:
  "ParseUint 32 (FormatUint (unat (v :: id))) = Inr (unat v)"
proof -
  have "unat v \<le> 2 ^ 32 - 1"
    using unsigned_less [of v, where ?'a = nat] by simp
  then show ?thesis
    by (simp add: ParseUint_def parse_FormatUint)
qed

lemma StrToUint32_Uint32ToStr [simp]: "StrToUint32 (Uint32ToStr v) = Inr v"
  by (simp add: StrToUint32_def Uint32ToStr_def)

lemma Uint32ToStr_digits: "c \<in> set (Uint32ToStr v) \<Longrightarrow> is_digit_char c"
  by (simp add: Uint32ToStr_def FormatUint_digits)

text \<open>
  Converting a node identifier to text and back gives the identifier, for every \<open>uint32\<close>; and
  \<open>StrToUint32\<close> never returns more than the text says: what it accepts is a non-empty run of decimal
  digits whose value fits 32 bits, and the value is not truncated.
\<close>

theorem uint32_text_roundtrip:
  "StrToUint32 (Uint32ToStr v) = Inr v
   \<and> (StrToUint32 s = Inr w \<longleftrightarrow> s \<noteq> [] \<and> parse_digits 4294967295 0 s = Inr (unat w))"
proof -
  have "StrToUint32 s = Inr w \<longleftrightarrow> s \<noteq> [] \<and> parse_digits 4294967295 0 s = Inr (unat w)"
  proof (cases "parse_digits 4294967295 0 s")
    case (Inl e)
    then show ?thesis by (simp add: StrToUint32_def ParseUint_def)
  next
    case (Inr k)
    then have "k < 2 ^ 32" using parse_digits_bound [OF Inr] by simp
    then have "unat (of_nat k :: id) = k" by (simp add: unat_of_nat)
    with Inr show ?thesis by (auto simp: StrToUint32_def ParseUint_def)
  qed
  then show ?thesis by simp
qed

text \<open>
  \<open>IntToUint32\<close> succeeds exactly on the values of a \<open>uint32\<close> and then keeps the value: it never
  wraps around.
\<close>

theorem IntToUint32_exact:
  "IntToUint32 v = Inr w \<longleftrightarrow> 0 \<le> v \<and> v \<le> 4294967295 \<and> uint w = v"
proof -
  have "uint (word_of_int v :: id) = v" if "0 \<le> v" "v \<le> 4294967295"
    using that by (simp add: uint_word_of_int_eq take_bit_int_eq_self)
  then show ?thesis
    by (auto simp: IntToUint32_def)
qed

end
