(* ===== verification/Graph_Data.thy ===== *)
theory Graph_Data
  imports Convert
begin

text \<open>
  The data of \<open>pkg/graph/graph.go\<close> and the interface \<open>Storage\<close> of \<open>pkg/graph/storage.go\<close>. A Go
  interface value is a record of functions over the back end's own state; a method that changes the
  state returns the new one.
\<close>

section \<open>Nodes and node caches\<close>

text \<open>
  \<open>Metadata any\<close>: the sources store nothing (\<open>nil\<close>), raw bytes (an OSV record), a string, or another
  Go value, of which only the JSON text is ever used.
\<close>

datatype metadata = MNil | MBytes string | MString string | MOther string

record node =
  n_Metadata :: metadata
  n_Children :: bitmap
  n_Parents :: bitmap
  n_Type :: string
  n_Name :: string
  n_ChildData :: string
  n_ParentData :: string
  n_ID :: id

record node_cache =
  c_AllParents :: bitmap
  c_AllChildren :: bitmap
  c_ID :: id

definition NewNodeCache :: "id \<Rightarrow> bitmap \<Rightarrow> bitmap \<Rightarrow> node_cache" where
  "NewNodeCache i allParents allChildren =
     \<lparr>c_AllParents = allParents, c_AllChildren = allChildren, c_ID = i\<rparr>"

lemma NewNodeCache_simps [simp]:
  "c_ID (NewNodeCache i p c) = i"
  "c_AllParents (NewNodeCache i p c) = p"
  "c_AllChildren (NewNodeCache i p c) = c"
  by (simp_all add: NewNodeCache_def)

section \<open>Directions\<close>

type_synonym direction = string

definition ParentsDirection :: direction where
  "ParentsDirection = ''parents''"

definition ChildrenDirection :: direction where
  "ChildrenDirection = ''children''"

lemma directions_differ [simp]:
  "ParentsDirection \<noteq> ChildrenDirection" "ChildrenDirection \<noteq> ParentsDirection"
  by (simp_all add: ParentsDirection_def ChildrenDirection_def)

section \<open>JSON\<close>

text \<open>
  \<open>MarshalJSON\<close> and \<open>UnmarshalJSON\<close> go through an auxiliary struct, which the JSON library
  (\<open>goccy/go-json\<close>) writes and reads, and through the byte format of roaring bitmaps. Both are
  arguments of the model: \<open>'b\<close> is the type of serialized bitmaps, \<open>'t\<close> that of JSON texts.
\<close>

record 'b node_aux =
  a_Metadata :: metadata
  a_Type :: string
  a_Name :: string
  a_ChildData :: 'b
  a_ParentData :: 'b
  a_ID :: id

record 'b cache_aux =
  a_AllParentsData :: 'b
  a_AllChildrenData :: 'b
  a_NodeID :: id

record ('b, 't) codec =
  cd_ToBytes :: "bitmap \<Rightarrow> 'b res"
  cd_FromBuffer :: "'b \<Rightarrow> bitmap res"
  cd_MarshalNode :: "'b node_aux \<Rightarrow> 't res"
  cd_UnmarshalNode :: "'t \<Rightarrow> 'b node_aux res"
  cd_MarshalCache :: "'b cache_aux \<Rightarrow> 't res"
  cd_UnmarshalCache :: "'t \<Rightarrow> 'b cache_aux res"

definition NodeCache_MarshalJSON :: "('b, 't) codec \<Rightarrow> node_cache \<Rightarrow> 't res" where
  "NodeCache_MarshalJSON cd nc =
     bind_res (ctx ''failed to convert AllParents bitmap to bytes'' (cd_ToBytes cd (c_AllParents nc)))
       (\<lambda>allParentsData.
     bind_res (ctx ''failed to convert AllChildren bitmap to bytes'' (cd_ToBytes cd (c_AllChildren nc)))
       (\<lambda>allChildrenData.
     cd_MarshalCache cd \<lparr>a_AllParentsData = allParentsData, a_AllChildrenData = allChildrenData,
       a_NodeID = c_ID nc\<rparr>))"

definition NodeCache_UnmarshalJSON :: "('b, 't) codec \<Rightarrow> 't \<Rightarrow> node_cache res" where
  "NodeCache_UnmarshalJSON cd data =
     bind_res (ctx ''failed to unmarshal NodeCache data'' (cd_UnmarshalCache cd data)) (\<lambda>aux.
     bind_res (ctx ''failed to convert AllParents data from buffer''
       (cd_FromBuffer cd (a_AllParentsData aux))) (\<lambda>allParents.
     bind_res (ctx ''failed to convert AllChildren data from buffer''
       (cd_FromBuffer cd (a_AllChildrenData aux))) (\<lambda>allChildren.
     Inr \<lparr>c_AllParents = allParents, c_AllChildren = allChildren, c_ID = a_NodeID aux\<rparr>)))"

definition Node_MarshalJSON :: "('b, 't) codec \<Rightarrow> node \<Rightarrow> 't res" where
  "Node_MarshalJSON cd n =
     bind_res (ctx ''failed to convert child bitmap to bytes'' (cd_ToBytes cd (n_Children n)))
       (\<lambda>childData.
     bind_res (ctx ''failed to convert parent bitmap to bytes'' (cd_ToBytes cd (n_Parents n)))
       (\<lambda>parentData.
     cd_MarshalNode cd \<lparr>a_Metadata = n_Metadata n, a_Type = n_Type n, a_Name = n_Name n,
       a_ChildData = childData, a_ParentData = parentData, a_ID = n_ID n\<rparr>))"

definition Node_UnmarshalJSON :: "('b, 't) codec \<Rightarrow> 't \<Rightarrow> node res" where
  "Node_UnmarshalJSON cd data =
     bind_res (ctx ''failed to unmarshal node data'' (cd_UnmarshalNode cd data)) (\<lambda>aux.
     bind_res (ctx ''failed to convert child data from buffer''
       (cd_FromBuffer cd (a_ChildData aux))) (\<lambda>children.
     bind_res (ctx ''failed to convert parent data from buffer''
       (cd_FromBuffer cd (a_ParentData aux))) (\<lambda>parents.
     Inr \<lparr>n_Metadata = a_Metadata aux, n_Children = children, n_Parents = parents,
       n_Type = a_Type aux, n_Name = a_Name aux, n_ChildData = '''', n_ParentData = '''',
       n_ID = a_ID aux\<rparr>)))"

text \<open>
  What the code relies on. \<open>b64\<close> is the standard base64 encoding, in which the JSON library writes a
  byte slice. JSON has no byte type: bytes written as metadata are read back as a string.
\<close>

fun stored_metadata :: "(string \<Rightarrow> string) \<Rightarrow> metadata \<Rightarrow> metadata" where
  "stored_metadata b64 (MBytes b) = MString (b64 b)"
| "stored_metadata b64 m = m"

definition stored_node :: "(string \<Rightarrow> string) \<Rightarrow> node \<Rightarrow> node" where
  "stored_node b64 n =
     n\<lparr>n_Metadata := stored_metadata b64 (n_Metadata n), n_ChildData := '''', n_ParentData := ''''\<rparr>"

lemma stored_node_simps [simp]:
  "n_ID (stored_node b64 n) = n_ID n"
  "n_Name (stored_node b64 n) = n_Name n"
  "n_Type (stored_node b64 n) = n_Type n"
  "n_Children (stored_node b64 n) = n_Children n"
  "n_Parents (stored_node b64 n) = n_Parents n"
  by (simp_all add: stored_node_def)

lemma stored_metadata_idem [simp]:
  "stored_metadata b64 (stored_metadata b64 m) = stored_metadata b64 m"
  by (cases m) simp_all

lemma stored_node_idem [simp]: "stored_node b64 (stored_node b64 n) = stored_node b64 n"
  by (simp add: stored_node_def)

definition codec_ok :: "(string \<Rightarrow> string) \<Rightarrow> ('b, 't) codec \<Rightarrow> bool" where
  "codec_ok b64 cd \<longleftrightarrow>
     (\<forall>b. \<exists>d. cd_ToBytes cd b = Inr d \<and> cd_FromBuffer cd d = Inr b)
     \<and> (\<forall>a. \<exists>t. cd_MarshalNode cd a = Inr t
          \<and> cd_UnmarshalNode cd t = Inr (a\<lparr>a_Metadata := stored_metadata b64 (a_Metadata a)\<rparr>))
     \<and> (\<forall>a. \<exists>t. cd_MarshalCache cd a = Inr t \<and> cd_UnmarshalCache cd t = Inr a)"

lemma codec_ok_bytes:
  "codec_ok b64 cd \<Longrightarrow> \<exists>d. cd_ToBytes cd b = Inr d \<and> cd_FromBuffer cd d = Inr b"
  by (simp add: codec_ok_def)

lemma codec_ok_node:
  "codec_ok b64 cd \<Longrightarrow> \<exists>t. cd_MarshalNode cd a = Inr t
     \<and> cd_UnmarshalNode cd t = Inr (a\<lparr>a_Metadata := stored_metadata b64 (a_Metadata a)\<rparr>)"
  by (simp add: codec_ok_def)

lemma codec_ok_cache:
  "codec_ok b64 cd \<Longrightarrow> \<exists>t. cd_MarshalCache cd a = Inr t \<and> cd_UnmarshalCache cd t = Inr a"
  by (simp add: codec_ok_def)

lemma node_text:
  assumes "codec_ok b64 cd"
  shows "bind_res (Node_MarshalJSON cd n) (Node_UnmarshalJSON cd) = Inr (stored_node b64 n)"
proof -
  obtain c where c: "cd_ToBytes cd (n_Children n) = Inr c" "cd_FromBuffer cd c = Inr (n_Children n)"
    using codec_ok_bytes [OF assms] by blast
  obtain p where p: "cd_ToBytes cd (n_Parents n) = Inr p" "cd_FromBuffer cd p = Inr (n_Parents n)"
    using codec_ok_bytes [OF assms] by blast
  let ?aux = "\<lparr>a_Metadata = n_Metadata n, a_Type = n_Type n, a_Name = n_Name n,
       a_ChildData = c, a_ParentData = p, a_ID = n_ID n\<rparr>"
  obtain t where t: "cd_MarshalNode cd ?aux = Inr t"
    "cd_UnmarshalNode cd t = Inr (?aux\<lparr>a_Metadata := stored_metadata b64 (a_Metadata ?aux)\<rparr>)"
    using codec_ok_node [OF assms] by blast
  show ?thesis
    by (simp add: Node_MarshalJSON_def Node_UnmarshalJSON_def stored_node_def c p t)
qed

text \<open>
  With a JSON library and a bitmap format that read back what they wrote, a node that is marshalled
  and unmarshalled keeps its identifier, name, type and edges; metadata given as bytes come back as
  their base64 text, and everything else is unchanged.
\<close>

theorem Node_JSON_roundtrip:
  assumes "codec_ok b64 cd"
  shows "bind_res (Node_MarshalJSON cd n) (Node_UnmarshalJSON cd) = Inr (stored_node b64 n)"
  by (rule node_text [OF assms])

text \<open>
  A codec for the witnesses: a serialized bitmap is the bitmap, a JSON text is the document it holds.
\<close>

definition tree_codec ::
  "(string \<Rightarrow> string) \<Rightarrow> (bitmap, bitmap node_aux + bitmap cache_aux) codec" where
  "tree_codec b64 =
     \<lparr>cd_ToBytes = Inr, cd_FromBuffer = Inr,
      cd_MarshalNode = (\<lambda>a. Inr (Inl (a\<lparr>a_Metadata := stored_metadata b64 (a_Metadata a)\<rparr>))),
      cd_UnmarshalNode = (\<lambda>t. case t of Inl a \<Rightarrow> Inr a | Inr c \<Rightarrow> Inl (Err ''not a node'')),
      cd_MarshalCache = (\<lambda>c. Inr (Inr c)),
      cd_UnmarshalCache = (\<lambda>t. case t of Inl a \<Rightarrow> Inl (Err ''not a cache'') | Inr c \<Rightarrow> Inr c)\<rparr>"

lemma tree_codec_ok [simp]: "codec_ok b64 (tree_codec b64)"
  by (simp add: codec_ok_def tree_codec_def)

definition sample_node :: node where
  "sample_node = \<lparr>n_Metadata = MBytes ''osv'', n_Children = {2, 3}, n_Parents = {}, n_Type = ''vuln'',
     n_Name = ''GO-1'', n_ChildData = '''', n_ParentData = '''', n_ID = 1\<rparr>"

theorem Node_JSON_roundtrip_witness:
  "codec_ok rev (tree_codec rev)
   \<and> bind_res (Node_MarshalJSON (tree_codec rev) sample_node) (Node_UnmarshalJSON (tree_codec rev))
     = Inr (sample_node\<lparr>n_Metadata := MString ''vso''\<rparr>)"
  using Node_JSON_roundtrip [OF tree_codec_ok [of rev], of sample_node]
  by (simp add: stored_node_def sample_node_def)

lemma cache_text:
  assumes "codec_ok b64 cd"
  shows "bind_res (NodeCache_MarshalJSON cd nc) (NodeCache_UnmarshalJSON cd) = Inr nc"
proof -
  obtain c where c: "cd_ToBytes cd (c_AllChildren nc) = Inr c"
    "cd_FromBuffer cd c = Inr (c_AllChildren nc)"
    using codec_ok_bytes [OF assms] by blast
  obtain p where p: "cd_ToBytes cd (c_AllParents nc) = Inr p"
    "cd_FromBuffer cd p = Inr (c_AllParents nc)"
    using codec_ok_bytes [OF assms] by blast
  let ?aux = "\<lparr>a_AllParentsData = p, a_AllChildrenData = c, a_NodeID = c_ID nc\<rparr>"
  obtain t where t: "cd_MarshalCache cd ?aux = Inr t" "cd_UnmarshalCache cd t = Inr ?aux"
    using codec_ok_cache [OF assms] by blast
  show ?thesis
    by (simp add: NodeCache_MarshalJSON_def NodeCache_UnmarshalJSON_def c p t)
qed

text \<open>
  The same for the cache entry of a node: marshalling and unmarshalling give back both closures.
\<close>

theorem NodeCache_JSON_roundtrip:
  assumes "codec_ok b64 cd"
  shows "bind_res (NodeCache_MarshalJSON cd nc) (NodeCache_UnmarshalJSON cd) = Inr nc"
  by (rule cache_text [OF assms])

theorem NodeCache_JSON_roundtrip_witness:
  "codec_ok rev (tree_codec rev)
   \<and> bind_res (NodeCache_MarshalJSON (tree_codec rev) (NewNodeCache 1 {1} {1, 2}))
       (NodeCache_UnmarshalJSON (tree_codec rev)) = Inr (NewNodeCache 1 {1} {1, 2})"
  using NodeCache_JSON_roundtrip [OF tree_codec_ok [of rev], of "NewNodeCache 1 {1} {1, 2}"]
  by simp

section \<open>The interface Storage\<close>

text \<open>
  One field per method of the interface. \<open>'s\<close> is the state of the back end. \<open>GetCache\<close> may return a
  nil pointer without an error (\<open>None\<close>). The maps that \<open>GetNodes\<close>, \<open>GetCaches\<close> and \<open>GetCustomData\<close>
  return are association lists, because callers range over them.
\<close>

record 's storage =
  st_NameToID :: "'s \<Rightarrow> string \<Rightarrow> id res"
  st_SaveNode :: "'s \<Rightarrow> node \<Rightarrow> 's \<times> unit res"
  st_GetNode :: "'s \<Rightarrow> id \<Rightarrow> node res"
  st_GetNodes :: "'s \<Rightarrow> id list \<Rightarrow> (id \<times> node) list res"
  st_GetNodesByGlob :: "'s \<Rightarrow> string \<Rightarrow> node list res"
  st_GetAllKeys :: "'s \<Rightarrow> id list res"
  st_SaveCache :: "'s \<Rightarrow> node_cache \<Rightarrow> 's \<times> unit res"
  st_SaveCaches :: "'s \<Rightarrow> node_cache list \<Rightarrow> 's \<times> unit res"
  st_RemoveAllCaches :: "'s \<Rightarrow> 's \<times> unit res"
  st_ToBeCached :: "'s \<Rightarrow> id list res"
  st_AddNodeToCachedStack :: "'s \<Rightarrow> id \<Rightarrow> 's \<times> unit res"
  st_GetCache :: "'s \<Rightarrow> id \<Rightarrow> node_cache option res"
  st_GetCaches :: "'s \<Rightarrow> id list \<Rightarrow> (id \<times> node_cache) list res"
  st_ClearCacheStack :: "'s \<Rightarrow> 's \<times> unit res"
  st_GenerateID :: "'s \<Rightarrow> 's \<times> id res"
  st_GetCustomData :: "'s \<Rightarrow> string \<Rightarrow> string \<Rightarrow> (string \<times> string) list res"
  st_AddOrUpdateCustomData :: "'s \<Rightarrow> string \<Rightarrow> string \<Rightarrow> string \<Rightarrow> string \<Rightarrow> 's \<times> unit res"

end
