(* ===== verification/Graph_Ops.thy ===== *)
theory Graph_Ops
  imports Graph_Data
begin

text \<open>
  The operations of \<open>pkg/graph/graph.go\<close> over any storage: adding nodes and edges, walking the graph
  without the cache, and reading closures from the cache. A pointer that the code compares with nil
  is an \<open>option\<close>.
\<close>

section \<open>Adding nodes and edges\<close>

definition AddNode ::
  "'s storage \<Rightarrow> 's \<Rightarrow> string \<Rightarrow> metadata \<Rightarrow> string \<Rightarrow> 's \<times> node res" where
  "AddNode st s ty meta name =
     (case st_NameToID st s name of
        Inr i \<Rightarrow> (s, st_GetNode st s i)
      | Inl e \<Rightarrow>
          if is_panic e then (s, Inl e)
          else
            bind_st (ctx_st ''failed to generate ID'' (st_GenerateID st s)) (\<lambda>s1 i.
              let n = \<lparr>n_Metadata = meta, n_Children = {}, n_Parents = {}, n_Type = ty, n_Name = name,
                       n_ChildData = '''', n_ParentData = '''', n_ID = i\<rparr>;
                  nCache = \<lparr>c_AllParents = {}, c_AllChildren = {}, c_ID = i\<rparr>
              in bind_st (ctx_st ''failed to save node'' (st_SaveNode st s1 n)) (\<lambda>s2 _.
                 bind_st (st_SaveCache st s2 nCache) (\<lambda>s3 _. (s3, Inr n)))))"

text \<open>
  The method changes both nodes in place before it saves them, so they are part of the result, also
  when saving fails.
\<close>

definition SetDependency ::
  "'s storage option \<Rightarrow> 's \<Rightarrow> node option \<Rightarrow> node option
    \<Rightarrow> ('s \<times> node option \<times> node option) \<times> unit res" where
  "SetDependency storage s n neighbor =
     (case (n, neighbor) of
        (None, _) \<Rightarrow> ((s, n, neighbor), Inl (Err ''cannot add dependency to nil node''))
      | (_, None) \<Rightarrow> ((s, n, neighbor), Inl (Err ''cannot add dependency to nil node''))
      | (Some a, Some b) \<Rightarrow>
          if n_ID a = n_ID b then ((s, n, neighbor), Inl ErrSelfDependency)
          else
            (case storage of
               None \<Rightarrow> ((s, n, neighbor), Inl (Err ''storages cannot be nil''))
             | Some st \<Rightarrow>
                 let a' = a\<lparr>n_Children := insert (n_ID b) (n_Children a)\<rparr>;
                     b' = b\<lparr>n_Parents := insert (n_ID a) (n_Parents b)\<rparr>;
                     r = bind_st (ctx_st ''failed to save node'' (st_SaveNode st s a')) (\<lambda>s1 _.
                         ctx_st ''failed to save neighbor node'' (st_SaveNode st s1 b'))
                 in ((fst r, Some a', Some b'), snd r)))"

section \<open>Walking the graph\<close>

definition step_nodes :: "direction \<Rightarrow> node \<Rightarrow> bitmap res" where
  "step_nodes dir cur =
     (if dir = ChildrenDirection then Inr (n_Children cur)
      else if dir = ParentsDirection then Inr (n_Parents cur)
      else Inl (Err ''invalid direction during query''))"

text \<open>
  The loop of \<open>queryBitmap\<close>: the queue, the visited identifiers and the result so far. It ends for any
  storage: a turn either shortens the queue or visits a new identifier, and there are \<open>2 ^ 32\<close>.
\<close>

function queryBitmap_loop ::
  "'s storage \<Rightarrow> 's \<Rightarrow> direction \<Rightarrow> node list \<Rightarrow> id set \<Rightarrow> bitmap \<Rightarrow> bitmap res" where
  "queryBitmap_loop st s dir [] visited result = Inr result"
| "queryBitmap_loop st s dir (cur # queue) visited result =
     (if n_ID cur \<in> visited then queryBitmap_loop st s dir queue visited result
      else
        (case step_nodes dir cur of
           Inl e \<Rightarrow> Inl e
         | Inr bitmap \<Rightarrow>
             (case map_res (\<lambda>i. ctx ''failed to get node'' (st_GetNode st s i)) (to_array bitmap) of
                Inl e \<Rightarrow> Inl e
              | Inr ns \<Rightarrow>
                  queryBitmap_loop st s dir (queue @ ns) (insert (n_ID cur) visited)
                    (result \<union> bitmap))))"
  by pat_completeness auto
termination
proof (relation "inv_image (less_than <*lex*> less_than)
    (\<lambda>(st, s, dir, queue, visited, result). (card (- visited), length queue))", goal_cases)
  case 1
  show ?case by (simp add: wf_lex_prod)
next
  case (2 st s dir cur queue visited result)
  then show ?case by simp
next
  case (3 st s dir cur queue visited result bitmap ns)
  have "- insert (n_ID cur) visited \<subset> - visited" using 3(1) by auto
  then have "card (- insert (n_ID cur) visited) < card (- visited)"
    by (simp add: psubset_card_mono)
  then show ?case by simp
qed

definition queryBitmap ::
  "'s storage option \<Rightarrow> 's \<Rightarrow> node option \<Rightarrow> direction \<Rightarrow> bitmap res" where
  "queryBitmap storage s n dir =
     (case n of
        None \<Rightarrow> Inl (Err ''cannot query bitmap of nil node'')
      | Some m \<Rightarrow>
          (case storage of
             None \<Rightarrow> Inl (Err ''storages cannot be nil'')
           | Some st \<Rightarrow>
               bind_res (queryBitmap_loop st s dir [m] {} {}) (\<lambda>result.
                 Inr (insert (n_ID m) result))))"

definition QueryDependentsNoCache :: "'s storage option \<Rightarrow> 's \<Rightarrow> node option \<Rightarrow> bitmap res" where
  "QueryDependentsNoCache storage s n = queryBitmap storage s n ParentsDirection"

definition QueryDependenciesNoCache :: "'s storage option \<Rightarrow> 's \<Rightarrow> node option \<Rightarrow> bitmap res" where
  "QueryDependenciesNoCache storage s n = queryBitmap storage s n ChildrenDirection"

section \<open>Reading the cache\<close>

text \<open>\<open>caches[id]\<close> of a missing key is a nil pointer, and so is a nil entry.\<close>

fun BatchQueryDependents_loop ::
  "'s storage option \<Rightarrow> 's \<Rightarrow> (id \<rightharpoonup> node_cache) \<Rightarrow> bool \<Rightarrow> node option list \<Rightarrow> (id \<rightharpoonup> bitmap)
    \<Rightarrow> (id \<rightharpoonup> bitmap) res" where
  "BatchQueryDependents_loop storage s caches isCached [] result = Inr result"
| "BatchQueryDependents_loop storage s caches isCached (node # nodes) result =
     (if \<not> isCached then
        (case QueryDependentsNoCache storage s node of
           Inl e \<Rightarrow> Inl e
         | Inr ans \<Rightarrow>
             (case node of
                None \<Rightarrow> Inl (Panic ''nil pointer dereference'')
              | Some m \<Rightarrow>
                  BatchQueryDependents_loop storage s caches isCached nodes
                    (result(n_ID m \<mapsto> ans))))
      else
        (case node of
           None \<Rightarrow> Inl (Err ''node is nil'')
         | Some m \<Rightarrow>
             (case caches (n_ID m) of
                None \<Rightarrow> Inl (Err ''cache for node is nil or does not exist'')
              | Some c \<Rightarrow>
                  BatchQueryDependents_loop storage s caches isCached nodes
                    (result(n_ID m \<mapsto> c_AllParents c)))))"

definition BatchQueryDependents ::
  "'s storage option \<Rightarrow> 's \<Rightarrow> node option list \<Rightarrow> (id \<rightharpoonup> node_cache) \<Rightarrow> bool
    \<Rightarrow> (id \<rightharpoonup> bitmap) res" where
  "BatchQueryDependents storage s nodes caches isCached =
     BatchQueryDependents_loop storage s caches isCached nodes Map.empty"

fun BatchQueryDependencies_loop ::
  "'s storage option \<Rightarrow> 's \<Rightarrow> (id \<rightharpoonup> node_cache) \<Rightarrow> bool \<Rightarrow> node option list \<Rightarrow> (id \<rightharpoonup> bitmap)
    \<Rightarrow> (id \<rightharpoonup> bitmap) res" where
  "BatchQueryDependencies_loop storage s caches isCached [] result = Inr result"
| "BatchQueryDependencies_loop storage s caches isCached (node # nodes) result =
     (case node of
        None \<Rightarrow> Inl (Err ''node is nil'')
      | Some m \<Rightarrow>
          if \<not> isCached then
            (case QueryDependenciesNoCache storage s node of
               Inl e \<Rightarrow> Inl e
             | Inr ans \<Rightarrow>
                 BatchQueryDependencies_loop storage s caches isCached nodes
                   (result(n_ID m \<mapsto> ans)))
          else
            (case caches (n_ID m) of
               None \<Rightarrow> Inl (Panic ''nil pointer dereference'')
             | Some c \<Rightarrow>
                 BatchQueryDependencies_loop storage s caches isCached nodes
                   (result(n_ID m \<mapsto> c_AllChildren c))))"

definition BatchQueryDependencies ::
  "'s storage option \<Rightarrow> 's \<Rightarrow> node option list \<Rightarrow> (id \<rightharpoonup> node_cache) \<Rightarrow> bool
    \<Rightarrow> (id \<rightharpoonup> bitmap) res" where
  "BatchQueryDependencies storage s nodes caches isCached =
     BatchQueryDependencies_loop storage s caches isCached nodes Map.empty"

definition QueryDependents :: "'s storage \<Rightarrow> 's \<Rightarrow> node \<Rightarrow> bitmap res" where
  "QueryDependents st s n =
     bind_res (st_ToBeCached st s) (\<lambda>uncachedNodes.
       if 0 < length uncachedNodes then QueryDependentsNoCache (Some st) s (Some n)
       else bind_res (st_GetCache st s (n_ID n)) (\<lambda>nCache.
         (case nCache of
            None \<Rightarrow> Inl (Panic ''nil pointer dereference'')
          | Some c \<Rightarrow> Inr (c_AllParents c))))"

definition QueryDependencies :: "'s storage \<Rightarrow> 's \<Rightarrow> node \<Rightarrow> bitmap res" where
  "QueryDependencies st s n =
     bind_res (st_ToBeCached st s) (\<lambda>uncachedNodes.
       if 0 < length uncachedNodes then QueryDependenciesNoCache (Some st) s (Some n)
       else bind_res (st_GetCache st s (n_ID n)) (\<lambda>nCache.
         (case nCache of
            None \<Rightarrow> Inl (Panic ''nil pointer dereference'')
          | Some c \<Rightarrow> Inr (c_AllChildren c))))"

section \<open>The graph a storage holds\<close>

text \<open>
  The abstraction of a back end: the nodes by identifier, the identifiers by name, the cache entries,
  the identifiers waiting to be cached, the number of identifiers handed out, and the custom data.
\<close>

record gstate =
  g_nodes :: "id \<rightharpoonup> node"
  g_names :: "string \<rightharpoonup> id"
  g_caches :: "id \<rightharpoonup> node_cache"
  g_pending :: "id set"
  g_next :: nat
  g_custom :: "string \<times> string \<Rightarrow> (string \<rightharpoonup> string)"

text \<open>The neighbours of a node in a direction, and the edge relation of the stored graph.\<close>

definition nbrs :: "direction \<Rightarrow> node \<Rightarrow> bitmap" where
  "nbrs dir n = (if dir = ChildrenDirection then n_Children n else n_Parents n)"

definition edges :: "(id \<rightharpoonup> node) \<Rightarrow> direction \<Rightarrow> (id \<times> id) set" where
  "edges nodes dir = {(a, b). \<exists>n. nodes a = Some n \<and> b \<in> nbrs dir n}"

definition reach :: "(id \<rightharpoonup> node) \<Rightarrow> direction \<Rightarrow> id \<Rightarrow> id set" where
  "reach nodes dir i = (edges nodes dir)\<^sup>* `` {i}"

text \<open>
  What the operations maintain: identifiers and names agree with the nodes stored under them, edges
  are recorded at both ends, no edge leaves the graph, no node depends on itself, and the identifiers
  in use are \<open>1\<close> to \<open>g_next\<close>.
\<close>

definition names_ok :: "gstate \<Rightarrow> bool" where
  "names_ok g \<longleftrightarrow>
     (\<forall>i n. g_nodes g i = Some n \<longrightarrow> n_ID n = i \<and> g_names g (n_Name n) = Some i)
     \<and> (\<forall>x i. g_names g x = Some i \<longrightarrow> (\<exists>n. g_nodes g i = Some n \<and> n_Name n = x))"

definition edges_ok :: "(id \<rightharpoonup> node) \<Rightarrow> bool" where
  "edges_ok nodes \<longleftrightarrow>
     (\<forall>a n b. nodes a = Some n \<longrightarrow> b \<in> n_Children n \<longrightarrow> a \<noteq> b \<and> (\<exists>m. nodes b = Some m \<and> a \<in> n_Parents m))
     \<and> (\<forall>b m a. nodes b = Some m \<longrightarrow> a \<in> n_Parents m \<longrightarrow> (\<exists>n. nodes a = Some n \<and> b \<in> n_Children n))"

definition ids_ok :: "gstate \<Rightarrow> bool" where
  "ids_ok g \<longleftrightarrow> g_next g < 4294967296 \<and> dom (g_nodes g) = of_nat ` {1..g_next g}"

definition graph_ok :: "gstate \<Rightarrow> bool" where
  "graph_ok g \<longleftrightarrow> names_ok g \<and> edges_ok (g_nodes g) \<and> ids_ok g"

lemma step_nodes_ok [simp]:
  "step_nodes ChildrenDirection n = Inr (nbrs ChildrenDirection n)"
  "step_nodes ParentsDirection n = Inr (nbrs ParentsDirection n)"
  by (simp_all add: step_nodes_def nbrs_def)

lemma edges_iff: "(a, b) \<in> edges nodes dir \<longleftrightarrow> (\<exists>n. nodes a = Some n \<and> b \<in> nbrs dir n)"
  by (simp add: edges_def)

lemma edges_children: "(a, b) \<in> edges nodes ChildrenDirection \<longleftrightarrow> (\<exists>n. nodes a = Some n \<and> b \<in> n_Children n)"
  by (simp add: edges_def nbrs_def)

lemma edges_parents: "(a, b) \<in> edges nodes ParentsDirection \<longleftrightarrow> (\<exists>n. nodes a = Some n \<and> b \<in> n_Parents n)"
  by (simp add: edges_def nbrs_def)

lemma edges_ok_converse:
  "edges_ok nodes \<Longrightarrow> edges nodes ParentsDirection = (edges nodes ChildrenDirection)\<inverse>"
  unfolding edges_ok_def by (auto simp: edges_children edges_parents)

lemma edges_ok_dom:
  "edges_ok nodes \<Longrightarrow> (a, b) \<in> edges nodes ChildrenDirection \<Longrightarrow> a \<in> dom nodes \<and> b \<in> dom nodes"
  unfolding edges_ok_def by (auto simp: edges_children) blast

lemma reach_refl [simp]: "i \<in> reach nodes dir i"
  by (simp add: reach_def)

lemma reach_step: "b \<in> reach nodes dir a \<Longrightarrow> (b, c) \<in> edges nodes dir \<Longrightarrow> c \<in> reach nodes dir a"
  by (auto simp: reach_def)

lemma reach_trans: "b \<in> reach nodes dir a \<Longrightarrow> c \<in> reach nodes dir b \<Longrightarrow> c \<in> reach nodes dir a"
  by (auto simp: reach_def)

lemma reach_converse:
  "edges_ok nodes \<Longrightarrow> b \<in> reach nodes ParentsDirection a \<longleftrightarrow> a \<in> reach nodes ChildrenDirection b"
  by (simp add: reach_def edges_ok_converse rtrancl_converse)

lemma edges_ok_nbrs:
  assumes "edges_ok nodes" and "dir = ChildrenDirection \<or> dir = ParentsDirection"
    and "nodes a = Some n" and "b \<in> nbrs dir n"
  shows "\<exists>m. nodes b = Some m"
  using assms unfolding edges_ok_def nbrs_def by (auto split: if_splits) blast+

text \<open>Adding a fresh node without edges, and adding an edge between two stored nodes.\<close>

lemma graph_ok_fresh:
  assumes "graph_ok g" and "Suc (g_next g) < 4294967296"
  shows "g_nodes g (of_nat (Suc (g_next g))) = None"
proof (rule ccontr)
  assume "g_nodes g (of_nat (Suc (g_next g))) \<noteq> None"
  then have "of_nat (Suc (g_next g)) \<in> dom (g_nodes g)" by blast
  then obtain k where k: "k \<in> {1..g_next g}" "(of_nat (Suc (g_next g)) :: id) = of_nat k"
    using assms(1) unfolding graph_ok_def ids_ok_def by auto
  moreover have "k < 4294967296" using k(1) assms(2) by simp
  ultimately have "Suc (g_next g) = k"
    using of_nat_id_inject [OF assms(2)] by blast
  with k(1) show False by simp
qed

lemma graph_ok_new_node:
  assumes ok: "graph_ok g" and "g_names g (n_Name n) = None" and room: "Suc (g_next g) < 4294967296"
    and i: "i = of_nat (Suc (g_next g))" "n_ID n = i" and empty: "n_Children n = {}" "n_Parents n = {}"
  shows "graph_ok (g\<lparr>g_nodes := (g_nodes g)(i \<mapsto> n), g_names := (g_names g)(n_Name n \<mapsto> i),
    g_caches := c, g_pending := p, g_next := Suc (g_next g)\<rparr>)"
    (is "graph_ok ?g")
proof -
  have fresh: "g_nodes g i = None" using graph_ok_fresh [OF ok room] i by simp
  have "names_ok g" using ok by (simp add: graph_ok_def)
  then have names: "names_ok ?g"
    using assms(2) fresh i(2) unfolding names_ok_def by auto (metis option.simps(3))+
  have "edges_ok (g_nodes g)" using ok by (simp add: graph_ok_def)
  then have edges: "edges_ok (g_nodes ?g)"
    unfolding edges_ok_def using empty fresh by auto (metis option.simps(3))+
  have "{1..Suc (g_next g)} = insert (Suc (g_next g)) {1..g_next g}" by auto
  then have "ids_ok ?g" using ok room i(1) by (simp add: graph_ok_def ids_ok_def)
  with names edges show ?thesis by (simp add: graph_ok_def)
qed

definition link_nodes :: "(id \<rightharpoonup> node) \<Rightarrow> node \<Rightarrow> node \<Rightarrow> (id \<rightharpoonup> node)" where
  "link_nodes nodes x y =
     nodes(n_ID x \<mapsto> x\<lparr>n_Children := insert (n_ID y) (n_Children x)\<rparr>,
           n_ID y \<mapsto> y\<lparr>n_Parents := insert (n_ID x) (n_Parents y)\<rparr>)"

lemma dom_link_nodes: "dom (link_nodes nodes x y) = insert (n_ID y) (insert (n_ID x) (dom nodes))"
  unfolding link_nodes_def by (simp only: dom_fun_upd option.simps if_False)

lemma edges_link_nodes:
  assumes "nodes a = Some x" "nodes b = Some y" "n_ID x = a" "n_ID y = b" "a \<noteq> b"
  shows "edges (link_nodes nodes x y) ChildrenDirection = insert (a, b) (edges nodes ChildrenDirection)"
    and "edges (link_nodes nodes x y) ParentsDirection = insert (b, a) (edges nodes ParentsDirection)"
  using assms by (auto simp: edges_children edges_parents link_nodes_def split: if_splits)

lemma edges_ok_link_nodes:
  assumes "edges_ok nodes" "nodes a = Some x" "nodes b = Some y" "n_ID x = a" "n_ID y = b" "a \<noteq> b"
  shows "edges_ok (link_nodes nodes x y)"
  using assms unfolding edges_ok_def link_nodes_def
  by (auto split: if_splits) (metis option.inject)+

text \<open>Closure under the edges gives everything reachable.\<close>

lemma closed_reach:
  assumes "i \<in> V" and "\<And>a b. a \<in> V \<Longrightarrow> (a, b) \<in> edges nodes dir \<Longrightarrow> b \<in> V"
  shows "reach nodes dir i \<subseteq> V"
proof
  fix j assume "j \<in> reach nodes dir i"
  then have "(i, j) \<in> (edges nodes dir)\<^sup>*" by (simp add: reach_def)
  then show "j \<in> V" by induction (use assms in auto)
qed


text \<open>
  The walk. \<open>nodes\<close> is what the storage answers; the queue holds nodes whose neighbours in the walked
  direction are the stored ones. The result is the image of a closed set that contains the start.
\<close>

definition fresh_copy :: "(id \<rightharpoonup> node) \<Rightarrow> direction \<Rightarrow> node \<Rightarrow> bool" where
  "fresh_copy nodes dir q \<longleftrightarrow> (\<exists>m. nodes (n_ID q) = Some m \<and> nbrs dir m = nbrs dir q)"

lemma fresh_copy_stored: "nodes i = Some n \<Longrightarrow> n_ID n = i \<Longrightarrow> fresh_copy nodes dir n"
  by (auto simp: fresh_copy_def)

lemma fresh_copy_edges: "fresh_copy nodes dir q \<Longrightarrow> edges nodes dir `` {n_ID q} = nbrs dir q"
proof -
  assume "fresh_copy nodes dir q"
  then obtain m where m: "nodes (n_ID q) = Some m" "nbrs dir m = nbrs dir q"
    unfolding fresh_copy_def by blast
  have "edges nodes dir `` {n_ID q} = nbrs dir m" using m(1) by (simp add: edges_def Image_def)
  with m(2) show ?thesis by simp
qed

lemma cover_union:
  "B \<subseteq> C \<Longrightarrow> A = C \<union> D \<Longrightarrow> c \<in> C \<Longrightarrow> V \<subseteq> insert c v \<union> (D \<union> B) \<Longrightarrow> V \<subseteq> v \<union> A"
  by blast

lemma queryBitmap_loop_correct:
  assumes "\<And>i n. nodes i = Some n \<Longrightarrow> st_GetNode st s i = Inr n \<and> n_ID n = i"
    and "\<And>a n b. nodes a = Some n \<Longrightarrow> b \<in> nbrs dir n \<Longrightarrow> \<exists>m. nodes b = Some m"
    and "dir = ChildrenDirection \<or> dir = ParentsDirection"
    and "\<forall>q \<in> set queue. fresh_copy nodes dir q"
    and "result = edges nodes dir `` visited"
    and "edges nodes dir `` visited \<subseteq> visited \<union> n_ID ` set queue"
  shows "\<exists>V. queryBitmap_loop st s dir queue visited result = Inr (edges nodes dir `` V)
    \<and> visited \<union> n_ID ` set queue \<subseteq> V \<and> edges nodes dir `` V \<subseteq> V
    \<and> V \<subseteq> visited \<union> (edges nodes dir)\<^sup>* `` (n_ID ` set queue)"
  using assms
proof (induction st s dir queue visited result rule: queryBitmap_loop.induct)
  case (1 st s dir visited result)
  then show ?case by auto
next
  case (2 st s dir cur queue visited result)
  let ?E = "edges nodes dir"
  show ?case
  proof (cases "n_ID cur \<in> visited")
    case True
    have "\<exists>V. queryBitmap_loop st s dir queue visited result = Inr (?E `` V)
      \<and> visited \<union> n_ID ` set queue \<subseteq> V \<and> ?E `` V \<subseteq> V
      \<and> V \<subseteq> visited \<union> ?E\<^sup>* `` (n_ID ` set queue)"
      using True "2.prems" by (intro "2.IH"(1)) auto
    then obtain V where V: "queryBitmap_loop st s dir queue visited result = Inr (?E `` V)"
      "visited \<union> n_ID ` set queue \<subseteq> V" "?E `` V \<subseteq> V"
      "V \<subseteq> visited \<union> ?E\<^sup>* `` (n_ID ` set queue)" by blast
    have "V \<subseteq> visited \<union> ?E\<^sup>* `` (n_ID ` set (cur # queue))"
      using V(4) Image_mono [OF order_refl, of "n_ID ` set queue" "n_ID ` set (cur # queue)" "?E\<^sup>*"]
      by (meson image_mono order_trans set_subset_Cons sup_mono order_refl)
    then show ?thesis by (intro exI [of _ V]) (use V True in auto)
  next
    case False
    let ?b = "nbrs dir cur" and ?V = "insert (n_ID cur) visited"
    let ?ns = "map (\<lambda>i. the (nodes i)) (to_array ?b)"
    have fc: "fresh_copy nodes dir cur" using "2.prems"(4) by simp
    have Ecur: "?E `` {n_ID cur} = ?b" using fresh_copy_edges [OF fc] .
    have stored: "\<exists>m. nodes i = Some m \<and> n_ID m = i \<and> st_GetNode st s i = Inr m" if "i \<in> ?b" for i
      using fc that "2.prems"(1,2) unfolding fresh_copy_def by metis
    have step: "step_nodes dir cur = Inr ?b" using "2.prems"(3) by auto
    have get: "map_res (\<lambda>i. ctx ''failed to get node'' (st_GetNode st s i)) (to_array ?b) = Inr ?ns"
      using stored by (intro map_res_Inr) force
    have ids: "n_ID ` set ?ns = ?b"
      using stored by (force simp: image_iff)
    have fns: "fresh_copy nodes dir n" if "n \<in> set ?ns" for n
      using that stored fresh_copy_stored by fastforce
    have "\<exists>V. queryBitmap_loop st s dir (queue @ ?ns) ?V (result \<union> ?b) = Inr (?E `` V)
      \<and> ?V \<union> n_ID ` set (queue @ ?ns) \<subseteq> V \<and> ?E `` V \<subseteq> V
      \<and> V \<subseteq> ?V \<union> ?E\<^sup>* `` (n_ID ` set (queue @ ?ns))"
    proof (rule "2.IH"(2) [OF False step get "2.prems"(1-3)])
      show "\<forall>q \<in> set (queue @ ?ns). fresh_copy nodes dir q" using "2.prems"(4) fns by auto
      show "result \<union> ?b = ?E `` ?V" using "2.prems"(5) Ecur by auto
      show "?E `` ?V \<subseteq> ?V \<union> n_ID ` set (queue @ ?ns)"
        unfolding set_append image_Un ids using "2.prems"(6) Ecur by auto
    qed
    then obtain V where V: "queryBitmap_loop st s dir (queue @ ?ns) ?V (result \<union> ?b) = Inr (?E `` V)"
      "?V \<union> n_ID ` set (queue @ ?ns) \<subseteq> V" "?E `` V \<subseteq> V"
      "V \<subseteq> ?V \<union> ?E\<^sup>* `` (n_ID ` set (queue @ ?ns))" by blast
    have "?E\<^sup>* `` ?b \<subseteq> ?E\<^sup>* `` {n_ID cur}"
      unfolding Ecur [symmetric] by (auto intro: converse_rtrancl_into_rtrancl)
    moreover have "?E\<^sup>* `` (n_ID ` set (cur # queue)) = ?E\<^sup>* `` {n_ID cur} \<union> ?E\<^sup>* `` (n_ID ` set queue)"
      by auto
    moreover have "n_ID cur \<in> ?E\<^sup>* `` {n_ID cur}" by auto
    moreover have "V \<subseteq> insert (n_ID cur) visited \<union> (?E\<^sup>* `` (n_ID ` set queue) \<union> ?E\<^sup>* `` ?b)"
      using V(4) unfolding set_append image_Un ids Image_Un .
    ultimately have "V \<subseteq> visited \<union> ?E\<^sup>* `` (n_ID ` set (cur # queue))"
      by (rule cover_union)
    then show ?thesis by (intro exI [of _ V]) (use V step get False in auto)
  qed
qed

lemma queryBitmap_correct:
  assumes get: "\<And>i n. nodes i = Some n \<Longrightarrow> st_GetNode st s i = Inr n \<and> n_ID n = i"
    and closed: "\<And>a n b. nodes a = Some n \<Longrightarrow> b \<in> nbrs dir n \<Longrightarrow> \<exists>m. nodes b = Some m"
    and dir: "dir = ChildrenDirection \<or> dir = ParentsDirection"
    and n: "fresh_copy nodes dir n"
  shows "queryBitmap (Some st) s (Some n) dir = Inr (reach nodes dir (n_ID n))"
proof -
  let ?E = "edges nodes dir"
  have "\<exists>V. queryBitmap_loop st s dir [n] {} {} = Inr (?E `` V)
    \<and> {} \<union> n_ID ` set [n] \<subseteq> V \<and> ?E `` V \<subseteq> V \<and> V \<subseteq> {} \<union> ?E\<^sup>* `` (n_ID ` set [n])"
    by (rule queryBitmap_loop_correct [OF get closed dir]) (use n in auto)
  then obtain V where V: "queryBitmap_loop st s dir [n] {} {} = Inr (?E `` V)"
    "n_ID n \<in> V" "?E `` V \<subseteq> V" "V \<subseteq> ?E\<^sup>* `` {n_ID n}" by auto
  have "reach nodes dir (n_ID n) \<subseteq> V" using V(2,3) by (intro closed_reach) auto
  with V(4) have VR: "V = reach nodes dir (n_ID n)" by (auto simp: reach_def)
  have "insert (n_ID n) (?E `` V) = V"
    using V(2,3) unfolding VR reach_def by (auto elim: rtranclE)
  then show ?thesis by (simp add: queryBitmap_def V(1) VR del: queryBitmap_loop.simps)
qed

end
