(* ===== verification/Bind_Map.thy ===== *)
theory Bind_Map
  imports Convert
begin

text \<open>
  \<open>pkg/graph/bindMap.go\<close>: a map from keys to bitmaps in which several keys can be bound to one value.
  The keys of a group are mapped to a common hash key. SHA-256 is the argument \<open>sha\<close> of the model: a
  function from bytes to bytes.
\<close>

section \<open>Hash keys\<close>

text \<open>\<open>fmt.Sprint\<close> of a byte array, and the format \<open>%x\<close>.\<close>

fun join_with :: "string \<Rightarrow> string list \<Rightarrow> string" where
  "join_with sep [] = []"
| "join_with sep [x] = x"
| "join_with sep (x # y # ys) = x @ sep @ join_with sep (y # ys)"

definition Sprint_bytes :: "string \<Rightarrow> string" where
  "Sprint_bytes bs = ''['' @ join_with '' '' (map (\<lambda>c. FormatUint (byte_of c)) bs) @ '']''"

definition hex_digit :: "nat \<Rightarrow> char" where
  "hex_digit d = (if d < 10 then digit_char d else char_of (87 + d))"

definition hex_string :: "string \<Rightarrow> string" where
  "hex_string bs = concat (map (\<lambda>c. [hex_digit (byte_of c div 16), hex_digit (byte_of c mod 16)]) bs)"

definition bind_hash :: "(string \<Rightarrow> string) \<Rightarrow> string list \<Rightarrow> string" where
  "bind_hash sha keys =
     (let keyString = concat (map (\<lambda>k. Sprint_bytes (sha k)) keys)
      in ''shared:'' @ hex_string (sha keyString))"

section \<open>The map\<close>

text \<open>
  \<open>keyMap\<close> is an association list, because \<open>GetAllKeysAndValues\<close> ranges over it; \<open>DataStore\<close> is a
  wrapper around one map.
\<close>

record key_mgmt =
  k_keyMap :: "(string \<times> string) list"
  k_data :: "string \<rightharpoonup> bitmap"

definition NewNativeKeyManagement :: key_mgmt where
  "NewNativeKeyManagement = \<lparr>k_keyMap = [], k_data = Map.empty\<rparr>"

definition BindKeys :: "(string \<Rightarrow> string) \<Rightarrow> key_mgmt \<Rightarrow> string list \<Rightarrow> key_mgmt \<times> string" where
  "BindKeys sha nkm keys =
     (let hashKey = bind_hash sha keys
      in (nkm\<lparr>k_keyMap := fold (\<lambda>k. AList.update k hashKey) keys (k_keyMap nkm)\<rparr>, hashKey))"

definition nkm_Set :: "key_mgmt \<Rightarrow> string \<Rightarrow> bitmap \<Rightarrow> key_mgmt" where
  "nkm_Set nkm key v =
     (case map_of (k_keyMap nkm) key of
        Some hashKey \<Rightarrow> nkm\<lparr>k_data := (k_data nkm)(hashKey \<mapsto> v)\<rparr>
      | None \<Rightarrow> nkm\<lparr>k_data := (k_data nkm)(key \<mapsto> v)\<rparr>)"

text \<open>A bound key without a value reads as the empty bitmap.\<close>

definition nkm_Get :: "key_mgmt \<Rightarrow> string \<Rightarrow> bitmap res" where
  "nkm_Get nkm key =
     (case map_of (k_keyMap nkm) key of
        Some hashKey \<Rightarrow> Inr (case k_data nkm hashKey of None \<Rightarrow> {} | Some v \<Rightarrow> v)
      | None \<Rightarrow>
          (case k_data nkm key of
             None \<Rightarrow> Inl (Err ''key not found'')
           | Some v \<Rightarrow> Inr v))"

definition map_res_cons :: "'a \<Rightarrow> 'a list res \<Rightarrow> 'a list res" where
  "map_res_cons x r = bind_res r (\<lambda>xs. Inr (x # xs))"

fun keys_and_values :: "key_mgmt \<Rightarrow> (string \<times> string) list \<Rightarrow> (string \<times> bitmap) list res" where
  "keys_and_values nkm [] = Inr []"
| "keys_and_values nkm ((key, hashKey) # rest) =
     (case k_data nkm hashKey of
        Some v \<Rightarrow> map_res_cons (key, v) (keys_and_values nkm rest)
      | None \<Rightarrow>
          (case k_data nkm key of
             None \<Rightarrow> Inl (Err ''value not found for key'')
           | Some v \<Rightarrow> map_res_cons (key, v) (keys_and_values nkm rest)))"

definition GetAllKeysAndValues :: "range_order \<Rightarrow> nat \<Rightarrow> key_mgmt \<Rightarrow> (string list \<times> bitmap list) res" where
  "GetAllKeysAndValues ro k nkm =
     bind_res (keys_and_values nkm (go_range ro k (k_keyMap nkm))) (\<lambda>kvs.
       Inr (map fst kvs, map snd kvs))"

section \<open>Binding and reading\<close>

lemma fold_update_same:
  "map_of (fold (\<lambda>k. AList.update k h) keys m) = (\<lambda>x. if x \<in> set keys then Some h else map_of m x)"
  by (induction keys arbitrary: m) (auto simp: fun_eq_iff)

lemma fold_update_same_distinct:
  "distinct (keys_of m) \<Longrightarrow> distinct (keys_of (fold (\<lambda>k. AList.update k h) keys m))"
  by (induction keys arbitrary: m) auto

lemma fold_update_same_keys:
  "set (keys_of (fold (\<lambda>k. AList.update k h) keys m)) = set (keys_of m) \<union> set keys"
  unfolding dom_map_of_keys [symmetric] fold_update_same by (auto split: if_splits)

lemma nkm_Get_Set_same: "nkm_Get (nkm_Set nkm k v) k = Inr v"
  by (auto simp: nkm_Get_def nkm_Set_def split: option.splits)

lemma nkm_Set_keyMap [simp]: "k_keyMap (nkm_Set nkm k v) = k_keyMap nkm"
  by (simp add: nkm_Set_def split: option.splits)

lemma keys_and_values_bound:
  assumes "\<And>k h. (k, h) \<in> set m \<Longrightarrow> \<exists>v. k_data nkm h = Some v"
  shows "keys_and_values nkm m = Inr (map (\<lambda>(k, h). (k, the (k_data nkm h))) m)"
  using assms by (induction m) (fastforce simp: map_res_cons_def)+

end
