(* ===== verification/Cache.thy ===== *)
theory Cache
  imports Tarjan Bind_Map
begin

text \<open>
  \<open>pkg/graph/cache.go\<close>: the closure of every node is computed once and saved. The strongly connected
  components share one value; a walk with an explicit stack merges the closures of what a component
  depends on, and pushes what depends on a component once it is done.
\<close>

section \<open>Groups\<close>

record bind_maps =
  b_cache :: key_mgmt
  b_children :: key_mgmt
  b_parents :: key_mgmt

text \<open>\<open>parentToKeys[v] = append(parentToKeys[v], utils.Uint32ToStr(k))\<close>\<close>

fun group_keys :: "(id \<times> id) list \<Rightarrow> (id \<times> string list) list \<Rightarrow> (id \<times> string list) list" where
  "group_keys [] acc = acc"
| "group_keys ((k, v) # rest) acc =
     group_keys rest
       (AList.update v ((case map_of acc v of None \<Rightarrow> [] | Some ks \<Rightarrow> ks) @ [Uint32ToStr k]) acc)"

text \<open>The loop over the keys of a group: children, parents and members.\<close>

fun group_bitmaps :: "(id \<rightharpoonup> node) \<Rightarrow> string list \<Rightarrow> bitmap \<times> bitmap \<times> bitmap
    \<Rightarrow> (bitmap \<times> bitmap \<times> bitmap) res" where
  "group_bitmaps nodes [] acc = Inr acc"
| "group_bitmaps nodes (key # keys) (childrenCache, parentCache, keycache) =
     (case StrToUint32 key of
        Inl e \<Rightarrow> Inl e
      | Inr intkey \<Rightarrow>
          (case nodes intkey of
             None \<Rightarrow> Inl (Panic ''nil pointer dereference'')
           | Some node \<Rightarrow>
               group_bitmaps nodes keys
                 (childrenCache \<union> n_Children node, parentCache \<union> n_Parents node,
                  insert (n_ID node) (insert intkey keycache))))"

definition bind_group ::
  "(string \<Rightarrow> string) \<Rightarrow> (id \<rightharpoonup> node) \<Rightarrow> string list \<Rightarrow> bind_maps \<Rightarrow> bind_maps res" where
  "bind_group sha nodes keys bm =
     (let cache = fst (BindKeys sha (b_cache bm) keys);
          children = fst (BindKeys sha (b_children bm) keys);
          parents = fst (BindKeys sha (b_parents bm) keys)
      in bind_res (group_bitmaps nodes keys ({}, {}, {})) (\<lambda>(childrenCache, parentCache, keycache).
           if 0 < length keys then
             Inr \<lparr>b_cache = nkm_Set cache (hd keys) keycache,
                  b_children = nkm_Set children (hd keys) (childrenCache - keycache),
                  b_parents = nkm_Set parents (hd keys) (parentCache - keycache)\<rparr>
           else Inr \<lparr>b_cache = cache, b_children = children, b_parents = parents\<rparr>))"

fun bind_groups ::
  "(string \<Rightarrow> string) \<Rightarrow> (id \<rightharpoonup> node) \<Rightarrow> (id \<times> string list) list \<Rightarrow> bind_maps \<Rightarrow> bind_maps res" where
  "bind_groups sha nodes [] bm = Inr bm"
| "bind_groups sha nodes ((v, keys) # groups) bm =
     bind_res (bind_group sha nodes keys bm) (bind_groups sha nodes groups)"

text \<open>The two range statements of a run are numbered from \<open>k\<close>.\<close>

definition addCyclesToBindMap ::
  "range_order \<Rightarrow> nat \<Rightarrow> (string \<Rightarrow> string) \<Rightarrow> (id \<times> id) list \<Rightarrow> bind_maps \<Rightarrow> (id \<rightharpoonup> node) \<Rightarrow> bind_maps res" where
  "addCyclesToBindMap ro k sha scc bm nodes =
     bind_groups sha nodes (go_range ro (k + 1) (group_keys (go_range ro k scc) [])) bm"

section \<open>The walk\<close>

definition getTodoAndFutureNodes ::
  "key_mgmt \<Rightarrow> key_mgmt \<Rightarrow> node \<Rightarrow> direction \<Rightarrow> (id list \<times> id list) res" where
  "getTodoAndFutureNodes children parents cur dir =
     (let nodeIDStr = Uint32ToStr (n_ID cur)
      in if dir = ChildrenDirection then
           bind_res (nkm_Get children nodeIDStr) (\<lambda>todo.
           bind_res (nkm_Get parents nodeIDStr) (\<lambda>future. Inr (to_array todo, to_array future)))
         else
           bind_res (nkm_Get parents nodeIDStr) (\<lambda>todo.
           bind_res (nkm_Get children nodeIDStr) (\<lambda>future. Inr (to_array todo, to_array future))))"

definition getTodoAndFutureNodesCached ::
  "key_mgmt \<Rightarrow> key_mgmt \<Rightarrow> node \<Rightarrow> direction \<Rightarrow> (id \<rightharpoonup> id list \<times> id list)
    \<Rightarrow> ((id \<rightharpoonup> id list \<times> id list) \<times> id list \<times> id list) res" where
  "getTodoAndFutureNodesCached children parents cur dir memo =
     (case memo (n_ID cur) of
        Some pair \<Rightarrow> Inr (memo, fst pair, snd pair)
      | None \<Rightarrow>
          bind_res (getTodoAndFutureNodes children parents cur dir) (\<lambda>(todo, future).
            Inr (memo(n_ID cur \<mapsto> (todo, future)), todo, future)))"

definition addToCache :: "key_mgmt \<Rightarrow> id \<Rightarrow> id \<Rightarrow> key_mgmt res" where
  "addToCache bm curElem todoElem =
     bind_res (ctx ''error getting value for curElem key'' (nkm_Get bm (Uint32ToStr curElem))) (\<lambda>curElemVal.
     bind_res (ctx ''error getting value for todoElem key'' (nkm_Get bm (Uint32ToStr todoElem))) (\<lambda>todoVal.
     Inr (nkm_Set bm (Uint32ToStr curElem) (insert curElem (curElemVal \<union> todoVal)))))"

text \<open>
  What the loop of \<open>buildCache\<close> changes: the stack (its head is the last element of the slice), the
  nodes that are done, the closures, and the memo of \<open>getTodoAndFutureNodesCached\<close>.
\<close>

record walk_state =
  w_stack :: "(id \<times> nat) list"
  w_done :: bitmap
  w_cache :: key_mgmt
  w_memo :: "id \<rightharpoonup> id list \<times> id list"

record walk_env =
  e_children :: key_mgmt
  e_parents :: key_mgmt
  e_dir :: direction
  e_scc :: "id \<rightharpoonup> id"
  e_nodes :: "id \<rightharpoonup> node"

definition walk_step :: "walk_env \<Rightarrow> walk_state \<Rightarrow> walk_state res" where
  "walk_step env w =
     (case w_stack w of
        [] \<Rightarrow> Inr w
      | (i, todoIndex) # rest \<Rightarrow>
          (case e_nodes env i of
             None \<Rightarrow> Inl (Panic ''nil pointer dereference'')
           | Some cur \<Rightarrow>
               if n_ID cur \<in> w_done w then Inr (w\<lparr>w_stack := rest\<rparr>)
               else
                 (case getTodoAndFutureNodesCached (e_children env) (e_parents env) cur (e_dir env) (w_memo w) of
                    Inl e \<Rightarrow> Inl e
                  | Inr (memo, todo, future) \<Rightarrow>
                      if todoIndex = length todo then
                        Inr (w\<lparr>w_done := insert (n_ID cur) (w_done w), w_memo := memo,
                               w_stack := fold (\<lambda>f s. (f, 0) # s) future rest\<rparr>)
                      else if length todo < todoIndex then Inl (Panic ''index out of range'')
                      else
                        (let t = todo ! todoIndex
                         in if map_get (e_scc env) (n_ID cur) \<noteq> map_get (e_scc env) t then
                              let w' = w\<lparr>w_memo := memo, w_stack := (n_ID cur, todoIndex + 1) # rest\<rparr>
                              in if t \<in> w_done w then
                                   (case addToCache (w_cache w) (n_ID cur) t of
                                      Inl e \<Rightarrow> Inl e
                                    | Inr cache \<Rightarrow> Inr (w'\<lparr>w_cache := cache\<rparr>))
                                 else Inr (w'\<lparr>w_stack := (t, 0) # w_stack w'\<rparr>)
                            else Inr (w\<lparr>w_memo := memo\<rparr>)))))"

text \<open>
  The loop runs until the stack is empty. Nothing in its shape makes it end (a child in the same group
  would leave the stack as it is), so it is a partial function: not returning is the value \<open>None\<close>.
\<close>

partial_function (option) walk_loop :: "walk_env \<Rightarrow> walk_state \<Rightarrow> walk_state res option" where
  "walk_loop env w =
     (if w_stack w = [] then Some (Inr w)
      else
        (case walk_step env w of
           Inl e \<Rightarrow> Some (Inl e)
         | Inr w' \<Rightarrow> walk_loop env w'))"

fun walk_all :: "walk_env \<Rightarrow> id list \<Rightarrow> walk_state \<Rightarrow> walk_state res option" where
  "walk_all env [] w = Some (Inr w)"
| "walk_all env (i # ids) w =
     (case walk_loop env (w\<lparr>w_stack := [(i, 0)]\<rparr>) of
        None \<Rightarrow> None
      | Some (Inl e) \<Rightarrow> Some (Inl e)
      | Some (Inr w') \<Rightarrow> walk_all env ids w')"

definition empty_maps :: bind_maps where
  "empty_maps = \<lparr>b_cache = NewNativeKeyManagement, b_children = NewNativeKeyManagement,
     b_parents = NewNativeKeyManagement\<rparr>"

definition buildCache ::
  "range_order \<Rightarrow> nat \<Rightarrow> (string \<Rightarrow> string) \<Rightarrow> id list \<Rightarrow> direction \<Rightarrow> (id \<times> id) list \<Rightarrow> (id \<rightharpoonup> node)
    \<Rightarrow> key_mgmt res option" where
  "buildCache ro k sha uncachedNodes dir scc nodes =
     (case ctx ''error adding cycles to bind map'' (addCyclesToBindMap ro k sha scc empty_maps nodes) of
        Inl e \<Rightarrow> Some (Inl e)
      | Inr bm \<Rightarrow>
          (case walk_all
                  \<lparr>e_children = b_children bm, e_parents = b_parents bm, e_dir = dir,
                   e_scc = map_of scc, e_nodes = nodes\<rparr>
                  (to_array (set uncachedNodes))
                  \<lparr>w_stack = [], w_done = {}, w_cache = b_cache bm, w_memo = Map.empty\<rparr> of
             None \<Rightarrow> None
           | Some (Inl e) \<Rightarrow> Some (Inl e)
           | Some (Inr w) \<Rightarrow> Some (Inr (w_cache w))))"

section \<open>Cache\<close>

text \<open>The loop of \<open>Cache\<close> over the keys and values of the children map.\<close>

fun collect_caches :: "key_mgmt \<Rightarrow> (string \<times> bitmap) list \<Rightarrow> node_cache list res" where
  "collect_caches cachedParents [] = Inr []"
| "collect_caches cachedParents ((childId, childVal) # rest) =
     bind_res (ctx ''error converting child key'' (StrToUint32 childId)) (\<lambda>childIntId.
     bind_res (ctx ''error getting value for key'' (nkm_Get cachedParents (Uint32ToStr childIntId)))
       (\<lambda>tempValue.
     bind_res (collect_caches cachedParents rest) (\<lambda>caches.
     Inr (NewNodeCache childIntId (insert childIntId tempValue) (insert childIntId childVal) # caches))))"

definition Cache :: "range_order \<Rightarrow> (string \<Rightarrow> string) \<Rightarrow> 's storage \<Rightarrow> 's \<Rightarrow> ('s \<times> unit res) option" where
  "Cache ro sha st s =
     (case ctx ''error getting uncached nodes'' (st_ToBeCached st s) of
        Inl e \<Rightarrow> Some (s, Inl e)
      | Inr uncachedNodes \<Rightarrow>
          if length uncachedNodes = 0 then Some (s, Inr ())
          else
            (case ctx ''error getting keys'' (st_GetAllKeys st s) of
               Inl e \<Rightarrow> Some (s, Inl e)
             | Inr ks \<Rightarrow>
                 (case ctx ''error getting all nodes'' (st_GetNodes st s ks) of
                    Inl e \<Rightarrow> Some (s, Inl e)
                  | Inr al \<Rightarrow>
                      (case findCycles (length ks) (map_of al) of
                         Inl e \<Rightarrow> Some (s, Inl e)
                       | Inr scc \<Rightarrow>
                           (case buildCache ro 0 sha uncachedNodes ChildrenDirection scc (map_of al) of
                              None \<Rightarrow> None
                            | Some (Inl e) \<Rightarrow> Some (s, Inl (wrap ''error building cached children'' e))
                            | Some (Inr cachedChildren) \<Rightarrow>
                                (case buildCache ro 2 sha uncachedNodes ParentsDirection scc (map_of al) of
                                   None \<Rightarrow> None
                                 | Some (Inl e) \<Rightarrow> Some (s, Inl (wrap ''error building cached parents'' e))
                                 | Some (Inr cachedParents) \<Rightarrow>
                                     (case bind_res (ctx ''error getting cached child keys and values''
                                             (GetAllKeysAndValues ro 4 cachedChildren)) (\<lambda>(cks, cvs).
                                             collect_caches cachedParents (zip cks cvs)) of
                                        Inl e \<Rightarrow> Some (s, Inl e)
                                      | Inr caches \<Rightarrow>
                                          Some (bind_st (ctx_st ''error saving caches'' (st_SaveCaches st s caches))
                                            (\<lambda>s1 _. st_ClearCacheStack st s1)))))))))"

end
