(* ===== verification/Tarjan_Correct.thy ===== *)
theory Tarjan_Correct
  imports Tarjan
begin

text \<open>
  Correctness of \<open>findCycles\<close>: the invariant of the search, what one call of \<open>tarjanDFS\<close> does to it, and
  the result: on a closed graph the map \<open>lowLink\<close> is defined on every node and equal exactly for the
  nodes of one strongly connected component.
\<close>

section \<open>The invariant\<close>

abbreviation child_rel :: "(id \<rightharpoonup> node) \<Rightarrow> (id \<times> id) set" where
  "child_rel nodes \<equiv> edges nodes ChildrenDirection"

definition same_scc :: "(id \<rightharpoonup> node) \<Rightarrow> id \<Rightarrow> id \<Rightarrow> bool" where
  "same_scc nodes x y \<longleftrightarrow> (x, y) \<in> (child_rel nodes)\<^sup>* \<and> (y, x) \<in> (child_rel nodes)\<^sup>*"

lemma same_scc_refl [simp]: "same_scc nodes x x"
  by (simp add: same_scc_def)

lemma same_scc_sym: "same_scc nodes x y \<Longrightarrow> same_scc nodes y x"
  by (simp add: same_scc_def)

lemma same_scc_trans: "same_scc nodes x y \<Longrightarrow> same_scc nodes y z \<Longrightarrow> same_scc nodes x z"
  unfolding same_scc_def by (meson rtrancl_trans)

text \<open>Discovery numbers and low links as natural numbers; the nodes visited and the ones finished.\<close>

definition Nr :: "tstate \<Rightarrow> id \<Rightarrow> nat" where
  "Nr st x = unat (map_get (t_num st) x)"

definition Lw :: "tstate \<Rightarrow> id \<Rightarrow> nat" where
  "Lw st x = unat (low_of st x)"

definition Vis :: "tstate \<Rightarrow> id set" where
  "Vis st = dom (t_num st)"

definition Fin :: "tstate \<Rightarrow> id set" where
  "Fin st = dom (t_num st) - set (t_stack st)"

text \<open>
  \<open>gs\<close> lists the nodes whose call is active, the innermost first. The stack holds visited nodes in the
  order of their numbers.
\<close>

definition tj_shape :: "(id \<rightharpoonup> node) \<Rightarrow> id list \<Rightarrow> tstate \<Rightarrow> bool" where
  "tj_shape nodes gs st \<longleftrightarrow>
     Vis st \<subseteq> dom nodes \<and> t_cur st = card (Vis st) \<and> set (t_stack st) \<subseteq> Vis st
     \<and> t_inStack st = set (t_stack st) \<and> dom (map_of (t_low st)) = Vis st \<and> distinct (keys_of (t_low st))
     \<and> (\<forall>x \<in> Vis st. 1 \<le> Nr st x \<and> Nr st x \<le> t_cur st) \<and> inj_on (Nr st) (Vis st)
     \<and> sorted_wrt (\<lambda>x y. Nr st y < Nr st x) (t_stack st)
     \<and> set gs \<subseteq> set (t_stack st) \<and> sorted_wrt (\<lambda>x y. Nr st y < Nr st x) gs"

text \<open>
  Edges of nodes that are not active lead to visited nodes, edges of finished nodes to finished nodes;
  an active node reaches everything above it on the stack, and every node of the stack reaches an
  active node below it.
\<close>

definition tj_reach :: "(id \<rightharpoonup> node) \<Rightarrow> id list \<Rightarrow> tstate \<Rightarrow> bool" where
  "tj_reach nodes gs st \<longleftrightarrow>
     (\<forall>x \<in> Vis st - set gs. \<forall>y. (x, y) \<in> child_rel nodes \<longrightarrow> y \<in> Vis st)
     \<and> (\<forall>x \<in> Fin st. \<forall>y. (x, y) \<in> child_rel nodes \<longrightarrow> y \<in> Fin st)
     \<and> (\<forall>x \<in> set gs. \<forall>y \<in> set (t_stack st). Nr st x \<le> Nr st y \<longrightarrow> (x, y) \<in> (child_rel nodes)\<^sup>*)
     \<and> (\<forall>y \<in> set (t_stack st). \<exists>x \<in> set gs. Nr st x \<le> Nr st y \<and> (y, x) \<in> (child_rel nodes)\<^sup>*)"

text \<open>A finished node carries the number of a finished node of its component, one per component.\<close>

definition tj_done :: "(id \<rightharpoonup> node) \<Rightarrow> tstate \<Rightarrow> bool" where
  "tj_done nodes st \<longleftrightarrow>
     (\<forall>x \<in> Fin st. \<exists>r \<in> Fin st. Lw st x = Nr st r \<and> same_scc nodes x r)
     \<and> (\<forall>x \<in> Fin st. \<forall>y \<in> Fin st. same_scc nodes x y \<longrightarrow> Lw st x = Lw st y)"

lemma tj_doneI:
  assumes "\<And>x. x \<in> Fin st \<Longrightarrow> \<exists>r \<in> Fin st. Lw st x = Nr st r \<and> same_scc nodes x r"
    and "\<And>x y. x \<in> Fin st \<Longrightarrow> y \<in> Fin st \<Longrightarrow> same_scc nodes x y \<Longrightarrow> Lw st x = Lw st y"
  shows "tj_done nodes st"
  using assms unfolding tj_done_def by blast

lemma tj_done_root:
  "tj_done nodes st \<Longrightarrow> x \<in> Fin st \<Longrightarrow> \<exists>r. r \<in> Fin st \<and> Lw st x = Nr st r \<and> same_scc nodes x r"
  unfolding tj_done_def by blast

lemma tj_done_same:
  "tj_done nodes st \<Longrightarrow> x \<in> Fin st \<Longrightarrow> y \<in> Fin st \<Longrightarrow> same_scc nodes x y \<Longrightarrow> Lw st x = Lw st y"
  unfolding tj_done_def by blast

lemma tj_done_cong:
  assumes "tj_done nodes st" and F: "Fin st' = Fin st"
    and L: "\<And>x. x \<in> Fin st \<Longrightarrow> Lw st' x = Lw st x" and N: "\<And>x. x \<in> Fin st \<Longrightarrow> Nr st' x = Nr st x"
  shows "tj_done nodes st'"
proof (rule tj_doneI)
  fix x assume "x \<in> Fin st'"
  then have x: "x \<in> Fin st" by (simp add: F)
  from tj_done_root [OF assms(1) x] obtain r where "r \<in> Fin st" "Lw st x = Nr st r" "same_scc nodes x r"
    by blast
  with x show "\<exists>r \<in> Fin st'. Lw st' x = Nr st' r \<and> same_scc nodes x r"
    by (intro bexI [of _ r]) (simp_all add: F L N)
next
  fix x y assume "x \<in> Fin st'" "y \<in> Fin st'" "same_scc nodes x y"
  then show "Lw st' x = Lw st' y"
    using tj_done_same [OF assms(1), of x y] by (simp add: F L)
qed

definition tj_inv :: "(id \<rightharpoonup> node) \<Rightarrow> id list \<Rightarrow> tstate \<Rightarrow> bool" where
  "tj_inv nodes gs st \<longleftrightarrow> tj_shape nodes gs st \<and> tj_reach nodes gs st \<and> tj_done nodes st"

text \<open>
  Inside the loop of \<open>v\<close>: the children not in \<open>ws\<close> are visited, and the low link of \<open>v\<close> is the number of a
  node of the stack that \<open>v\<close> reaches, and at most the number of every node below \<open>v\<close> that an edge
  seen so far, out of \<open>v\<close> or something above it, leads to. \<open>B\<close> is the stack below \<open>v\<close>.
\<close>

definition tj_low :: "(id \<rightharpoonup> node) \<Rightarrow> id \<Rightarrow> id list \<Rightarrow> tstate \<Rightarrow> bool" where
  "tj_low nodes v ws st \<longleftrightarrow>
     Lw st v \<le> Nr st v
     \<and> (\<exists>y \<in> set (t_stack st). Nr st y = Lw st v \<and> (v, y) \<in> (child_rel nodes)\<^sup>*)
     \<and> (\<forall>x \<in> set (t_stack st). \<forall>y \<in> set (t_stack st). Nr st v \<le> Nr st x \<longrightarrow> (x, y) \<in> child_rel nodes \<longrightarrow>
          Nr st y < Nr st v \<longrightarrow> (x \<noteq> v \<or> y \<notin> set ws) \<longrightarrow> Lw st v \<le> Nr st y)"

definition tj_pre :: "(id \<rightharpoonup> node) \<Rightarrow> id list \<Rightarrow> id list \<Rightarrow> id \<Rightarrow> id list \<Rightarrow> tstate \<Rightarrow> bool" where
  "tj_pre nodes gs B v ws st \<longleftrightarrow>
     tj_inv nodes (v # gs) st \<and> (\<exists>A. t_stack st = A @ v # B)
     \<and> (\<forall>w \<in> set ws. (v, w) \<in> child_rel nodes) \<and> (\<forall>w. (v, w) \<in> child_rel nodes \<longrightarrow> w \<in> set ws \<or> w \<in> Vis st)
     \<and> tj_low nodes v ws st"

definition tj_frame :: "id list \<Rightarrow> tstate \<Rightarrow> tstate \<Rightarrow> bool" where
  "tj_frame B st st' \<longleftrightarrow>
     Vis st \<subseteq> Vis st' \<and> (\<forall>x \<in> Vis st. Nr st' x = Nr st x)
     \<and> (\<forall>x \<in> Vis st. x \<notin> set (t_stack st) \<longrightarrow> x \<notin> set (t_stack st'))
     \<and> (\<forall>x \<in> Vis st. x \<in> Fin st \<or> x \<in> set B \<longrightarrow> low_of st' x = low_of st x)"

definition tj_post :: "(id \<rightharpoonup> node) \<Rightarrow> id list \<Rightarrow> id list \<Rightarrow> id \<Rightarrow> tstate \<Rightarrow> tstate \<Rightarrow> bool" where
  "tj_post nodes gs B v st st' \<longleftrightarrow>
     tj_inv nodes gs st' \<and> tj_frame B st st'
     \<and> (t_stack st' = B \<and> Lw st' v = Nr st' v
        \<or> (\<exists>T. t_stack st' = T @ v # B) \<and> tj_low nodes v [] st')"

lemma Vis_simps [simp]:
  "Vis (set_low v n st) = Vis st" "Vis (tarjan_enter v st) = insert v (Vis st)"
  "Vis (tarjan_leave v st) = Vis st"
  unfolding Vis_def by (simp_all only: set_low_simps tarjan_enter_dom tarjan_leave_num)

lemma Nr_simps [simp]:
  "Nr (set_low v n st) = Nr st" "Nr (tarjan_leave v st) = Nr st"
  by (simp_all add: Nr_def fun_eq_iff)

lemma Fin_set_low [simp]: "Fin (set_low v n st) = Fin st"
  by (simp add: Fin_def)

lemma Lw_set_low [simp]: "Lw (set_low v n st) x = (if x = v then unat n else Lw st x)"
  by (simp add: Lw_def)

lemma distinct_keys_set_low [simp]:
  "distinct (keys_of (t_low (set_low v n st))) = distinct (keys_of (t_low st))"
  by (simp add: set_low_def)

text \<open>Changing the low link of a node on the stack keeps the invariant.\<close>

lemma tj_inv_set_low:
  assumes "tj_inv nodes gs st" and "v \<in> set (t_stack st)"
  shows "tj_inv nodes gs (set_low v n st)"
proof -
  have "v \<in> Vis st" using assms unfolding tj_inv_def tj_shape_def by auto
  then have "tj_shape nodes gs (set_low v n st)"
    using assms(1) unfolding tj_inv_def tj_shape_def by auto
  moreover have "tj_reach nodes gs (set_low v n st)"
    using assms(1) unfolding tj_inv_def tj_reach_def by simp
  moreover have "v \<notin> Fin st" using assms(2) by (simp add: Fin_def)
  then have "Lw (set_low v n st) x = Lw st x" if "x \<in> Fin st" for x using that by auto
  then have "tj_done nodes (set_low v n st)"
    using assms(1) tj_done_cong [of nodes st "set_low v n st"] unfolding tj_inv_def by simp
  ultimately show ?thesis by (simp add: tj_inv_def)
qed

section \<open>Entering a node\<close>

lemma tj_parts:
  assumes "tj_inv nodes gs st"
  shows "tj_shape nodes gs st" "tj_reach nodes gs st" "tj_done nodes st"
  using assms by (simp_all add: tj_inv_def)

lemma tj_shapeD:
  assumes "tj_shape nodes gs st"
  shows "Vis st \<subseteq> dom nodes" "t_cur st = card (Vis st)" "set (t_stack st) \<subseteq> Vis st"
    "t_inStack st = set (t_stack st)" "inj_on (Nr st) (Vis st)"
    "sorted_wrt (\<lambda>x y. Nr st y < Nr st x) (t_stack st)" "set gs \<subseteq> set (t_stack st)"
    "sorted_wrt (\<lambda>x y. Nr st y < Nr st x) gs"
    "\<And>x. x \<in> Vis st \<Longrightarrow> 1 \<le> Nr st x" "\<And>x. x \<in> Vis st \<Longrightarrow> Nr st x \<le> t_cur st"
    "dom (map_of (t_low st)) = Vis st" "distinct (keys_of (t_low st))"
  using assms unfolding tj_shape_def by blast+

lemma tj_reachD:
  assumes "tj_reach nodes gs st"
  shows "\<And>x y. x \<in> Vis st \<Longrightarrow> x \<notin> set gs \<Longrightarrow> (x, y) \<in> child_rel nodes \<Longrightarrow> y \<in> Vis st"
    "\<And>x y. x \<in> Fin st \<Longrightarrow> (x, y) \<in> child_rel nodes \<Longrightarrow> y \<in> Fin st"
    "\<And>x y. x \<in> set gs \<Longrightarrow> y \<in> set (t_stack st) \<Longrightarrow> Nr st x \<le> Nr st y \<Longrightarrow> (x, y) \<in> (child_rel nodes)\<^sup>*"
    "\<And>y. y \<in> set (t_stack st) \<Longrightarrow> \<exists>x \<in> set gs. Nr st x \<le> Nr st y \<and> (y, x) \<in> (child_rel nodes)\<^sup>*"
  using assms unfolding tj_reach_def by blast+

lemma tj_reachI:
  assumes "\<And>x y. x \<in> Vis st \<Longrightarrow> x \<notin> set gs \<Longrightarrow> (x, y) \<in> child_rel nodes \<Longrightarrow> y \<in> Vis st"
    "\<And>x y. x \<in> Fin st \<Longrightarrow> (x, y) \<in> child_rel nodes \<Longrightarrow> y \<in> Fin st"
    "\<And>x y. x \<in> set gs \<Longrightarrow> y \<in> set (t_stack st) \<Longrightarrow> Nr st x \<le> Nr st y \<Longrightarrow> (x, y) \<in> (child_rel nodes)\<^sup>*"
    "\<And>y. y \<in> set (t_stack st) \<Longrightarrow> \<exists>x \<in> set gs. Nr st x \<le> Nr st y \<and> (y, x) \<in> (child_rel nodes)\<^sup>*"
  shows "tj_reach nodes gs st"
  using assms unfolding tj_reach_def by blast

definition small_graph :: "(id \<rightharpoonup> node) \<Rightarrow> bool" where
  "small_graph nodes \<longleftrightarrow> card (dom nodes) < 4294967296
     \<and> (\<forall>a b. (a, b) \<in> child_rel nodes \<longrightarrow> b \<in> dom nodes)"

lemma Nr_enter:
  assumes "small_graph nodes" and "tj_shape nodes gs st" and "v \<in> dom nodes" and "v \<notin> Vis st"
  shows "Nr (tarjan_enter v st) x = (if x = v then Suc (t_cur st) else Nr st x)"
proof -
  have "card (insert v (Vis st)) \<le> card (dom nodes)"
    using tj_shapeD(1) [OF assms(2)] assms(3) by (intro card_mono) auto
  then have "Suc (t_cur st) < 4294967296"
    using assms(1,4) tj_shapeD(2) [OF assms(2)] unfolding small_graph_def by simp
  then have "unat (of_nat (Suc (t_cur st)) :: id) = Suc (t_cur st)" by (rule unat_of_nat_id)
  then show ?thesis unfolding Nr_def tarjan_enter_simps map_get_def by simp
qed

lemma Fin_enter: "v \<notin> Vis st \<Longrightarrow> Fin (tarjan_enter v st) = Fin st"
  unfolding Fin_def Vis_def tarjan_enter_dom tarjan_enter_simps by auto

lemma tj_enter_inv:
  assumes small: "small_graph nodes" and inv: "tj_inv nodes gs st" and v: "v \<in> dom nodes" "v \<notin> Vis st"
    and u: "gs \<noteq> [] \<Longrightarrow> (hd gs, v) \<in> child_rel nodes"
  shows "tj_inv nodes (v # gs) (tarjan_enter v st)"
proof -
  note sh = tj_shapeD [OF tj_parts(1) [OF inv]] and re = tj_reachD [OF tj_parts(2) [OF inv]]
  let ?st = "tarjan_enter v st"
  have N: "Nr ?st x = (if x = v then Suc (t_cur st) else Nr st x)" for x
    by (rule Nr_enter [OF small tj_parts(1) [OF inv] v])
  have vS: "v \<notin> set (t_stack st)" "v \<notin> set gs" using v sh(3,7) by auto
  have le: "Nr st x < Suc (t_cur st)" if "x \<in> Vis st" for x using sh(10) [OF that] by simp
  have sorted: "sorted_wrt (\<lambda>x y. Nr ?st y < Nr ?st x) (v # xs)"
    if "sorted_wrt (\<lambda>x y. Nr st y < Nr st x) xs" "set xs \<subseteq> set (t_stack st)" for xs
  proof -
    have "sorted_wrt (\<lambda>x y. Nr ?st y < Nr ?st x) xs"
      using that(1) by (rule sorted_wrt_mono_rel [rotated]) (use that(2) vS N in auto)
    moreover have "Nr ?st x < Nr ?st v" if "x \<in> set xs" for x
      using that \<open>set xs \<subseteq> set (t_stack st)\<close> sh(3) le N vS by auto
    ultimately show ?thesis by simp
  qed
  have "inj_on (Nr ?st) (insert v (Vis st))"
  proof (rule inj_onI)
    fix x y assume "x \<in> insert v (Vis st)" "y \<in> insert v (Vis st)" "Nr ?st x = Nr ?st y"
    then show "x = y" using le [of x] le [of y] sh(5) v(2) unfolding N inj_on_def
      by (auto split: if_splits)
  qed
  moreover have "card (insert v (Vis st)) = Suc (card (Vis st))" using v(2) by simp
  moreover have "1 \<le> Nr ?st x \<and> Nr ?st x \<le> Suc (t_cur st)" if "x \<in> insert v (Vis st)" for x
    using that sh(9,10) [of x] N by auto
  moreover have "distinct (keys_of (t_low ?st))" using sh(12) by (simp add: tarjan_enter_def Let_def)
  moreover have "dom (map_of (t_low ?st)) = insert v (Vis st)"
    unfolding tarjan_enter_simps by (simp only: dom_fun_upd sh(11)) simp
  ultimately have shape: "tj_shape nodes (v # gs) ?st"
    using sorted [OF sh(6)] sorted [OF sh(8) sh(7)] sh(1,2,3,4,7) v
    unfolding tj_shape_def Vis_simps tarjan_enter_simps(1,2,4) by auto
  have reach: "tj_reach nodes (v # gs) ?st"
  proof (rule tj_reachI)
    fix x y assume "x \<in> Vis ?st" "x \<notin> set (v # gs)" "(x, y) \<in> child_rel nodes"
    then show "y \<in> Vis ?st" using re(1) [of x y] by auto
  next
    fix x y assume "x \<in> Fin ?st" "(x, y) \<in> child_rel nodes"
    then show "y \<in> Fin ?st" using re(2) [of x y] Fin_enter [OF v(2)] by simp
  next
    fix x y assume a: "x \<in> set (v # gs)" "y \<in> set (t_stack ?st)" "Nr ?st x \<le> Nr ?st y"
    show "(x, y) \<in> (child_rel nodes)\<^sup>*"
    proof (cases "y = v")
      case True
      show ?thesis
      proof (cases "x = v")
        case False
        then have x: "x \<in> set gs" using a(1) by simp
        then have gs: "gs \<noteq> []" by auto
        have "Nr st x \<le> Nr st (hd gs)"
          using sh(8) x by (cases gs) (auto simp: less_imp_le)
        then have "(x, hd gs) \<in> (child_rel nodes)\<^sup>*"
          using re(3) [OF x, of "hd gs"] sh(7) hd_in_set [OF gs] by blast
        with u [OF gs] True show ?thesis by (meson rtrancl.rtrancl_into_rtrancl)
      qed (use True in simp)
    next
      case False
      then have y: "y \<in> set (t_stack st)" using a(2) by simp
      have "x \<noteq> v" using a(3) False le [of y] y sh(3) N by auto
      then show ?thesis using re(3) [of x y] a y False N by auto
    qed
  next
    fix y assume a: "y \<in> set (t_stack ?st)"
    show "\<exists>x \<in> set (v # gs). Nr ?st x \<le> Nr ?st y \<and> (y, x) \<in> (child_rel nodes)\<^sup>*"
    proof (cases "y = v")
      case False
      then obtain x where x: "x \<in> set gs" "Nr st x \<le> Nr st y" "(y, x) \<in> (child_rel nodes)\<^sup>*"
        using re(4) [of y] a by auto
      moreover have "x \<noteq> v" using x(1) vS(2) by auto
      ultimately show ?thesis using False N by (intro bexI [of _ x]) auto
    qed simp
  qed
  have "tj_done nodes ?st"
  proof (rule tj_done_cong [OF tj_parts(3) [OF inv] Fin_enter [OF v(2)]])
    fix x assume "x \<in> Fin st"
    then have "x \<noteq> v" using v(2) by (auto simp: Fin_def Vis_def)
    then show "Lw ?st x = Lw st x" "Nr ?st x = Nr st x"
      using N by (simp_all add: Lw_def)
  qed
  with shape reach show ?thesis by (simp add: tj_inv_def)
qed

section \<open>Leaving a node\<close>

lemma tarjan_pop_effect:
  assumes "v \<notin> set A"
  shows "t_stack (tarjan_pop v (A @ v # B) st) = B"
    and "t_cur (tarjan_pop v (A @ v # B) st) = t_cur st"
    and "t_inStack (tarjan_pop v (A @ v # B) st) = t_inStack st - (insert v (set A))"
    and "low_of (tarjan_pop v (A @ v # B) st) x
      = (if x \<in> insert v (set A) then map_get (t_num st) v else low_of st x)"
    and "dom (map_of (t_low (tarjan_pop v (A @ v # B) st))) = dom (map_of (t_low st)) \<union> insert v (set A)"
    and "distinct (keys_of (t_low (tarjan_pop v (A @ v # B) st))) = distinct (keys_of (t_low st))"
  using assms
  by (induction A arbitrary: st) (auto simp: Let_def low_of_def set_low_def map_get_def)

lemma Fin_closed:
  assumes "tj_reach nodes gs st" and "(x, y) \<in> (child_rel nodes)\<^sup>*" and "x \<in> Fin st"
  shows "y \<in> Fin st"
  using assms(2,3) by induction (use tj_reachD(2) [OF assms(1)] in blast)+

text \<open>Where the nodes of the stack lie, seen from an active node \<open>v\<close>.\<close>

lemma stack_split:
  assumes "tj_shape nodes (v # gs) st" and "t_stack st = A @ v # B"
  shows "x \<in> set A \<Longrightarrow> Nr st v < Nr st x" "x \<in> set B \<Longrightarrow> Nr st x < Nr st v" "v \<notin> set A" "v \<notin> set B"
    "set gs \<subseteq> set B" "x \<in> set A \<Longrightarrow> x \<notin> set B"
proof -
  note sh = tj_shapeD [OF assms(1)]
  have s: "sorted_wrt (\<lambda>x y. Nr st y < Nr st x) (A @ v # B)" using sh(6) assms(2) by simp
  show A: "x \<in> set A \<Longrightarrow> Nr st v < Nr st x" for x using s by (auto simp: sorted_wrt_append)
  show B: "x \<in> set B \<Longrightarrow> Nr st x < Nr st v" for x using s by (auto simp: sorted_wrt_append)
  show "v \<notin> set A" "v \<notin> set B" using A B by blast+
  show "x \<in> set A \<Longrightarrow> x \<notin> set B" using A [of x] B [of x] by auto
  show "set gs \<subseteq> set B"
  proof
    fix g assume g: "g \<in> set gs"
    then have "Nr st g < Nr st v" using sh(8) by simp
    moreover have "g \<in> set (A @ v # B)" using g sh(7) assms(2) by auto
    ultimately show "g \<in> set B" using A [of g] by auto
  qed
qed

lemma tj_leave:
  assumes "tj_pre nodes gs B v [] st"
  shows "tj_post nodes gs B v st (tarjan_leave v st)"
proof -
  have inv: "tj_inv nodes (v # gs) st" and low: "tj_low nodes v [] st"
    and kids: "\<And>w. (v, w) \<in> child_rel nodes \<Longrightarrow> w \<in> Vis st"
    using assms unfolding tj_pre_def by auto
  obtain A where S: "t_stack st = A @ v # B" using assms unfolding tj_pre_def by blast
  note shape = tj_parts(1) [OF inv]
  note sh = tj_shapeD [OF shape] and re = tj_reachD [OF tj_parts(2) [OF inv]]
  note sp = stack_split [OF shape S]
  have vis: "y \<in> Vis st" if "x \<in> Vis st" "x \<notin> set gs" "(x, y) \<in> child_rel nodes" for x y
    using that kids re(1) [of x y] by (cases "x = v") auto
  have root_test: "map_get (t_num st) v = low_of st v \<longleftrightarrow> Lw st v = Nr st v"
    by (auto simp: Lw_def Nr_def word_unat_eq_iff)
  show ?thesis
  proof (cases "Lw st v = Nr st v")
    case True
    let ?st = "tarjan_leave v st"
    have st': "?st = tarjan_pop v (A @ v # B) st"
      using True root_test S by (simp add: tarjan_leave_def)
    note pop = tarjan_pop_effect [OF sp(3), of B st, folded st']
    have Lw': "Lw ?st x = (if x \<in> insert v (set A) then Nr st v else Lw st x)" for x
      unfolding Lw_def Nr_def pop(4) by simp
    have Fin': "Fin ?st = Fin st \<union> insert v (set A)"
      using sh(3) sp(4,6) unfolding Fin_def pop(1) S tarjan_leave_num Vis_def by auto
    have "sorted_wrt (\<lambda>x y. Nr st y < Nr st x) B" using sh(6) S by (simp add: sorted_wrt_append)
    then have shape': "tj_shape nodes gs ?st"
      using sh sp(3-6) pop(1-3,5,6) S unfolding tj_shape_def Vis_simps Nr_simps by auto
    have reach': "tj_reach nodes gs ?st"
    proof (rule tj_reachI)
      fix x y assume a: "x \<in> Fin ?st" "(x, y) \<in> child_rel nodes"
      show "y \<in> Fin ?st"
      proof (cases "x \<in> Fin st")
        case False
        then have x: "x \<in> set (A @ [v])" "x \<in> Vis st" "x \<in> set (t_stack st)"
          using a(1) sh(3) S unfolding Fin' by auto
        then have "x \<notin> set gs" "Nr st v \<le> Nr st x" using sp(1,4,5,6) by (auto simp: less_imp_le)
        then have "y \<in> Vis st" using vis [OF x(2) _ a(2)] by blast
        moreover have "y \<notin> set B"
        proof
          assume "y \<in> set B"
          then have "y \<in> set (t_stack st)" "Nr st y < Nr st v" using S sp(2) by auto
          then show False
            using low x(3) a(2) \<open>Nr st v \<le> Nr st x\<close> True unfolding tj_low_def by fastforce
        qed
        ultimately show ?thesis unfolding Fin' by (auto simp: Fin_def Vis_def S)
      qed (use re(2) a(2) Fin' in blast)
    next
      fix x y assume "x \<in> set gs" "y \<in> set (t_stack ?st)" "Nr ?st x \<le> Nr ?st y"
      then show "(x, y) \<in> (child_rel nodes)\<^sup>*" using re(3) [of x y] S pop(1) by auto
    next
      fix y assume y: "y \<in> set (t_stack ?st)"
      then obtain x where "x \<in> set (v # gs)" "Nr st x \<le> Nr st y" "(y, x) \<in> (child_rel nodes)\<^sup>*"
        using re(4) [of y] S pop(1) by auto
      moreover have "Nr st y < Nr st v" using y sp(2) pop(1) by simp
      ultimately show "\<exists>x \<in> set gs. Nr ?st x \<le> Nr ?st y \<and> (y, x) \<in> (child_rel nodes)\<^sup>*"
        by (intro bexI [of _ x]) auto
    qed (use vis in auto)
    have scc: "same_scc nodes x v" if x: "x \<in> insert v (set A)" for x
    proof -
      have xs: "x \<in> set (t_stack st)" "Nr st v \<le> Nr st x" using x S sp(1) by (auto simp: less_imp_le)
      then have vx: "(v, x) \<in> (child_rel nodes)\<^sup>*" using re(3) by simp
      obtain g where g: "g \<in> set (v # gs)" "(x, g) \<in> (child_rel nodes)\<^sup>*"
        using re(4) [OF xs(1)] by blast
      have "Nr st g \<le> Nr st v" using g(1) sh(8) by (auto simp: less_imp_le)
      then have "(g, v) \<in> (child_rel nodes)\<^sup>*" using re(3) [OF g(1)] S by simp
      with g(2) vx show ?thesis unfolding same_scc_def by (meson rtrancl_trans)
    qed
    have done': "tj_done nodes ?st"
    proof (rule tj_doneI)
      fix x assume x: "x \<in> Fin ?st"
      show "\<exists>r \<in> Fin ?st. Lw ?st x = Nr ?st r \<and> same_scc nodes x r"
      proof (cases "x \<in> insert v (set A)")
        case True
        then show ?thesis using scc [OF True] Lw' Fin' by (intro bexI [of _ v]) auto
      next
        case False
        then have "x \<in> Fin st" using x Fin' by blast
        from tj_done_root [OF tj_parts(3) [OF inv] this] obtain r where
          "r \<in> Fin st" "Lw st x = Nr st r" "same_scc nodes x r" by blast
        then show ?thesis using False Lw' Fin' by (intro bexI [of _ r]) auto
      qed
    next
      fix x y assume xy: "x \<in> Fin ?st" "y \<in> Fin ?st" "same_scc nodes x y"
      have closed: "a \<in> Fin st \<longleftrightarrow> b \<in> Fin st" if "same_scc nodes a b" for a b
        using that Fin_closed [OF tj_parts(2) [OF inv]] unfolding same_scc_def by blast
      have disj: "z \<notin> Fin st" if "z \<in> insert v (set A)" for z using that S by (auto simp: Fin_def)
      show "Lw ?st x = Lw ?st y"
      proof (cases "x \<in> Fin st")
        case True
        then have "y \<in> Fin st" using closed [OF xy(3)] by blast
        with True tj_done_same [OF tj_parts(3) [OF inv] True _ xy(3)] disj Lw' show ?thesis by metis
      next
        case False
        then have "x \<in> insert v (set A)" "y \<in> insert v (set A)"
          using xy closed [OF xy(3)] Fin' by blast+
        then show ?thesis using Lw' by simp
      qed
    qed
    have "low_of ?st x = low_of st x" if "x \<in> Fin st \<or> x \<in> set B" for x
      using that S sp(4,6) unfolding pop(4) by (auto simp: Fin_def)
    then have "tj_frame B st ?st" using pop(1) S by (auto simp: tj_frame_def)
    with shape' reach' done' pop(1) Lw' show ?thesis
      by (simp add: tj_post_def tj_inv_def)
  next
    case False
    then have st': "tarjan_leave v st = st" using root_test by (simp add: tarjan_leave_def)
    have lt: "Lw st v < Nr st v" using low False by (simp add: tj_low_def)
    have "tj_shape nodes gs st"
      using sh(7,8) shape unfolding tj_shape_def by auto
    moreover have "tj_reach nodes gs st"
    proof (rule tj_reachI)
      fix y assume y: "y \<in> set (t_stack st)"
      then obtain x where x: "x \<in> set (v # gs)" "Nr st x \<le> Nr st y" "(y, x) \<in> (child_rel nodes)\<^sup>*"
        using re(4) by blast
      show "\<exists>x \<in> set gs. Nr st x \<le> Nr st y \<and> (y, x) \<in> (child_rel nodes)\<^sup>*"
      proof (cases "x = v")
        case True
        obtain z where z: "z \<in> set (t_stack st)" "Nr st z = Lw st v" "(v, z) \<in> (child_rel nodes)\<^sup>*"
          using low unfolding tj_low_def by blast
        obtain g where g: "g \<in> set (v # gs)" "Nr st g \<le> Nr st z" "(z, g) \<in> (child_rel nodes)\<^sup>*"
          using re(4) [OF z(1)] by blast
        have "(y, g) \<in> (child_rel nodes)\<^sup>*" using x(3) True z(3) g(3) by (meson rtrancl_trans)
        moreover have "g \<noteq> v" "Nr st g \<le> Nr st y" using g(2) z(2) lt x(2) True by auto
        ultimately show ?thesis using g(1) by auto
      qed (use x in auto)
    qed (use vis re(2,3) in auto)
    ultimately show ?thesis
      using st' S low tj_parts(3) [OF inv] by (auto simp: tj_post_def tj_inv_def tj_frame_def)
  qed
qed

section \<open>The search\<close>

lemma tj_frame_trans:
  assumes "tj_frame B st st1" and "tj_frame B st1 st2"
  shows "tj_frame B st st2"
proof -
  have "x \<in> Fin st1" if "x \<in> Fin st" for x
    using assms(1) that unfolding tj_frame_def Fin_def Vis_def by blast
  then show ?thesis using assms unfolding tj_frame_def by (auto simp: subset_iff)
qed

lemma tj_post_frame:
  "tj_frame B st st1 \<Longrightarrow> tj_post nodes gs B v st1 st2 \<Longrightarrow> tj_post nodes gs B v st st2"
  using tj_frame_trans unfolding tj_post_def by blast

lemma tj_preD:
  assumes "tj_pre nodes gs B v ws st"
  shows "tj_inv nodes (v # gs) st" "\<exists>A. t_stack st = A @ v # B"
    "\<And>w. w \<in> set ws \<Longrightarrow> (v, w) \<in> child_rel nodes"
    "\<And>w. (v, w) \<in> child_rel nodes \<Longrightarrow> w \<in> set ws \<or> w \<in> Vis st" "tj_low nodes v ws st"
  using assms unfolding tj_pre_def by blast+

lemma tj_lowD:
  assumes "tj_low nodes v ws st"
  shows "Lw st v \<le> Nr st v"
    "\<exists>y \<in> set (t_stack st). Nr st y = Lw st v \<and> (v, y) \<in> (child_rel nodes)\<^sup>*"
    "\<And>x y. x \<in> set (t_stack st) \<Longrightarrow> y \<in> set (t_stack st) \<Longrightarrow> Nr st v \<le> Nr st x \<Longrightarrow>
      (x, y) \<in> child_rel nodes \<Longrightarrow> Nr st y < Nr st v \<Longrightarrow> x \<noteq> v \<or> y \<notin> set ws \<Longrightarrow> Lw st v \<le> Nr st y"
  using assms unfolding tj_low_def by blast+

lemma tj_lowI:
  assumes "Lw st v \<le> Nr st v"
    "\<exists>y \<in> set (t_stack st). Nr st y = Lw st v \<and> (v, y) \<in> (child_rel nodes)\<^sup>*"
    "\<And>x y. x \<in> set (t_stack st) \<Longrightarrow> y \<in> set (t_stack st) \<Longrightarrow> Nr st v \<le> Nr st x \<Longrightarrow>
      (x, y) \<in> child_rel nodes \<Longrightarrow> Nr st y < Nr st v \<Longrightarrow> x \<noteq> v \<or> y \<notin> set ws \<Longrightarrow> Lw st v \<le> Nr st y"
  shows "tj_low nodes v ws st"
  using assms unfolding tj_low_def by blast

lemma unat_min: "unat (min (a :: id) b) = min (unat a) (unat b)"
  by (simp add: min_def word_le_nat_alt)

text \<open>A child that is visited already: on the stack its number counts, elsewhere nothing changes.\<close>

lemma tj_seen_child:
  assumes pre: "tj_pre nodes gs B v (w # ws) st" and w: "w \<in> Vis st"
  shows "w \<in> set (t_stack st) \<Longrightarrow>
      tj_pre nodes gs B v ws (set_low v (min (low_of st v) (map_get (t_num st) w)) st)"
    and "w \<notin> set (t_stack st) \<Longrightarrow> tj_pre nodes gs B v ws st"
proof -
  note P = tj_preD [OF pre] and L = tj_lowD [OF tj_preD(5) [OF pre]]
  have edge: "(v, w) \<in> child_rel nodes" using P(3) by simp
  have vS: "v \<in> set (t_stack st)" using P(2) by auto
  show "tj_pre nodes gs B v ws (set_low v (min (low_of st v) (map_get (t_num st) w)) st)"
    if wS: "w \<in> set (t_stack st)"
  proof -
    let ?st = "set_low v (min (low_of st v) (map_get (t_num st) w)) st"
    have Lv: "Lw ?st v = min (Lw st v) (Nr st w)" by (simp add: Lw_def Nr_def unat_min)
    have "tj_low nodes v ws ?st"
    proof (rule tj_lowI)
      show "Lw ?st v \<le> Nr ?st v" using L(1) unfolding Lv by simp
      show "\<exists>y \<in> set (t_stack ?st). Nr ?st y = Lw ?st v \<and> (v, y) \<in> (child_rel nodes)\<^sup>*"
        using L(2) wS edge unfolding Lv by (auto simp: min_def)
      fix x y assume "x \<in> set (t_stack ?st)" "y \<in> set (t_stack ?st)" "Nr ?st v \<le> Nr ?st x"
        "(x, y) \<in> child_rel nodes" "Nr ?st y < Nr ?st v" "x \<noteq> v \<or> y \<notin> set ws"
      then show "Lw ?st v \<le> Nr ?st y"
        using L(3) [of x y] unfolding Lv by (cases "x = v \<and> y = w") (auto simp: min_le_iff_disj)
    qed
    with P tj_inv_set_low [OF P(1) vS] w show ?thesis unfolding tj_pre_def by auto
  qed
  show "tj_pre nodes gs B v ws st" if "w \<notin> set (t_stack st)"
  proof -
    have "tj_low nodes v ws st"
      by (rule tj_lowI [OF L(1,2)]) (use L(3) that in auto)
    with P w show ?thesis unfolding tj_pre_def by auto
  qed
qed

text \<open>Before the loop of a child that was entered, and after it.\<close>

lemma tj_enter_child:
  assumes small: "small_graph nodes" and inv: "tj_inv nodes gs st"
    and w: "nodes w = Some n" "w \<notin> Vis st" and u: "gs \<noteq> [] \<Longrightarrow> (hd gs, w) \<in> child_rel nodes"
  shows "tj_pre nodes gs (t_stack st) w (to_array (n_Children n)) (tarjan_enter w st)"
proof -
  let ?st = "tarjan_enter w st"
  have dom: "w \<in> dom nodes" using w(1) by blast
  note N = Nr_enter [OF small tj_parts(1) [OF inv] dom w(2)]
  note sh = tj_shapeD [OF tj_parts(1) [OF inv]]
  have inv': "tj_inv nodes (w # gs) ?st" by (rule tj_enter_inv [OF small inv dom w(2) u])
  have kids: "(w, x) \<in> child_rel nodes \<longleftrightarrow> x \<in> set (to_array (n_Children n))" for x
    using w(1) by (simp add: edges_children)
  have LN: "Lw ?st w = Nr ?st w" unfolding Lw_def Nr_def tarjan_enter_simps map_get_def by simp
  have only: "x = w" if "x \<in> set (t_stack ?st)" "Nr ?st w \<le> Nr ?st x" for x
  proof (rule ccontr)
    assume "x \<noteq> w"
    then have "x \<in> Vis st" using that(1) sh(3) by auto
    then have "Nr st x \<le> t_cur st" by (rule sh(10))
    with that(2) \<open>x \<noteq> w\<close> show False by (simp add: N)
  qed
  have "tj_low nodes w (to_array (n_Children n)) ?st"
  proof (rule tj_lowI)
    show "\<exists>y \<in> set (t_stack ?st). Nr ?st y = Lw ?st w \<and> (w, y) \<in> (child_rel nodes)\<^sup>*"
      using LN by (intro bexI [of _ w]) auto
    fix x y assume "x \<in> set (t_stack ?st)" "Nr ?st w \<le> Nr ?st x" "(x, y) \<in> child_rel nodes"
      "x \<noteq> w \<or> y \<notin> set (to_array (n_Children n))"
    then show "Lw ?st w \<le> Nr ?st y" using only [of x] kids by blast
  qed (simp add: LN)
  with inv' kids show ?thesis unfolding tj_pre_def by auto
qed

lemma tj_after_child:
  assumes small: "small_graph nodes" and pre: "tj_pre nodes gs B v (w # ws) st" and w: "w \<notin> Vis st"
    and post: "tj_post nodes (v # gs) (t_stack st) w (tarjan_enter w st) st1"
  shows "tj_pre nodes gs B v ws (set_low v (min (low_of st1 v) (low_of st1 w)) st1)"
    and "tj_frame B st (set_low v (min (low_of st1 v) (low_of st1 w)) st1)"
proof -
  note P = tj_preD [OF pre] and L = tj_lowD [OF tj_preD(5) [OF pre]]
  note sh = tj_shapeD [OF tj_parts(1) [OF P(1)]]
  let ?st = "set_low v (min (low_of st1 v) (low_of st1 w)) st1"
  obtain A where S: "t_stack st = A @ v # B" using P(2) by blast
  note sp = stack_split [OF tj_parts(1) [OF P(1)] S]
  have edge: "(v, w) \<in> child_rel nodes" using P(3) by simp
  have dom: "w \<in> dom nodes" using small edge unfolding small_graph_def by blast
  note N = Nr_enter [OF small tj_parts(1) [OF P(1)] dom w]
  have inv1: "tj_inv nodes (v # gs) st1" and fr: "tj_frame (t_stack st) (tarjan_enter w st) st1"
    and stack1: "t_stack st1 = t_stack st \<and> Lw st1 w = Nr st1 w
      \<or> (\<exists>T. t_stack st1 = T @ w # t_stack st) \<and> tj_low nodes w [] st1"
    using post unfolding tj_post_def by blast+
  have Vis1: "insert w (Vis st) \<subseteq> Vis st1" using fr by (simp add: tj_frame_def)
  have N1: "Nr st1 x = Nr st x" if "x \<in> Vis st" for x
    using fr that w N [of x] unfolding tj_frame_def by auto
  have Nw: "Nr st1 w = Suc (t_cur st)" using fr N [of w] unfolding tj_frame_def by simp
  have low1: "low_of st1 x = low_of st x" if "x \<in> Fin st \<or> x \<in> set (t_stack st)" "x \<in> Vis st" for x
    using fr that w Fin_enter [OF w] unfolding tj_frame_def by auto
  have S1: "set (t_stack st) \<subseteq> set (t_stack st1)" using stack1 by auto
  have vS: "v \<in> set (t_stack st)" "v \<in> Vis st" using S sh(3) by auto
  have old: "x \<in> set (t_stack st) \<or> Nr st1 w \<le> Nr st1 x \<and> tj_low nodes w [] st1" if "x \<in> set (t_stack st1)" for x
    using stack1
  proof
    assume "(\<exists>T. t_stack st1 = T @ w # t_stack st) \<and> tj_low nodes w [] st1"
    then obtain T where T: "t_stack st1 = T @ w # t_stack st" and low: "tj_low nodes w [] st1" by blast
    have "sorted_wrt (\<lambda>x y. Nr st1 y < Nr st1 x) (T @ w # t_stack st)"
      using tj_shapeD(6) [OF tj_parts(1) [OF inv1]] T by simp
    then have "Nr st1 w < Nr st1 x" if "x \<in> set T" for x using that by (auto simp: sorted_wrt_append)
    with that T low show ?thesis by (auto simp: less_imp_le)
  qed (use that in auto)
  have below: "y \<in> set (t_stack st)" if "y \<in> set (t_stack st1)" "Nr st1 y < Nr st1 v" for y
    using old [OF that(1)] that(2) N1 [OF vS(2)] sh(10) [OF vS(2)] Nw by auto
  have Lv: "Lw ?st v = min (Lw st v) (Lw st1 w)"
    using low1 [of v] vS by (simp add: Lw_def unat_min)
  have "Lw st v \<le> Nr st v" by (rule L(1))
  have low: "tj_low nodes v ws ?st"
  proof (rule tj_lowI)
    show "Lw ?st v \<le> Nr ?st v" using L(1) N1 [OF vS(2)] unfolding Lv by simp
    show "\<exists>y \<in> set (t_stack ?st). Nr ?st y = Lw ?st v \<and> (v, y) \<in> (child_rel nodes)\<^sup>*"
    proof (cases "Lw st v \<le> Lw st1 w")
      case True
      obtain y where y: "y \<in> set (t_stack st)" "Nr st y = Lw st v" "(v, y) \<in> (child_rel nodes)\<^sup>*"
        using L(2) by blast
      moreover have "Nr st1 y = Nr st y" using N1 y(1) sh(3) by blast
      ultimately show ?thesis using True S1 unfolding Lv by (intro bexI [of _ y]) auto
    next
      case False
      then have "Lw st1 w \<noteq> Nr st1 w" using L(1) sh(10) [OF vS(2)] Nw by simp
      then obtain y where "y \<in> set (t_stack st1)" "Nr st1 y = Lw st1 w" "(w, y) \<in> (child_rel nodes)\<^sup>*"
        using stack1 tj_lowD(2) by blast
      then show ?thesis using False edge unfolding Lv
        by (intro bexI [of _ y]) (auto intro: converse_rtrancl_into_rtrancl)
    qed
    fix x y assume a: "x \<in> set (t_stack ?st)" "y \<in> set (t_stack ?st)" "Nr ?st v \<le> Nr ?st x"
      "(x, y) \<in> child_rel nodes" "Nr ?st y < Nr ?st v" "x \<noteq> v \<or> y \<notin> set ws"
    have y: "y \<in> set (t_stack st)" using below [of y] a by simp
    then have "y \<in> Vis st" "y \<noteq> w" using sh(3) w by auto
    consider "x \<in> set (t_stack st)" | "Nr st1 w \<le> Nr st1 x" "tj_low nodes w [] st1" using old [of x] a(1) by auto
    then show "Lw ?st v \<le> Nr ?st y"
    proof cases
      case 1
      then have "x \<in> Vis st" using sh(3) by blast
      then show ?thesis
        using L(3) [OF 1 y] a N1 \<open>y \<in> Vis st\<close> vS(2) \<open>y \<noteq> w\<close> unfolding Lv by (auto simp: min_le_iff_disj)
    next
      case 2
      have "Nr st1 y < Nr st1 w" using sh(10) [OF \<open>y \<in> Vis st\<close>] N1 [OF \<open>y \<in> Vis st\<close>] Nw by simp
      then have "Lw st1 w \<le> Nr st1 y" using tj_lowD(3) [OF 2(2) _ _ 2(1) a(4)] a(1,2) by simp
      then show ?thesis unfolding Lv by simp
    qed
  qed
  have "\<exists>A. t_stack ?st = A @ v # B"
    using stack1 S by (auto intro: exI [of _ "_ @ w # A"])
  moreover have "tj_inv nodes (v # gs) ?st" using tj_inv_set_low [OF inv1] vS(1) S1 by blast
  ultimately show "tj_pre nodes gs B v ws ?st"
    using P(3,4) Vis1 low unfolding tj_pre_def by auto
  have "x \<notin> set (t_stack st1)" if "x \<in> Vis st" "x \<notin> set (t_stack st)" for x
    using fr that w unfolding tj_frame_def by auto
  moreover have "low_of ?st x = low_of st x" if "x \<in> Vis st" "x \<in> Fin st \<or> x \<in> set B" for x
  proof -
    have "x \<noteq> v" using that(2) sp(4) vS(1) by (auto simp: Fin_def)
    then show ?thesis using low1 [of x] that S by auto
  qed
  ultimately show "tj_frame B st ?st"
    using Vis1 N1 unfolding tj_frame_def by auto
qed

lemma tj_frame_set_low:
  assumes "v \<in> set (t_stack st)" and "v \<notin> set B"
  shows "tj_frame B st (set_low v n st)"
  using assms unfolding tj_frame_def Fin_def by auto

lemma tarjan_loop_correct:
  assumes "small_graph nodes" and "tj_pre nodes gs B v ws st"
  shows "\<exists>st'. tarjan_loop nodes v ws st = Inr st' \<and> tj_post nodes gs B v st st'"
  using assms
proof (induction nodes v ws st arbitrary: gs B rule: tarjan_loop.induct)
  case (1 nodes v st)
  then show ?case using tj_leave by simp
next
  case (2 nodes v w ws st)
  note P = tj_preD [OF "2.prems"(2)]
  note sh = tj_shapeD [OF tj_parts(1) [OF P(1)]]
  obtain A where S: "t_stack st = A @ v # B" using P(2) by blast
  note sp = stack_split [OF tj_parts(1) [OF P(1)] S]
  have edge: "(v, w) \<in> child_rel nodes" using P(3) by simp
  show ?case
  proof (cases "t_num st w = None")
    case True
    then have w: "w \<notin> Vis st" by (simp add: Vis_def domIff)
    obtain n where n: "nodes w = Some n" using "2.prems"(1) edge unfolding small_graph_def by blast
    have "tj_pre nodes (v # gs) (t_stack st) w (to_array (n_Children n)) (tarjan_enter w st)"
      using tj_enter_child [OF "2.prems"(1) P(1) n w] edge by simp
    from "2.IH"(1) [OF True n "2.prems"(1) this] obtain st1 where st1:
      "tarjan_loop nodes w (to_array (n_Children n)) (tarjan_enter w st) = Inr st1"
      "tj_post nodes (v # gs) (t_stack st) w (tarjan_enter w st) st1" by blast
    let ?st = "set_low v (min (low_of st1 v) (low_of st1 w)) st1"
    note after = tj_after_child [OF "2.prems" w st1(2)]
    from "2.IH"(2) [OF True n st1(1) "2.prems"(1) after(1)] obtain st' where
      "tarjan_loop nodes v ws ?st = Inr st'" "tj_post nodes gs B v ?st st'" by blast
    with True n st1(1) tj_post_frame [OF after(2)] show ?thesis by auto
  next
    case False
    then have w: "w \<in> Vis st" by (simp add: Vis_def domIff)
    show ?thesis
    proof (cases "w \<in> t_inStack st")
      case True
      then have wS: "w \<in> set (t_stack st)" using sh(4) by simp
      let ?st = "set_low v (min (low_of st v) (map_get (t_num st) w)) st"
      from "2.IH"(3) [OF False True "2.prems"(1) tj_seen_child(1) [OF "2.prems"(2) w wS]]
      obtain st' where "tarjan_loop nodes v ws ?st = Inr st'" "tj_post nodes gs B v ?st st'" by blast
      moreover have "tj_frame B st ?st" using tj_frame_set_low S sp(4) by simp
      ultimately show ?thesis using False True tj_post_frame by auto
    next
      case not_on: False
      then have "w \<notin> set (t_stack st)" using sh(4) by simp
      from "2.IH"(4) [OF False not_on "2.prems"(1) tj_seen_child(2) [OF "2.prems"(2) w this]]
      show ?thesis using False not_on by auto
    qed
  qed
qed

section \<open>The components\<close>

lemma tarjanDFS_correct:
  assumes small: "small_graph nodes" and inv: "tj_inv nodes [] st" and v: "v \<in> dom nodes" "v \<notin> Vis st"
  shows "\<exists>st'. tarjanDFS nodes v st = Inr st' \<and> tj_inv nodes [] st' \<and> insert v (Vis st) \<subseteq> Vis st'"
proof -
  obtain n where n: "nodes v = Some n" using v(1) by blast
  have S: "t_stack st = []"
    using tj_reachD(4) [OF tj_parts(2) [OF inv]] by (cases "t_stack st") auto
  have "tj_pre nodes [] [] v (to_array (n_Children n)) (tarjan_enter v st)"
    using tj_enter_child [OF small inv n v(2)] S by simp
  from tarjan_loop_correct [OF small this] n show ?thesis
    by (auto simp: tarjanDFS_def tj_post_def tj_frame_def)
qed

lemma findCycles_loop_correct:
  assumes "small_graph nodes" and "tj_inv nodes [] st" and "set vs \<subseteq> dom nodes"
  shows "\<exists>st'. findCycles_loop nodes vs st = Inr st' \<and> tj_inv nodes [] st' \<and> Vis st \<union> set vs \<subseteq> Vis st'"
  using assms
proof (induction vs arbitrary: st)
  case Nil
  then show ?case by simp
next
  case (Cons v vs)
  show ?case
  proof (cases "t_num st v = None")
    case True
    then have "v \<notin> Vis st" by (simp add: Vis_def domIff)
    moreover have "v \<in> dom nodes" using Cons.prems(3) by simp
    ultimately obtain st1 where
      st1: "tarjanDFS nodes v st = Inr st1" "tj_inv nodes [] st1" "insert v (Vis st) \<subseteq> Vis st1"
      using tarjanDFS_correct [OF Cons.prems(1,2)] by blast
    from Cons.IH [OF Cons.prems(1) st1(2)] Cons.prems(3) st1 True show ?thesis by auto
  next
    case False
    then have "v \<in> Vis st" by (simp add: Vis_def domIff)
    with Cons.IH [OF Cons.prems(1,2)] Cons.prems(3) False show ?thesis by auto
  qed
qed

lemma tj_inv_start: "tj_inv nodes [] tarjan_start"
  by (simp add: tj_inv_def tj_shape_def tj_reach_def tj_done_def tarjan_start_def Vis_def Fin_def)

text \<open>Equal low links, seen as machine words, are the components.\<close>

lemma findCycles_correct:
  assumes small: "small_graph nodes" and ids: "dom nodes = of_nat ` {1..n}"
  shows "\<exists>scc. findCycles n nodes = Inr scc \<and> distinct (keys_of scc) \<and> set (keys_of scc) = dom nodes
    \<and> (\<forall>x \<in> dom nodes. \<forall>y \<in> dom nodes. map_of scc x = map_of scc y \<longleftrightarrow> same_scc nodes x y)"
proof -
  have "set (map of_nat [1..<n + 1]) \<subseteq> dom nodes" unfolding ids by auto
  from findCycles_loop_correct [OF small tj_inv_start this] obtain st where
    st: "findCycles_loop nodes (map of_nat [1..<n + 1]) tarjan_start = Inr st" "tj_inv nodes [] st"
      "set (map of_nat [1..<n + 1]) \<subseteq> Vis st" by auto
  note sh = tj_shapeD [OF tj_parts(1) [OF st(2)]]
  have "set (map of_nat [1..<n + 1]) = dom nodes"
    unfolding ids set_map by (simp only: set_upt atLeastLessThanSuc_atLeastAtMost Suc_eq_plus1 [symmetric])
  then have "dom nodes \<subseteq> Vis st" using st(3) by simp
  then have V: "Vis st = dom nodes" using sh(1) by blast
  have "t_stack st = []"
    using tj_reachD(4) [OF tj_parts(2) [OF st(2)]] by (cases "t_stack st") auto
  then have F: "Fin st = dom nodes" using V by (simp add: Fin_def Vis_def)
  have low: "map_of (t_low st) x = Some (low_of st x)" if "x \<in> dom nodes" for x
  proof -
    have "x \<in> dom (map_of (t_low st))" using that V sh(11) by blast
    then obtain l where "map_of (t_low st) x = Some l" by blast
    then show ?thesis by (simp add: low_of_def map_get_def)
  qed
  have "map_of (t_low st) x = map_of (t_low st) y \<longleftrightarrow> same_scc nodes x y"
    if xy: "x \<in> dom nodes" "y \<in> dom nodes" for x y
  proof
    assume "map_of (t_low st) x = map_of (t_low st) y"
    then have eq: "Lw st x = Lw st y" using low xy by (simp add: Lw_def)
    obtain r where r: "r \<in> Fin st" "Lw st x = Nr st r" "same_scc nodes x r"
      using tj_done_root [OF tj_parts(3) [OF st(2)]] xy(1) F by blast
    obtain q where q: "q \<in> Fin st" "Lw st y = Nr st q" "same_scc nodes y q"
      using tj_done_root [OF tj_parts(3) [OF st(2)]] xy(2) F by blast
    have "r = q" using sh(5) r(1,2) q(1,2) eq V F by (simp add: inj_on_def)
    with r(3) q(3) show "same_scc nodes x y" by (blast intro: same_scc_trans same_scc_sym)
  next
    assume "same_scc nodes x y"
    then have "Lw st x = Lw st y"
      using tj_done_same [OF tj_parts(3) [OF st(2)]] xy F by blast
    then show "map_of (t_low st) x = map_of (t_low st) y"
      using low xy by (simp add: Lw_def word_unat_eq_iff)
  qed
  moreover have "set (keys_of (t_low st)) = dom nodes"
    using sh(11) V by (simp add: dom_map_of_keys)
  ultimately show ?thesis using st(1) sh(12) by (auto simp: findCycles_def)
qed

end
