(* ===== verification/Cache_Walk.thy ===== *)
theory Cache_Walk
  imports Cache Tarjan_Correct
begin

text \<open>
  The walk of \<open>buildCache\<close> is total and computes closures: what the groups of the components hold, the
  invariant of the stack, the measure, and the closures when the stack is empty.
\<close>

section \<open>Components and what they lead to\<close>

definition comp_of :: "(id \<rightharpoonup> node) \<Rightarrow> id \<Rightarrow> id set" where
  "comp_of nodes x = {y \<in> dom nodes. same_scc nodes x y}"

definition out_of :: "(id \<rightharpoonup> node) \<Rightarrow> direction \<Rightarrow> id \<Rightarrow> id set" where
  "out_of nodes dir x = edges nodes dir `` comp_of nodes x - comp_of nodes x"

definition opposite :: "direction \<Rightarrow> direction" where
  "opposite dir = (if dir = ChildrenDirection then ParentsDirection else ChildrenDirection)"

definition valid_dir :: "direction \<Rightarrow> bool" where
  "valid_dir dir \<longleftrightarrow> dir = ChildrenDirection \<or> dir = ParentsDirection"

lemma valid_dirs [simp]: "valid_dir ChildrenDirection" "valid_dir ParentsDirection"
  "valid_dir (opposite dir)"
  by (simp_all add: valid_dir_def opposite_def)

lemma opposite_simps [simp]:
  "opposite ChildrenDirection = ParentsDirection" "opposite ParentsDirection = ChildrenDirection"
  by (simp_all add: opposite_def)

lemma edges_opposite:
  "edges_ok nodes \<Longrightarrow> valid_dir dir \<Longrightarrow> edges nodes (opposite dir) = (edges nodes dir)\<inverse>"
  using edges_ok_converse unfolding valid_dir_def by (auto simp: converse_iff)

lemma edges_dom:
  "edges_ok nodes \<Longrightarrow> valid_dir dir \<Longrightarrow> (a, b) \<in> edges nodes dir \<Longrightarrow> a \<in> dom nodes \<and> b \<in> dom nodes"
  using edges_ok_dom edges_ok_converse unfolding valid_dir_def by fastforce

lemma same_scc_reach:
  assumes "edges_ok nodes" and "valid_dir dir"
  shows "same_scc nodes x y \<longleftrightarrow> y \<in> reach nodes dir x \<and> x \<in> reach nodes dir y"
  using assms reach_converse [OF assms(1)] unfolding valid_dir_def same_scc_def
  by (auto simp: reach_def)

lemma comp_same: "same_scc nodes x y \<Longrightarrow> comp_of nodes x = comp_of nodes y"
  unfolding comp_of_def by (auto intro: same_scc_trans same_scc_sym)

lemma out_same: "same_scc nodes x y \<Longrightarrow> out_of nodes dir x = out_of nodes dir y"
  unfolding out_of_def using comp_same by metis

lemma comp_self: "x \<in> dom nodes \<Longrightarrow> x \<in> comp_of nodes x"
  by (simp add: comp_of_def)

lemma reach_same:
  assumes "edges_ok nodes" "valid_dir dir" "same_scc nodes x y"
  shows "reach nodes dir x = reach nodes dir y"
proof -
  have "y \<in> reach nodes dir x" "x \<in> reach nodes dir y"
    using assms(3) same_scc_reach [OF assms(1,2)] by blast+
  then show ?thesis by (blast intro: reach_trans)
qed

lemma comp_reach:
  assumes "edges_ok nodes" "valid_dir dir"
  shows "comp_of nodes x \<subseteq> reach nodes dir x"
  using same_scc_reach [OF assms] unfolding comp_of_def by blast

lemma reach_dom:
  assumes "edges_ok nodes" "valid_dir dir" "x \<in> dom nodes"
  shows "reach nodes dir x \<subseteq> dom nodes"
  by (rule closed_reach) (use assms edges_dom in blast)+

lemma out_of_facts:
  assumes "edges_ok nodes" "valid_dir dir" "x \<in> dom nodes" "t \<in> out_of nodes dir x"
  shows "t \<in> dom nodes" "\<not> same_scc nodes x t" "reach nodes dir t \<subset> reach nodes dir x"
    "\<exists>y \<in> out_of nodes (opposite dir) t. same_scc nodes x y"
proof -
  obtain y where y: "y \<in> comp_of nodes x" "(y, t) \<in> edges nodes dir" "t \<notin> comp_of nodes x"
    using assms(4) unfolding out_of_def by blast
  show dom: "t \<in> dom nodes" using edges_dom [OF assms(1,2) y(2)] by simp
  with y(3) show ns: "\<not> same_scc nodes x t" by (simp add: comp_of_def)
  have yx: "y \<in> reach nodes dir x" using y(1) comp_reach [OF assms(1,2)] by blast
  have t: "t \<in> reach nodes dir x" using reach_step [OF yx y(2)] .
  then have "reach nodes dir t \<subseteq> reach nodes dir x" by (blast intro: reach_trans)
  moreover have "x \<notin> reach nodes dir t" using ns t same_scc_reach [OF assms(1,2)] by blast
  ultimately show "reach nodes dir t \<subset> reach nodes dir x" using reach_refl by blast
  have "(t, y) \<in> edges nodes (opposite dir)"
    using y(2) edges_opposite [OF assms(1,2)] by simp
  moreover have "y \<notin> comp_of nodes t"
    using ns y(1) unfolding comp_of_def by (auto intro: same_scc_trans same_scc_sym)
  ultimately have "y \<in> out_of nodes (opposite dir) t"
    using comp_self [OF dom] unfolding out_of_def by blast
  with y(1) show "\<exists>y \<in> out_of nodes (opposite dir) t. same_scc nodes x y"
    by (auto simp: comp_of_def)
qed

lemma reach_unfold:
  assumes "edges_ok nodes" "valid_dir dir" "x \<in> dom nodes"
  shows "reach nodes dir x = comp_of nodes x \<union> (\<Union>t \<in> out_of nodes dir x. reach nodes dir t)"
proof
  show "comp_of nodes x \<union> (\<Union>t \<in> out_of nodes dir x. reach nodes dir t) \<subseteq> reach nodes dir x"
  proof -
    have "reach nodes dir t \<subseteq> reach nodes dir x" if "t \<in> out_of nodes dir x" for t
      using out_of_facts(3) [OF assms that] by blast
    then show ?thesis using comp_reach [OF assms(1,2), of x] by (intro Un_least UN_least)
  qed
  show "reach nodes dir x \<subseteq> comp_of nodes x \<union> (\<Union>t \<in> out_of nodes dir x. reach nodes dir t)"
  proof (rule closed_reach)
    show "x \<in> comp_of nodes x \<union> (\<Union>t \<in> out_of nodes dir x. reach nodes dir t)"
      using comp_self [OF assms(3)] by simp
    fix a b
    assume a: "a \<in> comp_of nodes x \<union> (\<Union>t \<in> out_of nodes dir x. reach nodes dir t)"
      and ab: "(a, b) \<in> edges nodes dir"
    show "b \<in> comp_of nodes x \<union> (\<Union>t \<in> out_of nodes dir x. reach nodes dir t)"
    proof (cases "a \<in> comp_of nodes x")
      case True
      then have "b \<in> comp_of nodes x \<or> b \<in> out_of nodes dir x"
        using ab unfolding out_of_def by blast
      then show ?thesis using reach_refl by blast
    next
      case False
      then obtain t where t: "t \<in> out_of nodes dir x" "a \<in> reach nodes dir t" using a by blast
      have "b \<in> reach nodes dir t" by (rule reach_step [OF t(2) ab])
      then show ?thesis using t(1) by blast
    qed
  qed
qed

section \<open>Grouped maps\<close>

text \<open>
  The keys of a map are the decimal texts of \<open>P\<close>; \<open>H x\<close> is the hash key of the group of \<open>x\<close>, and
  \<open>f x\<close> the value that the group shares.
\<close>

definition nkm_rep :: "(id \<Rightarrow> string) \<Rightarrow> id set \<Rightarrow> key_mgmt \<Rightarrow> (id \<Rightarrow> bitmap) \<Rightarrow> bool" where
  "nkm_rep H P nkm f \<longleftrightarrow> distinct (keys_of (k_keyMap nkm)) \<and> set (keys_of (k_keyMap nkm)) = Uint32ToStr ` P
     \<and> (\<forall>x \<in> P. map_of (k_keyMap nkm) (Uint32ToStr x) = Some (H x) \<and> k_data nkm (H x) = Some (f x))"

lemma nkm_rep_Get: "nkm_rep H P nkm f \<Longrightarrow> x \<in> P \<Longrightarrow> nkm_Get nkm (Uint32ToStr x) = Inr (f x)"
  by (simp add: nkm_rep_def nkm_Get_def)

lemma nkm_rep_group: "nkm_rep H P nkm f \<Longrightarrow> x \<in> P \<Longrightarrow> y \<in> P \<Longrightarrow> H x = H y \<Longrightarrow> f x = f y"
  unfolding nkm_rep_def by (metis option.inject)

lemma nkm_rep_Set:
  assumes "nkm_rep H P nkm f" and "x \<in> P"
  shows "nkm_rep H P (nkm_Set nkm (Uint32ToStr x) v) (\<lambda>y. if H y = H x then v else f y)"
  using assms unfolding nkm_rep_def by (auto simp: nkm_Set_def)

text \<open>Binding a new group and giving it a value.\<close>

lemma nkm_rep_bind:
  assumes rep: "nkm_rep H P nkm f" and ks: "ks \<noteq> []" "set ks \<inter> P = {}"
    and H: "\<And>x. x \<in> set ks \<Longrightarrow> H x = bind_hash sha (map Uint32ToStr ks)"
    and fresh: "\<And>x. x \<in> P \<Longrightarrow> H x \<noteq> bind_hash sha (map Uint32ToStr ks)"
    and f: "\<And>x. x \<in> set ks \<Longrightarrow> f x = v"
  shows "nkm_rep H (P \<union> set ks)
    (nkm_Set (fst (BindKeys sha nkm (map Uint32ToStr ks))) (hd (map Uint32ToStr ks)) v) f"
proof -
  let ?h = "bind_hash sha (map Uint32ToStr ks)"
  let ?bound = "fst (BindKeys sha nkm (map Uint32ToStr ks))"
  let ?m = "fold (\<lambda>k. AList.update k ?h) (map Uint32ToStr ks) (k_keyMap nkm)"
  have bound: "k_keyMap ?bound = ?m" "k_data ?bound = k_data nkm"
    by (simp_all add: BindKeys_def Let_def)
  have m: "map_of ?m x = (if x \<in> Uint32ToStr ` set ks then Some ?h else map_of (k_keyMap nkm) x)" for x
    by (simp add: fold_update_same)
  have "hd (map Uint32ToStr ks) \<in> Uint32ToStr ` set ks" using ks(1) by (cases ks) auto
  then have new: "nkm_Set ?bound (hd (map Uint32ToStr ks)) v
      = ?bound\<lparr>k_data := (k_data nkm)(?h \<mapsto> v)\<rparr>"
    using m bound by (simp add: nkm_Set_def)
  have "set (keys_of ?m) = Uint32ToStr ` (P \<union> set ks)"
    unfolding fold_update_same_keys using rep by (auto simp: nkm_rep_def)
  moreover have "distinct (keys_of ?m)"
    by (rule fold_update_same_distinct) (use rep in \<open>simp add: nkm_rep_def\<close>)
  moreover have "map_of ?m (Uint32ToStr x) = Some (H x) \<and> ((k_data nkm)(?h \<mapsto> v)) (H x) = Some (f x)"
    if "x \<in> P \<union> set ks" for x
  proof (cases "x \<in> set ks")
    case True
    then show ?thesis using H f m by auto
  next
    case False
    then have "x \<in> P" using that by blast
    with False fresh rep m show ?thesis by (auto simp: nkm_rep_def)
  qed
  ultimately show ?thesis unfolding new nkm_rep_def using bound by simp
qed

lemma group_bitmaps_ok:
  assumes "\<And>i. i \<in> set ks \<Longrightarrow> \<exists>n. nodes i = Some n \<and> n_ID n = i"
  shows "group_bitmaps nodes (map Uint32ToStr ks) (c, p, k) =
    Inr (c \<union> edges nodes ChildrenDirection `` set ks, p \<union> edges nodes ParentsDirection `` set ks, k \<union> set ks)"
  using assms
proof (induction ks arbitrary: c p k)
  case Nil
  then show ?case by simp
next
  case (Cons i ks)
  have "\<exists>n. nodes i = Some n \<and> n_ID n = i" using Cons.prems by simp
  then obtain n where n: "nodes i = Some n" "n_ID n = i" by blast
  have e: "edges nodes ChildrenDirection `` set (i # ks) = n_Children n \<union> edges nodes ChildrenDirection `` set ks"
    "edges nodes ParentsDirection `` set (i # ks) = n_Parents n \<union> edges nodes ParentsDirection `` set ks"
    using n(1) by (auto simp: edges_children edges_parents Image_iff)
  have "group_bitmaps nodes (map Uint32ToStr ks) (c \<union> n_Children n, p \<union> n_Parents n, insert i (insert i k)) =
    Inr (c \<union> n_Children n \<union> edges nodes ChildrenDirection `` set ks,
      p \<union> n_Parents n \<union> edges nodes ParentsDirection `` set ks, insert i (insert i k) \<union> set ks)"
    using Cons by (intro Cons.IH) auto
  with n show ?case unfolding e by (simp add: Un_assoc)
qed

section \<open>Binding the components\<close>

definition ids_with :: "(id \<times> id) list \<Rightarrow> id \<Rightarrow> id list" where
  "ids_with xs v = map fst (filter (\<lambda>p. snd p = v) xs)"

lemma group_keys_spec:
  "map_of (group_keys xs acc) v =
     (if ids_with xs v = [] then map_of acc v
      else Some ((case map_of acc v of None \<Rightarrow> [] | Some l \<Rightarrow> l) @ map Uint32ToStr (ids_with xs v)))"
proof (induction xs arbitrary: acc)
  case Nil
  then show ?case by (simp add: ids_with_def)
next
  case (Cons p xs)
  obtain k u where p: "p = (k, u)" by force
  show ?case
    by (cases "u = v") (auto simp: p Cons.IH ids_with_def split: option.splits)
qed

lemma group_keys_distinct:
  "distinct (keys_of acc) \<Longrightarrow> distinct (keys_of (group_keys xs acc))"
  by (induction xs acc rule: group_keys.induct) (auto split: option.splits)

lemma group_keys_entry:
  "(v, keys) \<in> set (group_keys xs []) \<longleftrightarrow> ids_with xs v \<noteq> [] \<and> keys = map Uint32ToStr (ids_with xs v)"
proof -
  have "(v, keys) \<in> set (group_keys xs []) \<longleftrightarrow> map_of (group_keys xs []) v = Some keys"
    using group_keys_distinct [where acc = "[]" and xs = xs] by simp
  then show ?thesis unfolding group_keys_spec by auto
qed

text \<open>
  One group after the other: \<open>cl x\<close> is the number of the component of \<open>x\<close>, \<open>I v\<close> its members in the
  order of the keys.
\<close>

lemma bind_groups_ok:
  assumes members: "\<And>x v. x \<in> set (I v) \<longleftrightarrow> x \<in> dom nodes \<and> cl x = v"
    and ids: "\<And>i n. nodes i = Some n \<Longrightarrow> n_ID n = i"
    and inj: "inj_on (\<lambda>v. bind_hash sha (map Uint32ToStr (I v))) (cl ` dom nodes)"
    and H: "\<And>x. H x = bind_hash sha (map Uint32ToStr (I (cl x)))"
    and f: "\<And>x. f x = set (I (cl x))"
      "\<And>x. fc x = edges nodes ChildrenDirection `` set (I (cl x)) - set (I (cl x))"
      "\<And>x. fp x = edges nodes ParentsDirection `` set (I (cl x)) - set (I (cl x))"
    and groups: "\<And>v keys. (v, keys) \<in> set GS \<Longrightarrow> I v \<noteq> [] \<and> keys = map Uint32ToStr (I v)"
      "distinct (map fst GS)" "fst ` set GS \<inter> V = {}"
    and rep: "nkm_rep H {x \<in> dom nodes. cl x \<in> V} (b_cache bm) f"
      "nkm_rep H {x \<in> dom nodes. cl x \<in> V} (b_children bm) fc"
      "nkm_rep H {x \<in> dom nodes. cl x \<in> V} (b_parents bm) fp"
  shows "\<exists>bm'. bind_groups sha nodes GS bm = Inr bm'
    \<and> nkm_rep H {x \<in> dom nodes. cl x \<in> V \<union> fst ` set GS} (b_cache bm') f
    \<and> nkm_rep H {x \<in> dom nodes. cl x \<in> V \<union> fst ` set GS} (b_children bm') fc
    \<and> nkm_rep H {x \<in> dom nodes. cl x \<in> V \<union> fst ` set GS} (b_parents bm') fp"
  using groups rep
proof (induction GS arbitrary: V bm)
  case Nil
  then show ?case by auto
next
  case (Cons g GS)
  obtain v where g: "g = (v, map Uint32ToStr (I v))" and ne: "I v \<noteq> []"
    using Cons.prems(1) [of "fst g" "snd g"] by (cases g) auto
  let ?P = "{x \<in> dom nodes. cl x \<in> V}" and ?ks = "map Uint32ToStr (I v)"
  have P': "?P \<union> set (I v) = {x \<in> dom nodes. cl x \<in> insert v V}" using members by auto
  have vV: "v \<notin> V" using Cons.prems(3) g by auto
  have disj: "set (I v) \<inter> ?P = {}" using members vV by auto
  have Hv: "H x = bind_hash sha ?ks" if "x \<in> set (I v)" for x using that members H by simp
  have "hd (I v) \<in> dom nodes \<and> cl (hd (I v)) = v" using members hd_in_set [OF ne] by blast
  then have v: "v \<in> cl ` dom nodes" by (intro image_eqI [of _ _ "hd (I v)"]) simp_all
  have fresh: "H x \<noteq> bind_hash sha ?ks" if "x \<in> ?P" for x
  proof
    assume "H x = bind_hash sha ?ks"
    then have "cl x = v" using inj that v H unfolding inj_on_def by auto
    with that vV show False by simp
  qed
  have "\<exists>n. nodes i = Some n \<and> n_ID n = i" if "i \<in> set (I v)" for i
    using that members ids by blast
  note bits = group_bitmaps_ok [of "I v" nodes "{}" "{}" "{}", OF this]
  have vals: "f x = set (I v)" "fc x = edges nodes ChildrenDirection `` set (I v) - set (I v)"
    "fp x = edges nodes ParentsDirection `` set (I v) - set (I v)" if "x \<in> set (I v)" for x
    using that members f by auto
  let ?bm = "\<lparr>b_cache = nkm_Set (fst (BindKeys sha (b_cache bm) ?ks)) (hd ?ks) (set (I v)),
    b_children = nkm_Set (fst (BindKeys sha (b_children bm) ?ks)) (hd ?ks)
      (edges nodes ChildrenDirection `` set (I v) - set (I v)),
    b_parents = nkm_Set (fst (BindKeys sha (b_parents bm) ?ks)) (hd ?ks)
      (edges nodes ParentsDirection `` set (I v) - set (I v))\<rparr>"
  have run: "bind_group sha nodes ?ks bm = Inr ?bm"
    using ne bits by (simp add: bind_group_def Let_def)
  have reps: "nkm_rep H (?P \<union> set (I v)) (b_cache ?bm) f"
    using nkm_rep_bind [OF Cons.prems(4) ne disj Hv fresh vals(1)] by simp
  have reps2: "nkm_rep H (?P \<union> set (I v)) (b_children ?bm) fc"
    using nkm_rep_bind [OF Cons.prems(5) ne disj Hv fresh vals(2)] by simp
  have reps3: "nkm_rep H (?P \<union> set (I v)) (b_parents ?bm) fp"
    using nkm_rep_bind [OF Cons.prems(6) ne disj Hv fresh vals(3)] by simp
  have "\<exists>bm'. bind_groups sha nodes GS ?bm = Inr bm'
    \<and> nkm_rep H {x \<in> dom nodes. cl x \<in> insert v V \<union> fst ` set GS} (b_cache bm') f
    \<and> nkm_rep H {x \<in> dom nodes. cl x \<in> insert v V \<union> fst ` set GS} (b_children bm') fc
    \<and> nkm_rep H {x \<in> dom nodes. cl x \<in> insert v V \<union> fst ` set GS} (b_parents bm') fp"
  proof (rule Cons.IH)
    show "I u \<noteq> [] \<and> keys = map Uint32ToStr (I u)" if "(u, keys) \<in> set GS" for u keys
      by (rule Cons.prems(1)) (use that in simp)
    show "distinct (map fst GS)" using Cons.prems(2) by simp
    show "fst ` set GS \<inter> insert v V = {}" using Cons.prems(2,3) g by auto
  qed (rule reps [unfolded P'] reps2 [unfolded P'] reps3 [unfolded P'])+
  moreover have "insert v V \<union> fst ` set GS = V \<union> fst ` set (g # GS)" using g by auto
  ultimately show ?case using run g by simp
qed

text \<open>
  What the code expects of SHA-256: two components of this graph, listed in whatever order, never
  share a hash key.
\<close>

definition no_collision :: "(string \<Rightarrow> string) \<Rightarrow> (id \<rightharpoonup> node) \<Rightarrow> bool" where
  "no_collision sha nodes \<longleftrightarrow>
     (\<forall>ks ks'. distinct ks \<longrightarrow> distinct ks' \<longrightarrow> set ks \<subseteq> dom nodes \<longrightarrow> set ks' \<subseteq> dom nodes \<longrightarrow>
        bind_hash sha (map Uint32ToStr ks) = bind_hash sha (map Uint32ToStr ks') \<longrightarrow> set ks = set ks')"

lemma addCycles_ok:
  assumes ro: "range_ok ro" and ids: "\<And>i n. nodes i = Some n \<Longrightarrow> n_ID n = i"
    and scc: "distinct (keys_of scc)" "set (keys_of scc) = dom nodes"
      "\<And>x y. x \<in> dom nodes \<Longrightarrow> y \<in> dom nodes \<Longrightarrow> map_of scc x = map_of scc y \<longleftrightarrow> same_scc nodes x y"
    and sha: "no_collision sha nodes"
  shows "\<exists>bm H. addCyclesToBindMap ro k sha scc empty_maps nodes = Inr bm
    \<and> (\<forall>x \<in> dom nodes. \<forall>y \<in> dom nodes. H x = H y \<longleftrightarrow> same_scc nodes x y)
    \<and> nkm_rep H (dom nodes) (b_cache bm) (comp_of nodes)
    \<and> nkm_rep H (dom nodes) (b_children bm) (out_of nodes ChildrenDirection)
    \<and> nkm_rep H (dom nodes) (b_parents bm) (out_of nodes ParentsDirection)"
proof -
  let ?xs = "go_range ro k scc"
  let ?I = "ids_with ?xs" and ?cl = "\<lambda>x. the (map_of scc x)"
  let ?H = "\<lambda>x. bind_hash sha (map Uint32ToStr (?I (?cl x)))"
  let ?GS = "go_range ro (k + 1) (group_keys ?xs [])"
  have xs: "set ?xs = set scc" "distinct (keys_of ?xs)"
    using ro scc(1) by (simp_all add: distinct_keys_go_range)
  have some: "map_of scc x = Some (?cl x)" if "x \<in> dom nodes" for x
    using that scc(2) by (metis dom_map_of_keys domIff option.collapse)
  have members: "x \<in> set (?I v) \<longleftrightarrow> x \<in> dom nodes \<and> ?cl x = v" for x v
  proof -
    have "x \<in> set (?I v) \<longleftrightarrow> (x, v) \<in> set scc" by (force simp: ids_with_def xs(1))
    also have "\<dots> \<longleftrightarrow> map_of scc x = Some v" using scc(1) by simp
    also have "\<dots> \<longleftrightarrow> x \<in> dom nodes \<and> ?cl x = v"
      using some [of x] scc(2) dom_map_of_keys [of scc] by (metis domI option.inject)
    finally show ?thesis .
  qed
  have cl: "?cl x = ?cl y \<longleftrightarrow> same_scc nodes x y" if "x \<in> dom nodes" "y \<in> dom nodes" for x y
    using scc(3) [OF that] some [OF that(1)] some [OF that(2)] by (metis option.sel)
  have comp: "set (?I (?cl x)) = comp_of nodes x" if "x \<in> dom nodes" for x
  proof (rule set_eqI)
    fix y
    show "y \<in> set (?I (?cl x)) \<longleftrightarrow> y \<in> comp_of nodes x"
      unfolding members comp_of_def mem_Collect_eq using cl [OF that, of y] by metis
  qed
  have dist: "distinct (?I v)" for v
    unfolding ids_with_def using xs(2) by (rule distinct_map_filter)
  have inj: "inj_on (\<lambda>v. bind_hash sha (map Uint32ToStr (?I v))) (?cl ` dom nodes)"
  proof (rule inj_onI)
    fix u v assume uv: "u \<in> ?cl ` dom nodes" "v \<in> ?cl ` dom nodes"
      "bind_hash sha (map Uint32ToStr (?I u)) = bind_hash sha (map Uint32ToStr (?I v))"
    then have "set (?I u) = set (?I v)"
      using sha dist members unfolding no_collision_def by (metis subsetI)
    moreover obtain x where "x \<in> dom nodes" "u = ?cl x" using uv(1) by blast
    ultimately show "u = v" using members by metis
  qed
  have groups: "?I v \<noteq> [] \<and> keys = map Uint32ToStr (?I v)" if "(v, keys) \<in> set ?GS" for v keys
    using that ro group_keys_entry by simp
  have "distinct (keys_of ?GS)" using ro group_keys_distinct [where acc = "[]"] by (simp add: distinct_keys_go_range)
  have empty: "nkm_rep ?H {x \<in> dom nodes. ?cl x \<in> {}} NewNativeKeyManagement f" for f
    by (simp add: nkm_rep_def NewNativeKeyManagement_def)
  have "\<exists>bm'. bind_groups sha nodes ?GS empty_maps = Inr bm'
    \<and> nkm_rep ?H {x \<in> dom nodes. ?cl x \<in> {} \<union> fst ` set ?GS} (b_cache bm') (\<lambda>x. set (?I (?cl x)))
    \<and> nkm_rep ?H {x \<in> dom nodes. ?cl x \<in> {} \<union> fst ` set ?GS} (b_children bm')
        (\<lambda>x. edges nodes ChildrenDirection `` set (?I (?cl x)) - set (?I (?cl x)))
    \<and> nkm_rep ?H {x \<in> dom nodes. ?cl x \<in> {} \<union> fst ` set ?GS} (b_parents bm')
        (\<lambda>x. edges nodes ParentsDirection `` set (?I (?cl x)) - set (?I (?cl x)))"
    by (rule bind_groups_ok [OF members ids inj refl refl refl refl groups])
       (use \<open>distinct (keys_of ?GS)\<close> empty in \<open>simp_all add: empty_maps_def\<close>)
  moreover have "{x \<in> dom nodes. ?cl x \<in> {} \<union> fst ` set ?GS} = dom nodes"
  proof -
    have "?cl x \<in> fst ` set ?GS" if "x \<in> dom nodes" for x
    proof -
      have "?I (?cl x) \<noteq> []" using members [of x "?cl x"] that by auto
      then have "(?cl x, map Uint32ToStr (?I (?cl x))) \<in> set ?GS" using ro group_keys_entry by simp
      then show ?thesis by force
    qed
    then show ?thesis by auto
  qed
  ultimately obtain bm where bm: "bind_groups sha nodes ?GS empty_maps = Inr bm"
    "nkm_rep ?H (dom nodes) (b_cache bm) (\<lambda>x. set (?I (?cl x)))"
    "nkm_rep ?H (dom nodes) (b_children bm)
        (\<lambda>x. edges nodes ChildrenDirection `` set (?I (?cl x)) - set (?I (?cl x)))"
    "nkm_rep ?H (dom nodes) (b_parents bm)
        (\<lambda>x. edges nodes ParentsDirection `` set (?I (?cl x)) - set (?I (?cl x)))" by auto
  have "?H x = ?H y \<longleftrightarrow> same_scc nodes x y" if "x \<in> dom nodes" "y \<in> dom nodes" for x y
    using inj_onD [OF inj, of "?cl x" "?cl y"] that cl [OF that] by auto
  moreover have "nkm_rep ?H (dom nodes) (b_cache bm) (comp_of nodes)"
    "nkm_rep ?H (dom nodes) (b_children bm) (out_of nodes ChildrenDirection)"
    "nkm_rep ?H (dom nodes) (b_parents bm) (out_of nodes ParentsDirection)"
    using bm(2-4) comp unfolding nkm_rep_def out_of_def by auto
  ultimately show ?thesis
    using bm(1) unfolding addCyclesToBindMap_def by (intro exI [of _ bm] exI [of _ ?H]) auto
qed

end
