(* ===== verification/Store_Interface.thy ===== *)
theory Store_Interface
  imports Graph_Ops
begin

text \<open>
  The contract of a storage back end as a locale, and what the graph operations do on any back end
  that keeps it; two extensions, for back ends that recompute what they drop and for the search by
  pattern. The back ends (\<open>MockStorage\<close>, \<open>SQLStorage\<close>, \<open>RedisStorage\<close>) interpret the locales in their
  own theories.
\<close>

section \<open>Collecting what is found\<close>

text \<open>The loops that collect the entries found for a list of identifiers into a new map.\<close>

fun collect_found :: "(id \<rightharpoonup> 'a) \<Rightarrow> id list \<Rightarrow> (id \<times> 'a) list \<Rightarrow> (id \<times> 'a) list" where
  "collect_found f [] acc = acc"
| "collect_found f (i # ids) acc =
     (case f i of
        None \<Rightarrow> collect_found f ids acc
      | Some x \<Rightarrow> collect_found f ids (AList.update i x acc))"

lemma collect_found_map: "map_of (collect_found f ids acc) = map_of acc ++ (f |` set ids)"
  by (induction ids arbitrary: acc)
     (auto simp: fun_eq_iff map_add_def restrict_map_def split: option.splits)

lemma collect_found_distinct:
  "distinct (keys_of acc) \<Longrightarrow> distinct (keys_of (collect_found f ids acc))"
  by (induction ids arbitrary: acc) (auto split: option.splits)

section \<open>The contract\<close>

text \<open>
  The node that \<open>AddNode\<close> creates. In the locale, \<open>wf\<close> says that the back end answers and its state is consistent, \<open>abs\<close> what graph it holds, and
  \<open>norm\<close> how a saved node is read back (metadata go through JSON in the databases).
\<close>

definition new_node :: "string \<Rightarrow> metadata \<Rightarrow> string \<Rightarrow> id \<Rightarrow> node" where
  "new_node ty meta name i =
     \<lparr>n_Metadata = meta, n_Children = {}, n_Parents = {}, n_Type = ty, n_Name = name,
      n_ChildData = '''', n_ParentData = '''', n_ID = i\<rparr>"

text \<open>
  The tags under which custom data can be kept apart from everything else in every back end: two of
  them join tag and key with a colon, and Redis keeps the graph in the same key space.
\<close>

definition tag_ok :: "string \<Rightarrow> bool" where
  "tag_ok tag \<longleftrightarrow> CHR '':'' \<notin> set tag \<and> tag \<noteq> ''node'' \<and> tag \<noteq> ''name_to_id'' \<and> tag \<noteq> ''cache''"

locale graph_store =
  fixes st :: "'s storage"
    and wf :: "'s \<Rightarrow> bool"
    and abs :: "'s \<Rightarrow> gstate"
    and norm :: "node \<Rightarrow> node"
  assumes norm_simps:
      "n_ID (norm n) = n_ID n" "n_Name (norm n) = n_Name n" "n_Type (norm n) = n_Type n"
      "n_Children (norm n) = n_Children n" "n_Parents (norm n) = n_Parents n"
    and norm_edit: "norm (n\<lparr>n_Children := cb, n_Parents := pb\<rparr>) = (norm n)\<lparr>n_Children := cb, n_Parents := pb\<rparr>"
    and norm_stored: "wf s \<Longrightarrow> g_nodes (abs s) i = Some n \<Longrightarrow> norm n = n"
    and NameToID_Some: "wf s \<Longrightarrow> g_names (abs s) x = Some i \<Longrightarrow> st_NameToID st s x = Inr i"
    and NameToID_None:
      "wf s \<Longrightarrow> g_names (abs s) x = None \<Longrightarrow> \<exists>e. st_NameToID st s x = Inl e \<and> \<not> is_panic e"
    and SaveNode: "wf s \<Longrightarrow> \<exists>s'. st_SaveNode st s n = (s', Inr ()) \<and> wf s' \<and>
      abs s' = (abs s)\<lparr>g_nodes := (g_nodes (abs s))(n_ID n \<mapsto> norm n),
                       g_names := (g_names (abs s))(n_Name n \<mapsto> n_ID n),
                       g_pending := insert (n_ID n) (g_pending (abs s))\<rparr>"
    and GetNode_Some: "wf s \<Longrightarrow> g_nodes (abs s) i = Some n \<Longrightarrow> st_GetNode st s i = Inr n"
    and GetNode_None:
      "wf s \<Longrightarrow> g_nodes (abs s) i = None \<Longrightarrow> \<exists>e. st_GetNode st s i = Inl e \<and> \<not> is_panic e"
    and GetNodes: "wf s \<Longrightarrow> \<exists>al. st_GetNodes st s is = Inr al \<and> distinct (keys_of al) \<and>
      map_of al = g_nodes (abs s) |` set is"
    and GetAllKeys: "wf s \<Longrightarrow> \<exists>ks. st_GetAllKeys st s = Inr ks \<and> distinct ks \<and>
      set ks = dom (g_nodes (abs s))"
    and SaveCache: "wf s \<Longrightarrow> \<exists>s'. st_SaveCache st s c = (s', Inr ()) \<and> wf s' \<and>
      abs s' = (abs s)\<lparr>g_caches := (g_caches (abs s))(c_ID c \<mapsto> c)\<rparr>"
    and SaveCaches: "wf s \<Longrightarrow> \<exists>s'. st_SaveCaches st s cs = (s', Inr ()) \<and> wf s' \<and>
      abs s' = (abs s)\<lparr>g_caches := g_caches (abs s) ++ map_of (rev (map (\<lambda>c. (c_ID c, c)) cs))\<rparr>"
    and RemoveAllCaches: "wf s \<Longrightarrow> \<exists>s' p. st_RemoveAllCaches st s = (s', Inr ()) \<and> wf s' \<and>
      abs s' = (abs s)\<lparr>g_caches := Map.empty, g_pending := p\<rparr> \<and> g_pending (abs s) \<subseteq> p"
    and ToBeCached: "wf s \<Longrightarrow> \<exists>ks. st_ToBeCached st s = Inr ks \<and> set ks = g_pending (abs s)"
    and AddNodeToCachedStack: "wf s \<Longrightarrow> i \<notin> g_pending (abs s) \<Longrightarrow>
      \<exists>s'. st_AddNodeToCachedStack st s i = (s', Inr ()) \<and> wf s' \<and>
      abs s' = (abs s)\<lparr>g_pending := insert i (g_pending (abs s))\<rparr>"
    and GetCache_Some: "wf s \<Longrightarrow> g_caches (abs s) i = Some c \<Longrightarrow> st_GetCache st s i = Inr (Some c)"
    and GetCaches: "wf s \<Longrightarrow> \<exists>al. st_GetCaches st s is = Inr al \<and> distinct (keys_of al) \<and>
      map_of al = g_caches (abs s) |` set is"
    and ClearCacheStack: "wf s \<Longrightarrow> \<exists>s'. st_ClearCacheStack st s = (s', Inr ()) \<and> wf s' \<and>
      abs s' = (abs s)\<lparr>g_pending := {}\<rparr>"
    and GenerateID: "wf s \<Longrightarrow> Suc (g_next (abs s)) < 4294967296 \<Longrightarrow>
      \<exists>s'. st_GenerateID st s = (s', Inr (of_nat (Suc (g_next (abs s))))) \<and> wf s' \<and>
      abs s' = (abs s)\<lparr>g_next := Suc (g_next (abs s))\<rparr>"
    and AddOrUpdateCustomData: "wf s \<Longrightarrow> tag_ok tag \<Longrightarrow>
      \<exists>s'. st_AddOrUpdateCustomData st s tag k dk v = (s', Inr ()) \<and> wf s' \<and>
      abs s' = (abs s)\<lparr>g_custom := (g_custom (abs s))((tag, k) := (g_custom (abs s) (tag, k))(dk \<mapsto> v))\<rparr>"
    and GetCustomData: "wf s \<Longrightarrow> tag_ok tag \<Longrightarrow>
      (\<exists>al. st_GetCustomData st s tag k = Inr al \<and> distinct (keys_of al) \<and> map_of al = g_custom (abs s) (tag, k))
      \<or> (g_custom (abs s) (tag, k) = Map.empty \<and> (\<exists>e. st_GetCustomData st s tag k = Inl e \<and> \<not> is_panic e))"
    and GetCache_None: "wf s \<Longrightarrow> g_caches (abs s) i = None \<Longrightarrow>
      st_GetCache st s i = Inr None \<or> (\<exists>e. st_GetCache st s i = Inl e \<and> \<not> is_panic e)"
begin

section \<open>Adding nodes and edges\<close>

text \<open>A node whose name is known is returned as it is stored, and nothing changes.\<close>

lemma AddNode_known:
  assumes "wf s" and "graph_ok (abs s)" and "g_names (abs s) name = Some i"
  shows "\<exists>n. AddNode st s ty meta name = (s, Inr n) \<and> g_nodes (abs s) i = Some n \<and> n_Name n = name"
proof -
  from assms obtain n where "g_nodes (abs s) i = Some n" "n_Name n = name"
    unfolding graph_ok_def names_ok_def by blast
  then show ?thesis
    by (simp add: AddNode_def NameToID_Some [OF assms(1,3)] GetNode_Some [OF assms(1)])
qed

text \<open>A new name gets the next identifier, a node without edges, and an empty cache entry.\<close>

lemma AddNode_new:
  assumes "wf s" and "g_names (abs s) name = None" and "Suc (g_next (abs s)) < 4294967296"
  shows "\<exists>s' i. i = of_nat (Suc (g_next (abs s)))
    \<and> AddNode st s ty meta name = (s', Inr (new_node ty meta name i)) \<and> wf s'
    \<and> abs s' = (abs s)\<lparr>g_nodes := (g_nodes (abs s))(i \<mapsto> norm (new_node ty meta name i)),
         g_names := (g_names (abs s))(name \<mapsto> i),
         g_caches := (g_caches (abs s))(i \<mapsto> NewNodeCache i {} {}),
         g_pending := insert i (g_pending (abs s)),
         g_next := Suc (g_next (abs s))\<rparr>"
proof -
  let ?i = "of_nat (Suc (g_next (abs s))) :: id"
  let ?n = "new_node ty meta name ?i"
  obtain e where e: "st_NameToID st s name = Inl e" "\<not> is_panic e"
    using NameToID_None [OF assms(1,2)] by blast
  obtain s1 where s1: "st_GenerateID st s = (s1, Inr ?i)" "wf s1"
    "abs s1 = (abs s)\<lparr>g_next := Suc (g_next (abs s))\<rparr>"
    using GenerateID [OF assms(1,3)] by blast
  obtain s2 where s2: "st_SaveNode st s1 ?n = (s2, Inr ())" "wf s2"
    "abs s2 = (abs s1)\<lparr>g_nodes := (g_nodes (abs s1))(n_ID ?n \<mapsto> norm ?n),
       g_names := (g_names (abs s1))(n_Name ?n \<mapsto> n_ID ?n),
       g_pending := insert (n_ID ?n) (g_pending (abs s1))\<rparr>"
    using SaveNode [OF s1(2)] by blast
  obtain s3 where s3: "st_SaveCache st s2 (NewNodeCache ?i {} {}) = (s3, Inr ())" "wf s3"
    "abs s3 = (abs s2)\<lparr>g_caches := (g_caches (abs s2))(?i \<mapsto> NewNodeCache ?i {} {})\<rparr>"
    using SaveCache [OF s2(2), of "NewNodeCache ?i {} {}"] by auto
  have "AddNode st s ty meta name = (s3, Inr ?n)"
    using e s1(1) s2(1) s3(1)
    by (simp add: AddNode_def Let_def new_node_def NewNodeCache_def)
  then show ?thesis
    using s3(2,3) s2(3) s1(3) by (auto simp: new_node_def)
qed

lemma AddNode_graph_ok:
  assumes "wf s" and "graph_ok (abs s)" and "Suc (g_next (abs s)) < 4294967296"
  shows "\<exists>s' n. AddNode st s ty meta name = (s', Inr n) \<and> wf s' \<and> graph_ok (abs s')
    \<and> g_names (abs s') name = Some (n_ID n) \<and> n_Name n = name"
proof (cases "g_names (abs s) name")
  case (Some i)
  with AddNode_known [OF assms(1,2), of name i ty meta] obtain n where
    "AddNode st s ty meta name = (s, Inr n)" "g_nodes (abs s) i = Some n" "n_Name n = name" by blast
  with assms Some show ?thesis unfolding graph_ok_def names_ok_def by auto
next
  case None
  let ?i = "of_nat (Suc (g_next (abs s))) :: id"
  let ?n = "new_node ty meta name ?i"
  obtain s' where s': "AddNode st s ty meta name = (s', Inr ?n)" "wf s'"
    "abs s' = (abs s)\<lparr>g_nodes := (g_nodes (abs s))(?i \<mapsto> norm ?n),
       g_names := (g_names (abs s))(name \<mapsto> ?i),
       g_caches := (g_caches (abs s))(?i \<mapsto> NewNodeCache ?i {} {}),
       g_pending := insert ?i (g_pending (abs s)), g_next := Suc (g_next (abs s))\<rparr>"
    using AddNode_new [OF assms(1) None assms(3)] by blast
  have "graph_ok (abs s')"
    unfolding s'(3)
    using graph_ok_new_node [OF assms(2) _ assms(3), of "norm ?n" ?i] None
    by (simp add: norm_simps new_node_def)
  with s' show ?thesis by (auto simp: new_node_def)
qed

text \<open>
  An edge between two nodes as they are read back: both ends are saved, whatever the storage held for
  them before.
\<close>

lemma norm_children: "norm (n\<lparr>n_Children := cb\<rparr>) = (norm n)\<lparr>n_Children := cb\<rparr>"
  using norm_edit [where n = n and cb = cb and pb = "n_Parents n"] by (simp add: norm_simps)

lemma norm_parents: "norm (n\<lparr>n_Parents := pb\<rparr>) = (norm n)\<lparr>n_Parents := pb\<rparr>"
  using norm_edit [where n = n and cb = "n_Children n" and pb = pb] by (simp add: norm_simps)

lemma SetDependency_writes:
  assumes "wf s" and "n_ID x \<noteq> n_ID y"
  shows "\<exists>s' x' y'. SetDependency (Some st) s (Some x) (Some y) = ((s', Some x', Some y'), Inr ())
    \<and> wf s'
    \<and> x' = x\<lparr>n_Children := insert (n_ID y) (n_Children x)\<rparr>
    \<and> y' = y\<lparr>n_Parents := insert (n_ID x) (n_Parents y)\<rparr>
    \<and> abs s' = (abs s)\<lparr>g_nodes := link_nodes (g_nodes (abs s)) (norm x) (norm y),
         g_names := (g_names (abs s))(n_Name x \<mapsto> n_ID x, n_Name y \<mapsto> n_ID y),
         g_pending := insert (n_ID y) (insert (n_ID x) (g_pending (abs s)))\<rparr>"
proof -
  let ?x = "x\<lparr>n_Children := insert (n_ID y) (n_Children x)\<rparr>"
  let ?y = "y\<lparr>n_Parents := insert (n_ID x) (n_Parents y)\<rparr>"
  obtain s1 where s1: "st_SaveNode st s ?x = (s1, Inr ())" "wf s1"
    "abs s1 = (abs s)\<lparr>g_nodes := (g_nodes (abs s))(n_ID ?x \<mapsto> norm ?x),
       g_names := (g_names (abs s))(n_Name ?x \<mapsto> n_ID ?x),
       g_pending := insert (n_ID ?x) (g_pending (abs s))\<rparr>"
    using SaveNode [OF assms(1)] by blast
  obtain s2 where s2: "st_SaveNode st s1 ?y = (s2, Inr ())" "wf s2"
    "abs s2 = (abs s1)\<lparr>g_nodes := (g_nodes (abs s1))(n_ID ?y \<mapsto> norm ?y),
       g_names := (g_names (abs s1))(n_Name ?y \<mapsto> n_ID ?y),
       g_pending := insert (n_ID ?y) (g_pending (abs s1))\<rparr>"
    using SaveNode [OF s1(2)] by blast
  have "SetDependency (Some st) s (Some x) (Some y) = ((s2, Some ?x, Some ?y), Inr ())"
    using assms(2) s1(1) s2(1) by (simp add: SetDependency_def Let_def)
  moreover have "abs s2 = (abs s)\<lparr>g_nodes := link_nodes (g_nodes (abs s)) (norm x) (norm y),
      g_names := (g_names (abs s))(n_Name x \<mapsto> n_ID x, n_Name y \<mapsto> n_ID y),
      g_pending := insert (n_ID y) (insert (n_ID x) (g_pending (abs s)))\<rparr>"
    unfolding s2(3) s1(3) link_nodes_def norm_children norm_parents norm_simps by simp
  ultimately show ?thesis using s2(2) by blast
qed

lemma SetDependency_saves:
  assumes "wf s" and "norm x = x" "norm y = y" "n_ID x \<noteq> n_ID y"
  shows "\<exists>s' x' y'. SetDependency (Some st) s (Some x) (Some y) = ((s', Some x', Some y'), Inr ())
    \<and> wf s'
    \<and> x' = x\<lparr>n_Children := insert (n_ID y) (n_Children x)\<rparr>
    \<and> y' = y\<lparr>n_Parents := insert (n_ID x) (n_Parents y)\<rparr>
    \<and> abs s' = (abs s)\<lparr>g_nodes := link_nodes (g_nodes (abs s)) x y,
         g_names := (g_names (abs s))(n_Name x \<mapsto> n_ID x, n_Name y \<mapsto> n_ID y),
         g_pending := insert (n_ID y) (insert (n_ID x) (g_pending (abs s)))\<rparr>"
  using SetDependency_writes [OF assms(1,4)] unfolding assms(2,3) .

text \<open>
  An edge between two nodes that are, up to JSON, what the storage holds: the graph gains the edge and
  stays consistent; identifiers, names, types and the other nodes are kept.
\<close>

lemma SetDependency_links:
  assumes wf: "wf s" and ok: "graph_ok (abs s)" and "a \<noteq> b"
    and x: "g_nodes (abs s) a = Some (norm x)" and y: "g_nodes (abs s) b = Some (norm y)"
  shows "\<exists>s' x' y'. SetDependency (Some st) s (Some x) (Some y) = ((s', Some x', Some y'), Inr ())
    \<and> wf s' \<and> graph_ok (abs s')
    \<and> edges (g_nodes (abs s')) ChildrenDirection
       = insert (a, b) (edges (g_nodes (abs s)) ChildrenDirection)
    \<and> g_nodes (abs s') = link_nodes (g_nodes (abs s)) (norm x) (norm y)
    \<and> g_names (abs s') = g_names (abs s) \<and> g_next (abs s') = g_next (abs s)
    \<and> g_pending (abs s') = insert a (insert b (g_pending (abs s)))
    \<and> g_nodes (abs s') a = Some (norm x') \<and> g_nodes (abs s') b = Some (norm y')"
proof -
  have names: "names_ok (abs s)" and edges: "edges_ok (g_nodes (abs s))" and ids: "ids_ok (abs s)"
    using ok by (simp_all add: graph_ok_def)
  have "n_ID (norm x) = a" "n_ID (norm y) = b" "g_names (abs s) (n_Name (norm x)) = Some a"
    "g_names (abs s) (n_Name (norm y)) = Some b"
    using names x y unfolding names_ok_def by blast+
  then have id: "n_ID x = a" "n_ID y = b" "g_names (abs s) (n_Name x) = Some a"
    "g_names (abs s) (n_Name y) = Some b" by (simp_all add: norm_simps)
  have idn: "n_ID (norm x) = a" "n_ID (norm y) = b" using id by (simp_all add: norm_simps)
  obtain s' x' y' where s': "SetDependency (Some st) s (Some x) (Some y) = ((s', Some x', Some y'), Inr ())"
    "wf s'" "x' = x\<lparr>n_Children := insert (n_ID y) (n_Children x)\<rparr>"
    "y' = y\<lparr>n_Parents := insert (n_ID x) (n_Parents y)\<rparr>"
    "abs s' = (abs s)\<lparr>g_nodes := link_nodes (g_nodes (abs s)) (norm x) (norm y),
       g_names := (g_names (abs s))(n_Name x \<mapsto> n_ID x, n_Name y \<mapsto> n_ID y),
       g_pending := insert (n_ID y) (insert (n_ID x) (g_pending (abs s)))\<rparr>"
    using SetDependency_writes [OF wf] assms(3) id by blast
  have keep: "(g_names (abs s))(n_Name x \<mapsto> n_ID x, n_Name y \<mapsto> n_ID y) = g_names (abs s)"
    using id by (auto simp: fun_eq_iff)
  have nodes: "g_nodes (abs s') = link_nodes (g_nodes (abs s)) (norm x) (norm y)" by (simp add: s'(5))
  have gn: "g_names (abs s') = g_names (abs s)" using keep by (simp add: s'(5))
  have nx: "g_next (abs s') = g_next (abs s)" by (simp add: s'(5))
  have "names_ok (abs s')"
    using names x y idn \<open>a \<noteq> b\<close> unfolding names_ok_def nodes gn
    by (auto simp: link_nodes_def split: if_splits) (metis option.inject)+
  moreover have "edges_ok (g_nodes (abs s'))"
    using edges_ok_link_nodes [OF edges x y idn \<open>a \<noteq> b\<close>] by (simp add: nodes)
  moreover have "ids_ok (abs s')"
    using ids x y idn unfolding ids_ok_def nodes nx link_nodes_def by (auto simp: insert_absorb)
  moreover have "g_nodes (abs s') a = Some (norm x')" "g_nodes (abs s') b = Some (norm y')"
    using \<open>a \<noteq> b\<close> id unfolding nodes s'(3,4) by (simp_all add: link_nodes_def norm_simps norm_children norm_parents)
  moreover have "g_pending (abs s') = insert a (insert b (g_pending (abs s)))"
    using id by (simp add: s'(5) insert_commute)
  ultimately show ?thesis
    using s'(1,2) nodes gn nx edges_link_nodes(1) [OF x y idn \<open>a \<noteq> b\<close>]
    by (simp add: graph_ok_def)
qed

lemma SetDependency_graph_ok:
  assumes "wf s" and ok: "graph_ok (abs s)"
    and x: "g_nodes (abs s) a = Some x" and y: "g_nodes (abs s) b = Some y" and "a \<noteq> b"
  shows "\<exists>s' x' y'. SetDependency (Some st) s (Some x) (Some y) = ((s', Some x', Some y'), Inr ())
    \<and> wf s' \<and> graph_ok (abs s')
    \<and> edges (g_nodes (abs s')) ChildrenDirection
       = insert (a, b) (edges (g_nodes (abs s)) ChildrenDirection)
    \<and> g_pending (abs s') = insert a (insert b (g_pending (abs s)))"
proof -
  have "g_nodes (abs s) a = Some (norm x)" "g_nodes (abs s) b = Some (norm y)"
    using norm_stored [OF assms(1)] x y by simp_all
  from SetDependency_links [OF assms(1,2,5) this] show ?thesis by blast
qed

section \<open>Walking the graph\<close>

text \<open>
  Without the cache, the dependencies (dependents) of a stored node are everything reachable along the
  child (parent) edges, the node itself included.
\<close>

lemma stored_nodes:
  assumes "wf s" and "graph_ok (abs s)" and "g_nodes (abs s) i = Some n"
  shows "st_GetNode st s i = Inr n \<and> n_ID n = i"
  using assms GetNode_Some unfolding graph_ok_def names_ok_def by blast

lemma queryBitmap_reach:
  assumes "wf s" and "graph_ok (abs s)" and n: "g_nodes (abs s) i = Some n"
    and dir: "dir = ChildrenDirection \<or> dir = ParentsDirection"
  shows "queryBitmap (Some st) s (Some n) dir = Inr (reach (g_nodes (abs s)) dir i)"
proof -
  have "n_ID n = i" using stored_nodes [OF assms(1-3)] by simp
  moreover have "queryBitmap (Some st) s (Some n) dir = Inr (reach (g_nodes (abs s)) dir (n_ID n))"
  proof (rule queryBitmap_correct [OF stored_nodes [OF assms(1,2)] _ dir])
    show "\<exists>m. g_nodes (abs s) b = Some m" if "g_nodes (abs s) a = Some n'" "b \<in> nbrs dir n'" for a n' b
      using assms(2) dir that by (intro edges_ok_nbrs) (auto simp: graph_ok_def)
    show "fresh_copy (g_nodes (abs s)) dir n"
      using stored_nodes [OF assms(1-3)] n by (auto intro: fresh_copy_stored)
  qed
  ultimately show ?thesis by simp
qed

end

section \<open>Back ends that recompute what they drop\<close>

text \<open>
  The in-memory and the Redis back end put every node whose cache entry they drop on the cache stack
  (the SQL back end does not).
\<close>

locale recaching_store = graph_store +
  assumes RemoveAllCaches_stack: "wf s \<Longrightarrow> g_pending (abs (fst (st_RemoveAllCaches st s)))
    = g_pending (abs s) \<union> dom (g_caches (abs s))"
begin

text \<open>After the caches are dropped every node that had one is walked without the cache.\<close>

lemma cleared_then_walked:
  assumes "wf s" and "graph_ok (abs s)" and n: "g_nodes (abs s) i = Some n"
    and "i \<in> dom (g_caches (abs s))" and "st_RemoveAllCaches st s = (s', r)"
  shows "QueryDependents st s' n = Inr (reach (g_nodes (abs s)) ParentsDirection i)"
    and "QueryDependencies st s' n = Inr (reach (g_nodes (abs s)) ChildrenDirection i)"
proof -
  obtain p where s': "wf s'" "abs s' = (abs s)\<lparr>g_caches := Map.empty, g_pending := p\<rparr>"
    using RemoveAllCaches [OF assms(1)] assms(5) by auto
  have "g_pending (abs s') \<noteq> {}"
    using RemoveAllCaches_stack [OF assms(1)] assms(4,5) by auto
  moreover obtain ks where ks: "st_ToBeCached st s' = Inr ks" "set ks = g_pending (abs s')"
    using ToBeCached [OF s'(1)] by blast
  ultimately have "0 < length ks" by auto
  moreover have "graph_ok (abs s')" and "g_nodes (abs s') = g_nodes (abs s)"
    using assms(2) by (auto simp: s'(2) graph_ok_def names_ok_def ids_ok_def)
  ultimately show "QueryDependents st s' n = Inr (reach (g_nodes (abs s)) ParentsDirection i)"
    and "QueryDependencies st s' n = Inr (reach (g_nodes (abs s)) ChildrenDirection i)"
    using queryBitmap_reach [OF s'(1), of i n] n ks(1)
    by (auto simp: QueryDependents_def QueryDependencies_def QueryDependentsNoCache_def
        QueryDependenciesNoCache_def)
qed

end

section \<open>Searching by pattern\<close>

text \<open>
  The search by pattern, the one method of the interface whose result the three back ends define
  differently: \<open>accepts s p\<close> is what the back end takes the pattern \<open>p\<close> to mean, a predicate on names, or
  nothing when it cannot read the pattern. On a consistent graph the search returns every node whose
  name is accepted, once, and no other.
\<close>

locale searchable_store = graph_store +
  fixes accepts :: "'a \<Rightarrow> string \<Rightarrow> (string \<Rightarrow> bool) option"
  assumes GetNodesByGlob: "wf s \<Longrightarrow> graph_ok (abs s) \<Longrightarrow> accepts s p = Some P \<Longrightarrow>
      \<exists>ns. st_GetNodesByGlob st s p = Inr ns \<and> distinct ns
        \<and> set ns = {n. P (n_Name n) \<and> (\<exists>i. g_nodes (abs s) i = Some n)}"
    and GetNodesByGlob_malformed: "wf s \<Longrightarrow> accepts s p = None \<Longrightarrow>
      (\<exists>e. st_GetNodesByGlob st s p = Inl e \<and> \<not> is_panic e)
      \<or> (g_nodes (abs s) = Map.empty \<and> st_GetNodesByGlob st s p = Inr [])"
begin

text \<open>A pattern that accepts one name finds the node that the name stands for.\<close>

lemma GetNodesByGlob_name:
  assumes "wf s" and "graph_ok (abs s)" and "accepts s p = Some (\<lambda>x. x = name)"
  shows "st_GetNodesByGlob st s p = (case g_names (abs s) name of None \<Rightarrow> Inr []
    | Some i \<Rightarrow> (case g_nodes (abs s) i of None \<Rightarrow> Inr [] | Some n \<Rightarrow> Inr [n]))"
proof -
  obtain ns where ns: "st_GetNodesByGlob st s p = Inr ns" "distinct ns"
    "set ns = {n. n_Name n = name \<and> (\<exists>i. g_nodes (abs s) i = Some n)}"
    using GetNodesByGlob [OF assms] by blast
  have names: "g_names (abs s) (n_Name n) = Some i" if "g_nodes (abs s) i = Some n" for i n
    using assms(2) that unfolding graph_ok_def names_ok_def by blast
  have known: "\<exists>n. g_nodes (abs s) i = Some n \<and> n_Name n = name" if "g_names (abs s) name = Some i" for i
    using assms(2) that unfolding graph_ok_def names_ok_def by blast
  show ?thesis
  proof (cases "g_names (abs s) name")
    case None
    then have "set ns = {}" unfolding ns(3) using names by fastforce
    with ns(1) None show ?thesis by simp
  next
    case (Some i)
    then obtain n where n: "g_nodes (abs s) i = Some n" "n_Name n = name" using known by blast
    have "set ns = {n}" unfolding ns(3) using n names Some by fastforce
    with ns(2) have "ns = [n]" by (cases ns; cases "tl ns") auto
    with ns(1) n Some show ?thesis by simp
  qed
qed

end

end
