(* ===== verification/Go_Match.thy ===== *)
theory Go_Match
  imports Sapper_Prelude
begin

text \<open>
  \<open>filepath.Match\<close> of the Go standard library (on systems whose separator is \<open>/\<close>), which the
  in-memory back end uses for glob searches: a pattern is read into a list of elements, and a pattern
  with a syntax error matches nothing and is reported.
\<close>

datatype glob_elem =
    Star
  | AnyChar
  | Lit char
  | CharClass bool "(char \<times> char) list"

text \<open>\<open>getEsc\<close>: one character of a class, possibly escaped; something must follow it.\<close>

definition get_esc :: "string \<Rightarrow> (char \<times> string) option" where
  "get_esc s =
     (case s of
        [] \<Rightarrow> None
      | c # r \<Rightarrow>
          if c = CHR ''-'' \<or> c = CHR '']'' then None
          else if c = CHR 0x5C then
            (case r of d # e # r' \<Rightarrow> Some (d, e # r') | _ \<Rightarrow> None)
          else (case r of e # r' \<Rightarrow> Some (c, r) | [] \<Rightarrow> None))"

lemma get_esc_shorter: "get_esc s = Some (c, r) \<Longrightarrow> length r < length s"
  by (auto simp: get_esc_def split: list.splits if_splits)

definition get_range :: "string \<Rightarrow> ((char \<times> char) \<times> string) option" where
  "get_range s =
     (case get_esc s of
        None \<Rightarrow> None
      | Some (lo, r) \<Rightarrow>
          if r \<noteq> [] \<and> hd r = CHR ''-'' then map_option (\<lambda>(hi, q). ((lo, hi), q)) (get_esc (tl r))
          else Some ((lo, lo), r))"

lemma get_range_shorter: "get_range s = Some (p, r) \<Longrightarrow> length r < length s"
proof -
  assume a: "get_range s = Some (p, r)"
  then obtain lo q where q: "get_esc s = Some (lo, q)"
    by (auto simp: get_range_def split: option.splits)
  have "length r \<le> length q"
  proof (cases "q \<noteq> [] \<and> hd q = CHR ''-''")
    case True
    with a q obtain h where "get_esc (tl q) = Some (h, r)"
      by (auto simp: get_range_def)
    from get_esc_shorter [OF this] show ?thesis by simp
  next
    case False
    with a q show ?thesis by (simp add: get_range_def del: de_Morgan_conj)
  qed
  with get_esc_shorter [OF q] show ?thesis by simp
qed

function (sequential) parse_class ::
  "string \<Rightarrow> (char \<times> char) list \<Rightarrow> ((char \<times> char) list \<times> string) option" where
  "parse_class s rs =
     (if s \<noteq> [] \<and> hd s = CHR '']'' \<and> rs \<noteq> [] then Some (rev rs, tl s)
      else
        (case get_range s of
           None \<Rightarrow> None
         | Some (p, r) \<Rightarrow> parse_class r (p # rs)))"
  by pat_completeness auto
termination
  by (relation "measure (\<lambda>(s, rs). length s)") (auto dest: get_range_shorter)

declare parse_class.simps [simp del]

lemma parse_class_shorter: "parse_class s rs = Some (c, r) \<Longrightarrow> length r < length s"
proof (induction s rs rule: parse_class.induct)
  case (1 s rs)
  show ?case
  proof (cases "s \<noteq> [] \<and> hd s = CHR '']'' \<and> rs \<noteq> []")
    case True
    then have "parse_class s rs = Some (rev rs, tl s)" by (subst parse_class.simps) simp
    with "1.prems" True show ?thesis by (cases s) simp_all
  next
    case False
    then obtain p q where q: "get_range s = Some (p, q)" "parse_class q (p # rs) = Some (c, r)"
      using "1.prems" by (subst (asm) parse_class.simps) (auto split: option.splits)
    have "length r < length q" using "1.IH" [OF False q(1) refl q(2)] .
    with get_range_shorter [OF q(1)] show ?thesis by simp
  qed
qed

function (sequential) parse_glob :: "string \<Rightarrow> glob_elem list option" where
  "parse_glob [] = Some []"
| "parse_glob (c # s) =
     (if c = CHR ''*'' then map_option (Cons Star) (parse_glob s)
      else if c = CHR ''?'' then map_option (Cons AnyChar) (parse_glob s)
      else if c = CHR 0x5C then
        (case s of [] \<Rightarrow> None | d # s' \<Rightarrow> map_option (Cons (Lit d)) (parse_glob s'))
      else if c = CHR ''['' then
        (let neg = (s \<noteq> [] \<and> hd s = CHR ''^'')
         in case parse_class (if neg then tl s else s) [] of
              None \<Rightarrow> None
            | Some (rs, s') \<Rightarrow> map_option (Cons (CharClass neg rs)) (parse_glob s'))
      else map_option (Cons (Lit c)) (parse_glob s))"
  by pat_completeness auto
termination
proof (relation "measure length", goal_cases)
  case (5 c s x x' rs s')
  then show ?case
    using parse_class_shorter [of "if x then tl s else s" "[]" rs s'] by (cases s) auto
qed auto

definition in_class :: "(char \<times> char) list \<Rightarrow> char \<Rightarrow> bool" where
  "in_class rs c \<longleftrightarrow> (\<exists>r \<in> set rs. byte_of (fst r) \<le> byte_of c \<and> byte_of c \<le> byte_of (snd r))"

fun match_elems :: "glob_elem list \<Rightarrow> string \<Rightarrow> bool" where
  "match_elems [] s = (s = [])"
| "match_elems (Star # es) [] = match_elems es []"
| "match_elems (Star # es) (c # s) =
     (match_elems es (c # s) \<or> (c \<noteq> CHR ''/'' \<and> match_elems (Star # es) s))"
| "match_elems (AnyChar # es) (c # s) = (c \<noteq> CHR ''/'' \<and> match_elems es s)"
| "match_elems (Lit d # es) (c # s) = (c = d \<and> match_elems es s)"
| "match_elems (CharClass neg rs # es) (c # s) = (in_class rs c \<noteq> neg \<and> match_elems es s)"
| "match_elems (e # es) [] = False"

definition filepath_Match :: "string \<Rightarrow> string \<Rightarrow> bool res" where
  "filepath_Match pattern name =
     (case parse_glob pattern of
        None \<Rightarrow> Inl (Err ''syntax error in pattern'')
      | Some es \<Rightarrow> Inr (match_elems es name))"

text \<open>A name without special characters is a pattern that matches itself and nothing else.\<close>

definition plain_char :: "char \<Rightarrow> bool" where
  "plain_char c \<longleftrightarrow> c \<noteq> CHR ''*'' \<and> c \<noteq> CHR ''?'' \<and> c \<noteq> CHR 0x5C \<and> c \<noteq> CHR ''[''"

lemma parse_glob_plain: "list_all plain_char p \<Longrightarrow> parse_glob p = Some (map Lit p)"
  by (induction p) (simp_all add: plain_char_def)

lemma match_elems_lits: "match_elems (map Lit p) s \<longleftrightarrow> s = p"
proof (induction p arbitrary: s)
  case Nil
  then show ?case by simp
next
  case (Cons c p)
  then show ?case by (cases s) auto
qed

lemma filepath_Match_plain: "list_all plain_char p \<Longrightarrow> filepath_Match p s = Inr (s = p)"
  by (simp add: filepath_Match_def parse_glob_plain match_elems_lits)

end
