(* ===== verification/Mock_Storage.thy ===== *)
theory Mock_Storage
  imports Store_Interface Go_Match
begin

text \<open>
  The in-memory back end, \<open>pkg/graph/mockGraph.go\<close>: Go maps, a slice of identifiers waiting to be
  cached, a 32-bit counter that wraps around, and one injectable error per method. The fields
  \<open>dependencies\<close>, \<open>dependents\<close> and \<open>fullyCached\<close> are never read, and the mutex guards single
  methods, which the model runs one after the other. A stored pointer is a value: the sharing of a
  node with the caller that saved it is not modelled.
\<close>

section \<open>State\<close>

datatype mock_method =
    M_SaveNode | M_GetNode | M_GetNodesByGlob | M_GetAllKeys | M_SaveCache | M_ToBeCached
  | M_AddNodeToCachedStack | M_ClearCacheStack | M_GetCache | M_GenerateID | M_NameToID
  | M_GetNodes | M_SaveCaches | M_GetCaches | M_RemoveAllCaches | M_AddOrUpdateCustomData
  | M_GetCustomData

record mock =
  m_nodes :: "(id \<times> node) list"
  m_nameToID :: "string \<rightharpoonup> id"
  m_cache :: "(id \<times> node_cache) list option"
  m_toBeCached :: "id list"
  m_idCounter :: id
  m_db :: "string \<rightharpoonup> (string \<times> string) list"
  m_errs :: "mock_method \<Rightarrow> fault option"
  m_order :: range_order

definition NewMockStorage :: mock where
  "NewMockStorage =
     \<lparr>m_nodes = [], m_nameToID = Map.empty, m_cache = None, m_toBeCached = [], m_idCounter = 0,
      m_db = Map.empty, m_errs = (\<lambda>_. None), m_order = in_order\<rparr>"

text \<open>\<open>if m.XErr != nil { return m.XErr }\<close>, for methods that return and for methods that change.\<close>

definition injected :: "mock \<Rightarrow> mock_method \<Rightarrow> 'a res \<Rightarrow> 'a res" where
  "injected m op r = (case m_errs m op of Some e \<Rightarrow> Inl e | None \<Rightarrow> r)"

definition injected_st :: "mock \<Rightarrow> mock_method \<Rightarrow> mock \<times> 'a res \<Rightarrow> mock \<times> 'a res" where
  "injected_st m op r = (case m_errs m op of Some e \<Rightarrow> (m, Inl e) | None \<Rightarrow> r)"

text \<open>A nil cache map reads as the empty map.\<close>

definition cache_entries :: "mock \<Rightarrow> (id \<times> node_cache) list" where
  "cache_entries m = (case m_cache m of None \<Rightarrow> [] | Some c \<Rightarrow> c)"

section \<open>Methods\<close>

definition Mock_SaveNode :: "mock \<Rightarrow> node \<Rightarrow> mock \<times> unit res" where
  "Mock_SaveNode m n =
     injected_st m M_SaveNode
       (m\<lparr>m_nameToID := (m_nameToID m)(n_Name n \<mapsto> n_ID n),
          m_nodes := AList.update (n_ID n) n (m_nodes m),
          m_toBeCached := m_toBeCached m @ [n_ID n]\<rparr>, Inr ())"

definition Mock_GetNode :: "mock \<Rightarrow> id \<Rightarrow> node res" where
  "Mock_GetNode m i =
     injected m M_GetNode
       (case map_of (m_nodes m) i of
          None \<Rightarrow> Inl (Err ''node not found'')
        | Some n \<Rightarrow> Inr n)"

fun glob_loop :: "string \<Rightarrow> node list \<Rightarrow> node list res" where
  "glob_loop pattern [] = Inr []"
| "glob_loop pattern (n # ns) =
     (case filepath_Match pattern (n_Name n) of
        Inl e \<Rightarrow> Inl (Err ''invalid glob pattern'')
      | Inr matched \<Rightarrow>
          bind_res (glob_loop pattern ns) (\<lambda>rest. Inr (if matched then n # rest else rest)))"

definition Mock_GetNodesByGlob :: "mock \<Rightarrow> string \<Rightarrow> node list res" where
  "Mock_GetNodesByGlob m pattern =
     injected m M_GetNodesByGlob
       (glob_loop pattern (map snd (go_range (m_order m) 0 (m_nodes m))))"

definition Mock_GetAllKeys :: "mock \<Rightarrow> id list res" where
  "Mock_GetAllKeys m =
     injected m M_GetAllKeys (Inr (keys_of (go_range (m_order m) 1 (m_nodes m))))"

definition Mock_SaveCache :: "mock \<Rightarrow> node_cache \<Rightarrow> mock \<times> unit res" where
  "Mock_SaveCache m c =
     injected_st m M_SaveCache
       (m\<lparr>m_cache := Some (AList.update (c_ID c) c (cache_entries m))\<rparr>, Inr ())"

definition Mock_ToBeCached :: "mock \<Rightarrow> id list res" where
  "Mock_ToBeCached m = injected m M_ToBeCached (Inr (m_toBeCached m))"

definition Mock_AddNodeToCachedStack :: "mock \<Rightarrow> id \<Rightarrow> mock \<times> unit res" where
  "Mock_AddNodeToCachedStack m i =
     injected_st m M_AddNodeToCachedStack (m\<lparr>m_toBeCached := m_toBeCached m @ [i]\<rparr>, Inr ())"

definition Mock_ClearCacheStack :: "mock \<Rightarrow> mock \<times> unit res" where
  "Mock_ClearCacheStack m = injected_st m M_ClearCacheStack (m\<lparr>m_toBeCached := []\<rparr>, Inr ())"

definition Mock_GetCache :: "mock \<Rightarrow> id \<Rightarrow> node_cache option res" where
  "Mock_GetCache m i =
     injected m M_GetCache
       (case map_of (cache_entries m) i of
          None \<Rightarrow> Inl (Err ''cache not found'')
        | Some c \<Rightarrow> Inr (Some c))"

definition Mock_GenerateID :: "mock \<Rightarrow> mock \<times> id res" where
  "Mock_GenerateID m =
     injected_st m M_GenerateID
       (m\<lparr>m_idCounter := m_idCounter m + 1\<rparr>, Inr (m_idCounter m + 1))"

definition Mock_NameToID :: "mock \<Rightarrow> string \<Rightarrow> id res" where
  "Mock_NameToID m name =
     injected m M_NameToID
       (case m_nameToID m name of
          Some i \<Rightarrow> Inr i
        | None \<Rightarrow> Inl (Err ''node with name not found''))"

definition Mock_GetNodes :: "mock \<Rightarrow> id list \<Rightarrow> (id \<times> node) list res" where
  "Mock_GetNodes m ids =
     injected m M_GetNodes (Inr (collect_found (map_of (m_nodes m)) ids []))"

definition Mock_SaveCaches :: "mock \<Rightarrow> node_cache list \<Rightarrow> mock \<times> unit res" where
  "Mock_SaveCaches m cs =
     injected_st m M_SaveCaches
       (m\<lparr>m_cache := Some (fold (\<lambda>c. AList.update (c_ID c) c) cs (cache_entries m))\<rparr>, Inr ())"

definition Mock_GetCaches :: "mock \<Rightarrow> id list \<Rightarrow> (id \<times> node_cache) list res" where
  "Mock_GetCaches m ids =
     injected m M_GetCaches (Inr (collect_found (map_of (cache_entries m)) ids []))"

definition Mock_RemoveAllCaches :: "mock \<Rightarrow> mock \<times> unit res" where
  "Mock_RemoveAllCaches m =
     injected_st m M_RemoveAllCaches
       (m\<lparr>m_toBeCached := m_toBeCached m @ keys_of (go_range (m_order m) 2 (cache_entries m)),
          m_cache := Some []\<rparr>, Inr ())"

definition Mock_AddOrUpdateCustomData ::
  "mock \<Rightarrow> string \<Rightarrow> string \<Rightarrow> string \<Rightarrow> string \<Rightarrow> mock \<times> unit res" where
  "Mock_AddOrUpdateCustomData m tag k dataKey data =
     injected_st m M_AddOrUpdateCustomData
       (let fullKey = colon_key tag k;
            old = (case m_db m fullKey of None \<Rightarrow> [] | Some d \<Rightarrow> d)
        in (m\<lparr>m_db := (m_db m)(fullKey \<mapsto> AList.update dataKey data old)\<rparr>, Inr ()))"

definition Mock_GetCustomData :: "mock \<Rightarrow> string \<Rightarrow> string \<Rightarrow> (string \<times> string) list res" where
  "Mock_GetCustomData m tag k =
     injected m M_GetCustomData
       (case m_db m (colon_key tag k) of
          None \<Rightarrow> Inl (Err ''no data found for tag and key'')
        | Some d \<Rightarrow> Inr d)"

definition mock_storage :: "mock storage" where
  "mock_storage =
     \<lparr>st_NameToID = Mock_NameToID, st_SaveNode = Mock_SaveNode, st_GetNode = Mock_GetNode,
      st_GetNodes = Mock_GetNodes, st_GetNodesByGlob = Mock_GetNodesByGlob,
      st_GetAllKeys = Mock_GetAllKeys, st_SaveCache = Mock_SaveCache, st_SaveCaches = Mock_SaveCaches,
      st_RemoveAllCaches = Mock_RemoveAllCaches, st_ToBeCached = Mock_ToBeCached,
      st_AddNodeToCachedStack = Mock_AddNodeToCachedStack, st_GetCache = Mock_GetCache,
      st_GetCaches = Mock_GetCaches, st_ClearCacheStack = Mock_ClearCacheStack,
      st_GenerateID = Mock_GenerateID, st_GetCustomData = Mock_GetCustomData,
      st_AddOrUpdateCustomData = Mock_AddOrUpdateCustomData\<rparr>"

lemma mock_storage_simps [store_simps]:
  "st_NameToID mock_storage = Mock_NameToID" "st_SaveNode mock_storage = Mock_SaveNode"
  "st_GetNode mock_storage = Mock_GetNode" "st_GetNodes mock_storage = Mock_GetNodes"
  "st_GetNodesByGlob mock_storage = Mock_GetNodesByGlob"
  "st_GetAllKeys mock_storage = Mock_GetAllKeys" "st_SaveCache mock_storage = Mock_SaveCache"
  "st_SaveCaches mock_storage = Mock_SaveCaches"
  "st_RemoveAllCaches mock_storage = Mock_RemoveAllCaches"
  "st_ToBeCached mock_storage = Mock_ToBeCached"
  "st_AddNodeToCachedStack mock_storage = Mock_AddNodeToCachedStack"
  "st_GetCache mock_storage = Mock_GetCache" "st_GetCaches mock_storage = Mock_GetCaches"
  "st_ClearCacheStack mock_storage = Mock_ClearCacheStack"
  "st_GenerateID mock_storage = Mock_GenerateID"
  "st_GetCustomData mock_storage = Mock_GetCustomData"
  "st_AddOrUpdateCustomData mock_storage = Mock_AddOrUpdateCustomData"
  by (simp_all add: mock_storage_def)

section \<open>The contract holds\<close>

definition mock_wf :: "mock \<Rightarrow> bool" where
  "mock_wf m \<longleftrightarrow> m_errs m = (\<lambda>_. None) \<and> range_ok (m_order m) \<and> distinct (keys_of (m_nodes m))
     \<and> distinct (keys_of (cache_entries m)) \<and> (\<forall>k d. m_db m k = Some d \<longrightarrow> distinct (keys_of d))"

definition mock_abs :: "mock \<Rightarrow> gstate" where
  "mock_abs m =
     \<lparr>g_nodes = map_of (m_nodes m), g_names = m_nameToID m, g_caches = map_of (cache_entries m),
      g_pending = set (m_toBeCached m), g_next = unat (m_idCounter m),
      g_custom = (\<lambda>(tag, k). if CHR '':'' \<in> set tag then Map.empty
        else (case m_db m (colon_key tag k) of None \<Rightarrow> Map.empty | Some d \<Rightarrow> map_of d))\<rparr>"

lemma mock_abs_simps [simp]:
  "g_nodes (mock_abs m) = map_of (m_nodes m)" "g_names (mock_abs m) = m_nameToID m"
  "g_caches (mock_abs m) = map_of (cache_entries m)" "g_pending (mock_abs m) = set (m_toBeCached m)"
  "g_next (mock_abs m) = unat (m_idCounter m)"
  by (simp_all add: mock_abs_def)

lemma cache_entries_simps [simp]:
  "cache_entries (m\<lparr>m_cache := Some c\<rparr>) = c"
  "cache_entries (m\<lparr>m_nodes := x1\<rparr>) = cache_entries m"
  "cache_entries (m\<lparr>m_nameToID := x2\<rparr>) = cache_entries m"
  "cache_entries (m\<lparr>m_toBeCached := x3\<rparr>) = cache_entries m"
  "cache_entries (m\<lparr>m_idCounter := x4\<rparr>) = cache_entries m"
  "cache_entries (m\<lparr>m_db := x5\<rparr>) = cache_entries m"
  by (simp_all add: cache_entries_def)

lemma injected_ok [simp]:
  "mock_wf m \<Longrightarrow> injected m op r = r" "mock_wf m \<Longrightarrow> injected_st m op r' = r'"
  by (simp_all add: mock_wf_def injected_def injected_st_def)

lemma fold_update_map:
  "map_of (fold (\<lambda>c. AList.update (c_ID c) c) cs acc) = map_of acc ++ map_of (rev (map (\<lambda>c. (c_ID c, c)) cs))"
  by (induction cs arbitrary: acc) (auto simp: map_add_def fun_eq_iff split: option.splits)

lemma fold_update_distinct:
  "distinct (keys_of acc) \<Longrightarrow> distinct (keys_of (fold (\<lambda>c. AList.update (c_ID c) c) cs acc))"
  by (induction cs arbitrary: acc) auto

lemma mock_SaveNode_ok:
  "mock_wf m \<Longrightarrow> \<exists>s'. Mock_SaveNode m n = (s', Inr ()) \<and> mock_wf s' \<and>
     mock_abs s' = (mock_abs m)\<lparr>g_nodes := (g_nodes (mock_abs m))(n_ID n \<mapsto> n),
       g_names := (g_names (mock_abs m))(n_Name n \<mapsto> n_ID n),
       g_pending := insert (n_ID n) (g_pending (mock_abs m))\<rparr>"
  by (auto simp: Mock_SaveNode_def mock_wf_def mock_abs_def injected_st_def)

lemma mock_custom_ok:
  assumes "mock_wf m" and "tag_ok tag"
  shows "\<exists>s'. Mock_AddOrUpdateCustomData m tag k dk v = (s', Inr ()) \<and> mock_wf s' \<and>
    mock_abs s' = (mock_abs m)\<lparr>g_custom :=
      (g_custom (mock_abs m))((tag, k) := (g_custom (mock_abs m) (tag, k))(dk \<mapsto> v))\<rparr>"
proof -
  let ?old = "case m_db m (colon_key tag k) of None \<Rightarrow> [] | Some d \<Rightarrow> d"
  let ?s = "m\<lparr>m_db := (m_db m)(colon_key tag k \<mapsto> AList.update dk v ?old)\<rparr>"
  have "Mock_AddOrUpdateCustomData m tag k dk v = (?s, Inr ())"
    using assms(1) by (simp add: Mock_AddOrUpdateCustomData_def Let_def)
  moreover have "mock_wf ?s"
    using assms(1) by (auto simp: mock_wf_def split: option.splits)
  moreover have "mock_abs ?s = (mock_abs m)\<lparr>g_custom :=
      (g_custom (mock_abs m))((tag, k) := (g_custom (mock_abs m) (tag, k))(dk \<mapsto> v))\<rparr>"
    using assms(2) by (auto simp: tag_ok_def mock_abs_def fun_eq_iff colon_key_inject split: option.splits)
  ultimately show ?thesis by blast
qed

interpretation ms: recaching_store mock_storage mock_wf mock_abs "\<lambda>n. n"
proof (unfold_locales, goal_cases)
  case (10 s n)
  then show ?case using mock_SaveNode_ok by (simp add: store_simps)
next
  case (13 s "is")
  then show ?case
    by (simp add: store_simps Mock_GetNodes_def collect_found_map collect_found_distinct)
next
  case (14 s)
  then have "range_ok (m_order s)" "distinct (keys_of (m_nodes s))" by (simp_all add: mock_wf_def)
  with 14 show ?case
    by (simp add: store_simps Mock_GetAllKeys_def distinct_keys_go_range dom_map_of_keys)
next
  case (15 s c)
  then show ?case
    by (auto simp: store_simps Mock_SaveCache_def mock_wf_def mock_abs_def injected_st_def)
next
  case (16 s cs)
  then show ?case
    by (auto simp: store_simps Mock_SaveCaches_def mock_wf_def mock_abs_def injected_st_def
        fold_update_map fold_update_distinct)
next
  case (17 s)
  then show ?case
    by (auto simp: store_simps Mock_RemoveAllCaches_def mock_wf_def mock_abs_def injected_st_def)
next
  case (21 s "is")
  then show ?case
    by (simp add: store_simps Mock_GetCaches_def collect_found_map collect_found_distinct)
next
  case (23 s)
  then have "Suc (unat (m_idCounter s)) < 4294967296" by simp
  from unat_Suc_id [OF this] 23 show ?case
    by (auto simp: store_simps Mock_GenerateID_def mock_wf_def mock_abs_def injected_st_def)
next
  case (24 s tag k dk v)
  then show ?case using mock_custom_ok by (simp add: store_simps)
next
  case (25 s tag k)
  then show ?case
    by (auto simp: store_simps Mock_GetCustomData_def mock_abs_def mock_wf_def tag_ok_def
        split: option.splits)
next
  case (27 s)
  then show ?case
    by (auto simp: store_simps Mock_RemoveAllCaches_def mock_wf_def mock_abs_def injected_st_def
        dom_map_of_keys)
qed (auto simp: store_simps Mock_NameToID_def Mock_GetNode_def Mock_ToBeCached_def
    Mock_AddNodeToCachedStack_def Mock_GetCache_def Mock_ClearCacheStack_def mock_wf_def mock_abs_def
    injected_def injected_st_def)

section \<open>Searching by pattern\<close>

lemma glob_loop_filter:
  "parse_glob p = Some es \<Longrightarrow> glob_loop p ns = Inr (filter (\<lambda>n. match_elems es (n_Name n)) ns)"
  by (induction ns) (simp_all add: filepath_Match_def)

lemma glob_loop_malformed: "parse_glob p = None \<Longrightarrow> ns \<noteq> [] \<Longrightarrow> glob_loop p ns = Inl (Err ''invalid glob pattern'')"
  by (cases ns) (simp_all add: filepath_Match_def)

lemma distinct_nodes:
  assumes "distinct (keys_of al)" and "\<And>i n. (i, n) \<in> set al \<Longrightarrow> n_ID n = i"
  shows "distinct (map snd al)"
proof -
  have "map n_ID (map snd al) = keys_of al" using assms(2) by auto
  with assms(1) show ?thesis by (metis distinct_map)
qed

lemma mock_glob_ok:
  assumes wf: "mock_wf m" and ok: "graph_ok (mock_abs m)" and p: "parse_glob p = Some es"
  shows "\<exists>ns. Mock_GetNodesByGlob m p = Inr ns \<and> distinct ns
    \<and> set ns = {n. match_elems es (n_Name n) \<and> (\<exists>i. g_nodes (mock_abs m) i = Some n)}"
proof -
  let ?al = "go_range (m_order m) 0 (m_nodes m)"
  have al: "distinct (keys_of ?al)" "set ?al = set (m_nodes m)" "distinct (keys_of (m_nodes m))"
    using wf by (simp_all add: mock_wf_def distinct_keys_go_range)
  have mem: "(i, n) \<in> set ?al \<longleftrightarrow> g_nodes (mock_abs m) i = Some n" for i n
    using al(2,3) by simp
  have "distinct (map snd ?al)"
    using ok unfolding graph_ok_def names_ok_def by (intro distinct_nodes [OF al(1)]) (metis mem)
  moreover have "set (map snd ?al) = {n. \<exists>i. g_nodes (mock_abs m) i = Some n}"
    using mem by (auto simp: image_iff simp del: mock_abs_simps) force
  ultimately show ?thesis
    using wf by (simp add: Mock_GetNodesByGlob_def glob_loop_filter [OF p]) blast
qed

text \<open>To the in-memory back end a pattern is one of \<open>filepath.Match\<close>.\<close>

interpretation mg: searchable_store mock_storage mock_wf mock_abs "\<lambda>n. n"
  "\<lambda>m p. map_option match_elems (parse_glob p)"
proof (unfold_locales, goal_cases)
  case (1 m p P)
  then show ?case using mock_glob_ok by (auto simp: store_simps simp del: mock_abs_simps)
next
  case (2 m p)
  then have "parse_glob p = None" and ro: "range_ok (m_order m)" by (simp_all add: mock_wf_def)
  show ?case
  proof (cases "m_nodes m = []")
    case True
    then have "go_range (m_order m) 0 (m_nodes m) = []" using ro by (metis length_go_range length_0_conv)
    with True 2(1) show ?thesis by (simp add: store_simps Mock_GetNodesByGlob_def)
  next
    case False
    then have "map snd (go_range (m_order m) 0 (m_nodes m)) \<noteq> []"
      using ro by (metis set_go_range set_empty map_is_Nil_conv)
    then show ?thesis
      using 2(1) glob_loop_malformed [OF \<open>parse_glob p = None\<close>]
      by (simp add: store_simps Mock_GetNodesByGlob_def)
  qed
qed

end
