(* ===== verification/Store_Keys.thy ===== *)
theory Store_Keys
  imports Store_Interface
begin

text \<open>
  What the two database back ends share: the key prefixes of \<open>pkg/storages/storage.go\<close>, the values
  stored under the keys, and the graph that a table of keys and values holds.
\<close>

section \<open>Keys\<close>

definition NodeKeyPrefix :: string where "NodeKeyPrefix = ''node:''"
definition NameToIDKey :: string where "NameToIDKey = ''name_to_id:''"
definition CacheKeyPrefix :: string where "CacheKeyPrefix = ''cache:''"

abbreviation node_key :: "id \<Rightarrow> string" where
  "node_key i \<equiv> NodeKeyPrefix @ Uint32ToStr i"

abbreviation cache_key :: "id \<Rightarrow> string" where
  "cache_key i \<equiv> CacheKeyPrefix @ Uint32ToStr i"

abbreviation name_key :: "string \<Rightarrow> string" where
  "name_key x \<equiv> NameToIDKey @ x"

lemma prefixes_apart [simp]:
  "NodeKeyPrefix @ a \<noteq> NameToIDKey @ b" "NameToIDKey @ b \<noteq> NodeKeyPrefix @ a"
  "NodeKeyPrefix @ a \<noteq> CacheKeyPrefix @ b" "CacheKeyPrefix @ b \<noteq> NodeKeyPrefix @ a"
  "NameToIDKey @ a \<noteq> CacheKeyPrefix @ b" "CacheKeyPrefix @ b \<noteq> NameToIDKey @ a"
  by (simp_all add: NodeKeyPrefix_def NameToIDKey_def CacheKeyPrefix_def)

lemma has_prefix_keys [simp]:
  "\<not> has_prefix (NodeKeyPrefix @ a) CacheKeyPrefix" "\<not> has_prefix (NameToIDKey @ a) CacheKeyPrefix"
  "\<not> has_prefix (CacheKeyPrefix @ a) NodeKeyPrefix" "\<not> has_prefix (NameToIDKey @ a) NodeKeyPrefix"
  "\<not> has_prefix (NodeKeyPrefix @ a) NameToIDKey" "\<not> has_prefix (CacheKeyPrefix @ a) NameToIDKey"
  by (auto dest!: has_prefixE)

text \<open>
  A stored value is a JSON text (kept abstract, as in the codec) or a decimal number. Neither parses
  as the other: a JSON object does not start with a digit.
\<close>

datatype 't cell = Json 't | Plain string

definition cell_node :: "('b, 't) codec \<Rightarrow> 't cell \<Rightarrow> node res" where
  "cell_node cd v = (case v of Json t \<Rightarrow> Node_UnmarshalJSON cd t
     | Plain s \<Rightarrow> Inl (Err ''failed to unmarshal node data''))"

definition cell_cache :: "('b, 't) codec \<Rightarrow> 't cell \<Rightarrow> node_cache res" where
  "cell_cache cd v = (case v of Json t \<Rightarrow> NodeCache_UnmarshalJSON cd t
     | Plain s \<Rightarrow> Inl (Err ''failed to unmarshal NodeCache data''))"

definition cell_uint :: "'t cell \<Rightarrow> nat res" where
  "cell_uint v = (case v of Plain s \<Rightarrow> ParseUint 32 s | Json t \<Rightarrow> Inl (Err ''invalid syntax''))"

section \<open>The graph in a key-value table\<close>

definition kv_nodes :: "('b, 't) codec \<Rightarrow> (string \<times> 't cell) list \<Rightarrow> (id \<rightharpoonup> node)" where
  "kv_nodes cd kv i = (case map_of kv (node_key i) of None \<Rightarrow> None
     | Some v \<Rightarrow> (case cell_node cd v of Inl e \<Rightarrow> None | Inr n \<Rightarrow> Some n))"

definition kv_names :: "(string \<times> 't cell) list \<Rightarrow> (string \<rightharpoonup> id)" where
  "kv_names kv x = (case map_of kv (name_key x) of None \<Rightarrow> None
     | Some v \<Rightarrow> (case cell_uint v of Inl e \<Rightarrow> None | Inr k \<Rightarrow> Some (of_nat k)))"

definition kv_caches :: "('b, 't) codec \<Rightarrow> (string \<times> 't cell) list \<Rightarrow> (id \<rightharpoonup> node_cache)" where
  "kv_caches cd kv i = (case map_of kv (cache_key i) of None \<Rightarrow> None
     | Some v \<Rightarrow> (case cell_cache cd v of Inl e \<Rightarrow> None | Inr c \<Rightarrow> Some c))"

text \<open>Every row is a node, a name or a cache entry that reads back.\<close>

definition row_ok :: "(string \<Rightarrow> string) \<Rightarrow> ('b, 't) codec \<Rightarrow> string \<times> 't cell \<Rightarrow> bool" where
  "row_ok b64 cd r \<longleftrightarrow>
     (\<exists>n. fst r = node_key (n_ID n) \<and> cell_node cd (snd r) = Inr n \<and> stored_node b64 n = n)
     \<or> (\<exists>x i. fst r = name_key x \<and> cell_uint (snd r) = Inr (unat (i :: id)))
     \<or> (\<exists>c. fst r = cache_key (c_ID c) \<and> cell_cache cd (snd r) = Inr c)"

definition kv_ok :: "(string \<Rightarrow> string) \<Rightarrow> ('b, 't) codec \<Rightarrow> (string \<times> 't cell) list \<Rightarrow> bool" where
  "kv_ok b64 cd kv \<longleftrightarrow> codec_ok b64 cd \<and> distinct (keys_of kv) \<and> (\<forall>r \<in> set kv. row_ok b64 cd r)"

lemma kv_ok_Nil: "codec_ok b64 cd \<Longrightarrow> kv_ok b64 cd []"
  by (simp add: kv_ok_def)

lemma row_ok_node:
  "row_ok b64 cd (node_key i, v) \<longleftrightarrow> (\<exists>n. n_ID n = i \<and> cell_node cd v = Inr n \<and> stored_node b64 n = n)"
  unfolding row_ok_def by auto

lemma row_ok_name: "row_ok b64 cd (name_key x, v) \<longleftrightarrow> (\<exists>i. cell_uint v = Inr (unat (i :: id)))"
  unfolding row_ok_def by auto

lemma row_ok_cache:
  "row_ok b64 cd (cache_key i, v) \<longleftrightarrow> (\<exists>c. c_ID c = i \<and> cell_cache cd v = Inr c)"
  unfolding row_ok_def by auto

lemma kv_row: "kv_ok b64 cd kv \<Longrightarrow> map_of kv k = Some v \<Longrightarrow> row_ok b64 cd (k, v)"
  unfolding kv_ok_def by (auto dest: map_of_SomeD)

text \<open>What a lookup returns.\<close>

lemma kv_node_lookup:
  assumes "kv_ok b64 cd kv"
  shows "map_of kv (node_key i) = None \<and> kv_nodes cd kv i = None
    \<or> (\<exists>v n. map_of kv (node_key i) = Some v \<and> cell_node cd v = Inr n \<and> kv_nodes cd kv i = Some n
          \<and> n_ID n = i \<and> stored_node b64 n = n)"
  using kv_row [OF assms, of "node_key i"]
  by (cases "map_of kv (node_key i)") (auto simp: kv_nodes_def row_ok_node)

lemma kv_name_lookup:
  assumes "kv_ok b64 cd kv"
  shows "map_of kv (name_key x) = None \<and> kv_names kv x = None
    \<or> (\<exists>v i. map_of kv (name_key x) = Some v \<and> cell_uint v = Inr (unat i) \<and> kv_names kv x = Some i)"
  using kv_row [OF assms, of "name_key x"]
  by (cases "map_of kv (name_key x)") (auto simp: kv_names_def row_ok_name)

lemma kv_cache_lookup:
  assumes "kv_ok b64 cd kv"
  shows "map_of kv (cache_key i) = None \<and> kv_caches cd kv i = None
    \<or> (\<exists>v c. map_of kv (cache_key i) = Some v \<and> cell_cache cd v = Inr c \<and> kv_caches cd kv i = Some c
          \<and> c_ID c = i)"
  using kv_row [OF assms, of "cache_key i"]
  by (cases "map_of kv (cache_key i)") (auto simp: kv_caches_def row_ok_cache)

text \<open>What saving changes.\<close>

lemma kv_ok_update:
  "kv_ok b64 cd kv \<Longrightarrow> row_ok b64 cd (k, v) \<Longrightarrow> kv_ok b64 cd (AList.update k v kv)"
proof -
  assume a: "kv_ok b64 cd kv" "row_ok b64 cd (k, v)"
  have "row_ok b64 cd r" if "r \<in> set (AList.update k v kv)" for r
  proof -
    have "distinct (keys_of (AList.update k v kv))" using a(1) by (simp add: kv_ok_def)
    then have "map_of (AList.update k v kv) (fst r) = Some (snd r)"
      using that by (intro map_of_is_SomeI) simp_all
    then have "r = (k, v) \<or> map_of kv (fst r) = Some (snd r)" by (cases r) (auto split: if_splits)
    with a kv_row [OF a(1), of "fst r" "snd r"] show ?thesis by (cases r) auto
  qed
  with a(1) show ?thesis by (simp add: kv_ok_def)
qed

lemma kv_save_node:
  assumes "kv_ok b64 cd kv"
  shows "\<exists>t. Node_MarshalJSON cd n = Inr t
    \<and> kv_ok b64 cd (AList.update (node_key (n_ID n)) (Json t) kv)
    \<and> kv_nodes cd (AList.update (node_key (n_ID n)) (Json t) kv)
      = (kv_nodes cd kv)(n_ID n \<mapsto> stored_node b64 n)
    \<and> kv_names (AList.update (node_key (n_ID n)) (Json t) kv) = kv_names kv
    \<and> kv_caches cd (AList.update (node_key (n_ID n)) (Json t) kv) = kv_caches cd kv"
proof -
  have ok: "codec_ok b64 cd" using assms by (simp add: kv_ok_def)
  have rt: "bind_res (Node_MarshalJSON cd n) (Node_UnmarshalJSON cd) = Inr (stored_node b64 n)"
    using node_text [OF ok] .
  then obtain t where t: "Node_MarshalJSON cd n = Inr t" "Node_UnmarshalJSON cd t = Inr (stored_node b64 n)"
    by (cases "Node_MarshalJSON cd n") auto
  then have "row_ok b64 cd (node_key (n_ID n), Json t)"
    by (auto simp: row_ok_node cell_node_def)
  from kv_ok_update [OF assms this] t show ?thesis
    by (auto simp: fun_eq_iff kv_nodes_def kv_names_def kv_caches_def cell_node_def)
qed

lemma cell_uint_Uint32ToStr [simp]: "cell_uint (Plain (Uint32ToStr i)) = Inr (unat i)"
  by (simp add: cell_uint_def Uint32ToStr_def)

lemma kv_save_name:
  assumes "kv_ok b64 cd kv"
  shows "kv_ok b64 cd (AList.update (name_key x) (Plain (Uint32ToStr i)) kv)"
    and "kv_nodes cd (AList.update (name_key x) (Plain (Uint32ToStr i)) kv) = kv_nodes cd kv"
    and "kv_names (AList.update (name_key x) (Plain (Uint32ToStr i)) kv) = (kv_names kv)(x \<mapsto> i)"
    and "kv_caches cd (AList.update (name_key x) (Plain (Uint32ToStr i)) kv) = kv_caches cd kv"
proof -
  have "row_ok b64 cd (name_key x, Plain (Uint32ToStr i))" by (auto simp: row_ok_name)
  from kv_ok_update [OF assms this]
  show "kv_ok b64 cd (AList.update (name_key x) (Plain (Uint32ToStr i)) kv)" .
qed (auto simp: fun_eq_iff kv_nodes_def kv_names_def kv_caches_def)

lemma kv_save_cache:
  assumes "kv_ok b64 cd kv"
  shows "\<exists>t. NodeCache_MarshalJSON cd c = Inr t
    \<and> kv_ok b64 cd (AList.update (cache_key (c_ID c)) (Json t) kv)
    \<and> kv_nodes cd (AList.update (cache_key (c_ID c)) (Json t) kv) = kv_nodes cd kv
    \<and> kv_names (AList.update (cache_key (c_ID c)) (Json t) kv) = kv_names kv
    \<and> kv_caches cd (AList.update (cache_key (c_ID c)) (Json t) kv) = (kv_caches cd kv)(c_ID c \<mapsto> c)"
proof -
  have ok: "codec_ok b64 cd" using assms by (simp add: kv_ok_def)
  have rt: "bind_res (NodeCache_MarshalJSON cd c) (NodeCache_UnmarshalJSON cd) = Inr c"
    using cache_text [OF ok] .
  then obtain t where t: "NodeCache_MarshalJSON cd c = Inr t" "NodeCache_UnmarshalJSON cd t = Inr c"
    by (cases "NodeCache_MarshalJSON cd c") auto
  then have "row_ok b64 cd (cache_key (c_ID c), Json t)"
    by (auto simp: row_ok_cache cell_cache_def)
  from kv_ok_update [OF assms this] t show ?thesis
    by (auto simp: fun_eq_iff kv_nodes_def kv_names_def kv_caches_def cell_cache_def)
qed

text \<open>Dropping every cache entry.\<close>

lemma kv_drop_caches:
  assumes "kv_ok b64 cd kv"
  shows "kv_ok b64 cd (filter (\<lambda>r. \<not> has_prefix (fst r) CacheKeyPrefix) kv)"
    and "kv_nodes cd (filter (\<lambda>r. \<not> has_prefix (fst r) CacheKeyPrefix) kv) = kv_nodes cd kv"
    and "kv_names (filter (\<lambda>r. \<not> has_prefix (fst r) CacheKeyPrefix) kv) = kv_names kv"
    and "kv_caches cd (filter (\<lambda>r. \<not> has_prefix (fst r) CacheKeyPrefix) kv) = Map.empty"
proof -
  show "kv_ok b64 cd (filter (\<lambda>r. \<not> has_prefix (fst r) CacheKeyPrefix) kv)"
    using assms by (auto simp: kv_ok_def intro: distinct_map_filter)
qed (auto simp: fun_eq_iff kv_nodes_def kv_names_def kv_caches_def restrict_map_def
    map_of_filter_keys [where P = "\<lambda>k. \<not> has_prefix k CacheKeyPrefix"])

text \<open>The rows of a list of keys, as \<open>WHERE key IN\<close> or a pipeline of reads finds them.\<close>

lemma kv_node_keys:
  assumes "kv_ok b64 cd kv" and "(k, v) \<in> set kv" and "has_prefix k NodeKeyPrefix"
  shows "\<exists>i n. k = node_key i \<and> cell_node cd v = Inr n \<and> n_ID n = i \<and> kv_nodes cd kv i = Some n
     \<and> map_of kv (node_key i) = Some v"
proof -
  have "row_ok b64 cd (k, v)" using assms(1,2) by (auto simp: kv_ok_def)
  then obtain n where n: "k = node_key (n_ID n)" "cell_node cd v = Inr n"
    using assms(3) unfolding row_ok_def by auto
  moreover have "map_of kv k = Some v" using assms(1,2) by (simp add: kv_ok_def)
  ultimately show ?thesis by (auto simp: kv_nodes_def)
qed

lemma kv_cache_keys:
  assumes "kv_ok b64 cd kv" and "(k, v) \<in> set kv" and "has_prefix k CacheKeyPrefix"
  shows "\<exists>i c. k = cache_key i \<and> cell_cache cd v = Inr c \<and> c_ID c = i \<and> kv_caches cd kv i = Some c
     \<and> map_of kv (cache_key i) = Some v"
proof -
  have "row_ok b64 cd (k, v)" using assms(1,2) by (auto simp: kv_ok_def)
  then obtain c where c: "k = cache_key (c_ID c)" "cell_cache cd v = Inr c"
    using assms(3) unfolding row_ok_def by auto
  moreover have "map_of kv k = Some v" using assms(1,2) by (simp add: kv_ok_def)
  ultimately show ?thesis by (auto simp: kv_caches_def)
qed

lemma kv_name_keys:
  assumes "kv_ok b64 cd kv" and "(k, v) \<in> set kv" and "has_prefix k NameToIDKey"
  shows "\<exists>x i. k = name_key x \<and> cell_uint v = Inr (unat (i :: id)) \<and> kv_names kv x = Some i"
proof -
  have "row_ok b64 cd (k, v)" using assms(1,2) by (auto simp: kv_ok_def)
  then obtain x and i :: id where x: "k = name_key x" "cell_uint v = Inr (unat i)"
    using assms(3) unfolding row_ok_def by auto
  moreover have "map_of kv k = Some v" using assms(1,2) by (simp add: kv_ok_def)
  ultimately show ?thesis by (auto simp: kv_names_def)
qed

lemma stored_node_edit:
  "stored_node b64 (n\<lparr>n_Children := cb, n_Parents := pb\<rparr>)
     = (stored_node b64 n)\<lparr>n_Children := cb, n_Parents := pb\<rparr>"
  by (cases n) (simp add: stored_node_def)

end
