(* ===== verification/Sql_Storage.thy ===== *)
theory Sql_Storage
  imports Store_Keys Go_Match
begin

text \<open>
  The SQL back end, \<open>pkg/storages/sql.go\<close>. The state is the four tables that the source declares.
  What the engine and the library around it (SQLite, gorm) decide is part of the state too and never
  changes: the JSON codec, the \<open>LIKE\<close> operator, the order in which a query without \<open>ORDER BY\<close> returns
  its rows, how many variables a statement may bind, and which statements fail.
\<close>

section \<open>Tables\<close>

text \<open>
  \<open>q_kv\<close> is \<open>KVStore\<close> by primary key, \<open>q_stack\<close> is \<open>CacheStack\<close>, \<open>q_custom\<close> is \<open>CustomData\<close> by its
  three key columns, and \<open>q_counter\<close> is the last value of the auto-increment column of
  \<open>GlobalCounter\<close>. The times of creation and update are never read. A statement is named by the
  method that issues it.
\<close>

datatype sql_stmt =
    Q_NameToID | Q_SaveNodeData | Q_SaveNodeName | Q_SaveNodeStack | Q_GetNode | Q_GetNodes
  | Q_GlobNames | Q_GlobNodes | Q_GetAllKeys | Q_SaveCache | Q_SaveCaches | Q_RemoveAllCaches
  | Q_ToBeCached | Q_AddNodeToCachedStack | Q_GetCache | Q_GetCaches | Q_ClearCacheStack
  | Q_GenerateID | Q_GetCustomData | Q_AddOrUpdateCustomData

record ('b, 't) sqldb =
  q_kv :: "(string \<times> 't cell) list"
  q_stack :: "id list"
  q_counter :: nat
  q_custom :: "((string \<times> string \<times> string) \<times> string) list"
  q_codec :: "('b, 't) codec"
  q_like :: "string \<Rightarrow> string \<Rightarrow> bool"
  q_order :: range_order
  q_vars :: "nat option"
  q_fails :: "sql_stmt \<Rightarrow> fault option"

definition empty_sqldb :: "('b, 't) codec \<Rightarrow> (string \<Rightarrow> string \<Rightarrow> bool) \<Rightarrow> ('b, 't) sqldb" where
  "empty_sqldb cd like =
     \<lparr>q_kv = [], q_stack = [], q_counter = 0, q_custom = [], q_codec = cd, q_like = like,
      q_order = in_order, q_vars = None, q_fails = (\<lambda>_. None)\<rparr>"

text \<open>The sentinel \<open>gorm.ErrRecordNotFound\<close>.\<close>

definition ErrRecordNotFound :: fault where
  "ErrRecordNotFound = Err ''record not found''"

definition sql_query :: "('b, 't) sqldb \<Rightarrow> sql_stmt \<Rightarrow> 'a res \<Rightarrow> 'a res" where
  "sql_query db q r = (case q_fails db q of Some e \<Rightarrow> Inl e | None \<Rightarrow> r)"

definition sql_exec :: "('b, 't) sqldb \<Rightarrow> sql_stmt \<Rightarrow> ('b, 't) sqldb \<Rightarrow> ('b, 't) sqldb \<times> unit res" where
  "sql_exec db q db' = (case q_fails db q of Some e \<Rightarrow> (db, Inl e) | None \<Rightarrow> (db', Inr ()))"

text \<open>\<open>DB.First(&kv, "key = ?", k)\<close> and \<open>DB.Where(condition on key).Find(&rows)\<close>.\<close>

definition sql_First :: "('b, 't) sqldb \<Rightarrow> sql_stmt \<Rightarrow> string \<Rightarrow> 't cell res" where
  "sql_First db q k =
     sql_query db q (case map_of (q_kv db) k of None \<Rightarrow> Inl ErrRecordNotFound | Some v \<Rightarrow> Inr v)"

definition sql_Find :: "('b, 't) sqldb \<Rightarrow> sql_stmt \<Rightarrow> (string \<Rightarrow> bool) \<Rightarrow> (string \<times> 't cell) list res" where
  "sql_Find db q P = sql_query db q (Inr (filter (\<lambda>r. P (fst r)) (go_range (q_order db) 0 (q_kv db))))"

text \<open>
  \<open>DB.Where("key IN ?", keys).Find(&rows)\<close> binds one variable for every key, repeated ones included; the
  engine refuses a statement with more variables than it allows (32766 in SQLite unless it is built
  with another limit). The other statements bind a fixed number.
\<close>

definition sql_FindIn :: "('b, 't) sqldb \<Rightarrow> sql_stmt \<Rightarrow> string list \<Rightarrow> (string \<times> 't cell) list res" where
  "sql_FindIn db q ks =
     (if q_vars db \<noteq> None \<and> the (q_vars db) < length ks then Inl (Err ''too many SQL variables'')
      else sql_Find db q (\<lambda>k. k \<in> set ks))"

section \<open>Opening\<close>

text \<open>
  The data source name and the number of open connections that \<open>NewSQLStorage\<close> chooses:
  an in-memory database lives in a single connection.
\<close>

fun str_contains :: "string \<Rightarrow> string \<Rightarrow> bool" where
  "str_contains [] sub = (sub = [])"
| "str_contains (c # s) sub = (has_prefix (c # s) sub \<or> str_contains s sub)"

definition sql_open_options :: "string \<Rightarrow> bool \<Rightarrow> string \<times> nat" where
  "sql_open_options dsn useInMemory =
     (if useInMemory \<or> str_contains dsn '':memory:'' then (''file::memory:'', 1)
      else
        let sep = (if str_contains dsn ''?'' then ''&'' else ''?'')
        in (dsn @ sep @ ''_pragma=busy_timeout(10000)&_pragma=journal_mode(WAL)&_pragma=synchronous(NORMAL)'',
            100))"

section \<open>Nodes\<close>

definition sql_row_id :: "string \<Rightarrow> nat res \<Rightarrow> id res" where
  "sql_row_id msg r =
     bind_res (ctx msg r) (\<lambda>i.
       if 4294967295 < i then Inl (Err ''ID exceeds uint32 maximum value'') else Inr (of_nat i))"

definition Sql_NameToID :: "('b, 't) sqldb \<Rightarrow> string \<Rightarrow> id res" where
  "Sql_NameToID db name =
     bind_res (ctx ''failed to get name-to-ID mapping'' (sql_First db Q_NameToID (NameToIDKey @ name)))
       (\<lambda>v. sql_row_id ''failed to convert ID to integer'' (cell_uint v))"

text \<open>
  The three statements of \<open>SaveNode\<close> run in one transaction: when one fails the tables are as before.
  The insert into the stack ignores an identifier that is already there.
\<close>

definition rollback :: "'s \<Rightarrow> 's \<times> 'a res \<Rightarrow> 's \<times> 'a res" where
  "rollback db r = (case snd r of Inl e \<Rightarrow> (db, Inl e) | Inr x \<Rightarrow> r)"

definition Sql_SaveNode :: "('b, 't) sqldb \<Rightarrow> node option \<Rightarrow> ('b, 't) sqldb \<times> unit res" where
  "Sql_SaveNode db node =
     (case node of
        None \<Rightarrow> (db, Inl (Err ''node cannot be nil''))
      | Some n \<Rightarrow>
          (case ctx ''failed to marshal node'' (Node_MarshalJSON (q_codec db) n) of
             Inl e \<Rightarrow> (db, Inl e)
           | Inr data \<Rightarrow>
               rollback db
                 (bind_st (ctx_st ''failed to save node data''
                    (sql_exec db Q_SaveNodeData
                       (db\<lparr>q_kv := AList.update (NodeKeyPrefix @ Uint32ToStr (n_ID n)) (Json data) (q_kv db)\<rparr>)))
                  (\<lambda>db1 _.
                  bind_st (ctx_st ''failed to save name-to-ID mapping''
                    (sql_exec db1 Q_SaveNodeName
                       (db1\<lparr>q_kv := AList.update (NameToIDKey @ n_Name n) (Plain (Uint32ToStr (n_ID n))) (q_kv db1)\<rparr>)))
                  (\<lambda>db2 _.
                  ctx_st ''failed to add node ID to cache stack''
                    (sql_exec db2 Q_SaveNodeStack
                       (db2\<lparr>q_stack := (if n_ID n \<in> set (q_stack db2) then q_stack db2
                                         else q_stack db2 @ [n_ID n])\<rparr>)))))))"

definition Sql_GetNode :: "('b, 't) sqldb \<Rightarrow> id \<Rightarrow> node res" where
  "Sql_GetNode db i =
     bind_res (ctx ''failed to get node data'' (sql_First db Q_GetNode (NodeKeyPrefix @ Uint32ToStr i)))
       (\<lambda>v. ctx ''failed to unmarshal node data'' (cell_node (q_codec db) v))"

definition generateNodeKeys :: "id list \<Rightarrow> string list" where
  "generateNodeKeys ids = map (\<lambda>i. NodeKeyPrefix @ Uint32ToStr i) ids"

text \<open>The loops of \<open>GetNodes\<close> and \<open>GetCaches\<close> over the rows found: the key gives the identifier.\<close>

fun decode_rows ::
  "string \<Rightarrow> string \<Rightarrow> string \<Rightarrow> ('t cell \<Rightarrow> 'a res) \<Rightarrow> (string \<times> 't cell) list \<Rightarrow> (id \<times> 'a) list
    \<Rightarrow> (id \<times> 'a) list res" where
  "decode_rows prefix m1 m2 dec [] acc = Inr acc"
| "decode_rows prefix m1 m2 dec ((k, v) # rows) acc =
     bind_res (ctx m1 (dec v)) (\<lambda>x.
     bind_res (sql_row_id m2 (ParseUint 32 (trim_prefix k prefix))) (\<lambda>i.
     decode_rows prefix m1 m2 dec rows (AList.update i x acc)))"

definition Sql_GetNodes :: "('b, 't) sqldb \<Rightarrow> id list \<Rightarrow> (id \<times> node) list res" where
  "Sql_GetNodes db ids =
     bind_res (ctx ''failed to get nodes''
       (sql_FindIn db Q_GetNodes (generateNodeKeys ids))) (\<lambda>rows.
     decode_rows NodeKeyPrefix ''failed to unmarshal node'' ''failed to parse node ID''
       (cell_node (q_codec db)) rows [])"

definition convertGlobToSQLPattern :: "string \<Rightarrow> string" where
  "convertGlobToSQLPattern pattern =
     concat (map (\<lambda>c. if c = CHR ''*'' then ''%''
                      else if c = CHR ''?'' then ''_''
                      else if c = CHR ''%'' \<or> c = CHR ''_'' then [CHR 0x5C, c]
                      else [c]) pattern)"

definition Sql_GetNodesByGlob :: "('b, 't) sqldb \<Rightarrow> string \<Rightarrow> node list res" where
  "Sql_GetNodesByGlob db pattern =
     bind_res (ctx ''failed to get name-to-ID mappings with pattern''
       (sql_Find db Q_GlobNames (q_like db (NameToIDKey @ convertGlobToSQLPattern pattern)))) (\<lambda>mappings.
     if length mappings = 0 then Inr []
     else
       bind_res (map_res (\<lambda>r. sql_row_id ''invalid ID format for key'' (cell_uint (snd r))) mappings)
         (\<lambda>ids.
       bind_res (ctx ''failed to retrieve nodes for IDs''
         (sql_FindIn db Q_GlobNodes (generateNodeKeys ids))) (\<lambda>rows.
       map_res (\<lambda>r. ctx ''failed to unmarshal node data'' (cell_node (q_codec db) (snd r))) rows)))"

definition Sql_GetAllKeys :: "('b, 't) sqldb \<Rightarrow> id list res" where
  "Sql_GetAllKeys db =
     bind_res (ctx ''failed to get all node IDs''
       (sql_Find db Q_GetAllKeys (q_like db (NodeKeyPrefix @ ''%'')))) (\<lambda>rows.
     map_res (\<lambda>r. bind_res (ctx ''failed to unmarshal node data'' (cell_node (q_codec db) (snd r)))
       (\<lambda>n. Inr (n_ID n))) rows)"

section \<open>Caches\<close>

definition Sql_SaveCache :: "('b, 't) sqldb \<Rightarrow> node_cache \<Rightarrow> ('b, 't) sqldb \<times> unit res" where
  "Sql_SaveCache db c =
     (case ctx ''failed to marshal cache'' (NodeCache_MarshalJSON (q_codec db) c) of
        Inl e \<Rightarrow> (db, Inl e)
      | Inr data \<Rightarrow>
          ctx_st ''failed to save cache''
            (sql_exec db Q_SaveCache
               (db\<lparr>q_kv := AList.update (CacheKeyPrefix @ Uint32ToStr (c_ID c)) (Json data) (q_kv db)\<rparr>)))"

text \<open>Caches are saved in batches of 500 rows; an error leaves the batches before it saved.\<close>

function Sql_SaveCaches :: "('b, 't) sqldb \<Rightarrow> node_cache list \<Rightarrow> ('b, 't) sqldb \<times> unit res" where
  "Sql_SaveCaches db cs =
     (if cs = [] then (db, Inr ())
      else
        (case map_res (\<lambda>c. bind_res (ctx ''failed to marshal cache'' (NodeCache_MarshalJSON (q_codec db) c))
                (\<lambda>data. Inr (CacheKeyPrefix @ Uint32ToStr (c_ID c), Json data))) (take 500 cs) of
           Inl e \<Rightarrow> (db, Inl e)
         | Inr rows \<Rightarrow>
             bind_st (ctx_st ''failed to save caches batch''
               (sql_exec db Q_SaveCaches
                  (db\<lparr>q_kv := fold (\<lambda>r. AList.update (fst r) (snd r)) rows (q_kv db)\<rparr>)))
               (\<lambda>db1 _. Sql_SaveCaches db1 (drop 500 cs))))"
  by pat_completeness auto
termination by (relation "measure (\<lambda>(db, cs). length cs)") auto

declare Sql_SaveCaches.simps [simp del]

definition Sql_RemoveAllCaches :: "('b, 't) sqldb \<Rightarrow> ('b, 't) sqldb \<times> unit res" where
  "Sql_RemoveAllCaches db =
     ctx_st ''failed to remove all caches''
       (sql_exec db Q_RemoveAllCaches
          (db\<lparr>q_kv := filter (\<lambda>r. \<not> q_like db (CacheKeyPrefix @ ''%'') (fst r)) (q_kv db)\<rparr>))"

definition Sql_ToBeCached :: "('b, 't) sqldb \<Rightarrow> id list res" where
  "Sql_ToBeCached db =
     ctx ''failed to get cache stack''
       (sql_query db Q_ToBeCached (Inr (go_range (q_order db) 1 (q_stack db))))"

text \<open>A plain insert: the primary key of the table refuses an identifier that is already there.\<close>

definition Sql_AddNodeToCachedStack :: "('b, 't) sqldb \<Rightarrow> id \<Rightarrow> ('b, 't) sqldb \<times> unit res" where
  "Sql_AddNodeToCachedStack db i =
     ctx_st ''failed to add node ID to cache stack''
       (if i \<in> set (q_stack db) then (db, Inl (Err ''UNIQUE constraint failed''))
        else sql_exec db Q_AddNodeToCachedStack (db\<lparr>q_stack := q_stack db @ [i]\<rparr>))"

definition Sql_GetCache :: "('b, 't) sqldb \<Rightarrow> id \<Rightarrow> node_cache option res" where
  "Sql_GetCache db i =
     (case sql_First db Q_GetCache (CacheKeyPrefix @ Uint32ToStr i) of
        Inl e \<Rightarrow>
          if errors_is e ErrRecordNotFound then Inr None
          else Inl (wrap ''failed to get cache'' e)
      | Inr v \<Rightarrow>
          bind_res (ctx ''failed to unmarshal cache'' (cell_cache (q_codec db) v)) (\<lambda>c. Inr (Some c)))"

definition Sql_GetCaches :: "('b, 't) sqldb \<Rightarrow> id list \<Rightarrow> (id \<times> node_cache) list res" where
  "Sql_GetCaches db ids =
     bind_res (ctx ''failed to get caches''
       (sql_FindIn db Q_GetCaches (map (\<lambda>i. CacheKeyPrefix @ Uint32ToStr i) ids))) (\<lambda>rows.
     decode_rows CacheKeyPrefix ''failed to unmarshal cache'' ''failed to parse ID from key''
       (cell_cache (q_codec db)) rows [])"

definition Sql_ClearCacheStack :: "('b, 't) sqldb \<Rightarrow> ('b, 't) sqldb \<times> unit res" where
  "Sql_ClearCacheStack db =
     ctx_st ''failed to clear cache stack'' (sql_exec db Q_ClearCacheStack (db\<lparr>q_stack := []\<rparr>))"

definition Sql_GenerateID :: "('b, 't) sqldb \<Rightarrow> ('b, 't) sqldb \<times> id res" where
  "Sql_GenerateID db =
     bind_st (ctx_st ''failed to generate ID''
       (sql_exec db Q_GenerateID (db\<lparr>q_counter := Suc (q_counter db)\<rparr>)))
       (\<lambda>db1 _. (db1, Inr (of_nat (q_counter db1))))"

section \<open>Custom data\<close>

definition Sql_GetCustomData :: "('b, 't) sqldb \<Rightarrow> string \<Rightarrow> string \<Rightarrow> (string \<times> string) list res" where
  "Sql_GetCustomData db tag k =
     bind_res (ctx ''failed to get custom data''
       (sql_query db Q_GetCustomData
          (Inr (filter (\<lambda>r. fst (fst r) = tag \<and> fst (snd (fst r)) = k)
                  (go_range (q_order db) 2 (q_custom db)))))) (\<lambda>rows.
     Inr (fold (\<lambda>r. AList.update (snd (snd (fst r))) (snd r)) rows []))"

definition Sql_AddOrUpdateCustomData ::
  "('b, 't) sqldb \<Rightarrow> string \<Rightarrow> string \<Rightarrow> string \<Rightarrow> string \<Rightarrow> ('b, 't) sqldb \<times> unit res" where
  "Sql_AddOrUpdateCustomData db tag k dataKey data =
     ctx_st ''failed to save custom data''
       (sql_exec db Q_AddOrUpdateCustomData
          (db\<lparr>q_custom := AList.update (tag, k, dataKey) data (q_custom db)\<rparr>))"

definition sql_storage :: "('b, 't) sqldb storage" where
  "sql_storage =
     \<lparr>st_NameToID = Sql_NameToID, st_SaveNode = (\<lambda>db n. Sql_SaveNode db (Some n)),
      st_GetNode = Sql_GetNode, st_GetNodes = Sql_GetNodes,
      st_GetNodesByGlob = Sql_GetNodesByGlob, st_GetAllKeys = Sql_GetAllKeys,
      st_SaveCache = Sql_SaveCache, st_SaveCaches = Sql_SaveCaches,
      st_RemoveAllCaches = Sql_RemoveAllCaches, st_ToBeCached = Sql_ToBeCached,
      st_AddNodeToCachedStack = Sql_AddNodeToCachedStack, st_GetCache = Sql_GetCache,
      st_GetCaches = Sql_GetCaches, st_ClearCacheStack = Sql_ClearCacheStack,
      st_GenerateID = Sql_GenerateID, st_GetCustomData = Sql_GetCustomData,
      st_AddOrUpdateCustomData = Sql_AddOrUpdateCustomData\<rparr>"

lemma sql_storage_simps [store_simps]:
  "st_NameToID sql_storage = Sql_NameToID"
  "st_SaveNode sql_storage = (\<lambda>db n. Sql_SaveNode db (Some n))"
  "st_GetNode sql_storage = Sql_GetNode" "st_GetNodes sql_storage = Sql_GetNodes"
  "st_GetNodesByGlob sql_storage = Sql_GetNodesByGlob"
  "st_GetAllKeys sql_storage = Sql_GetAllKeys" "st_SaveCache sql_storage = Sql_SaveCache"
  "st_SaveCaches sql_storage = Sql_SaveCaches"
  "st_RemoveAllCaches sql_storage = Sql_RemoveAllCaches"
  "st_ToBeCached sql_storage = Sql_ToBeCached"
  "st_AddNodeToCachedStack sql_storage = Sql_AddNodeToCachedStack"
  "st_GetCache sql_storage = Sql_GetCache" "st_GetCaches sql_storage = Sql_GetCaches"
  "st_ClearCacheStack sql_storage = Sql_ClearCacheStack"
  "st_GenerateID sql_storage = Sql_GenerateID" "st_GetCustomData sql_storage = Sql_GetCustomData"
  "st_AddOrUpdateCustomData sql_storage = Sql_AddOrUpdateCustomData"
  by (simp_all add: sql_storage_def)

section \<open>The operator LIKE\<close>

text \<open>
  What the SQLite documentation says of \<open>LIKE\<close> without an \<open>ESCAPE\<close> clause, on ASCII text: \<open>%\<close> stands
  for any sequence, \<open>_\<close> for one character, and every other character for itself in either case.
\<close>

fun doc_like :: "string \<Rightarrow> string \<Rightarrow> bool" where
  "doc_like [] s = (s = [])"
| "doc_like (c # p) [] = (c = CHR ''%'' \<and> doc_like p [])"
| "doc_like (c # p) (d # s) =
     (if c = CHR ''%'' then doc_like p (d # s) \<or> doc_like (c # p) s
      else (c = CHR ''_'' \<or> lower_char c = lower_char d) \<and> doc_like p s)"

lemma doc_like_any [simp]: "doc_like ''%'' s"
  by (induction s) auto

lemma doc_like_prefix:
  "list_all (\<lambda>c. c \<noteq> CHR ''%'' \<and> c \<noteq> CHR ''_'') p \<Longrightarrow>
     doc_like (p @ q) s \<longleftrightarrow> has_prefix (to_lower s) (to_lower p) \<and> doc_like q (drop (length p) s)"
proof (induction p arbitrary: s)
  case Nil
  then show ?case by (simp add: has_prefix_def to_lower_def)
next
  case (Cons c p)
  then show ?case by (cases s) (auto simp: has_prefix_def to_lower_def)
qed

lemma doc_like_rows:
  "doc_like (NodeKeyPrefix @ ''%'') s \<longleftrightarrow> has_prefix (to_lower s) NodeKeyPrefix"
  "doc_like (CacheKeyPrefix @ ''%'') s \<longleftrightarrow> has_prefix (to_lower s) CacheKeyPrefix"
proof -
  have l: "to_lower NodeKeyPrefix = NodeKeyPrefix" "to_lower CacheKeyPrefix = CacheKeyPrefix"
    by (simp_all add: NodeKeyPrefix_def CacheKeyPrefix_def to_lower_def lower_char_def
        is_upper_char_def byte_of_def)
  show "doc_like (NodeKeyPrefix @ ''%'') s \<longleftrightarrow> has_prefix (to_lower s) NodeKeyPrefix"
    using doc_like_prefix [of NodeKeyPrefix "''%''" s] l by (simp add: NodeKeyPrefix_def)
  show "doc_like (CacheKeyPrefix @ ''%'') s \<longleftrightarrow> has_prefix (to_lower s) CacheKeyPrefix"
    using doc_like_prefix [of CacheKeyPrefix "''%''" s] l by (simp add: CacheKeyPrefix_def)
qed

section \<open>What a pattern means\<close>

text \<open>
  The names that a pattern with wildcards accepts: \<open>*\<close> stands for any sequence and \<open>?\<close> for one of the
  characters in \<open>any\<close>, and another character for those that it equals under \<open>eq\<close>.
\<close>

fun wild :: "(char \<Rightarrow> bool) \<Rightarrow> (char \<Rightarrow> char \<Rightarrow> bool) \<Rightarrow> string \<Rightarrow> string \<Rightarrow> bool" where
  "wild any eq [] s = (s = [])"
| "wild any eq (c # p) s =
     (if c = CHR ''*'' then (\<exists>k \<le> length s. list_all any (take k s) \<and> wild any eq p (drop k s))
      else s \<noteq> [] \<and> (if c = CHR ''?'' then any (hd s) else eq c (hd s)) \<and> wild any eq p (tl s))"

text \<open>
  The names that a search in SQL accepts: the wildcards cross slashes and case is ignored. A percent
  sign or an underscore in the pattern stands for a backslash and any sequence, or a backslash and any
  character: they are meant to be escaped, but \<open>LIKE\<close> has no escape character unless it is given one.
\<close>

fun sql_accepts :: "string \<Rightarrow> string \<Rightarrow> bool" where
  "sql_accepts [] s = (s = [])"
| "sql_accepts (c # p) s =
     (if c = CHR ''*'' then (\<exists>k \<le> length s. sql_accepts p (drop k s))
      else s \<noteq> [] \<and>
        (if c = CHR ''?'' then sql_accepts p (tl s)
         else if c = CHR ''%'' then hd s = CHR 0x5C \<and> (\<exists>k \<le> length (tl s). sql_accepts p (drop k (tl s)))
         else if c = CHR ''_'' then hd s = CHR 0x5C \<and> tl s \<noteq> [] \<and> sql_accepts p (tl (tl s))
         else lower_char c = lower_char (hd s) \<and> sql_accepts p (tl s)))"

definition plain_glob_char :: "char \<Rightarrow> bool" where
  "plain_glob_char c \<longleftrightarrow> c \<noteq> CHR ''%'' \<and> c \<noteq> CHR ''_'' \<and> c \<noteq> CHR ''['' \<and> c \<noteq> CHR 0x5C"

lemma sql_accepts_wild:
  "list_all plain_glob_char p \<Longrightarrow>
     sql_accepts p s = wild (\<lambda>_. True) (\<lambda>c d. lower_char c = lower_char d) p s"
  by (induction p arbitrary: s) (auto simp: plain_glob_char_def list_all_iff)

lemma Ex_le_Suc2: "(\<exists>k \<le> Suc n. P k) \<longleftrightarrow> P 0 \<or> (\<exists>k \<le> n. P (Suc k))"
  using Ex_less_Suc2 [of "Suc n" P] by (simp add: less_Suc_eq_le)

lemma match_elems_Star:
  "match_elems (Star # es) s
    \<longleftrightarrow> (\<exists>k \<le> length s. list_all (\<lambda>c. c \<noteq> CHR ''/'') (take k s) \<and> match_elems es (drop k s))"
  by (induction s) (auto simp: Ex_le_Suc2)

text \<open>\<open>filepath.Match\<close> on a pattern without brackets and backslashes.\<close>

lemma match_elems_wild:
  "list_all plain_glob_char p \<Longrightarrow>
     \<exists>es. parse_glob p = Some es \<and> (\<forall>s. match_elems es s = wild (\<lambda>c. c \<noteq> CHR ''/'') (=) p s)"
proof (induction p)
  case (Cons c p)
  then obtain es where es: "parse_glob p = Some es"
    "\<And>s. match_elems es s = wild (\<lambda>c. c \<noteq> CHR ''/'') (=) p s" by auto
  have c: "plain_glob_char c" using Cons.prems by simp
  consider "c = CHR ''*''" | "c = CHR ''?''" | "c \<noteq> CHR ''*''" "c \<noteq> CHR ''?''" by blast
  then show ?case
  proof cases
    case 1
    then show ?thesis using es by (simp add: match_elems_Star del: match_elems.simps)
  next
    case 2
    have "match_elems (AnyChar # es) s = wild (\<lambda>c. c \<noteq> CHR ''/'') (=) (CHR ''?'' # p) s" for s
      using es(2) by (cases s) auto
    with 2 es(1) show ?thesis by simp
  next
    case 3
    have "match_elems (Lit c # es) s = wild (\<lambda>c. c \<noteq> CHR ''/'') (=) (c # p) s" for s
      using es(2) 3 by (cases s) auto
    with 3 c es(1) show ?thesis by (simp add: plain_glob_char_def)
  qed
qed simp

lemma filepath_Match_wild:
  "list_all plain_glob_char p \<Longrightarrow> filepath_Match p s = Inr (wild (\<lambda>c. c \<noteq> CHR ''/'') (=) p s)"
  using match_elems_wild [of p] by (auto simp: filepath_Match_def)

lemma wild_mono:
  assumes "wild any eq p s" and "\<And>c. c \<in> set s \<Longrightarrow> any c \<Longrightarrow> any' c"
    and "\<And>c d. c \<in> set p \<Longrightarrow> d \<in> set s \<Longrightarrow> eq c d \<Longrightarrow> eq' c d"
  shows "wild any' eq' p s"
  using assms
proof (induction p arbitrary: s)
  case (Cons c p)
  show ?case
  proof (cases "c = CHR ''*''")
    case True
    then obtain k where k: "k \<le> length s" "list_all any (take k s)" "wild any eq p (drop k s)"
      using Cons.prems(1) by auto
    have "wild any' eq' p (drop k s)"
    proof (rule Cons.IH [OF k(3)])
      show "any' d" if "d \<in> set (drop k s)" "any d" for d
        using Cons.prems(2) [OF in_set_dropD [OF that(1)] that(2)] .
      show "eq' b d" if "b \<in> set p" "d \<in> set (drop k s)" "eq b d" for b d
        using Cons.prems(3) [OF _ in_set_dropD [OF that(2)] that(3)] that(1) by simp
    qed
    moreover have "list_all any' (take k s)"
      unfolding list_all_iff
    proof
      fix d assume d: "d \<in> set (take k s)"
      then have "any d" using k(2) by (simp add: list_all_iff)
      then show "any' d" by (rule Cons.prems(2) [OF in_set_takeD [OF d]])
    qed
    ultimately show ?thesis using True k(1) by auto
  next
    case False
    then obtain d t where s: "s = d # t" using Cons.prems(1) by (cases s) auto
    have w: "wild any eq p t" "if c = CHR ''?'' then any d else eq c d"
      using False Cons.prems(1) s by auto
    have "wild any' eq' p t"
      by (rule Cons.IH [OF w(1)]) (simp_all add: Cons.prems(2,3) s)
    moreover have "if c = CHR ''?'' then any' d else eq' c d"
      using w(2) Cons.prems(2) [of d] Cons.prems(3) [of c d] s by (simp split: if_splits)
    ultimately show ?thesis using False s by simp
  qed
qed simp

section \<open>Translating a pattern\<close>

lemma convert_Cons:
  "convertGlobToSQLPattern (c # p) =
     (if c = CHR ''*'' then ''%'' else if c = CHR ''?'' then ''_''
      else if c = CHR ''%'' \<or> c = CHR ''_'' then [CHR 0x5C, c] else [c]) @ convertGlobToSQLPattern p"
  by (simp add: convertGlobToSQLPattern_def)

text \<open>A backslash in a LIKE pattern is an ordinary character, so escaping with it changes the name.\<close>

lemma doc_like_literal:
  "doc_like p s \<Longrightarrow> c \<in> set p \<Longrightarrow> c \<noteq> CHR ''%'' \<Longrightarrow> c \<noteq> CHR ''_'' \<Longrightarrow>
     \<exists>d \<in> set s. lower_char c = lower_char d"
  by (induction p s rule: doc_like.induct) (auto split: if_splits)

lemma convert_escapes:
  "CHR ''%'' \<in> set p \<or> CHR ''_'' \<in> set p \<Longrightarrow> CHR 0x5C \<in> set (convertGlobToSQLPattern p)"
  by (induction p) (auto simp: convert_Cons)

lemma lower_backslash: "lower_char d = CHR 0x5C \<longleftrightarrow> d = CHR 0x5C"
proof -
  have b: "byte_of (CHR 0x5C) = 92" by (simp add: byte_of_def)
  have "\<not> is_upper_char (CHR 0x5C)" by (simp add: is_upper_char_def b)
  moreover have "char_of (byte_of d + 32) \<noteq> CHR 0x5C" if "is_upper_char d"
  proof
    assume "char_of (byte_of d + 32) = CHR 0x5C"
    then have "byte_of (char_of (byte_of d + 32)) = 92" by (simp only: b)
    with that show False by (simp add: is_upper_char_def)
  qed
  ultimately show ?thesis by (auto simp: lower_char_def)
qed

lemma doc_like_percent:
  "doc_like (CHR ''%'' # p) s \<longleftrightarrow> (\<exists>k \<le> length s. doc_like p (drop k s))"
  by (induction s) (auto simp: Ex_le_Suc2)

lemma doc_like_one:
  "c \<noteq> CHR ''%'' \<Longrightarrow> doc_like (c # p) s \<longleftrightarrow>
     s \<noteq> [] \<and> (c = CHR ''_'' \<or> lower_char c = lower_char (hd s)) \<and> doc_like p (tl s)"
  by (cases s) auto

lemma doc_like_backslash: "doc_like (CHR 0x5C # p) s \<longleftrightarrow> s \<noteq> [] \<and> hd s = CHR 0x5C \<and> doc_like p (tl s)"
  using lower_backslash [of "hd s"] lower_backslash [THEN iffD2, of "CHR 0x5C"] by (subst doc_like_one) auto

text \<open>The translated pattern accepts what the search means, whatever the pattern and the name.\<close>

lemma doc_like_convert: "doc_like (convertGlobToSQLPattern p) s = sql_accepts p s"
proof (induction p arbitrary: s)
  case Nil
  show ?case by (simp add: convertGlobToSQLPattern_def)
next
  case (Cons c p)
  let ?q = "convertGlobToSQLPattern p"
  consider "c = CHR ''*''" | "c = CHR ''?''" | "c = CHR ''%''" | "c = CHR ''_''"
    | "c \<notin> {CHR ''*'', CHR ''?'', CHR ''%'', CHR ''_''}" by blast
  then show ?case
  proof cases
    case 5
    then show ?thesis by (simp add: convert_Cons doc_like_one Cons.IH del: doc_like.simps)
  qed (simp_all add: convert_Cons doc_like_percent doc_like_backslash doc_like_one Cons.IH del: doc_like.simps)
qed

text \<open>On the keys of the table, the pattern of a search finds the names that it accepts.\<close>

lemma doc_like_apart:
  "\<not> doc_like (NameToIDKey @ q) (NodeKeyPrefix @ x)" "\<not> doc_like (NameToIDKey @ q) (CacheKeyPrefix @ x)"
  by (simp_all add: NameToIDKey_def NodeKeyPrefix_def CacheKeyPrefix_def lower_char_def is_upper_char_def byte_of_def)

lemma doc_like_name: "doc_like (NameToIDKey @ q) (NameToIDKey @ x) = doc_like q x"
  by (simp add: NameToIDKey_def)

section \<open>The contract holds\<close>

definition sql_wf :: "(string \<Rightarrow> string) \<Rightarrow> ('b, 't) sqldb \<Rightarrow> bool" where
  "sql_wf b64 db \<longleftrightarrow> kv_ok b64 (q_codec db) (q_kv db) \<and> distinct (q_stack db)
     \<and> distinct (keys_of (q_custom db)) \<and> q_like db = doc_like \<and> range_ok (q_order db)
     \<and> q_vars db = None \<and> q_fails db = (\<lambda>_. None)"

definition sql_abs :: "('b, 't) sqldb \<Rightarrow> gstate" where
  "sql_abs db =
     \<lparr>g_nodes = kv_nodes (q_codec db) (q_kv db), g_names = kv_names (q_kv db),
      g_caches = kv_caches (q_codec db) (q_kv db), g_pending = set (q_stack db),
      g_next = q_counter db,
      g_custom = (\<lambda>(tag, k) dk. map_of (q_custom db) (tag, k, dk))\<rparr>"

lemma sql_abs_simps [simp]:
  "g_nodes (sql_abs db) = kv_nodes (q_codec db) (q_kv db)"
  "g_names (sql_abs db) = kv_names (q_kv db)"
  "g_caches (sql_abs db) = kv_caches (q_codec db) (q_kv db)"
  "g_pending (sql_abs db) = set (q_stack db)" "g_next (sql_abs db) = q_counter db"
  by (simp_all add: sql_abs_def)

lemma sql_wf_kv: "sql_wf b64 db \<Longrightarrow> kv_ok b64 (q_codec db) (q_kv db)"
  by (simp add: sql_wf_def)

lemma sql_ok [simp]:
  "sql_wf b64 db \<Longrightarrow> sql_query db q r = r" "sql_wf b64 db \<Longrightarrow> sql_exec db q db' = (db', Inr ())"
  by (simp_all add: sql_wf_def sql_query_def sql_exec_def)

lemma sql_row_id_uint [simp]: "sql_row_id msg (Inr (unat (i :: id))) = Inr i"
proof -
  have "unat i \<le> 4294967295" using unsigned_less [of i, where ?'a = nat] by simp
  then show ?thesis by (simp add: sql_row_id_def)
qed

lemma sql_First_simp:
  "sql_wf b64 db \<Longrightarrow> sql_First db q k =
     (case map_of (q_kv db) k of None \<Rightarrow> Inl ErrRecordNotFound | Some v \<Rightarrow> Inr v)"
  by (simp add: sql_First_def)

lemma sql_FindIn_simp: "sql_wf b64 db \<Longrightarrow> sql_FindIn db q ks = sql_Find db q (\<lambda>k. k \<in> set ks)"
  by (simp add: sql_FindIn_def sql_wf_def)

lemma sql_NameToID_ok:
  assumes "sql_wf b64 db"
  shows "Sql_NameToID db x = (case kv_names (q_kv db) x of
    None \<Rightarrow> Inl (wrap ''failed to get name-to-ID mapping'' ErrRecordNotFound) | Some i \<Rightarrow> Inr i)"
  using kv_name_lookup [OF sql_wf_kv [OF assms], of x] assms
  by (auto simp: Sql_NameToID_def sql_First_simp)

lemma sql_GetNode_ok:
  assumes "sql_wf b64 db"
  shows "Sql_GetNode db i = (case kv_nodes (q_codec db) (q_kv db) i of
    None \<Rightarrow> Inl (wrap ''failed to get node data'' ErrRecordNotFound) | Some n \<Rightarrow> Inr n)"
  using kv_node_lookup [OF sql_wf_kv [OF assms], of i] assms
  by (auto simp: Sql_GetNode_def sql_First_simp)

lemma sql_GetCache_ok:
  assumes "sql_wf b64 db"
  shows "Sql_GetCache db i = Inr (kv_caches (q_codec db) (q_kv db) i)"
  using kv_cache_lookup [OF sql_wf_kv [OF assms], of i] assms
  by (auto simp: Sql_GetCache_def sql_First_simp ErrRecordNotFound_def)

lemma sql_SaveNode_ok:
  assumes "sql_wf b64 db"
  shows "\<exists>s'. Sql_SaveNode db (Some n) = (s', Inr ()) \<and> sql_wf b64 s' \<and> sql_abs s' =
    (sql_abs db)\<lparr>g_nodes := (g_nodes (sql_abs db))(n_ID n \<mapsto> stored_node b64 n),
      g_names := (g_names (sql_abs db))(n_Name n \<mapsto> n_ID n),
      g_pending := insert (n_ID n) (g_pending (sql_abs db))\<rparr>"
proof -
  obtain t where t: "Node_MarshalJSON (q_codec db) n = Inr t"
    "kv_ok b64 (q_codec db) (AList.update (node_key (n_ID n)) (Json t) (q_kv db))"
    "kv_nodes (q_codec db) (AList.update (node_key (n_ID n)) (Json t) (q_kv db))
      = (kv_nodes (q_codec db) (q_kv db))(n_ID n \<mapsto> stored_node b64 n)"
    "kv_names (AList.update (node_key (n_ID n)) (Json t) (q_kv db)) = kv_names (q_kv db)"
    "kv_caches (q_codec db) (AList.update (node_key (n_ID n)) (Json t) (q_kv db))
      = kv_caches (q_codec db) (q_kv db)"
    using kv_save_node [OF sql_wf_kv [OF assms]] by blast
  show ?thesis
    using assms t kv_save_name [OF t(2), of "n_Name n" "n_ID n"]
    by (auto simp: Sql_SaveNode_def sql_exec_def rollback_def sql_wf_def sql_abs_def)
qed

lemma decode_rows_ok:
  assumes "\<And>k v. (k, v) \<in> set rows \<Longrightarrow> \<exists>i x. k = prefix @ Uint32ToStr i \<and> dec v = Inr x \<and> f i = Some x"
    and "map_of acc \<subseteq>\<^sub>m f" and "distinct (keys_of acc)"
  shows "\<exists>al. decode_rows prefix m1 m2 dec rows acc = Inr al \<and> distinct (keys_of al)
    \<and> map_of al = f |` (dom (map_of acc) \<union> {i. prefix @ Uint32ToStr i \<in> fst ` set rows})"
  using assms
proof (induction rows arbitrary: acc)
  case Nil
  have "map_of acc = f |` dom (map_of acc)"
    using Nil.prems(2) by (intro ext) (auto simp: map_le_def restrict_map_def dom_def)
  with Nil.prems(3) show ?case by simp
next
  case (Cons r rows)
  obtain i x where r: "r = (prefix @ Uint32ToStr i, snd r)" "dec (snd r) = Inr x" "f i = Some x"
    using Cons.prems(1) [of "fst r" "snd r"] by (cases r) auto
  have "\<exists>al. decode_rows prefix m1 m2 dec rows (AList.update i x acc) = Inr al \<and> distinct (keys_of al)
    \<and> map_of al = f |` (dom (map_of (AList.update i x acc)) \<union> {i. prefix @ Uint32ToStr i \<in> fst ` set rows})"
    using Cons.prems r(3) by (intro Cons.IH) (auto simp: map_le_def)
  moreover have "dom (map_of (AList.update i x acc)) \<union> {i. prefix @ Uint32ToStr i \<in> fst ` set rows}
    = dom (map_of acc) \<union> {i. prefix @ Uint32ToStr i \<in> fst ` set (r # rows)}"
    by (subst r(1)) auto
  moreover have "decode_rows prefix m1 m2 dec (r # rows) acc
    = decode_rows prefix m1 m2 dec rows (AList.update i x acc)"
    by (subst r(1)) (simp add: r(2) Uint32ToStr_def)
  ultimately show ?case by simp
qed

lemma decode_found:
  fixes f :: "id \<rightharpoonup> 'x"
  assumes "distinct (keys_of kv)" and "set kv' = set kv"
    and found: "\<And>i. (map_of kv (prefix @ Uint32ToStr i) = None \<and> f i = None)
      \<or> (\<exists>v x. map_of kv (prefix @ Uint32ToStr i) = Some v \<and> dec v = Inr x \<and> f i = Some x)"
  shows "\<exists>al. decode_rows prefix m1 m2 dec
      (filter (\<lambda>r. fst r \<in> (\<lambda>i. prefix @ Uint32ToStr i) ` set ids) kv') [] = Inr al
    \<and> distinct (keys_of al) \<and> map_of al = f |` set ids"
proof -
  let ?P = "\<lambda>r. fst r \<in> (\<lambda>i. prefix @ Uint32ToStr i) ` set ids"
  let ?rows = "filter ?P kv'" and ?e = "[] :: (id \<times> 'x) list"
  have "\<exists>i x. k = prefix @ Uint32ToStr i \<and> dec v = Inr x \<and> f i = Some x"
    if "(k, v) \<in> set ?rows" for k v
  proof -
    from that obtain i where i: "k = prefix @ Uint32ToStr i" and "(k, v) \<in> set kv"
      using assms(2) by auto
    then have "map_of kv (prefix @ Uint32ToStr i) = Some v" using assms(1) by simp
    with found [of i] i show ?thesis by auto
  qed
  moreover have "map_of ?e \<subseteq>\<^sub>m f" by simp
  moreover have "distinct (keys_of ?e)" by simp
  ultimately have "\<exists>al. decode_rows prefix m1 m2 dec ?rows ?e = Inr al \<and> distinct (keys_of al)
    \<and> map_of al = f |` (dom (map_of ?e) \<union> {i. prefix @ Uint32ToStr i \<in> fst ` set ?rows})"
    by (rule decode_rows_ok)
  moreover have "f |` (dom (map_of ?e) \<union> {i. prefix @ Uint32ToStr i \<in> fst ` set ?rows}) = f |` set ids"
  proof (intro ext)
    fix i
    show "(f |` (dom (map_of ?e) \<union> {i. prefix @ Uint32ToStr i \<in> fst ` set ?rows})) i = (f |` set ids) i"
    proof (cases "map_of kv (prefix @ Uint32ToStr i)")
      case None
      with found [of i] show ?thesis by (simp add: restrict_map_def)
    next
      case (Some v)
      then have "(prefix @ Uint32ToStr i, v) \<in> set kv'" using assms(2) map_of_SomeD by metis
      then have "prefix @ Uint32ToStr i \<in> fst ` set ?rows \<longleftrightarrow> i \<in> set ids"
        by (auto simp: image_iff)
      then show ?thesis by (simp add: restrict_map_def)
    qed
  qed
  ultimately show ?thesis by simp
qed

lemma sql_rows: "sql_wf b64 db \<Longrightarrow> distinct (keys_of (q_kv db)) \<and> set (go_range (q_order db) k (q_kv db)) = set (q_kv db)"
  by (simp add: sql_wf_def kv_ok_def)

lemma sql_GetNodes_ok:
  assumes "sql_wf b64 db"
  shows "\<exists>al. Sql_GetNodes db ids = Inr al \<and> distinct (keys_of al)
    \<and> map_of al = kv_nodes (q_codec db) (q_kv db) |` set ids"
proof -
  let ?cd = "q_codec db" and ?kv = "q_kv db"
  have "(map_of ?kv (NodeKeyPrefix @ Uint32ToStr i) = None \<and> kv_nodes ?cd ?kv i = None)
      \<or> (\<exists>v x. map_of ?kv (NodeKeyPrefix @ Uint32ToStr i) = Some v \<and> cell_node ?cd v = Inr x
            \<and> kv_nodes ?cd ?kv i = Some x)" for i
    using kv_node_lookup [OF sql_wf_kv [OF assms], of i] by auto
  from decode_found [OF conjunct1 [OF sql_rows [OF assms]] conjunct2 [OF sql_rows [OF assms]] this]
  show ?thesis using assms by (simp add: Sql_GetNodes_def sql_FindIn_simp sql_Find_def generateNodeKeys_def)
qed

lemma sql_GetCaches_ok:
  assumes "sql_wf b64 db"
  shows "\<exists>al. Sql_GetCaches db ids = Inr al \<and> distinct (keys_of al)
    \<and> map_of al = kv_caches (q_codec db) (q_kv db) |` set ids"
proof -
  let ?cd = "q_codec db" and ?kv = "q_kv db"
  have "(map_of ?kv (CacheKeyPrefix @ Uint32ToStr i) = None \<and> kv_caches ?cd ?kv i = None)
      \<or> (\<exists>v x. map_of ?kv (CacheKeyPrefix @ Uint32ToStr i) = Some v \<and> cell_cache ?cd v = Inr x
            \<and> kv_caches ?cd ?kv i = Some x)" for i
    using kv_cache_lookup [OF sql_wf_kv [OF assms], of i] by auto
  from decode_found [OF conjunct1 [OF sql_rows [OF assms]] conjunct2 [OF sql_rows [OF assms]] this]
  show ?thesis using assms by (simp add: Sql_GetCaches_def sql_FindIn_simp sql_Find_def)
qed

lemma to_lower_append [simp]: "to_lower (a @ b) = to_lower a @ to_lower b"
  by (simp add: to_lower_def)

lemma to_lower_prefixes [simp]:
  "to_lower NodeKeyPrefix = NodeKeyPrefix" "to_lower CacheKeyPrefix = CacheKeyPrefix"
  "to_lower NameToIDKey = NameToIDKey"
  by (simp_all add: NodeKeyPrefix_def CacheKeyPrefix_def NameToIDKey_def to_lower_def lower_char_def
      is_upper_char_def byte_of_def)

text \<open>On the keys of the table the case-insensitive pattern finds exactly the keys with the prefix.\<close>

lemma like_prefix:
  assumes "row_ok b64 cd r"
  shows "doc_like (NodeKeyPrefix @ ''%'') (fst r) \<longleftrightarrow> has_prefix (fst r) NodeKeyPrefix"
    and "doc_like (CacheKeyPrefix @ ''%'') (fst r) \<longleftrightarrow> has_prefix (fst r) CacheKeyPrefix"
  using assms unfolding row_ok_def doc_like_rows by auto

lemma sql_GetAllKeys_ok:
  assumes "sql_wf b64 db"
  shows "\<exists>ks. Sql_GetAllKeys db = Inr ks \<and> distinct ks \<and> set ks = dom (kv_nodes (q_codec db) (q_kv db))"
proof -
  let ?cd = "q_codec db" and ?kv = "q_kv db"
  let ?rows = "filter (\<lambda>r. doc_like (NodeKeyPrefix @ ''%'') (fst r)) (go_range (q_order db) 0 ?kv)"
  let ?id = "\<lambda>r. n_ID (case cell_node ?cd (snd r) of Inr n \<Rightarrow> n)"
  have rows: "set ?rows = {r \<in> set ?kv. has_prefix (fst r) NodeKeyPrefix}"
    using assms like_prefix(1) [of b64 ?cd] unfolding sql_wf_def kv_ok_def by fastforce
  have row: "cell_node ?cd (snd r) = Inr (case cell_node ?cd (snd r) of Inr n \<Rightarrow> n)
      \<and> fst r = node_key (?id r) \<and> ?id r \<in> dom (kv_nodes ?cd ?kv)" if "r \<in> set ?rows" for r
    using that kv_node_keys [OF sql_wf_kv [OF assms], of "fst r" "snd r"] unfolding rows by auto
  have run: "Sql_GetAllKeys db = Inr (map ?id ?rows)"
  proof -
    have "map_res (\<lambda>r. bind_res (ctx ''failed to unmarshal node data'' (cell_node ?cd (snd r)))
      (\<lambda>n. Inr (n_ID n))) ?rows = Inr (map ?id ?rows)"
    proof (rule map_res_Inr)
      fix r assume "r \<in> set ?rows"
      then have "cell_node ?cd (snd r) = Inr (case cell_node ?cd (snd r) of Inr n \<Rightarrow> n)"
        using row by blast
      then show "bind_res (ctx ''failed to unmarshal node data'' (cell_node ?cd (snd r)))
          (\<lambda>n. Inr (n_ID n)) = Inr (?id r)"
        by (cases "cell_node ?cd (snd r)") simp_all
    qed
    then show ?thesis using assms by (simp add: Sql_GetAllKeys_def sql_Find_def sql_wf_def sql_query_def)
  qed
  have "distinct (keys_of (go_range (q_order db) 0 ?kv))"
    using assms by (simp add: sql_wf_def kv_ok_def distinct_keys_go_range)
  then have "distinct (keys_of ?rows)" by (rule distinct_map_filter)
  moreover have "keys_of ?rows = map (\<lambda>i. node_key i) (map ?id ?rows)"
    unfolding map_map using row by (intro map_cong [OF refl]) simp
  ultimately have ids: "distinct (map ?id ?rows)"
    by (metis distinct_map)
  have keys: "i \<in> ?id ` set ?rows" if "i \<in> dom (kv_nodes ?cd ?kv)" for i
  proof -
    have "map_of ?kv (node_key i) \<noteq> None" using that by (auto simp: kv_nodes_def split: option.splits)
    then obtain v where "(node_key i, v) \<in> set ?kv" by (auto dest: map_of_SomeD)
    then have r: "(node_key i, v) \<in> set ?rows" unfolding rows by simp
    with row [OF r] show ?thesis by (intro image_eqI [OF _ r]) simp
  qed
  have "set (map ?id ?rows) = dom (kv_nodes ?cd ?kv)"
  proof (rule set_eqI)
    fix i
    show "i \<in> set (map ?id ?rows) \<longleftrightarrow> i \<in> dom (kv_nodes ?cd ?kv)"
      unfolding set_map using keys [of i] row by blast
  qed
  with ids show ?thesis using run by blast
qed

lemma sql_SaveCache_ok:
  assumes "sql_wf b64 db"
  shows "\<exists>s'. Sql_SaveCache db c = (s', Inr ()) \<and> sql_wf b64 s' \<and>
    sql_abs s' = (sql_abs db)\<lparr>g_caches := (g_caches (sql_abs db))(c_ID c \<mapsto> c)\<rparr>"
  using kv_save_cache [OF sql_wf_kv [OF assms], of c] assms
  by (auto simp: Sql_SaveCache_def sql_wf_def sql_abs_def sql_exec_def)

text \<open>One batch, and all batches.\<close>

lemma kv_save_batch:
  assumes "kv_ok b64 cd kv"
  shows "\<exists>rows. map_res (\<lambda>c. bind_res (ctx ''failed to marshal cache'' (NodeCache_MarshalJSON cd c))
      (\<lambda>data. Inr (CacheKeyPrefix @ Uint32ToStr (c_ID c), Json data))) cs = Inr rows
    \<and> kv_ok b64 cd (fold (\<lambda>r. AList.update (fst r) (snd r)) rows kv)
    \<and> kv_nodes cd (fold (\<lambda>r. AList.update (fst r) (snd r)) rows kv) = kv_nodes cd kv
    \<and> kv_names (fold (\<lambda>r. AList.update (fst r) (snd r)) rows kv) = kv_names kv
    \<and> kv_caches cd (fold (\<lambda>r. AList.update (fst r) (snd r)) rows kv)
      = kv_caches cd kv ++ map_of (rev (map (\<lambda>c. (c_ID c, c)) cs))"
  using assms
proof (induction cs arbitrary: kv)
  case Nil
  then show ?case by simp
next
  case (Cons c cs)
  obtain t where t: "NodeCache_MarshalJSON cd c = Inr t"
    "kv_ok b64 cd (AList.update (cache_key (c_ID c)) (Json t) kv)"
    "kv_nodes cd (AList.update (cache_key (c_ID c)) (Json t) kv) = kv_nodes cd kv"
    "kv_names (AList.update (cache_key (c_ID c)) (Json t) kv) = kv_names kv"
    "kv_caches cd (AList.update (cache_key (c_ID c)) (Json t) kv) = (kv_caches cd kv)(c_ID c \<mapsto> c)"
    using kv_save_cache [OF Cons.prems] by blast
  from Cons.IH [OF t(2)] t show ?case by (auto simp flip: fun_upd_def)
qed

lemma sql_SaveCaches_ok:
  assumes "sql_wf b64 db"
  shows "\<exists>s'. Sql_SaveCaches db cs = (s', Inr ()) \<and> sql_wf b64 s' \<and> sql_abs s' =
    (sql_abs db)\<lparr>g_caches := g_caches (sql_abs db) ++ map_of (rev (map (\<lambda>c. (c_ID c, c)) cs))\<rparr>"
  using assms
proof (induction db cs rule: Sql_SaveCaches.induct)
  case (1 db cs)
  show ?case
  proof (cases "cs = []")
    case True
    with "1.prems" show ?thesis by (simp add: Sql_SaveCaches.simps)
  next
    case False
    obtain rows where rows: "map_res (\<lambda>c. bind_res (ctx ''failed to marshal cache''
        (NodeCache_MarshalJSON (q_codec db) c))
        (\<lambda>data. Inr (CacheKeyPrefix @ Uint32ToStr (c_ID c), Json data))) (take 500 cs) = Inr rows"
      "kv_ok b64 (q_codec db) (fold (\<lambda>r. AList.update (fst r) (snd r)) rows (q_kv db))"
      "kv_nodes (q_codec db) (fold (\<lambda>r. AList.update (fst r) (snd r)) rows (q_kv db))
        = kv_nodes (q_codec db) (q_kv db)"
      "kv_names (fold (\<lambda>r. AList.update (fst r) (snd r)) rows (q_kv db)) = kv_names (q_kv db)"
      "kv_caches (q_codec db) (fold (\<lambda>r. AList.update (fst r) (snd r)) rows (q_kv db))
        = kv_caches (q_codec db) (q_kv db) ++ map_of (rev (map (\<lambda>c. (c_ID c, c)) (take 500 cs)))"
      using kv_save_batch [OF sql_wf_kv [OF "1.prems"]] by blast
    let ?db1 = "db\<lparr>q_kv := fold (\<lambda>r. AList.update (fst r) (snd r)) rows (q_kv db)\<rparr>"
    have wf1: "sql_wf b64 ?db1" using "1.prems" rows(2) by (simp add: sql_wf_def)
    obtain s' where s': "Sql_SaveCaches ?db1 (drop 500 cs) = (s', Inr ())" "sql_wf b64 s'"
      "sql_abs s' = (sql_abs ?db1)\<lparr>g_caches := g_caches (sql_abs ?db1)
         ++ map_of (rev (map (\<lambda>c. (c_ID c, c)) (drop 500 cs)))\<rparr>"
      using "1.IH" [OF False rows(1), of ?db1] wf1 by blast
    have "Sql_SaveCaches db cs = (s', Inr ())"
      using "1.prems" False rows(1) s'(1) by (subst Sql_SaveCaches.simps) simp
    moreover have "sql_abs s' = (sql_abs db)\<lparr>g_caches := g_caches (sql_abs db)
         ++ map_of (rev (map (\<lambda>c. (c_ID c, c)) (take 500 cs @ drop 500 cs)))\<rparr>"
      unfolding s'(3) using rows
      by (simp add: sql_abs_def map_of_append map_add_assoc del: append_take_drop_id)
    ultimately show ?thesis using s'(2) unfolding append_take_drop_id by blast
  qed
qed

lemma sql_RemoveAllCaches_ok:
  assumes "sql_wf b64 db"
  shows "\<exists>s'. Sql_RemoveAllCaches db = (s', Inr ()) \<and> sql_wf b64 s'
    \<and> sql_abs s' = (sql_abs db)\<lparr>g_caches := Map.empty\<rparr>"
proof -
  have "filter (\<lambda>r. \<not> doc_like (CacheKeyPrefix @ ''%'') (fst r)) (q_kv db)
    = filter (\<lambda>r. \<not> has_prefix (fst r) CacheKeyPrefix) (q_kv db)"
    using assms like_prefix(2) [of b64 "q_codec db"] unfolding sql_wf_def kv_ok_def
    by (intro filter_cong) blast+
  then show ?thesis
    using assms kv_drop_caches [OF sql_wf_kv [OF assms]]
    by (simp add: Sql_RemoveAllCaches_def sql_wf_def sql_abs_def sql_exec_def)
qed

lemma fold_custom:
  assumes "\<forall>r \<in> set rows. fst (fst r) = tag \<and> fst (snd (fst r)) = k"
    and "distinct (keys_of rows)" and "distinct (keys_of acc)"
  shows "distinct (keys_of (fold (\<lambda>r. AList.update (snd (snd (fst r))) (snd r)) rows acc))
    \<and> map_of (fold (\<lambda>r. AList.update (snd (snd (fst r))) (snd r)) rows acc)
      = map_of acc ++ (\<lambda>dk. map_of rows (tag, k, dk))"
  using assms
proof (induction rows arbitrary: acc)
  case Nil
  then show ?case by (simp add: map_add_def)
next
  case (Cons r rows)
  obtain dk v where r: "r = ((tag, k, dk), v)" using Cons.prems(1) by (cases r) auto
  have "map_of rows (tag, k, dk) = None"
    using Cons.prems(2) r by (simp add: map_of_eq_None_iff)
  with Cons.IH [of "AList.update dk v acc"] Cons.prems r show ?case
    by (auto simp: fun_eq_iff map_add_def split: option.splits)
qed

lemma sql_GetCustomData_ok:
  assumes "sql_wf b64 db"
  shows "\<exists>al. Sql_GetCustomData db tag k = Inr al \<and> distinct (keys_of al)
    \<and> map_of al = (\<lambda>dk. map_of (q_custom db) (tag, k, dk))"
proof -
  let ?all = "go_range (q_order db) 2 (q_custom db)"
  let ?rows = "filter (\<lambda>r. fst (fst r) = tag \<and> fst (snd (fst r)) = k) ?all"
  have all: "distinct (keys_of ?all)" "set ?all = set (q_custom db)"
    using assms by (simp_all add: sql_wf_def distinct_keys_go_range)
  then have "distinct (keys_of ?rows)" by (simp add: distinct_map_filter)
  then have f: "distinct (keys_of (fold (\<lambda>r. AList.update (snd (snd (fst r))) (snd r)) ?rows []))
    \<and> map_of (fold (\<lambda>r. AList.update (snd (snd (fst r))) (snd r)) ?rows [])
      = Map.empty ++ (\<lambda>dk. map_of ?rows (tag, k, dk))"
    using fold_custom [of ?rows tag k "[]"] by simp
  have "map_of ?all = map_of (q_custom db)"
    using all assms by (intro map_of_eqI) (auto simp: sql_wf_def)
  moreover have "map_of ?rows (tag, k, dk) = map_of ?all (tag, k, dk)" for dk
    using map_of_filter_keys [of "\<lambda>x. fst x = tag \<and> fst (snd x) = k" ?all]
    by (simp add: restrict_map_def)
  ultimately show ?thesis
    using f assms by (auto simp: Sql_GetCustomData_def)
qed

lemma sql_AddCustom_ok:
  "sql_wf b64 db \<Longrightarrow> \<exists>s'. Sql_AddOrUpdateCustomData db tag k dk v = (s', Inr ()) \<and> sql_wf b64 s' \<and>
     sql_abs s' = (sql_abs db)\<lparr>g_custom :=
       (g_custom (sql_abs db))((tag, k) := (g_custom (sql_abs db) (tag, k))(dk \<mapsto> v))\<rparr>"
  by (auto simp: Sql_AddOrUpdateCustomData_def sql_wf_def sql_abs_def sql_exec_def fun_eq_iff)

text \<open>\<open>b64\<close> is how the codec of the state reads metadata back.\<close>

interpretation sq: graph_store sql_storage "sql_wf b64" sql_abs "stored_node b64"
  for b64 :: "string \<Rightarrow> string"
proof (unfold_locales, goal_cases)
  case (6 n cb pb)
  show ?case by (rule stored_node_edit)
next
  case (7 s i n)
  then show ?case using kv_node_lookup [OF sql_wf_kv, of b64 s i] by auto
next
  case (10 s n)
  then show ?case using sql_SaveNode_ok by (simp add: store_simps)
next
  case (13 s "is")
  then show ?case using sql_GetNodes_ok by (simp add: store_simps)
next
  case (14 s)
  then show ?case using sql_GetAllKeys_ok by (simp add: store_simps)
next
  case (15 s c)
  then show ?case using sql_SaveCache_ok by (simp add: store_simps)
next
  case (16 s cs)
  then show ?case using sql_SaveCaches_ok by (simp add: store_simps)
next
  case (17 s)
  then obtain s' where "Sql_RemoveAllCaches s = (s', Inr ())" "sql_wf b64 s'"
    "sql_abs s' = (sql_abs s)\<lparr>g_caches := Map.empty\<rparr>"
    using sql_RemoveAllCaches_ok by blast
  then show ?case
    by (intro exI [of _ s'] exI [of _ "set (q_stack s)"]) (simp add: store_simps sql_abs_def)
next
  case (18 s)
  then show ?case by (simp add: store_simps Sql_ToBeCached_def sql_wf_def sql_query_def)
next
  case (19 s i)
  then show ?case
    by (auto simp: store_simps Sql_AddNodeToCachedStack_def sql_wf_def sql_abs_def sql_exec_def)
next
  case (21 s "is")
  then show ?case using sql_GetCaches_ok by (simp add: store_simps)
next
  case (22 s)
  then show ?case
    by (auto simp: store_simps Sql_ClearCacheStack_def sql_wf_def sql_abs_def sql_exec_def)
next
  case (23 s)
  then show ?case
    by (auto simp: store_simps Sql_GenerateID_def sql_wf_def sql_abs_def sql_exec_def)
next
  case (24 s tag k dk v)
  then show ?case using sql_AddCustom_ok by (simp add: store_simps)
next
  case (25 s tag k)
  then show ?case using sql_GetCustomData_ok by (auto simp: store_simps sql_abs_def)
qed (auto simp: store_simps sql_NameToID_ok sql_GetNode_ok sql_GetCache_ok ErrRecordNotFound_def)

section \<open>Searching by pattern\<close>

lemma sql_glob_rows:
  assumes "sql_wf b64 db" and "r \<in> set (q_kv db)"
  shows "doc_like (NameToIDKey @ convertGlobToSQLPattern p) (fst r) \<longleftrightarrow>
    (\<exists>x i. fst r = name_key x \<and> sql_accepts p x \<and> cell_uint (snd r) = Inr (unat (i :: id))
      \<and> kv_names (q_kv db) x = Some i)"
proof -
  have "row_ok b64 (q_codec db) r" using sql_wf_kv [OF assms(1)] assms(2) by (simp add: kv_ok_def)
  then consider (other) i where "fst r = node_key i \<or> fst r = cache_key i" | (name) x where "fst r = name_key x"
    unfolding row_ok_def by blast
  then show ?thesis
  proof cases
    case other
    then show ?thesis by (auto simp: doc_like_apart)
  next
    case name
    then have "has_prefix (fst r) NameToIDKey" by simp
    moreover have "(fst r, snd r) \<in> set (q_kv db)" using assms(2) by simp
    ultimately obtain y and i :: id where y: "fst r = name_key y" "cell_uint (snd r) = Inr (unat i)"
      "kv_names (q_kv db) y = Some i"
      using kv_name_keys [OF sql_wf_kv [OF assms(1)]] by blast
    then show ?thesis by (auto simp: doc_like_name doc_like_convert)
  qed
qed

lemma sql_glob_ids:
  assumes wf: "sql_wf b64 db"
  shows "\<exists>ids. map_res (\<lambda>r. sql_row_id m (cell_uint (snd r)))
      (filter (\<lambda>r. doc_like (NameToIDKey @ convertGlobToSQLPattern p) (fst r)) (go_range (q_order db) 0 (q_kv db)))
      = Inr ids
    \<and> set ids = {i. \<exists>x. sql_accepts p x \<and> kv_names (q_kv db) x = Some i}"
proof -
  let ?M = "filter (\<lambda>r. doc_like (NameToIDKey @ convertGlobToSQLPattern p) (fst r)) (go_range (q_order db) 0 (q_kv db))"
  let ?id = "\<lambda>r. of_nat (case cell_uint (snd r) of Inr k \<Rightarrow> k) :: id"
  have M: "r \<in> set ?M \<longleftrightarrow> r \<in> set (q_kv db) \<and> (\<exists>x i. fst r = name_key x \<and> sql_accepts p x
      \<and> cell_uint (snd r) = Inr (unat (i :: id)) \<and> kv_names (q_kv db) x = Some i)" for r
    using sql_glob_rows [OF wf, of r p] sql_rows [OF wf, of 0] by auto
  have "map_res (\<lambda>r. sql_row_id m (cell_uint (snd r))) ?M = Inr (map ?id ?M)"
    by (rule map_res_Inr) (use M in auto)
  moreover have "set (map ?id ?M) = {i. \<exists>x. sql_accepts p x \<and> kv_names (q_kv db) x = Some i}"
  proof (intro set_eqI iffI)
    fix i assume "i \<in> set (map ?id ?M)"
    then obtain r where "r \<in> set ?M" "i = ?id r" by auto
    with M [of r] show "i \<in> {i. \<exists>x. sql_accepts p x \<and> kv_names (q_kv db) x = Some i}" by auto
  next
    fix i assume "i \<in> {i. \<exists>x. sql_accepts p x \<and> kv_names (q_kv db) x = Some i}"
    then obtain x where x: "sql_accepts p x" "kv_names (q_kv db) x = Some i" by blast
    then obtain v where v: "map_of (q_kv db) (name_key x) = Some v" "cell_uint v = Inr (unat i)"
      using kv_name_lookup [OF sql_wf_kv [OF wf], of x] by auto
    then have "(name_key x, v) \<in> set ?M" using x M [of "(name_key x, v)"] map_of_SomeD by fastforce
    moreover have "i = ?id (name_key x, v)" using v(2) by simp
    ultimately show "i \<in> set (map ?id ?M)" unfolding set_map by (intro image_eqI)
  qed
  ultimately show ?thesis by blast
qed

text \<open>The rows of the nodes with given identifiers.\<close>

lemma sql_rows_of_ids:
  assumes wf: "sql_wf b64 db"
  shows "\<exists>ns. map_res (\<lambda>r. ctx m (cell_node (q_codec db) (snd r)))
      (filter (\<lambda>r. fst r \<in> set (generateNodeKeys ids)) (go_range (q_order db) 0 (q_kv db))) = Inr ns
    \<and> distinct ns \<and> set ns = {n. \<exists>i \<in> set ids. kv_nodes (q_codec db) (q_kv db) i = Some n}"
proof -
  let ?R = "filter (\<lambda>r. fst r \<in> set (generateNodeKeys ids)) (go_range (q_order db) 0 (q_kv db))"
  let ?nd = "\<lambda>r. case cell_node (q_codec db) (snd r) of Inr n \<Rightarrow> n"
  let ?N = "kv_nodes (q_codec db) (q_kv db)"
  have R: "\<exists>n. cell_node (q_codec db) (snd r) = Inr n \<and> fst r = node_key (n_ID n) \<and> n_ID n \<in> set ids
      \<and> ?N (n_ID n) = Some n" if r: "r \<in> set ?R" for r
  proof -
    obtain j where "j \<in> set ids" "fst r = node_key j" using r by (auto simp: generateNodeKeys_def)
    moreover have "(fst r, snd r) \<in> set (q_kv db)" using r sql_rows [OF wf, of 0] by auto
    ultimately show ?thesis using kv_node_keys [OF sql_wf_kv [OF wf], of "fst r" "snd r"] by auto
  qed
  have run: "map_res (\<lambda>r. ctx m (cell_node (q_codec db) (snd r))) ?R = Inr (map ?nd ?R)"
    by (rule map_res_Inr) (use R in fastforce)
  have "distinct (keys_of ?R)"
    using wf sql_rows [OF wf] by (intro distinct_map_filter) (simp add: distinct_keys_go_range sql_wf_def)
  moreover have "keys_of ?R = map (\<lambda>n. node_key (n_ID n)) (map ?nd ?R)"
    unfolding map_map by (rule map_cong [OF refl]) (use R in fastforce)
  ultimately have dist: "distinct (map ?nd ?R)" by (metis distinct_map)
  have "set (map ?nd ?R) = {n. \<exists>i \<in> set ids. ?N i = Some n}"
  proof (intro set_eqI iffI)
    fix n assume "n \<in> set (map ?nd ?R)"
    then obtain r where r: "r \<in> set ?R" "n = ?nd r" unfolding set_map by blast
    with R [OF r(1)] show "n \<in> {n. \<exists>i \<in> set ids. ?N i = Some n}" by auto
  next
    fix n assume "n \<in> {n. \<exists>i \<in> set ids. ?N i = Some n}"
    then obtain i where i: "i \<in> set ids" "?N i = Some n" by blast
    then obtain v where v: "map_of (q_kv db) (node_key i) = Some v" "cell_node (q_codec db) v = Inr n"
      using kv_node_lookup [OF sql_wf_kv [OF wf], of i] by auto
    then have "(node_key i, v) \<in> set ?R"
      using i(1) map_of_SomeD sql_rows [OF wf, of 0] by (force simp: generateNodeKeys_def)
    moreover have "n = ?nd (node_key i, v)" using v(2) by simp
    ultimately show "n \<in> set (map ?nd ?R)" unfolding set_map by (intro image_eqI)
  qed
  with run dist show ?thesis by blast
qed

lemma sql_Find_rows:
  "sql_wf b64 db \<Longrightarrow> sql_Find db q P = Inr (filter (\<lambda>r. P (fst r)) (go_range (q_order db) 0 (q_kv db)))"
  by (simp add: sql_Find_def)

lemma sql_glob_ok:
  assumes wf: "sql_wf b64 db" and ok: "graph_ok (sql_abs db)"
  shows "\<exists>ns. Sql_GetNodesByGlob db p = Inr ns \<and> distinct ns
    \<and> set ns = {n. sql_accepts p (n_Name n) \<and> (\<exists>i. g_nodes (sql_abs db) i = Some n)}"
proof -
  let ?N = "kv_nodes (q_codec db) (q_kv db)"
  have names: "kv_names (q_kv db) (n_Name n) = Some i" if "?N i = Some n" for i n
    using ok that unfolding graph_ok_def names_ok_def by simp
  have known: "\<exists>n. ?N i = Some n \<and> n_Name n = x" if "kv_names (q_kv db) x = Some i" for i x
    using ok that unfolding graph_ok_def names_ok_def by simp
  obtain ids where ids: "map_res (\<lambda>r. sql_row_id ''invalid ID format for key'' (cell_uint (snd r)))
      (filter (\<lambda>r. doc_like (NameToIDKey @ convertGlobToSQLPattern p) (fst r)) (go_range (q_order db) 0 (q_kv db)))
      = Inr ids" "set ids = {i. \<exists>x. sql_accepts p x \<and> kv_names (q_kv db) x = Some i}"
    using sql_glob_ids [OF wf] by blast
  obtain ns where ns: "map_res (\<lambda>r. ctx ''failed to unmarshal node data'' (cell_node (q_codec db) (snd r)))
      (filter (\<lambda>r. fst r \<in> set (generateNodeKeys ids)) (go_range (q_order db) 0 (q_kv db))) = Inr ns"
    "distinct ns" "set ns = {n. \<exists>i \<in> set ids. ?N i = Some n}"
    using sql_rows_of_ids [OF wf] by blast
  have "set ns = {n. sql_accepts p (n_Name n) \<and> (\<exists>i. g_nodes (sql_abs db) i = Some n)}"
    unfolding ns(3) ids(2) using names known by fastforce
  moreover have "Sql_GetNodesByGlob db p = Inr ns"
  proof (cases "filter (\<lambda>r. doc_like (NameToIDKey @ convertGlobToSQLPattern p) (fst r)) (go_range (q_order db) 0 (q_kv db)) = []")
    case True
    then have "ids = []" using ids(1) by simp
    then have "ns = []" using ns(3) by simp
    with True wf show ?thesis
      by (simp add: Sql_GetNodesByGlob_def sql_Find_rows sql_FindIn_simp) (simp add: sql_wf_def)
  next
    case False
    moreover have "q_like db = doc_like" using wf by (simp add: sql_wf_def)
    ultimately show ?thesis
      using ids(1) ns(1) wf by (simp add: Sql_GetNodesByGlob_def sql_Find_rows sql_FindIn_simp)
  qed
  ultimately show ?thesis using ns(2) by blast
qed

interpretation sg: searchable_store sql_storage "sql_wf b64" sql_abs "stored_node b64"
  "\<lambda>db p. Some (sql_accepts p)"
  for b64 :: "string \<Rightarrow> string"
proof (unfold_locales, goal_cases)
  case (1 db p P)
  then show ?case using sql_glob_ok by (simp add: store_simps) blast
qed simp

section \<open>The limit on variables\<close>

text \<open>
  \<open>sql_wf\<close> is a database without a limit. With one, the three statements that bind a variable for every
  key do the same as long as they stay within it. A graph with more nodes than the limit still lists its
  identifiers, but reading them all at once, as the cache, the ingestion, the report and the leaderboard
  do, fails.
  Only \<open>SaveCaches\<close> works in batches.
\<close>

lemma sql_within_limit:
  assumes "q_vars db = Some l" and "length ids \<le> l"
  shows "Sql_GetNodes db ids = Sql_GetNodes (db\<lparr>q_vars := None\<rparr>) ids"
    and "Sql_GetCaches db ids = Sql_GetCaches (db\<lparr>q_vars := None\<rparr>) ids"
  using assms by (simp_all add: Sql_GetNodes_def Sql_GetCaches_def sql_FindIn_def sql_Find_def sql_query_def
      generateNodeKeys_def)

lemma sql_beyond_limit:
  assumes "q_vars db = Some l" and "l < length ids"
  shows "Sql_GetNodes db ids = Inl (wrap ''failed to get nodes'' (Err ''too many SQL variables''))"
    and "Sql_GetCaches db ids = Inl (wrap ''failed to get caches'' (Err ''too many SQL variables''))"
  using assms by (simp_all add: Sql_GetNodes_def Sql_GetCaches_def sql_FindIn_def generateNodeKeys_def)

lemma sql_too_many_nodes:
  assumes "sql_wf b64 (db\<lparr>q_vars := None\<rparr>)" and "q_vars db = Some l" and "l < card (dom (g_nodes (sql_abs db)))"
  shows "\<exists>ks. Sql_GetAllKeys db = Inr ks
    \<and> Sql_GetNodes db ks = Inl (wrap ''failed to get nodes'' (Err ''too many SQL variables''))"
proof -
  have "Sql_GetAllKeys (db\<lparr>q_vars := None\<rparr>) = Sql_GetAllKeys db"
    by (simp add: Sql_GetAllKeys_def sql_Find_def sql_query_def)
  then obtain ks where ks: "Sql_GetAllKeys db = Inr ks" "distinct ks" "set ks = dom (g_nodes (sql_abs db))"
    using sql_GetAllKeys_ok [OF assms(1)] by auto
  then have "l < length ks" using assms(3) distinct_card by metis
  with sql_beyond_limit(1) [OF assms(2)] ks(1) show ?thesis by blast
qed

end
