(* ===== verification/Redis_Storage.thy ===== *)
theory Redis_Storage
  imports Store_Keys
begin

text \<open>
  The Redis back end, \<open>pkg/storages/redis_storage.go\<close>. The state is the part of the key space that the
  source uses, by the type of the values: strings, hashes, the list under \<open>to_be_cached\<close> and the
  number under \<open>id_counter\<close>. What the server and its client decide is part of the state and never
  changes: the JSON codec, which keys a pattern matches, the order of replies, how \<open>SCAN\<close> splits them
  into batches, and which commands fail.
\<close>

section \<open>Key space\<close>

datatype redis_cmd =
    R_Incr | R_SetNode | R_SetName | R_RPush | R_GetName | R_GetNode | R_KeysGlob | R_KeysAll
  | R_SetCache | R_LRange | R_Del | R_GetCache | R_PipeNodes | R_PipeSetCaches | R_PipeCaches
  | R_Scan | R_PipeRemove | R_HSet | R_HGetAll

record ('b, 't) redis =
  r_str :: "(string \<times> 't cell) list"
  r_hash :: "(string \<times> (string \<times> string) list) list"
  r_stack :: "string list"
  r_counter :: int
  r_codec :: "('b, 't) codec"
  r_match :: "string \<Rightarrow> string \<Rightarrow> bool"
  r_scan :: "string list \<Rightarrow> string list list"
  r_order :: range_order
  r_fails :: "redis_cmd \<Rightarrow> fault option"

definition empty_redis :: "('b, 't) codec \<Rightarrow> (string \<Rightarrow> string \<Rightarrow> bool) \<Rightarrow> ('b, 't) redis" where
  "empty_redis cd match =
     \<lparr>r_str = [], r_hash = [], r_stack = [], r_counter = 0, r_codec = cd, r_match = match,
      r_scan = (\<lambda>ks. [ks]), r_order = in_order, r_fails = (\<lambda>_. None)\<rparr>"

text \<open>\<open>redis.Nil\<close>, and the reply to a command on a key that holds another type.\<close>

definition RedisNil :: fault where "RedisNil = Err ''redis: nil''"
definition WrongType :: fault where "WrongType = Err ''WRONGTYPE''"

definition redis_reply :: "('b, 't) redis \<Rightarrow> redis_cmd \<Rightarrow> 'a res \<Rightarrow> 'a res" where
  "redis_reply r c x = (case r_fails r c of Some e \<Rightarrow> Inl e | None \<Rightarrow> x)"

definition redis_do :: "('b, 't) redis \<Rightarrow> redis_cmd \<Rightarrow> ('b, 't) redis \<Rightarrow> ('b, 't) redis \<times> unit res" where
  "redis_do r c r' = (case r_fails r c of Some e \<Rightarrow> (r, Inl e) | None \<Rightarrow> (r', Inr ()))"

definition redis_lookup :: "('b, 't) redis \<Rightarrow> string \<Rightarrow> 't cell res" where
  "redis_lookup r k =
     (if k \<in> set (keys_of (r_hash r)) then Inl WrongType
      else (case map_of (r_str r) k of None \<Rightarrow> Inl RedisNil | Some v \<Rightarrow> Inr v))"

definition redis_put :: "('b, 't) redis \<Rightarrow> string \<Rightarrow> 't cell \<Rightarrow> ('b, 't) redis" where
  "redis_put r k v =
     r\<lparr>r_str := AList.update k v (r_str r), r_hash := filter (\<lambda>h. fst h \<noteq> k) (r_hash r)\<rparr>"

definition redis_keys :: "('b, 't) redis \<Rightarrow> string \<Rightarrow> string list" where
  "redis_keys r pattern =
     filter (r_match r pattern) (go_range (r_order r) 0 (keys_of (r_str r) @ keys_of (r_hash r)))"

definition redis_unlink :: "('b, 't) redis \<Rightarrow> string list \<Rightarrow> ('b, 't) redis" where
  "redis_unlink r ks =
     r\<lparr>r_str := filter (\<lambda>x. fst x \<notin> set ks) (r_str r), r_hash := filter (\<lambda>x. fst x \<notin> set ks) (r_hash r)\<rparr>"

text \<open>\<open>pipe.Exec\<close> over reads: the replies, and the error of the first that failed.\<close>

fun first_error :: "'a res list \<Rightarrow> fault option" where
  "first_error [] = None"
| "first_error (Inl e # rs) = Some e"
| "first_error (Inr x # rs) = first_error rs"

section \<open>Nodes\<close>

definition Redis_GenerateID :: "('b, 't) redis \<Rightarrow> ('b, 't) redis \<times> id res" where
  "Redis_GenerateID r =
     bind_st (ctx_st ''failed to generate ID''
       (if r_counter r = 9223372036854775807 then (r, Inl (Err ''increment would overflow''))
        else redis_do r R_Incr (r\<lparr>r_counter := r_counter r + 1\<rparr>)))
       (\<lambda>r1 _. (r1, IntToUint32 (r_counter r1)))"

definition Redis_AddNodeToCachedStack :: "('b, 't) redis \<Rightarrow> id \<Rightarrow> ('b, 't) redis \<times> unit res" where
  "Redis_AddNodeToCachedStack r i =
     ctx_st ''failed to add node to cached stack''
       (redis_do r R_RPush (r\<lparr>r_stack := r_stack r @ [Uint32ToStr i]\<rparr>))"

definition Redis_SaveNode :: "('b, 't) redis \<Rightarrow> node \<Rightarrow> ('b, 't) redis \<times> unit res" where
  "Redis_SaveNode r n =
     (case ctx ''failed to marshal node'' (Node_MarshalJSON (r_codec r) n) of
        Inl e \<Rightarrow> (r, Inl e)
      | Inr data \<Rightarrow>
          bind_st (ctx_st ''failed to save node data''
            (redis_do r R_SetNode (redis_put r (NodeKeyPrefix @ Uint32ToStr (n_ID n)) (Json data))))
            (\<lambda>r1 _.
          bind_st (ctx_st ''failed to save node name to ID mapping''
            (redis_do r1 R_SetName (redis_put r1 (NameToIDKey @ n_Name n) (Plain (Uint32ToStr (n_ID n))))))
            (\<lambda>r2 _.
          ctx_st ''failed to add node ID to set'' (Redis_AddNodeToCachedStack r2 (n_ID n)))))"

definition Redis_NameToID :: "('b, 't) redis \<Rightarrow> string \<Rightarrow> id res" where
  "Redis_NameToID r name =
     bind_res (ctx ''failed to get ID for name'' (redis_reply r R_GetName (redis_lookup r (NameToIDKey @ name))))
       (\<lambda>v. ctx ''failed to convert ID to integer''
              (case v of Plain s \<Rightarrow> StrToUint32 s | Json t \<Rightarrow> Inl (Err ''invalid syntax'')))"

definition Redis_GetNode :: "('b, 't) redis \<Rightarrow> id \<Rightarrow> node res" where
  "Redis_GetNode r i =
     bind_res (ctx ''failed to get node data''
       (redis_reply r R_GetNode (redis_lookup r (NodeKeyPrefix @ Uint32ToStr i))))
       (\<lambda>v. ctx ''failed to unmarshal node data'' (cell_node (r_codec r) v))"

definition Redis_GetNodesByGlob :: "('b, 't) redis \<Rightarrow> string \<Rightarrow> node list res" where
  "Redis_GetNodesByGlob r pattern =
     bind_res (ctx ''failed to get nodes by pattern''
       (redis_reply r R_KeysGlob (Inr (redis_keys r (NameToIDKey @ pattern))))) (\<lambda>ks.
     map_res (\<lambda>k.
       bind_res (ctx ''failed to get ID for name'' (Redis_NameToID r (trim_prefix k NameToIDKey)))
         (\<lambda>i. ctx ''failed to get node'' (Redis_GetNode r i))) ks)"

definition Redis_GetAllKeys :: "('b, 't) redis \<Rightarrow> id list res" where
  "Redis_GetAllKeys r =
     bind_res (ctx ''failed to get all keys''
       (redis_reply r R_KeysAll (Inr (redis_keys r (NodeKeyPrefix @ ''*''))))) (\<lambda>ks.
     map_res (\<lambda>k. bind_res (ctx ''failed to parse key'' (ParseUint 32 (trim_prefix k NodeKeyPrefix)))
       (\<lambda>i. Inr (of_nat i))) ks)"

text \<open>The loops of \<open>GetNodes\<close> and \<open>GetCaches\<close> over the replies of a pipeline.\<close>

fun pipe_rows :: "string \<Rightarrow> string \<Rightarrow> ('t cell \<Rightarrow> 'a res) \<Rightarrow> (id \<times> 't cell res) list \<Rightarrow> (id \<times> 'a) list
    \<Rightarrow> (id \<times> 'a) list res" where
  "pipe_rows m1 m2 dec [] acc = Inr acc"
| "pipe_rows m1 m2 dec ((i, reply) # rows) acc =
     (case reply of
        Inl e \<Rightarrow> if e = RedisNil then pipe_rows m1 m2 dec rows acc else Inl (wrap m1 e)
      | Inr v \<Rightarrow>
          bind_res (ctx m2 (dec v)) (\<lambda>x. pipe_rows m1 m2 dec rows (AList.update i x acc)))"

definition redis_pipe_get ::
  "('b, 't) redis \<Rightarrow> redis_cmd \<Rightarrow> string \<Rightarrow> string \<Rightarrow> id list \<Rightarrow> (id \<times> 't cell res) list res" where
  "redis_pipe_get r c prefix msg ids =
     (let replies = map (\<lambda>i. redis_lookup r (prefix @ Uint32ToStr i)) ids
      in bind_res (redis_reply r c (Inr replies)) (\<lambda>rs.
           (case first_error rs of
              Some e \<Rightarrow> if e = RedisNil then Inr (zip ids rs) else Inl (wrap msg e)
            | None \<Rightarrow> Inr (zip ids rs))))"

definition Redis_GetNodes :: "('b, 't) redis \<Rightarrow> id list \<Rightarrow> (id \<times> node) list res" where
  "Redis_GetNodes r ids =
     bind_res (redis_pipe_get r R_PipeNodes NodeKeyPrefix ''failed to get nodes'' ids) (\<lambda>rows.
     pipe_rows ''failed to get node data'' ''failed to unmarshal node data'' (cell_node (r_codec r)) rows [])"

section \<open>Caches\<close>

definition Redis_SaveCache :: "('b, 't) redis \<Rightarrow> node_cache \<Rightarrow> ('b, 't) redis \<times> unit res" where
  "Redis_SaveCache r c =
     (case ctx ''failed to marshal cache'' (NodeCache_MarshalJSON (r_codec r) c) of
        Inl e \<Rightarrow> (r, Inl e)
      | Inr data \<Rightarrow>
          redis_do r R_SetCache (redis_put r (CacheKeyPrefix @ Uint32ToStr (c_ID c)) (Json data)))"

definition Redis_ToBeCached :: "('b, 't) redis \<Rightarrow> id list res" where
  "Redis_ToBeCached r =
     bind_res (ctx ''failed to get data'' (redis_reply r R_LRange (Inr (r_stack r)))) (\<lambda>items.
     map_res (\<lambda>s. bind_res (ctx ''failed to parse item'' (ParseUint 32 s)) (\<lambda>i. Inr (of_nat i))) items)"

definition Redis_ClearCacheStack :: "('b, 't) redis \<Rightarrow> ('b, 't) redis \<times> unit res" where
  "Redis_ClearCacheStack r = ctx_st ''failed to clear cache stack'' (redis_do r R_Del (r\<lparr>r_stack := []\<rparr>))"

definition Redis_GetCache :: "('b, 't) redis \<Rightarrow> id \<Rightarrow> node_cache option res" where
  "Redis_GetCache r i =
     bind_res (ctx ''failed to get cache''
       (redis_reply r R_GetCache (redis_lookup r (CacheKeyPrefix @ Uint32ToStr i))))
       (\<lambda>v. bind_res (ctx ''failed to unmarshal cache data'' (cell_cache (r_codec r) v)) (\<lambda>c. Inr (Some c)))"

text \<open>Every cache is marshalled before the pipeline is sent.\<close>

definition Redis_SaveCaches :: "('b, 't) redis \<Rightarrow> node_cache list \<Rightarrow> ('b, 't) redis \<times> unit res" where
  "Redis_SaveCaches r cs =
     (case map_res (\<lambda>c. bind_res (ctx ''failed to marshal cache'' (NodeCache_MarshalJSON (r_codec r) c))
             (\<lambda>data. Inr (CacheKeyPrefix @ Uint32ToStr (c_ID c), Json data))) cs of
        Inl e \<Rightarrow> (r, Inl e)
      | Inr sets \<Rightarrow>
          ctx_st ''failed to save caches''
            (redis_do r R_PipeSetCaches (fold (\<lambda>kv r'. redis_put r' (fst kv) (snd kv)) sets r)))"

definition Redis_GetCaches :: "('b, 't) redis \<Rightarrow> id list \<Rightarrow> (id \<times> node_cache) list res" where
  "Redis_GetCaches r ids =
     bind_res (redis_pipe_get r R_PipeCaches CacheKeyPrefix ''failed to get caches'' ids) (\<lambda>rows.
     pipe_rows ''failed to get cache data'' ''failed to unmarshal cache data'' (cell_cache (r_codec r)) rows [])"

text \<open>
  The loop over the batches of \<open>SCAN\<close>: a batch that is not empty pushes its identifiers and drops its
  entries in one pipeline.
\<close>

fun remove_batches :: "('b, 't) redis \<Rightarrow> string list list \<Rightarrow> ('b, 't) redis \<times> unit res" where
  "remove_batches r [] = (r, Inr ())"
| "remove_batches r (ks # batches) =
     (if ks = [] then remove_batches r batches
      else
        bind_st (ctx_st ''failed to process cache keys''
          (redis_do r R_PipeRemove
            (redis_unlink (r\<lparr>r_stack := r_stack r @ map (\<lambda>k. trim_prefix k CacheKeyPrefix) ks\<rparr>) ks)))
          (\<lambda>r1 _. remove_batches r1 batches))"

definition Redis_RemoveAllCaches :: "('b, 't) redis \<Rightarrow> ('b, 't) redis \<times> unit res" where
  "Redis_RemoveAllCaches r =
     (case ctx ''failed to scan cache keys''
             (redis_reply r R_Scan (Inr (r_scan r (redis_keys r (CacheKeyPrefix @ ''*''))))) of
        Inl e \<Rightarrow> (r, Inl e)
      | Inr batches \<Rightarrow> remove_batches r batches)"

section \<open>Custom data\<close>

definition Redis_AddOrUpdateCustomData ::
  "('b, 't) redis \<Rightarrow> string \<Rightarrow> string \<Rightarrow> string \<Rightarrow> string \<Rightarrow> ('b, 't) redis \<times> unit res" where
  "Redis_AddOrUpdateCustomData r tag k datakey data =
     (let redisKey = colon_key tag k;
          old = (case map_of (r_hash r) redisKey of None \<Rightarrow> [] | Some h \<Rightarrow> h)
      in ctx_st ''failed to set hash field''
           (if redisKey \<in> set (keys_of (r_str r)) then (r, Inl WrongType)
            else redis_do r R_HSet
                   (r\<lparr>r_hash := AList.update redisKey (AList.update datakey data old) (r_hash r)\<rparr>)))"

definition Redis_GetCustomData :: "('b, 't) redis \<Rightarrow> string \<Rightarrow> string \<Rightarrow> (string \<times> string) list res" where
  "Redis_GetCustomData r tag k =
     (let redisKey = colon_key tag k
      in bind_res (ctx ''failed to get data from DB''
           (redis_reply r R_HGetAll
             (if redisKey \<in> set (keys_of (r_str r)) then Inl WrongType
              else Inr (case map_of (r_hash r) redisKey of None \<Rightarrow> [] | Some h \<Rightarrow> h)))) (\<lambda>data.
         Inr (fold (\<lambda>fv. AList.update (fst fv) (snd fv)) (go_range (r_order r) 1 data) [])))"

definition redis_storage :: "('b, 't) redis storage" where
  "redis_storage =
     \<lparr>st_NameToID = Redis_NameToID, st_SaveNode = Redis_SaveNode, st_GetNode = Redis_GetNode,
      st_GetNodes = Redis_GetNodes, st_GetNodesByGlob = Redis_GetNodesByGlob,
      st_GetAllKeys = Redis_GetAllKeys, st_SaveCache = Redis_SaveCache,
      st_SaveCaches = Redis_SaveCaches, st_RemoveAllCaches = Redis_RemoveAllCaches,
      st_ToBeCached = Redis_ToBeCached, st_AddNodeToCachedStack = Redis_AddNodeToCachedStack,
      st_GetCache = Redis_GetCache, st_GetCaches = Redis_GetCaches,
      st_ClearCacheStack = Redis_ClearCacheStack, st_GenerateID = Redis_GenerateID,
      st_GetCustomData = Redis_GetCustomData,
      st_AddOrUpdateCustomData = Redis_AddOrUpdateCustomData\<rparr>"

lemma redis_storage_simps [store_simps]:
  "st_NameToID redis_storage = Redis_NameToID" "st_SaveNode redis_storage = Redis_SaveNode"
  "st_GetNode redis_storage = Redis_GetNode" "st_GetNodes redis_storage = Redis_GetNodes"
  "st_GetNodesByGlob redis_storage = Redis_GetNodesByGlob"
  "st_GetAllKeys redis_storage = Redis_GetAllKeys" "st_SaveCache redis_storage = Redis_SaveCache"
  "st_SaveCaches redis_storage = Redis_SaveCaches"
  "st_RemoveAllCaches redis_storage = Redis_RemoveAllCaches"
  "st_ToBeCached redis_storage = Redis_ToBeCached"
  "st_AddNodeToCachedStack redis_storage = Redis_AddNodeToCachedStack"
  "st_GetCache redis_storage = Redis_GetCache" "st_GetCaches redis_storage = Redis_GetCaches"
  "st_ClearCacheStack redis_storage = Redis_ClearCacheStack"
  "st_GenerateID redis_storage = Redis_GenerateID"
  "st_GetCustomData redis_storage = Redis_GetCustomData"
  "st_AddOrUpdateCustomData redis_storage = Redis_AddOrUpdateCustomData"
  by (simp_all add: redis_storage_def)

section \<open>The contract holds\<close>

definition redis_wf :: "(string \<Rightarrow> string) \<Rightarrow> ('b, 't) redis \<Rightarrow> bool" where
  "redis_wf b64 r \<longleftrightarrow> kv_ok b64 (r_codec r) (r_str r) \<and> distinct (keys_of (r_hash r))
     \<and> (\<forall>h \<in> set (r_hash r). distinct (keys_of (snd h)) \<and> (\<exists>tag k. tag_ok tag \<and> fst h = colon_key tag k))
     \<and> (\<forall>x \<in> set (r_stack r). \<exists>i. x = Uint32ToStr i) \<and> 0 \<le> r_counter r
     \<and> (\<forall>k. r_match r (NodeKeyPrefix @ ''*'') k \<longleftrightarrow> has_prefix k NodeKeyPrefix)
     \<and> (\<forall>k. r_match r (CacheKeyPrefix @ ''*'') k \<longleftrightarrow> has_prefix k CacheKeyPrefix)
     \<and> (\<forall>ks. set (concat (r_scan r ks)) = set ks)
     \<and> range_ok (r_order r) \<and> r_fails r = (\<lambda>_. None)"

definition hash_custom :: "(string \<times> (string \<times> string) list) list \<Rightarrow> string \<times> string \<Rightarrow> (string \<rightharpoonup> string)" where
  "hash_custom hs = (\<lambda>(tag, k). if tag_ok tag
     then (case map_of hs (colon_key tag k) of None \<Rightarrow> Map.empty | Some h \<Rightarrow> map_of h)
     else Map.empty)"

definition redis_abs :: "('b, 't) redis \<Rightarrow> gstate" where
  "redis_abs r =
     \<lparr>g_nodes = kv_nodes (r_codec r) (r_str r), g_names = kv_names (r_str r),
      g_caches = kv_caches (r_codec r) (r_str r), g_pending = {i. Uint32ToStr i \<in> set (r_stack r)},
      g_next = nat (r_counter r),
      g_custom = hash_custom (r_hash r)\<rparr>"

lemma redis_abs_simps [simp]:
  "g_nodes (redis_abs r) = kv_nodes (r_codec r) (r_str r)"
  "g_names (redis_abs r) = kv_names (r_str r)"
  "g_caches (redis_abs r) = kv_caches (r_codec r) (r_str r)"
  "g_pending (redis_abs r) = {i. Uint32ToStr i \<in> set (r_stack r)}"
  "g_next (redis_abs r) = nat (r_counter r)"
  by (simp_all add: redis_abs_def)

lemma redis_ok [simp]:
  "redis_wf b64 r \<Longrightarrow> redis_reply r c x = x" "redis_wf b64 r \<Longrightarrow> redis_do r c r' = (r', Inr ())"
  by (simp_all add: redis_wf_def redis_reply_def redis_do_def)

lemma redis_wf_kv: "redis_wf b64 r \<Longrightarrow> kv_ok b64 (r_codec r) (r_str r)"
  by (simp add: redis_wf_def)

lemma graph_keys_colon:
  "NodeKeyPrefix @ x = colon_key ''node'' x" "NameToIDKey @ x = colon_key ''name_to_id'' x"
  "CacheKeyPrefix @ x = colon_key ''cache'' x"
  by (simp_all add: colon_key_def NodeKeyPrefix_def NameToIDKey_def CacheKeyPrefix_def)

lemma custom_key_apart:
  assumes "tag_ok tag"
  shows "NodeKeyPrefix @ x \<noteq> colon_key tag k" "NameToIDKey @ x \<noteq> colon_key tag k"
    "CacheKeyPrefix @ x \<noteq> colon_key tag k"
  using assms unfolding graph_keys_colon tag_ok_def by (auto simp: colon_key_inject)

lemma hash_apart:
  assumes "redis_wf b64 r" and "h \<in> set (r_hash r)"
  shows "fst h \<noteq> NodeKeyPrefix @ x" "fst h \<noteq> NameToIDKey @ x" "fst h \<noteq> CacheKeyPrefix @ x"
  using assms custom_key_apart [of _ x] unfolding redis_wf_def by metis+

lemma str_apart:
  assumes "redis_wf b64 r" and "tag_ok tag"
  shows "colon_key tag k \<notin> set (keys_of (r_str r))"
proof
  assume "colon_key tag k \<in> set (keys_of (r_str r))"
  then obtain v where "(colon_key tag k, v) \<in> set (r_str r)" by auto
  then have "row_ok b64 (r_codec r) (colon_key tag k, v)"
    using redis_wf_kv [OF assms(1)] by (auto simp: kv_ok_def)
  then show False
    using custom_key_apart [OF assms(2)] unfolding row_ok_def fst_conv by metis
qed

lemma redis_lookup_graph:
  assumes "redis_wf b64 r" and "k = NodeKeyPrefix @ x \<or> k = NameToIDKey @ x \<or> k = CacheKeyPrefix @ x"
  shows "redis_lookup r k = (case map_of (r_str r) k of None \<Rightarrow> Inl RedisNil | Some v \<Rightarrow> Inr v)"
proof -
  have "k \<notin> set (keys_of (r_hash r))" using hash_apart [OF assms(1), of _ x] assms(2) by auto
  then show ?thesis by (simp add: redis_lookup_def)
qed

lemma redis_put_graph:
  assumes "redis_wf b64 r" and "k = NodeKeyPrefix @ x \<or> k = NameToIDKey @ x \<or> k = CacheKeyPrefix @ x"
  shows "redis_put r k v = r\<lparr>r_str := AList.update k v (r_str r)\<rparr>"
proof -
  have "fst h \<noteq> k" if "h \<in> set (r_hash r)" for h
    using hash_apart [OF assms(1) that, of x] assms(2) by auto
  then have "filter (\<lambda>h. fst h \<noteq> k) (r_hash r) = r_hash r" by (simp add: filter_id_conv)
  then show ?thesis by (simp add: redis_put_def)
qed

lemma redis_wf_str:
  "redis_wf b64 r \<Longrightarrow> kv_ok b64 (r_codec r) kv \<Longrightarrow> redis_wf b64 (r\<lparr>r_str := kv\<rparr>)"
  by (simp add: redis_wf_def)

lemma redis_NameToID_ok:
  assumes "redis_wf b64 r"
  shows "Redis_NameToID r x = (case kv_names (r_str r) x of
    None \<Rightarrow> Inl (wrap ''failed to get ID for name'' RedisNil) | Some i \<Rightarrow> Inr i)"
proof -
  have uint: "\<exists>s. v = Plain s \<and> ParseUint 32 s = Inr (unat i)" if "cell_uint v = Inr (unat i)" for v and i :: id
    using that by (cases v) (auto simp: cell_uint_def)
  show ?thesis
    using kv_name_lookup [OF redis_wf_kv [OF assms], of x] redis_lookup_graph [OF assms, of "name_key x" x] assms
    by (auto simp: Redis_NameToID_def StrToUint32_def dest!: uint)
qed

lemma redis_GetNode_ok:
  assumes "redis_wf b64 r"
  shows "Redis_GetNode r i = (case kv_nodes (r_codec r) (r_str r) i of
    None \<Rightarrow> Inl (wrap ''failed to get node data'' RedisNil) | Some n \<Rightarrow> Inr n)"
  using kv_node_lookup [OF redis_wf_kv [OF assms], of i]
    redis_lookup_graph [OF assms, of "node_key i" "Uint32ToStr i"] assms
  by (auto simp: Redis_GetNode_def)

lemma redis_GetCache_ok:
  assumes "redis_wf b64 r"
  shows "Redis_GetCache r i = (case kv_caches (r_codec r) (r_str r) i of
    None \<Rightarrow> Inl (wrap ''failed to get cache'' RedisNil) | Some c \<Rightarrow> Inr (Some c))"
  using kv_cache_lookup [OF redis_wf_kv [OF assms], of i]
    redis_lookup_graph [OF assms, of "cache_key i" "Uint32ToStr i"] assms
  by (auto simp: Redis_GetCache_def)

lemma redis_push_ok:
  assumes "redis_wf b64 r"
  shows "\<exists>s'. Redis_AddNodeToCachedStack r i = (s', Inr ()) \<and> redis_wf b64 s' \<and>
    redis_abs s' = (redis_abs r)\<lparr>g_pending := insert i (g_pending (redis_abs r))\<rparr>"
  using assms by (auto simp: Redis_AddNodeToCachedStack_def redis_wf_def redis_abs_def redis_do_def)

lemma redis_SaveNode_ok:
  assumes "redis_wf b64 r"
  shows "\<exists>s'. Redis_SaveNode r n = (s', Inr ()) \<and> redis_wf b64 s' \<and> redis_abs s' =
    (redis_abs r)\<lparr>g_nodes := (g_nodes (redis_abs r))(n_ID n \<mapsto> stored_node b64 n),
      g_names := (g_names (redis_abs r))(n_Name n \<mapsto> n_ID n),
      g_pending := insert (n_ID n) (g_pending (redis_abs r))\<rparr>"
proof -
  let ?i = "n_ID n"
  obtain t where t: "Node_MarshalJSON (r_codec r) n = Inr t"
    "kv_ok b64 (r_codec r) (AList.update (node_key ?i) (Json t) (r_str r))"
    "kv_nodes (r_codec r) (AList.update (node_key ?i) (Json t) (r_str r))
      = (kv_nodes (r_codec r) (r_str r))(?i \<mapsto> stored_node b64 n)"
    "kv_names (AList.update (node_key ?i) (Json t) (r_str r)) = kv_names (r_str r)"
    "kv_caches (r_codec r) (AList.update (node_key ?i) (Json t) (r_str r))
      = kv_caches (r_codec r) (r_str r)"
    using kv_save_node [OF redis_wf_kv [OF assms]] by blast
  let ?kv1 = "AList.update (node_key ?i) (Json t) (r_str r)"
  let ?r1 = "r\<lparr>r_str := ?kv1\<rparr>"
  let ?r2 = "r\<lparr>r_str := AList.update (name_key (n_Name n)) (Plain (Uint32ToStr ?i)) ?kv1\<rparr>"
  have wf1: "redis_wf b64 ?r1" using redis_wf_str [OF assms t(2)] .
  have wf2: "redis_wf b64 ?r2"
    using redis_wf_str [OF assms kv_save_name(1) [OF t(2), of "n_Name n" ?i]] .
  have put1: "redis_put r (node_key ?i) (Json t) = ?r1"
    using redis_put_graph [OF assms] by blast
  have put2: "redis_put ?r1 (name_key (n_Name n)) (Plain (Uint32ToStr ?i)) = ?r2"
    using redis_put_graph [OF wf1, of "name_key (n_Name n)" "n_Name n"] by simp
  obtain s' where s': "Redis_AddNodeToCachedStack ?r2 ?i = (s', Inr ())" "redis_wf b64 s'"
    "redis_abs s' = (redis_abs ?r2)\<lparr>g_pending := insert ?i (g_pending (redis_abs ?r2))\<rparr>"
    using redis_push_ok [OF wf2] by blast
  have run: "Redis_SaveNode r n = (s', Inr ())"
    using t(1) put1 put2 s'(1) redis_ok(2) [OF assms] redis_ok(2) [OF wf1]
    by (simp add: Redis_SaveNode_def)
  have "redis_abs s' = (redis_abs r)\<lparr>g_nodes := (g_nodes (redis_abs r))(?i \<mapsto> stored_node b64 n),
      g_names := (g_names (redis_abs r))(n_Name n \<mapsto> ?i),
      g_pending := insert ?i (g_pending (redis_abs r))\<rparr>"
    unfolding s'(3) using t(3-5) kv_save_name(2-4) [OF t(2), of "n_Name n" ?i]
    by (simp add: redis_abs_def)
  with run s'(2) show ?thesis by blast
qed

lemma pipe_rows_found:
  assumes "\<And>i. (look i = Inl RedisNil \<and> f i = None) \<or> (\<exists>v x. look i = Inr v \<and> dec v = Inr x \<and> f i = Some x)"
  shows "pipe_rows m1 m2 dec (zip ids (map look ids)) acc = Inr (collect_found f ids acc)"
proof (induction ids arbitrary: acc)
  case Nil
  then show ?case by simp
next
  case (Cons i ids)
  from assms [of i] show ?case using Cons.IH by auto
qed

lemma pipe_first_error:
  assumes "\<And>i. look i = Inl RedisNil \<or> (\<exists>v. look i = Inr v)"
  shows "first_error (map look ids) = None \<or> first_error (map look ids) = Some RedisNil"
proof (induction ids)
  case Nil
  then show ?case by simp
next
  case (Cons i ids)
  from assms [of i] show ?case using Cons.IH by auto
qed

lemma redis_pipe_found:
  assumes wf: "redis_wf b64 r" and "prefix = NodeKeyPrefix \<or> prefix = CacheKeyPrefix"
    and found: "\<And>i. (map_of (r_str r) (prefix @ Uint32ToStr i) = None \<and> f i = None)
      \<or> (\<exists>v x. map_of (r_str r) (prefix @ Uint32ToStr i) = Some v \<and> dec v = Inr x \<and> f i = Some x)"
  shows "bind_res (redis_pipe_get r c prefix msg ids) (\<lambda>rows. pipe_rows m1 m2 dec rows [])
    = Inr (collect_found f ids [])"
proof -
  let ?look = "\<lambda>i. redis_lookup r (prefix @ Uint32ToStr i)"
  have look: "(?look i = Inl RedisNil \<and> f i = None) \<or> (\<exists>v x. ?look i = Inr v \<and> dec v = Inr x \<and> f i = Some x)" for i
    using redis_lookup_graph [OF wf, of "prefix @ Uint32ToStr i" "Uint32ToStr i"] assms(2) found [of i] by auto
  have "?look i = Inl RedisNil \<or> (\<exists>v. ?look i = Inr v)" for i using look [of i] by blast
  from pipe_first_error [of ?look ids, OF this]
  have "redis_pipe_get r c prefix msg ids = Inr (zip ids (map ?look ids))"
    using wf by (auto simp: redis_pipe_get_def Let_def)
  then show ?thesis using pipe_rows_found [of ?look f dec, OF look] by simp
qed

lemma redis_GetNodes_ok:
  assumes "redis_wf b64 r"
  shows "Redis_GetNodes r ids = Inr (collect_found (kv_nodes (r_codec r) (r_str r)) ids [])"
  unfolding Redis_GetNodes_def
proof (rule redis_pipe_found [OF assms])
  fix i
  show "(map_of (r_str r) (node_key i) = None \<and> kv_nodes (r_codec r) (r_str r) i = None)
    \<or> (\<exists>v x. map_of (r_str r) (node_key i) = Some v \<and> cell_node (r_codec r) v = Inr x
          \<and> kv_nodes (r_codec r) (r_str r) i = Some x)"
    using kv_node_lookup [OF redis_wf_kv [OF assms], of i] by auto
qed simp

lemma redis_GetCaches_ok:
  assumes "redis_wf b64 r"
  shows "Redis_GetCaches r ids = Inr (collect_found (kv_caches (r_codec r) (r_str r)) ids [])"
  unfolding Redis_GetCaches_def
proof (rule redis_pipe_found [OF assms])
  fix i
  show "(map_of (r_str r) (cache_key i) = None \<and> kv_caches (r_codec r) (r_str r) i = None)
    \<or> (\<exists>v x. map_of (r_str r) (cache_key i) = Some v \<and> cell_cache (r_codec r) v = Inr x
          \<and> kv_caches (r_codec r) (r_str r) i = Some x)"
    using kv_cache_lookup [OF redis_wf_kv [OF assms], of i] by auto
qed simp

text \<open>The keys that a prefix pattern finds are the keys of the nodes, or of the cache entries.\<close>

lemma redis_keys_prefix:
  assumes "redis_wf b64 r" and "prefix = NodeKeyPrefix \<or> prefix = CacheKeyPrefix"
  shows "set (redis_keys r (prefix @ ''*'')) = {k \<in> set (keys_of (r_str r)). has_prefix k prefix}"
    and "distinct (redis_keys r (prefix @ ''*''))"
proof -
  have m: "r_match r (prefix @ ''*'') k \<longleftrightarrow> has_prefix k prefix" for k
    using assms unfolding redis_wf_def by blast
  have ro: "range_ok (r_order r)" using assms(1) by (simp add: redis_wf_def)
  have no: "\<not> has_prefix (fst h) prefix" if "h \<in> set (r_hash r)" for h
    using hash_apart [OF assms(1) that] assms(2) by (auto dest!: has_prefixE)
  show "set (redis_keys r (prefix @ ''*'')) = {k \<in> set (keys_of (r_str r)). has_prefix k prefix}"
    using ro no by (auto simp: redis_keys_def m)
  have disj: "k \<notin> set (keys_of (r_str r))" if "k \<in> set (keys_of (r_hash r))" for k
  proof -
    from that obtain h where "h \<in> set (r_hash r)" "fst h = k" by auto
    then obtain tag k' where "tag_ok tag" "k = colon_key tag k'"
      using assms(1) unfolding redis_wf_def by blast
    then show ?thesis using str_apart [OF assms(1)] by blast
  qed
  have "distinct (keys_of (r_str r))" "distinct (keys_of (r_hash r))"
    using assms(1) by (simp_all add: redis_wf_def kv_ok_def)
  then have "distinct (keys_of (r_str r) @ keys_of (r_hash r))" using disj by auto
  then show "distinct (redis_keys r (prefix @ ''*''))"
    using ro by (simp add: redis_keys_def del: distinct_append)
qed

lemma redis_GetAllKeys_ok:
  assumes "redis_wf b64 r"
  shows "\<exists>ks. Redis_GetAllKeys r = Inr ks \<and> distinct ks \<and> set ks = dom (kv_nodes (r_codec r) (r_str r))"
proof -
  let ?N = "kv_nodes (r_codec r) (r_str r)"
  let ?ks = "redis_keys r (NodeKeyPrefix @ ''*'')"
  let ?id = "\<lambda>k. of_nat (case ParseUint 32 (trim_prefix k NodeKeyPrefix) of Inr i \<Rightarrow> i) :: id"
  have keys: "set ?ks = (\<lambda>i. node_key i) ` dom ?N"
  proof (intro set_eqI iffI)
    fix k assume "k \<in> set ?ks"
    then obtain v where "(k, v) \<in> set (r_str r)" "has_prefix k NodeKeyPrefix"
      using redis_keys_prefix(1) [OF assms, of NodeKeyPrefix] by auto
    then obtain i n where "k = node_key i" "?N i = Some n"
      using kv_node_keys [OF redis_wf_kv [OF assms]] by blast
    then show "k \<in> (\<lambda>i. node_key i) ` dom ?N" by blast
  next
    fix k assume "k \<in> (\<lambda>i. node_key i) ` dom ?N"
    then obtain i where i: "k = node_key i" "?N i \<noteq> None" by auto
    then have "map_of (r_str r) k \<noteq> None" by (auto simp: kv_nodes_def split: option.splits)
    then have "k \<in> set (keys_of (r_str r))" by (metis map_of_eq_None_keys)
    with i show "k \<in> set ?ks"
      using redis_keys_prefix(1) [OF assms, of NodeKeyPrefix] by simp
  qed
  have id: "ParseUint 32 (trim_prefix k NodeKeyPrefix) = Inr (unat (?id k)) \<and> k = node_key (?id k)"
    if "k \<in> set ?ks" for k
    using that unfolding keys by (auto simp: Uint32ToStr_def)
  have "map_res (\<lambda>k. bind_res (ctx ''failed to parse key'' (ParseUint 32 (trim_prefix k NodeKeyPrefix)))
       (\<lambda>i. Inr (of_nat i :: id))) ?ks = Inr (map ?id ?ks)"
  proof (rule map_res_Inr)
    fix k assume "k \<in> set ?ks"
    then obtain i where "k = node_key i" unfolding keys by blast
    then show "bind_res (ctx ''failed to parse key'' (ParseUint 32 (trim_prefix k NodeKeyPrefix)))
       (\<lambda>i. Inr (of_nat i :: id)) = Inr (?id k)" by (simp add: Uint32ToStr_def)
  qed
  then have run: "Redis_GetAllKeys r = Inr (map ?id ?ks)"
    using assms by (simp add: Redis_GetAllKeys_def)
  have "?ks = map (\<lambda>i. node_key i) (map ?id ?ks)"
    unfolding map_map using id by (intro map_idI [symmetric]) (simp del: id)
  then have "distinct (map ?id ?ks)"
    using redis_keys_prefix(2) [OF assms, of NodeKeyPrefix] by (metis distinct_map)
  moreover have "set (map ?id ?ks) = dom ?N"
    unfolding set_map keys image_image by (simp add: Uint32ToStr_def)
  ultimately show ?thesis using run by blast
qed

lemma redis_SaveCache_ok:
  assumes "redis_wf b64 r"
  shows "\<exists>s'. Redis_SaveCache r c = (s', Inr ()) \<and> redis_wf b64 s' \<and>
    redis_abs s' = (redis_abs r)\<lparr>g_caches := (g_caches (redis_abs r))(c_ID c \<mapsto> c)\<rparr>"
proof -
  obtain t where t: "NodeCache_MarshalJSON (r_codec r) c = Inr t"
    "kv_ok b64 (r_codec r) (AList.update (cache_key (c_ID c)) (Json t) (r_str r))"
    "kv_nodes (r_codec r) (AList.update (cache_key (c_ID c)) (Json t) (r_str r))
      = kv_nodes (r_codec r) (r_str r)"
    "kv_names (AList.update (cache_key (c_ID c)) (Json t) (r_str r)) = kv_names (r_str r)"
    "kv_caches (r_codec r) (AList.update (cache_key (c_ID c)) (Json t) (r_str r))
      = (kv_caches (r_codec r) (r_str r))(c_ID c \<mapsto> c)"
    using kv_save_cache [OF redis_wf_kv [OF assms]] by blast
  let ?s = "r\<lparr>r_str := AList.update (cache_key (c_ID c)) (Json t) (r_str r)\<rparr>"
  have "redis_put r (cache_key (c_ID c)) (Json t) = ?s"
    using redis_put_graph [OF assms] by blast
  then have "Redis_SaveCache r c = (?s, Inr ())"
    using t(1) redis_ok(2) [OF assms] by (simp add: Redis_SaveCache_def)
  then show ?thesis
    using redis_wf_str [OF assms t(2)] t(3-5) by (simp add: redis_abs_def)
qed

text \<open>The marshalled entries of \<open>SaveCaches\<close> as \<open>SET\<close> commands.\<close>

lemma redis_sets:
  assumes "redis_wf b64 r"
  shows "\<exists>sets. map_res (\<lambda>c. bind_res (ctx ''failed to marshal cache'' (NodeCache_MarshalJSON (r_codec r) c))
      (\<lambda>data. Inr (CacheKeyPrefix @ Uint32ToStr (c_ID c), Json data))) cs = Inr sets
    \<and> redis_wf b64 (fold (\<lambda>kv r'. redis_put r' (fst kv) (snd kv)) sets r)
    \<and> redis_abs (fold (\<lambda>kv r'. redis_put r' (fst kv) (snd kv)) sets r)
      = (redis_abs r)\<lparr>g_caches := g_caches (redis_abs r) ++ map_of (rev (map (\<lambda>c. (c_ID c, c)) cs))\<rparr>"
  using assms
proof (induction cs arbitrary: r)
  case Nil
  then show ?case by simp
next
  case (Cons c cs)
  obtain t where t: "NodeCache_MarshalJSON (r_codec r) c = Inr t"
    using kv_save_cache [OF redis_wf_kv [OF Cons.prems], of c] by blast
  let ?s = "redis_put r (cache_key (c_ID c)) (Json t)"
  have "Redis_SaveCache r c = (?s, Inr ())"
    using t redis_ok(2) [OF Cons.prems] by (simp add: Redis_SaveCache_def)
  then have s: "redis_wf b64 ?s"
    "redis_abs ?s = (redis_abs r)\<lparr>g_caches := (g_caches (redis_abs r))(c_ID c \<mapsto> c)\<rparr>"
    using redis_SaveCache_ok [OF Cons.prems, of c] by auto
  have codec: "r_codec ?s = r_codec r" by (simp add: redis_put_def)
  obtain sets where sets: "map_res (\<lambda>c. bind_res (ctx ''failed to marshal cache''
      (NodeCache_MarshalJSON (r_codec r) c))
      (\<lambda>data. Inr (CacheKeyPrefix @ Uint32ToStr (c_ID c), Json data))) cs = Inr sets"
    "redis_wf b64 (fold (\<lambda>kv r'. redis_put r' (fst kv) (snd kv)) sets ?s)"
    "redis_abs (fold (\<lambda>kv r'. redis_put r' (fst kv) (snd kv)) sets ?s)
      = (redis_abs ?s)\<lparr>g_caches := g_caches (redis_abs ?s) ++ map_of (rev (map (\<lambda>c. (c_ID c, c)) cs))\<rparr>"
    using Cons.IH [OF s(1)] unfolding codec by blast
  have m: "map_of (rev (map (\<lambda>c. (c_ID c, c)) (c # cs)))
      = [c_ID c \<mapsto> c] ++ map_of (rev (map (\<lambda>c. (c_ID c, c)) cs))" by simp
  let ?sets = "(cache_key (c_ID c), Json t) # sets"
  have f: "fold (\<lambda>kv r'. redis_put r' (fst kv) (snd kv)) ?sets r
      = fold (\<lambda>kv r'. redis_put r' (fst kv) (snd kv)) sets ?s" by simp
  have run: "map_res (\<lambda>c. bind_res (ctx ''failed to marshal cache'' (NodeCache_MarshalJSON (r_codec r) c))
      (\<lambda>data. Inr (CacheKeyPrefix @ Uint32ToStr (c_ID c), Json data))) (c # cs) = Inr ?sets"
    using t sets(1) by simp
  have abs: "redis_abs (fold (\<lambda>kv r'. redis_put r' (fst kv) (snd kv)) ?sets r)
      = (redis_abs r)\<lparr>g_caches := g_caches (redis_abs r) ++ map_of (rev (map (\<lambda>c. (c_ID c, c)) (c # cs)))\<rparr>"
    unfolding f sets(3) s(2) m map_add_assoc by (simp del: redis_abs_simps)
  have wf: "redis_wf b64 (fold (\<lambda>kv r'. redis_put r' (fst kv) (snd kv)) ?sets r)"
    unfolding f by (rule sets(2))
  show ?case by (intro exI [of _ ?sets] conjI) (rule run, rule wf, rule abs)
qed

lemma redis_SaveCaches_ok:
  assumes "redis_wf b64 r"
  shows "\<exists>s'. Redis_SaveCaches r cs = (s', Inr ()) \<and> redis_wf b64 s' \<and> redis_abs s' =
    (redis_abs r)\<lparr>g_caches := g_caches (redis_abs r) ++ map_of (rev (map (\<lambda>c. (c_ID c, c)) cs))\<rparr>"
  using redis_sets [OF assms, of cs] redis_ok(2) [OF assms]
  by (auto simp: Redis_SaveCaches_def simp del: redis_abs_simps)

lemma remove_batches_run:
  assumes "r_fails r = (\<lambda>_. None)"
  shows "remove_batches r batches =
    (r\<lparr>r_stack := r_stack r @ map (\<lambda>k. trim_prefix k CacheKeyPrefix) (concat batches),
       r_str := filter (\<lambda>x. fst x \<notin> set (concat batches)) (r_str r),
       r_hash := filter (\<lambda>x. fst x \<notin> set (concat batches)) (r_hash r)\<rparr>, Inr ())"
  using assms
proof (induction batches arbitrary: r)
  case Nil
  then show ?case by simp
next
  case (Cons ks batches)
  have f: "filter (\<lambda>x. fst x \<notin> \<Union> (set ` set batches)) (filter (\<lambda>x. fst x \<notin> set ks) xs)
    = filter (\<lambda>x. fst x \<notin> set ks \<and> fst x \<notin> \<Union> (set ` set batches)) xs" for xs :: "(string \<times> 'x) list"
    by (simp add: conj_commute)
  show ?case
    using Cons.prems Cons.IH by (auto simp: redis_do_def redis_unlink_def conj_commute)
qed

lemma redis_RemoveAllCaches_ok:
  assumes "redis_wf b64 r"
  shows "\<exists>s'. Redis_RemoveAllCaches r = (s', Inr ()) \<and> redis_wf b64 s' \<and>
    redis_abs s' = (redis_abs r)\<lparr>g_caches := Map.empty,
      g_pending := g_pending (redis_abs r) \<union> dom (g_caches (redis_abs r))\<rparr>"
proof -
  let ?ks = "redis_keys r (CacheKeyPrefix @ ''*'')" and ?C = "kv_caches (r_codec r) (r_str r)"
  let ?bs = "r_scan r ?ks"
  let ?s = "r\<lparr>r_stack := r_stack r @ map (\<lambda>k. trim_prefix k CacheKeyPrefix) (concat ?bs),
    r_str := filter (\<lambda>x. \<not> has_prefix (fst x) CacheKeyPrefix) (r_str r)\<rparr>"
  have bs: "set (concat ?bs) = {k \<in> set (keys_of (r_str r)). has_prefix k CacheKeyPrefix}"
    using redis_keys_prefix(1) [OF assms, of CacheKeyPrefix] assms unfolding redis_wf_def by blast
  have str: "filter (\<lambda>x. fst x \<notin> set (concat ?bs)) (r_str r)
      = filter (\<lambda>x. \<not> has_prefix (fst x) CacheKeyPrefix) (r_str r)"
    unfolding bs by (intro filter_cong) auto
  have hash: "filter (\<lambda>x. fst x \<notin> set (concat ?bs)) (r_hash r) = r_hash r"
    unfolding bs filter_id_conv using hash_apart(3) [OF assms] by (auto dest!: has_prefixE)
  have run: "Redis_RemoveAllCaches r = (?s, Inr ())"
    using assms remove_batches_run [of r ?bs] unfolding str hash
    by (simp add: Redis_RemoveAllCaches_def redis_wf_def redis_reply_def)
  have key: "k \<in> set (concat ?bs) \<longleftrightarrow> (\<exists>i \<in> dom ?C. k = cache_key i)" for k
  proof
    assume "k \<in> set (concat ?bs)"
    then obtain v where "(k, v) \<in> set (r_str r)" "has_prefix k CacheKeyPrefix" unfolding bs by auto
    then show "\<exists>i \<in> dom ?C. k = cache_key i" using kv_cache_keys [OF redis_wf_kv [OF assms]] by blast
  next
    assume "\<exists>i \<in> dom ?C. k = cache_key i"
    then obtain i where i: "k = cache_key i" "?C i \<noteq> None" by auto
    then have "map_of (r_str r) k \<noteq> None" by (auto simp: kv_caches_def split: option.splits)
    with i show "k \<in> set (concat ?bs)" unfolding bs by (auto simp: map_of_eq_None_iff)
  qed
  then have "set (concat ?bs) = (\<lambda>i. cache_key i) ` dom ?C" by blast
  then have trims: "set (map (\<lambda>k. trim_prefix k CacheKeyPrefix) (concat ?bs)) = Uint32ToStr ` dom ?C"
    unfolding set_map by (simp add: image_image)
  have wf: "redis_wf b64 ?s"
    using assms kv_drop_caches(1) [OF redis_wf_kv [OF assms]] trims
    unfolding redis_wf_def by (auto simp del: set_map set_concat)
  have "redis_abs ?s = (redis_abs r)\<lparr>g_caches := Map.empty,
      g_pending := g_pending (redis_abs r) \<union> dom (g_caches (redis_abs r))\<rparr>"
    using kv_drop_caches(2-4) [OF redis_wf_kv [OF assms]] trims
    by (auto simp: redis_abs_def simp del: set_map set_concat)
  with run wf show ?thesis by blast
qed

lemma redis_ToBeCached_ok:
  assumes "redis_wf b64 r"
  shows "\<exists>ks. Redis_ToBeCached r = Inr ks \<and> set ks = {i. Uint32ToStr i \<in> set (r_stack r)}"
proof -
  obtain ks where ks: "r_stack r = map Uint32ToStr ks"
    using assms unfolding redis_wf_def by (metis ex_map_conv)
  have "map_res (\<lambda>s. bind_res (ctx ''failed to parse item'' (ParseUint 32 s)) (\<lambda>i. Inr (of_nat i :: id)))
      (map Uint32ToStr ks) = Inr ks"
    by (induction ks) (simp_all add: Uint32ToStr_def)
  then have "Redis_ToBeCached r = Inr ks" using assms ks by (simp add: Redis_ToBeCached_def)
  then show ?thesis using ks by auto
qed

lemma redis_GenerateID_ok:
  assumes "redis_wf b64 r" and "Suc (nat (r_counter r)) < 4294967296"
  shows "\<exists>s'. Redis_GenerateID r = (s', Inr (of_nat (Suc (nat (r_counter r))))) \<and> redis_wf b64 s'
    \<and> redis_abs s' = (redis_abs r)\<lparr>g_next := Suc (nat (r_counter r))\<rparr>"
proof -
  have "0 \<le> r_counter r" using assms(1) by (simp add: redis_wf_def)
  then have "IntToUint32 (r_counter r + 1) = Inr (of_nat (Suc (nat (r_counter r))))"
    using assms(2) by (simp add: IntToUint32_def)
  then show ?thesis
    using assms by (auto simp: Redis_GenerateID_def redis_wf_def redis_abs_def redis_do_def)
qed

lemma fold_update_pairs:
  "distinct (keys_of xs) \<Longrightarrow> distinct (keys_of acc) \<Longrightarrow>
     distinct (keys_of (fold (\<lambda>fv. AList.update (fst fv) (snd fv)) xs acc))
     \<and> map_of (fold (\<lambda>fv. AList.update (fst fv) (snd fv)) xs acc) = map_of acc ++ map_of xs"
proof (induction xs arbitrary: acc)
  case Nil
  then show ?case by simp
next
  case (Cons x xs)
  then have "map_of xs (fst x) = None" by (auto simp: map_of_eq_None_iff)
  with Cons show ?case by (cases x) (auto simp: fun_eq_iff map_add_def split: option.splits)
qed

lemma redis_GetCustomData_ok:
  assumes "redis_wf b64 r" and "tag_ok tag"
  shows "\<exists>al. Redis_GetCustomData r tag k = Inr al \<and> distinct (keys_of al)
    \<and> map_of al = hash_custom (r_hash r) (tag, k)"
proof -
  let ?d = "case map_of (r_hash r) (colon_key tag k) of None \<Rightarrow> [] | Some h \<Rightarrow> h"
  have d: "distinct (keys_of ?d)" "map_of ?d = hash_custom (r_hash r) (tag, k)"
    using assms by (auto simp: redis_wf_def hash_custom_def split: option.splits dest: map_of_SomeD)
  let ?g = "go_range (r_order r) 1 ?d"
  have ro: "range_ok (r_order r)" using assms(1) by (simp add: redis_wf_def)
  have g: "distinct (keys_of ?g)" using d(1) ro by (simp add: distinct_keys_go_range)
  have "map_of ?g = map_of ?d"
    using d(1) g ro by (intro map_of_eqI) auto
  with fold_update_pairs [OF g, of "[]"] d str_apart [OF assms, of k] assms(1) show ?thesis
    by (auto simp: Redis_GetCustomData_def Let_def)
qed

lemma redis_AddCustom_ok:
  assumes "redis_wf b64 r" and "tag_ok tag"
  shows "\<exists>s'. Redis_AddOrUpdateCustomData r tag k dk v = (s', Inr ()) \<and> redis_wf b64 s' \<and>
    redis_abs s' = (redis_abs r)\<lparr>g_custom :=
      (g_custom (redis_abs r))((tag, k) := (g_custom (redis_abs r) (tag, k))(dk \<mapsto> v))\<rparr>"
proof -
  let ?key = "colon_key tag k"
  let ?old = "case map_of (r_hash r) ?key of None \<Rightarrow> [] | Some h \<Rightarrow> h"
  let ?h = "AList.update ?key (AList.update dk v ?old) (r_hash r)"
  have run: "Redis_AddOrUpdateCustomData r tag k dk v = (r\<lparr>r_hash := ?h\<rparr>, Inr ())"
    using str_apart [OF assms, of k] assms(1) by (simp add: Redis_AddOrUpdateCustomData_def Let_def)
  have hs: "distinct (keys_of (r_hash r))" and rows: "\<And>h. h \<in> set (r_hash r) \<Longrightarrow>
      distinct (keys_of (snd h)) \<and> (\<exists>tag k. tag_ok tag \<and> fst h = colon_key tag k)"
    using assms(1) by (auto simp: redis_wf_def)
  have old: "distinct (keys_of ?old)"
    using rows by (auto split: option.splits dest!: map_of_SomeD)
  have "distinct (keys_of (snd h)) \<and> (\<exists>tag k. tag_ok tag \<and> fst h = colon_key tag k)" if "h \<in> set ?h" for h
  proof -
    have "map_of ?h (fst h) = Some (snd h)" using that hs by (intro map_of_is_SomeI) simp_all
    then have "h = (?key, AList.update dk v ?old) \<or> map_of (r_hash r) (fst h) = Some (snd h)"
      by (cases h) (auto split: if_splits)
    then show ?thesis
    proof
      assume "h = (?key, AList.update dk v ?old)"
      with old assms(2) show ?thesis by auto
    next
      assume "map_of (r_hash r) (fst h) = Some (snd h)"
      then show ?thesis using rows [of h] map_of_SomeD by fastforce
    qed
  qed
  then have "redis_wf b64 (r\<lparr>r_hash := ?h\<rparr>)" using assms(1) hs unfolding redis_wf_def by auto
  moreover have "hash_custom ?h = (hash_custom (r_hash r))((tag, k) := (hash_custom (r_hash r) (tag, k))(dk \<mapsto> v))"
    using assms(2)
    by (auto simp: fun_eq_iff hash_custom_def tag_ok_def colon_key_inject split: option.splits)
  ultimately show ?thesis using run by (simp add: redis_abs_def)
qed

interpretation rd: recaching_store redis_storage "redis_wf b64" redis_abs "stored_node b64"
  for b64 :: "string \<Rightarrow> string"
proof (unfold_locales, goal_cases)
  case (6 n cb pb)
  show ?case by (rule stored_node_edit)
next
  case (7 s i n)
  then show ?case using kv_node_lookup [OF redis_wf_kv, of b64 s i] by auto
next
  case (10 s n)
  then show ?case using redis_SaveNode_ok by (simp add: store_simps)
next
  case (13 s "is")
  then show ?case
    by (simp add: store_simps redis_GetNodes_ok collect_found_map collect_found_distinct)
next
  case (14 s)
  then show ?case using redis_GetAllKeys_ok by (simp add: store_simps)
next
  case (15 s c)
  then show ?case using redis_SaveCache_ok by (simp add: store_simps)
next
  case (16 s cs)
  then show ?case using redis_SaveCaches_ok by (simp add: store_simps)
next
  case (17 s)
  then show ?case using redis_RemoveAllCaches_ok [of b64 s] by (auto simp: store_simps)
next
  case (18 s)
  then show ?case using redis_ToBeCached_ok by (simp add: store_simps)
next
  case (19 s i)
  then show ?case using redis_push_ok by (simp add: store_simps)
next
  case (21 s "is")
  then show ?case
    by (simp add: store_simps redis_GetCaches_ok collect_found_map collect_found_distinct)
next
  case (22 s)
  then show ?case
    by (auto simp: store_simps Redis_ClearCacheStack_def redis_wf_def redis_abs_def redis_do_def)
next
  case (23 s)
  then show ?case using redis_GenerateID_ok by (simp add: store_simps)
next
  case (24 s tag k dk v)
  then show ?case using redis_AddCustom_ok by (simp add: store_simps)
next
  case (25 s tag k)
  then show ?case using redis_GetCustomData_ok [of b64 s tag k] by (auto simp: store_simps redis_abs_def)
next
  case (27 s)
  then show ?case
    using redis_RemoveAllCaches_ok [of b64 s] by (auto simp: store_simps simp del: redis_abs_simps)
qed (auto simp: store_simps redis_NameToID_ok redis_GetNode_ok redis_GetCache_ok RedisNil_def)

section \<open>Searching by pattern\<close>

text \<open>
  The ordinary characters of a pattern stand for themselves (documentation of \<open>KEYS\<close>), so a search never
  leaves the keys of the names; which of them it finds is up to the server. No command changes that.
\<close>

definition redis_literal :: "('b, 't) redis \<Rightarrow> bool" where
  "redis_literal r \<longleftrightarrow> (\<forall>p k. r_match r (NameToIDKey @ p) k \<longrightarrow> has_prefix k NameToIDKey)"

lemma redis_do_match [simp]: "r_match (fst (redis_do r c r')) = (if r_fails r c = None then r_match r' else r_match r)"
  by (simp add: redis_do_def split: option.splits)

lemma redis_put_match [simp]: "r_match (redis_put r k v) = r_match r"
  by (simp add: redis_put_def)

lemma fold_put_match: "r_match (fold (\<lambda>kv r'. redis_put r' (fst kv) (snd kv)) sets r) = r_match r"
  by (induction sets arbitrary: r) simp_all

lemma bind_st_match:
  assumes "r_match (fst x) = m" and "\<And>s a. r_match s = m \<Longrightarrow> r_match (fst (f s a)) = m"
  shows "r_match (fst (bind_st x f)) = m"
  using assms by (cases x; cases "snd x") auto

lemma ctx_st_match [simp]: "r_match (fst (ctx_st msg x)) = r_match (fst x)"
  by (cases x; cases "snd x") auto

lemma redis_push_match: "r_match (fst (Redis_AddNodeToCachedStack r i)) = r_match r"
  by (simp add: Redis_AddNodeToCachedStack_def)

lemma remove_batches_match: "r_match (fst (remove_batches r batches)) = r_match r"
proof (induction batches arbitrary: r)
  case (Cons ks batches)
  show ?case
    by (simp add: Cons) (intro impI bind_st_match, simp_all add: Cons redis_unlink_def)
qed simp

lemma redis_keeps_match:
  "r_match (fst (Redis_SaveNode r n)) = r_match r"
  "r_match (fst (Redis_SaveCache r c)) = r_match r"
  "r_match (fst (Redis_SaveCaches r cs)) = r_match r"
  "r_match (fst (Redis_RemoveAllCaches r)) = r_match r"
  "r_match (fst (Redis_ClearCacheStack r)) = r_match r"
  "r_match (fst (Redis_GenerateID r)) = r_match r"
  "r_match (fst (Redis_AddOrUpdateCustomData r tag k dk v)) = r_match r"
proof -
  show "r_match (fst (Redis_SaveNode r n)) = r_match r"
    by (simp add: Redis_SaveNode_def split: sum.split)
       (intro allI impI bind_st_match, simp_all add: redis_push_match)
  show "r_match (fst (Redis_GenerateID r)) = r_match r"
    unfolding Redis_GenerateID_def by (rule bind_st_match) simp_all
qed (simp_all add: Redis_SaveCache_def Redis_SaveCaches_def Redis_RemoveAllCaches_def Redis_ClearCacheStack_def
    Redis_AddOrUpdateCustomData_def Let_def remove_batches_match fold_put_match split: sum.split)

lemmas redis_all_keep_match = redis_keeps_match redis_push_match

lemma redis_keys_distinct:
  assumes "redis_wf b64 r"
  shows "distinct (redis_keys r q)"
proof -
  have disj: "k \<notin> set (keys_of (r_str r))" if "k \<in> set (keys_of (r_hash r))" for k
  proof -
    from that obtain h where "h \<in> set (r_hash r)" "fst h = k" by auto
    then obtain tag k' where "tag_ok tag" "k = colon_key tag k'"
      using assms unfolding redis_wf_def by blast
    then show ?thesis using str_apart [OF assms] by blast
  qed
  have "distinct (keys_of (r_str r))" "distinct (keys_of (r_hash r))" "range_ok (r_order r)"
    using assms by (simp_all add: redis_wf_def kv_ok_def)
  then have "distinct (keys_of (r_str r) @ keys_of (r_hash r))" using disj by auto
  with \<open>range_ok (r_order r)\<close> show ?thesis by (simp add: redis_keys_def del: distinct_append)
qed

lemma redis_glob_keys:
  assumes wf: "redis_wf b64 r" and "redis_literal r"
  shows "set (redis_keys r (NameToIDKey @ p))
    = (\<lambda>x. name_key x) ` {x. r_match r (NameToIDKey @ p) (name_key x) \<and> kv_names (r_str r) x \<noteq> None}"
proof (intro set_eqI iffI)
  have ro: "range_ok (r_order r)" using wf by (simp add: redis_wf_def)
  fix k assume k: "k \<in> set (redis_keys r (NameToIDKey @ p))"
  then have m: "r_match r (NameToIDKey @ p) k" by (simp add: redis_keys_def)
  then have px: "has_prefix k NameToIDKey" using assms(2) by (simp add: redis_literal_def)
  then obtain x where "k = name_key x" by (auto dest!: has_prefixE)
  then have "fst h \<noteq> k" if "h \<in> set (r_hash r)" for h using hash_apart(2) [OF wf that] by simp
  then have "k \<notin> set (keys_of (r_hash r))" by auto
  then obtain v where "(k, v) \<in> set (r_str r)" using k ro by (auto simp: redis_keys_def)
  from kv_name_keys [OF redis_wf_kv [OF wf] this px] m
  show "k \<in> (\<lambda>x. name_key x) ` {x. r_match r (NameToIDKey @ p) (name_key x) \<and> kv_names (r_str r) x \<noteq> None}"
    by blast
next
  have ro: "range_ok (r_order r)" using wf by (simp add: redis_wf_def)
  fix k assume "k \<in> (\<lambda>x. name_key x) ` {x. r_match r (NameToIDKey @ p) (name_key x) \<and> kv_names (r_str r) x \<noteq> None}"
  then obtain x where x: "k = name_key x" "r_match r (NameToIDKey @ p) k" "kv_names (r_str r) x \<noteq> None" by blast
  then have "map_of (r_str r) k \<noteq> None" by (auto simp: kv_names_def split: option.splits)
  then have "k \<in> set (keys_of (r_str r))" by (metis map_of_eq_None_keys)
  with x(2) ro show "k \<in> set (redis_keys r (NameToIDKey @ p))" by (simp add: redis_keys_def)
qed

lemma redis_glob_ok:
  assumes wf: "redis_wf b64 r" and lit: "redis_literal r" and ok: "graph_ok (redis_abs r)"
  shows "\<exists>ns. Redis_GetNodesByGlob r p = Inr ns \<and> distinct ns
    \<and> set ns = {n. r_match r (NameToIDKey @ p) (name_key (n_Name n)) \<and> (\<exists>i. g_nodes (redis_abs r) i = Some n)}"
proof -
  let ?N = "kv_nodes (r_codec r) (r_str r)" and ?ks = "redis_keys r (NameToIDKey @ p)"
  let ?X = "{x. r_match r (NameToIDKey @ p) (name_key x) \<and> kv_names (r_str r) x \<noteq> None}"
  have names: "kv_names (r_str r) (n_Name n) = Some i" if "?N i = Some n" for i n
    using ok that unfolding graph_ok_def names_ok_def by simp
  have known: "\<exists>n. ?N i = Some n \<and> n_Name n = x" if "kv_names (r_str r) x = Some i" for i x
    using ok that unfolding graph_ok_def names_ok_def by simp
  define nd where "nd k = the (?N (the (kv_names (r_str r) (trim_prefix k NameToIDKey))))" for k
  have key: "\<exists>x i n. k = name_key x \<and> kv_names (r_str r) x = Some i \<and> ?N i = Some n \<and> n_Name n = x
      \<and> r_match r (NameToIDKey @ p) k \<and> nd k = n" if k: "k \<in> set ?ks" for k
  proof -
    obtain x where x: "k = name_key x" "x \<in> ?X" using k unfolding redis_glob_keys [OF wf lit] by blast
    then obtain i where i: "kv_names (r_str r) x = Some i" by blast
    with known obtain n where "?N i = Some n" "n_Name n = x" by blast
    with x i show ?thesis by (simp add: nd_def)
  qed
  have run: "Redis_GetNodesByGlob r p = Inr (map nd ?ks)"
  proof -
    have "map_res (\<lambda>k. bind_res (ctx ''failed to get ID for name'' (Redis_NameToID r (trim_prefix k NameToIDKey)))
         (\<lambda>i. ctx ''failed to get node'' (Redis_GetNode r i))) ?ks = Inr (map nd ?ks)"
    proof (rule map_res_Inr)
      fix k assume "k \<in> set ?ks"
      from key [OF this] obtain x i n where "k = name_key x" "kv_names (r_str r) x = Some i" "?N i = Some n" by blast
      then show "bind_res (ctx ''failed to get ID for name'' (Redis_NameToID r (trim_prefix k NameToIDKey)))
         (\<lambda>i. ctx ''failed to get node'' (Redis_GetNode r i)) = Inr (nd k)"
        by (simp add: nd_def redis_NameToID_ok [OF wf] redis_GetNode_ok [OF wf])
    qed
    then show ?thesis using wf by (simp add: Redis_GetNodesByGlob_def)
  qed
  have "inj_on nd (set ?ks)"
  proof (rule inj_onI)
    fix a b assume "a \<in> set ?ks" "b \<in> set ?ks" "nd a = nd b"
    then show "a = b" using key [of a] key [of b] by metis
  qed
  then have "distinct (map nd ?ks)" using redis_keys_distinct [OF wf] by (simp add: distinct_map)
  moreover have "set (map nd ?ks)
    = {n. r_match r (NameToIDKey @ p) (name_key (n_Name n)) \<and> (\<exists>i. g_nodes (redis_abs r) i = Some n)}"
  proof (intro set_eqI iffI)
    fix n assume "n \<in> set (map nd ?ks)"
    then obtain k where k: "k \<in> set ?ks" "n = nd k" unfolding set_map by blast
    from key [OF k(1)] k(2)
    show "n \<in> {n. r_match r (NameToIDKey @ p) (name_key (n_Name n)) \<and> (\<exists>i. g_nodes (redis_abs r) i = Some n)}"
      by auto
  next
    fix n assume "n \<in> {n. r_match r (NameToIDKey @ p) (name_key (n_Name n)) \<and> (\<exists>i. g_nodes (redis_abs r) i = Some n)}"
    then obtain i where i: "r_match r (NameToIDKey @ p) (name_key (n_Name n))" "?N i = Some n" by auto
    then have "name_key (n_Name n) \<in> set ?ks" unfolding redis_glob_keys [OF wf lit] using names by blast
    moreover have "n = nd (name_key (n_Name n))" using names [OF i(2)] i(2) by (simp add: nd_def)
    ultimately show "n \<in> set (map nd ?ks)" unfolding set_map by (intro image_eqI)
  qed
  ultimately show ?thesis using run by blast
qed

lemma redis_literal_ex:
  assumes "redis_literal r" and "r_match (fst f) = r_match r"
    and "\<exists>s'. f = (s', x) \<and> redis_wf b64 s' \<and> Q s'"
  shows "\<exists>s'. f = (s', x) \<and> (redis_wf b64 s' \<and> redis_literal s') \<and> Q s'"
  using assms by (auto simp: redis_literal_def)

text \<open>To the Redis back end a pattern is one of the server's, behind the prefix of the names.\<close>

interpretation rg: searchable_store redis_storage "\<lambda>r. redis_wf b64 r \<and> redis_literal r" redis_abs
    "stored_node b64" "\<lambda>r p. Some (\<lambda>x. r_match r (NameToIDKey @ p) (name_key x))"
  for b64 :: "string \<Rightarrow> string"
proof (unfold_locales, goal_cases)
  case (6 n cb pb)
  show ?case by (rule rd.norm_edit)
next
  case (7 s i n)
  then show ?case using rd.norm_stored by blast
next
  case (8 s x i)
  then show ?case using rd.NameToID_Some by blast
next
  case (9 s x)
  then show ?case using rd.NameToID_None by blast
next
  case (10 s n)
  then show ?case
    using rd.SaveNode by (intro redis_literal_ex) (auto simp: store_simps redis_all_keep_match)
next
  case (11 s i n)
  then show ?case using rd.GetNode_Some by blast
next
  case (12 s i)
  then show ?case using rd.GetNode_None by blast
next
  case (13 s "is")
  then show ?case using rd.GetNodes by blast
next
  case (14 s)
  then show ?case using rd.GetAllKeys by blast
next
  case (15 s c)
  then show ?case
    using rd.SaveCache by (intro redis_literal_ex) (auto simp: store_simps redis_all_keep_match)
next
  case (16 s cs)
  then show ?case
    using rd.SaveCaches by (intro redis_literal_ex) (auto simp: store_simps redis_all_keep_match)
next
  case (17 s)
  obtain s' p where s': "st_RemoveAllCaches redis_storage s = (s', Inr ())" "redis_wf b64 s'"
    "redis_abs s' = (redis_abs s)\<lparr>g_caches := Map.empty, g_pending := p\<rparr>" "g_pending (redis_abs s) \<subseteq> p"
    using rd.RemoveAllCaches 17 by blast
  moreover have "r_match s' = r_match s" using s'(1) redis_keeps_match(4) [of s] by (simp add: store_simps)
  ultimately show ?case using 17 unfolding redis_literal_def by (intro exI [of _ s'] exI [of _ p]) simp
next
  case (18 s)
  then show ?case using rd.ToBeCached by blast
next
  case (19 s i)
  then show ?case
    using rd.AddNodeToCachedStack by (intro redis_literal_ex) (auto simp: store_simps redis_all_keep_match)
next
  case (20 s i c)
  then show ?case using rd.GetCache_Some by blast
next
  case (21 s "is")
  then show ?case using rd.GetCaches by blast
next
  case (22 s)
  then show ?case
    using rd.ClearCacheStack by (intro redis_literal_ex) (auto simp: store_simps redis_all_keep_match)
next
  case (23 s)
  then show ?case
    using rd.GenerateID by (intro redis_literal_ex) (auto simp: store_simps redis_all_keep_match)
next
  case (24 s tag k dk v)
  then show ?case
    using rd.AddOrUpdateCustomData by (intro redis_literal_ex) (auto simp: store_simps redis_all_keep_match)
next
  case (25 s tag k)
  then show ?case using rd.GetCustomData by blast
next
  case (26 s i)
  then show ?case using rd.GetCache_None by blast
next
  case (27 s p P)
  then show ?case using redis_glob_ok [of b64 s p] by (auto simp: store_simps simp del: redis_abs_simps)
qed (simp_all add: rd.norm_simps)

end
