(* ===== verification/Graph_Runs.thy ===== *)
theory Graph_Runs
  imports Mock_Storage Sql_Storage Redis_Storage
begin

text \<open>
  What the graph operations do over a whole run, on each back end: a step relation for the calls that
  the ingesters make, the invariant of every reachable state, and the queries in such a state.
\<close>

section \<open>Runs\<close>

text \<open>
  A step adds a node, or links two nodes as they are read back. The index counts the calls of
  \<open>AddNode\<close>: each hands out at most one identifier.
\<close>

inductive build_run :: "'s storage \<Rightarrow> 's \<Rightarrow> nat \<Rightarrow> 's \<Rightarrow> bool" for st s0 where
  start: "build_run st s0 0 s0"
| add: "build_run st s0 k s \<Longrightarrow> AddNode st s ty meta name = (s', r) \<Longrightarrow> build_run st s0 (Suc k) s'"
| link: "build_run st s0 k s \<Longrightarrow> st_GetNode st s a = Inr x \<Longrightarrow> st_GetNode st s b = Inr y \<Longrightarrow>
    SetDependency (Some st) s (Some x) (Some y) = ((s', x', y'), r) \<Longrightarrow> build_run st s0 k s'"

inductive_cases build_run_zeroE: "build_run st s0 0 s"

context graph_store
begin

lemma AddNode_next:
  assumes "wf s" and "graph_ok (abs s)" and "Suc (g_next (abs s)) < 4294967296"
    and "AddNode st s ty meta name = (s', r)"
  shows "g_next (abs s') \<le> Suc (g_next (abs s))"
proof (cases "g_names (abs s) name")
  case None
  with AddNode_new [OF assms(1) None assms(3), of ty meta] assms(4) show ?thesis by auto
next
  case (Some i)
  with AddNode_known [OF assms(1,2) Some, of ty meta] assms(4) show ?thesis by auto
qed

lemma read_node:
  assumes "wf s" and "st_GetNode st s a = Inr x"
  shows "g_nodes (abs s) a = Some x"
proof (cases "g_nodes (abs s) a")
  case None
  from GetNode_None [OF assms(1) None] assms(2) show ?thesis by auto
next
  case (Some n)
  from GetNode_Some [OF assms(1) Some] assms(2) Some show ?thesis by auto
qed

lemma SetDependency_next:
  assumes "wf s" and "g_nodes (abs s) a = Some x" and "g_nodes (abs s) b = Some y"
    and "n_ID x \<noteq> n_ID y" and "SetDependency (Some st) s (Some x) (Some y) = ((s', x', y'), r)"
  shows "g_next (abs s') = g_next (abs s)"
proof -
  have "norm x = x" "norm y = y" using norm_stored [OF assms(1)] assms(2,3) by blast+
  then obtain s1 x1 y1 where s1: "SetDependency (Some st) s (Some x) (Some y) = ((s1, Some x1, Some y1), Inr ())"
    "abs s1 = (abs s)\<lparr>g_nodes := link_nodes (g_nodes (abs s)) x y,
       g_names := (g_names (abs s))(n_Name x \<mapsto> n_ID x, n_Name y \<mapsto> n_ID y),
       g_pending := insert (n_ID y) (insert (n_ID x) (g_pending (abs s)))\<rparr>"
    using SetDependency_saves [OF assms(1) _ _ assms(4)] by blast
  have "s' = s1" using assms(5) s1(1) by simp
  then show ?thesis by (simp add: s1(2))
qed

lemma AddNode_pending:
  assumes "wf s" and "graph_ok (abs s)" and "Suc (g_next (abs s)) < 4294967296"
    and "AddNode st s ty meta name = (s', r)" and "g_pending (abs s) = dom (g_nodes (abs s))"
  shows "g_pending (abs s') = dom (g_nodes (abs s'))"
proof (cases "g_names (abs s) name")
  case None
  with AddNode_new [OF assms(1) None assms(3), of ty meta] assms(4,5) show ?thesis by auto
next
  case (Some i)
  with AddNode_known [OF assms(1,2) Some, of ty meta] assms(4,5) show ?thesis by auto
qed

lemma SetDependency_pending:
  assumes "wf s" and "graph_ok (abs s)" and "g_nodes (abs s) a = Some x" and "g_nodes (abs s) b = Some y"
    and "a \<noteq> b" and "SetDependency (Some st) s (Some x) (Some y) = ((s', x', y'), r)"
    and "g_pending (abs s) = dom (g_nodes (abs s))"
  shows "g_pending (abs s') = dom (g_nodes (abs s'))"
proof -
  have id: "n_ID x = a" "n_ID y = b" using stored_nodes [OF assms(1,2)] assms(3,4) by blast+
  have nn: "norm x = x" "norm y = y" using norm_stored [OF assms(1)] assms(3,4) by blast+
  have ne: "n_ID x \<noteq> n_ID y" using id assms(5) by simp
  obtain s1 x1 y1 where s1: "SetDependency (Some st) s (Some x) (Some y) = ((s1, Some x1, Some y1), Inr ())"
    "abs s1 = (abs s)\<lparr>g_nodes := link_nodes (g_nodes (abs s)) x y,
       g_names := (g_names (abs s))(n_Name x \<mapsto> n_ID x, n_Name y \<mapsto> n_ID y),
       g_pending := insert (n_ID y) (insert (n_ID x) (g_pending (abs s)))\<rparr>"
    using SetDependency_saves [OF assms(1) nn ne] by blast
  have "s' = s1" using assms(6) s1(1) by simp
  then show ?thesis by (simp add: s1(2) assms(7) dom_link_nodes)
qed

lemma build_run_ok:
  assumes "build_run st s0 k s" and "wf s0" and "graph_ok (abs s0)" and "g_next (abs s0) + k < 4294967295"
    and "g_pending (abs s0) = dom (g_nodes (abs s0))"
  shows "wf s \<and> graph_ok (abs s) \<and> g_next (abs s) \<le> g_next (abs s0) + k
    \<and> g_pending (abs s) = dom (g_nodes (abs s))"
  using assms
proof (induction rule: build_run.induct)
  case start
  then show ?case by simp
next
  case (add k s ty meta name s' r)
  then have s: "wf s" "graph_ok (abs s)" "g_next (abs s) \<le> g_next (abs s0) + k"
    "g_pending (abs s) = dom (g_nodes (abs s))" by auto
  then have room: "Suc (g_next (abs s)) < 4294967296" using add.prems by simp
  from AddNode_graph_ok [OF s(1,2) room, of ty meta name] add.hyps(2)
  have "wf s' \<and> graph_ok (abs s')" by auto
  moreover have "g_next (abs s') \<le> Suc (g_next (abs s))"
    using AddNode_next [OF s(1,2) room add.hyps(2)] .
  moreover have "g_pending (abs s') = dom (g_nodes (abs s'))"
    using AddNode_pending [OF s(1,2) room add.hyps(2) s(4)] .
  ultimately show ?case using s(3) by simp
next
  case (link k s a x b y s' x' y' r)
  then have s: "wf s" "graph_ok (abs s)" "g_next (abs s) \<le> g_next (abs s0) + k"
    "g_pending (abs s) = dom (g_nodes (abs s))" by auto
  have n: "g_nodes (abs s) a = Some x" "g_nodes (abs s) b = Some y"
    using read_node [OF s(1)] link.hyps by blast+
  have id: "n_ID x = a" "n_ID y = b" using stored_nodes [OF s(1,2)] n by blast+
  show ?case
  proof (cases "a = b")
    case True
    then have "s' = s" using link.hyps(4) id by (simp add: SetDependency_def)
    with s show ?thesis by simp
  next
    case False
    from SetDependency_graph_ok [OF s(1,2) n False] link.hyps(4)
    have "wf s' \<and> graph_ok (abs s')" by auto
    moreover have "g_next (abs s') = g_next (abs s)"
      using SetDependency_next [OF s(1) n _ link.hyps(4)] False id by simp
    moreover have "g_pending (abs s') = dom (g_nodes (abs s'))"
      using SetDependency_pending [OF s(1,2) n False link.hyps(4) s(4)] .
    ultimately show ?thesis using s(3) by simp
  qed
qed

text \<open>Adding a name twice: the second call returns the node as the first one left it in the storage.\<close>

lemma AddNode_twice:
  assumes "wf s" and "graph_ok (abs s)" and "Suc (g_next (abs s)) < 4294967296"
    and "AddNode st s ty meta name = (s1, r)"
  shows "\<exists>n. r = Inr n \<and> n_Name n = name \<and> AddNode st s1 ty' meta' name = (s1, Inr (norm n))"
proof (cases "g_names (abs s) name")
  case (Some i)
  obtain n where n: "AddNode st s ty meta name = (s, Inr n)" "g_nodes (abs s) i = Some n" "n_Name n = name"
    using AddNode_known [OF assms(1,2) Some] by blast
  moreover have "norm n = n" using norm_stored [OF assms(1) n(2)] .
  moreover have "AddNode st s ty' meta' name = (s, Inr n)"
    using AddNode_known [OF assms(1,2) Some, of ty' meta'] n(2) by auto
  ultimately show ?thesis using assms(4) by simp
next
  case None
  obtain s' i where s': "AddNode st s ty meta name = (s', Inr (new_node ty meta name i))" "wf s'"
    "abs s' = (abs s)\<lparr>g_nodes := (g_nodes (abs s))(i \<mapsto> norm (new_node ty meta name i)),
       g_names := (g_names (abs s))(name \<mapsto> i),
       g_caches := (g_caches (abs s))(i \<mapsto> NewNodeCache i {} {}),
       g_pending := insert i (g_pending (abs s)), g_next := Suc (g_next (abs s))\<rparr>"
    using AddNode_new [OF assms(1) None assms(3)] by blast
  have ok: "graph_ok (abs s')"
    using AddNode_graph_ok [OF assms(1-3), of ty meta name] s'(1) by auto
  have name: "g_names (abs s') name = Some i" by (simp add: s'(3))
  obtain m where m: "AddNode st s' ty' meta' name = (s', Inr m)" "g_nodes (abs s') i = Some m"
    using AddNode_known [OF s'(2) ok name] by blast
  have "m = norm (new_node ty meta name i)" using m(2) by (simp add: s'(3))
  moreover have "n_Name (new_node ty meta name i) = name" by (simp add: new_node_def)
  ultimately show ?thesis using assms(4) s'(1) m(1) by auto
qed

text \<open>The walk in either direction, from a node as it is read back.\<close>

lemma walk_is_reach:
  assumes "wf s" and "graph_ok (abs s)" and "st_GetNode st s i = Inr n"
  shows "QueryDependenciesNoCache (Some st) s (Some n) = Inr (reach (g_nodes (abs s)) ChildrenDirection i)
    \<and> QueryDependentsNoCache (Some st) s (Some n) = Inr (reach (g_nodes (abs s)) ParentsDirection i)"
  using queryBitmap_reach [OF assms(1,2) read_node [OF assms(1,3)]]
  by (simp add: QueryDependenciesNoCache_def QueryDependentsNoCache_def)

end

section \<open>Empty back ends\<close>

lemma graph_ok_empty: "graph_ok \<lparr>g_nodes = Map.empty, g_names = Map.empty, g_caches = c, g_pending = p,
    g_next = 0, g_custom = d\<rparr>"
  by (simp add: graph_ok_def names_ok_def edges_ok_def ids_ok_def)

lemma empty_mock_ok: "mock_wf NewMockStorage" "graph_ok (mock_abs NewMockStorage)"
proof -
  show "mock_wf NewMockStorage" by (simp add: mock_wf_def NewMockStorage_def cache_entries_def)
  show "graph_ok (mock_abs NewMockStorage)"
    using graph_ok_empty by (simp add: mock_abs_def NewMockStorage_def cache_entries_def)
qed

lemma kv_empty: "kv_nodes cd [] = Map.empty" "kv_names [] = Map.empty" "kv_caches cd [] = Map.empty"
  by (simp_all add: fun_eq_iff kv_nodes_def kv_names_def kv_caches_def)

lemma empty_sqldb_ok:
  assumes "codec_ok b64 cd"
  shows "sql_wf b64 (empty_sqldb cd doc_like)" "graph_ok (sql_abs (empty_sqldb cd doc_like))"
proof -
  show "sql_wf b64 (empty_sqldb cd doc_like)" using assms by (simp add: sql_wf_def empty_sqldb_def kv_ok_def)
  show "graph_ok (sql_abs (empty_sqldb cd doc_like))"
    using graph_ok_empty by (simp add: sql_abs_def empty_sqldb_def kv_empty)
qed

text \<open>What the documentation says of the two patterns that the source passes to \<open>KEYS\<close> and \<open>SCAN\<close>.\<close>

definition prefix_patterns :: "(string \<Rightarrow> string \<Rightarrow> bool) \<Rightarrow> bool" where
  "prefix_patterns match \<longleftrightarrow>
     (\<forall>k. match (NodeKeyPrefix @ ''*'') k = has_prefix k NodeKeyPrefix)
     \<and> (\<forall>k. match (CacheKeyPrefix @ ''*'') k = has_prefix k CacheKeyPrefix)"

lemma empty_redis_ok:
  assumes "codec_ok b64 cd" and "prefix_patterns match"
  shows "redis_wf b64 (empty_redis cd match)" "graph_ok (redis_abs (empty_redis cd match))"
proof -
  show "redis_wf b64 (empty_redis cd match)"
    using assms by (simp add: redis_wf_def empty_redis_def kv_ok_def prefix_patterns_def)
  show "graph_ok (redis_abs (empty_redis cd match))"
    using graph_ok_empty by (simp add: redis_abs_def empty_redis_def kv_empty)
qed

end
