(* ===== verification/Cache_Correct.thy ===== *)
theory Cache_Correct
  imports Cache_Walk Graph_Runs
begin

text \<open>
  The loop of \<open>buildCache\<close>: its invariant, its measure, and the closures it leaves; then \<open>Cache\<close> on
  any back end that keeps the storage contract.
\<close>

section \<open>The invariant of the stack\<close>

text \<open>
  \<open>x\<close> still owes the closure of \<open>t\<close>, unless \<open>t\<close> is done and merged. The debt is covered when a member
  of the component of \<open>x\<close> lies above on the stack (it will look at \<open>t\<close> again), or when \<open>t\<close> itself does
  and is not done: once it is, a member of the component is pushed.
\<close>

definition covered ::
  "(id \<rightharpoonup> node) \<Rightarrow> direction \<Rightarrow> bitmap \<Rightarrow> (id \<Rightarrow> bitmap) \<Rightarrow> id set \<Rightarrow> id \<Rightarrow> id \<Rightarrow> bool" where
  "covered nodes dir A C abv x t \<longleftrightarrow>
     (t \<in> A \<and> reach nodes dir t \<subseteq> C x) \<or> (\<exists>y \<in> abv. same_scc nodes x y) \<or> (t \<in> abv \<and> t \<notin> A)"

abbreviation todo_of :: "(id \<rightharpoonup> node) \<Rightarrow> direction \<Rightarrow> id \<Rightarrow> id list" where
  "todo_of nodes dir x \<equiv> to_array (out_of nodes dir x)"

fun stack_ok ::
  "(id \<rightharpoonup> node) \<Rightarrow> direction \<Rightarrow> bitmap \<Rightarrow> (id \<Rightarrow> bitmap) \<Rightarrow> id set \<Rightarrow> (id \<times> nat) list \<Rightarrow> bool" where
  "stack_ok nodes dir A C abv [] = True"
| "stack_ok nodes dir A C abv ((x, k) # s) =
     (x \<in> dom nodes \<and> k \<le> length (todo_of nodes dir x)
      \<and> (\<forall>t \<in> set (take k (todo_of nodes dir x)). covered nodes dir A C abv x t)
      \<and> stack_ok nodes dir A C (insert x abv) s)"

lemma stack_ok_transfer:
  assumes "stack_ok nodes dir A C abv s"
    and "\<And>Z x t. x \<in> fst ` set s \<Longrightarrow> x \<in> dom nodes \<Longrightarrow> t \<in> out_of nodes dir x \<Longrightarrow>
      covered nodes dir A C (abv \<union> Z) x t \<Longrightarrow> covered nodes dir A' C' (abv' \<union> Z) x t"
  shows "stack_ok nodes dir A' C' abv' s"
  using assms
proof (induction s arbitrary: abv abv')
  case Nil
  then show ?case by simp
next
  case (Cons p s)
  obtain x k where p: "p = (x, k)" by force
  have x: "x \<in> dom nodes" "k \<le> length (todo_of nodes dir x)"
    and cov: "\<And>t. t \<in> set (take k (todo_of nodes dir x)) \<Longrightarrow> covered nodes dir A C abv x t"
    and rest: "stack_ok nodes dir A C (insert x abv) s"
    using Cons.prems(1) p by auto
  have "covered nodes dir A' C' abv' x t" if t: "t \<in> set (take k (todo_of nodes dir x))" for t
  proof -
    have "t \<in> out_of nodes dir x" using in_set_takeD [OF t] by simp
    with Cons.prems(2) [of x t "{}"] cov [OF t] x(1) p show ?thesis by simp
  qed
  moreover have "stack_ok nodes dir A' C' (insert x abv') s"
  proof (rule Cons.IH [OF rest])
    fix Z y t
    assume "y \<in> fst ` set s" "y \<in> dom nodes" "t \<in> out_of nodes dir y"
      "covered nodes dir A C (insert x abv \<union> Z) y t"
    then show "covered nodes dir A' C' (insert x abv' \<union> Z) y t"
      using Cons.prems(2) [of y t "insert x Z"] by simp
  qed
  ultimately show ?case using p x by simp
qed

lemma stack_ok_push:
  assumes "set fs \<subseteq> dom nodes" and "stack_ok nodes dir A C (abv \<union> set fs) s"
  shows "stack_ok nodes dir A C abv (fold (\<lambda>f s. (f, 0) # s) fs s)"
  using assms
proof (induction fs arbitrary: s)
  case Nil
  then show ?case by simp
next
  case (Cons f fs)
  have "insert f (abv \<union> set fs) = abv \<union> set (f # fs)" by auto
  then have "stack_ok nodes dir A C (abv \<union> set fs) ((f, 0) # s)"
    using Cons.prems by (simp add: Un_commute)
  then show ?case using Cons by simp
qed

lemma fold_push_ids: "fst ` set (fold (\<lambda>f s. (f, 0) # s) fs s) = set fs \<union> fst ` set s"
  by (induction fs arbitrary: s) auto

section \<open>The invariant of the walk\<close>

text \<open>
  \<open>W\<close> bounds what the walk may touch and \<open>I\<close> collects the nodes it has started from. \<open>C x\<close> is the value
  that the component of \<open>x\<close> shares.
\<close>

definition memo_ok :: "(id \<rightharpoonup> node) \<Rightarrow> direction \<Rightarrow> (id \<rightharpoonup> id list \<times> id list) \<Rightarrow> bool" where
  "memo_ok nodes dir memo \<longleftrightarrow>
     (\<forall>i p. memo i = Some p \<longrightarrow> p = (todo_of nodes dir i, todo_of nodes (opposite dir) i))"

lemma memo_okD:
  "memo_ok nodes dir memo \<Longrightarrow> memo i = Some p \<Longrightarrow>
     p = (todo_of nodes dir i, todo_of nodes (opposite dir) i)"
  unfolding memo_ok_def by blast

lemma memo_ok_update:
  "memo_ok nodes dir memo \<Longrightarrow>
     memo_ok nodes dir (memo(i \<mapsto> (todo_of nodes dir i, todo_of nodes (opposite dir) i)))"
  unfolding memo_ok_def by (simp del: to_array_inject)

lemma memo_ok_empty [simp]: "memo_ok nodes dir Map.empty"
  by (simp add: memo_ok_def)

definition walk_inv ::
  "(id \<rightharpoonup> node) \<Rightarrow> direction \<Rightarrow> (id \<Rightarrow> string) \<Rightarrow> id set \<Rightarrow> id set \<Rightarrow> walk_state \<Rightarrow> (id \<Rightarrow> bitmap) \<Rightarrow> bool" where
  "walk_inv nodes dir H W I w C \<longleftrightarrow>
     nkm_rep H (dom nodes) (w_cache w) C
     \<and> memo_ok nodes dir (w_memo w)
     \<and> w_done w \<subseteq> dom nodes
     \<and> (\<forall>x \<in> dom nodes. comp_of nodes x \<subseteq> C x \<and> C x \<subseteq> reach nodes dir x)
     \<and> (\<forall>x \<in> w_done w. C x = reach nodes dir x)
     \<and> (\<forall>x \<in> w_done w. out_of nodes dir x \<subseteq> w_done w)
     \<and> (\<forall>x \<in> w_done w. out_of nodes (opposite dir) x \<subseteq> w_done w \<union> fst ` set (w_stack w))
     \<and> stack_ok nodes dir (w_done w) C {} (w_stack w)
     \<and> w_done w \<union> fst ` set (w_stack w) \<subseteq> W
     \<and> (\<forall>x \<in> dom nodes - W. C x = comp_of nodes x)
     \<and> I \<subseteq> w_done w \<union> fst ` set (w_stack w)"

definition env_ok :: "(id \<rightharpoonup> node) \<Rightarrow> direction \<Rightarrow> (id \<Rightarrow> string) \<Rightarrow> walk_env \<Rightarrow> bool" where
  "env_ok nodes dir H env \<longleftrightarrow>
     e_nodes env = nodes \<and> e_dir env = dir
     \<and> nkm_rep H (dom nodes) (e_children env) (out_of nodes ChildrenDirection)
     \<and> nkm_rep H (dom nodes) (e_parents env) (out_of nodes ParentsDirection)
     \<and> (\<forall>x \<in> dom nodes. \<forall>y \<in> dom nodes.
          map_get (e_scc env) x = map_get (e_scc env) y \<longleftrightarrow> same_scc nodes x y)"

text \<open>A set that no edge leaves, in either direction, and that holds whole components.\<close>

definition region :: "(id \<rightharpoonup> node) \<Rightarrow> direction \<Rightarrow> id set \<Rightarrow> bool" where
  "region nodes dir W \<longleftrightarrow>
     (\<forall>x \<in> W. out_of nodes dir x \<subseteq> W \<and> out_of nodes (opposite dir) x \<subseteq> W
        \<and> (\<forall>y. same_scc nodes x y \<longrightarrow> y \<in> W))"

lemma todo_future_ok:
  assumes "env_ok nodes dir H env" and "valid_dir dir" and "n_ID cur \<in> dom nodes"
    and "memo_ok nodes dir memo"
  shows "\<exists>memo'. getTodoAndFutureNodesCached (e_children env) (e_parents env) cur (e_dir env) memo
      = Inr (memo', todo_of nodes dir (n_ID cur), todo_of nodes (opposite dir) (n_ID cur))
    \<and> memo_ok nodes dir memo'"
proof (cases "memo (n_ID cur)")
  case (Some p)
  then have "p = (todo_of nodes dir (n_ID cur), todo_of nodes (opposite dir) (n_ID cur))"
    using assms(4) memo_okD by blast
  with Some assms(4) show ?thesis by (simp add: getTodoAndFutureNodesCached_def)
next
  case None
  have "nkm_Get (e_children env) (Uint32ToStr (n_ID cur)) = Inr (out_of nodes ChildrenDirection (n_ID cur))"
    "nkm_Get (e_parents env) (Uint32ToStr (n_ID cur)) = Inr (out_of nodes ParentsDirection (n_ID cur))"
    using assms(1,3) nkm_rep_Get unfolding env_ok_def by blast+
  then have "getTodoAndFutureNodes (e_children env) (e_parents env) cur (e_dir env)
      = Inr (todo_of nodes dir (n_ID cur), todo_of nodes (opposite dir) (n_ID cur))"
    using assms(1,2) by (auto simp: getTodoAndFutureNodes_def env_ok_def valid_dir_def)
  with None memo_ok_update [OF assms(4)] show ?thesis by (simp add: getTodoAndFutureNodesCached_def)
qed

section \<open>One turn of the loop\<close>

lemma walk_invD:
  assumes "walk_inv nodes dir H W I w C"
  shows "nkm_rep H (dom nodes) (w_cache w) C"
    "memo_ok nodes dir (w_memo w)"
    "w_done w \<subseteq> dom nodes"
    "\<And>x. x \<in> dom nodes \<Longrightarrow> comp_of nodes x \<subseteq> C x" "\<And>x. x \<in> dom nodes \<Longrightarrow> C x \<subseteq> reach nodes dir x"
    "\<And>x. x \<in> w_done w \<Longrightarrow> C x = reach nodes dir x"
    "\<And>x. x \<in> w_done w \<Longrightarrow> out_of nodes dir x \<subseteq> w_done w"
    "\<And>x. x \<in> w_done w \<Longrightarrow> out_of nodes (opposite dir) x \<subseteq> w_done w \<union> fst ` set (w_stack w)"
    "stack_ok nodes dir (w_done w) C {} (w_stack w)"
    "w_done w \<union> fst ` set (w_stack w) \<subseteq> W"
    "\<And>x. x \<in> dom nodes \<Longrightarrow> x \<notin> W \<Longrightarrow> C x = comp_of nodes x"
    "I \<subseteq> w_done w \<union> fst ` set (w_stack w)"
proof -
  note c = assms [unfolded walk_inv_def]
  note c3 = c [THEN conjunct2, THEN conjunct2, THEN conjunct2]
  note c6 = c3 [THEN conjunct2, THEN conjunct2, THEN conjunct2]
  note c9 = c6 [THEN conjunct2, THEN conjunct2]
  show "nkm_rep H (dom nodes) (w_cache w) C" using c by (rule conjunct1)
  show "memo_ok nodes dir (w_memo w)" using c [THEN conjunct2] by (rule conjunct1)
  show "w_done w \<subseteq> dom nodes" using c [THEN conjunct2, THEN conjunct2] by (rule conjunct1)
  show "comp_of nodes x \<subseteq> C x" "C x \<subseteq> reach nodes dir x" if "x \<in> dom nodes" for x
    using bspec [OF conjunct1 [OF c3] that] by simp_all
  show "C x = reach nodes dir x" if "x \<in> w_done w" for x
    using bspec [OF conjunct1 [OF c3 [THEN conjunct2]] that] .
  show "out_of nodes dir x \<subseteq> w_done w" if "x \<in> w_done w" for x
    using bspec [OF conjunct1 [OF c3 [THEN conjunct2, THEN conjunct2]] that] .
  show "out_of nodes (opposite dir) x \<subseteq> w_done w \<union> fst ` set (w_stack w)" if "x \<in> w_done w" for x
    using bspec [OF conjunct1 [OF c6] that] .
  show "stack_ok nodes dir (w_done w) C {} (w_stack w)" using c6 [THEN conjunct2] by (rule conjunct1)
  show "w_done w \<union> fst ` set (w_stack w) \<subseteq> W" using c9 by (rule conjunct1)
  show "C x = comp_of nodes x" if "x \<in> dom nodes" "x \<notin> W" for x
    using bspec [OF conjunct1 [OF c9 [THEN conjunct2]], of x] that by simp
  show "I \<subseteq> w_done w \<union> fst ` set (w_stack w)" using c9 [THEN conjunct2] by (rule conjunct2)
qed

lemma walk_invI:
  assumes "nkm_rep H (dom nodes) (w_cache w) C" "memo_ok nodes dir (w_memo w)" "w_done w \<subseteq> dom nodes"
    "\<And>x. x \<in> dom nodes \<Longrightarrow> comp_of nodes x \<subseteq> C x" "\<And>x. x \<in> dom nodes \<Longrightarrow> C x \<subseteq> reach nodes dir x"
    "\<And>x. x \<in> w_done w \<Longrightarrow> C x = reach nodes dir x"
    "\<And>x. x \<in> w_done w \<Longrightarrow> out_of nodes dir x \<subseteq> w_done w"
    "\<And>x. x \<in> w_done w \<Longrightarrow> out_of nodes (opposite dir) x \<subseteq> w_done w \<union> fst ` set (w_stack w)"
    "stack_ok nodes dir (w_done w) C {} (w_stack w)"
    "w_done w \<union> fst ` set (w_stack w) \<subseteq> W"
    "\<And>x. x \<in> dom nodes \<Longrightarrow> x \<notin> W \<Longrightarrow> C x = comp_of nodes x"
    "I \<subseteq> w_done w \<union> fst ` set (w_stack w)"
  shows "walk_inv nodes dir H W I w C"
  unfolding walk_inv_def by (intro conjI ballI) (use assms in simp_all)

lemma group_value:
  assumes "nkm_rep H (dom nodes) nkm C" and "x \<in> dom nodes" "y \<in> dom nodes" "same_scc nodes x y"
    and "\<forall>x \<in> dom nodes. \<forall>y \<in> dom nodes. H x = H y \<longleftrightarrow> same_scc nodes x y"
  shows "C x = C y"
  using nkm_rep_group [OF assms(1-3)] assms by blast

text \<open>Popping a node that is done.\<close>

lemma walk_pop:
  assumes ok: "edges_ok nodes" "valid_dir dir"
    and H: "\<forall>x \<in> dom nodes. \<forall>y \<in> dom nodes. H x = H y \<longleftrightarrow> same_scc nodes x y"
    and inv: "walk_inv nodes dir H W I w C" and stack: "w_stack w = (i, k) # rest" and i: "i \<in> w_done w"
  shows "walk_inv nodes dir H W I (w\<lparr>w_stack := rest\<rparr>) C"
proof -
  note v = walk_invD [OF inv]
  have "stack_ok nodes dir (w_done w) C {} rest"
  proof (rule stack_ok_transfer)
    show "stack_ok nodes dir (w_done w) C {i} rest" using v(9) stack by simp
    fix Z x t
    assume x: "x \<in> dom nodes" "t \<in> out_of nodes dir x" "covered nodes dir (w_done w) C ({i} \<union> Z) x t"
    show "covered nodes dir (w_done w) C ({} \<union> Z) x t"
    proof (cases "same_scc nodes x i")
      case True
      have "t \<in> w_done w" using v(7) [OF i] x(2) out_same [OF True] by auto
      moreover have "C x = reach nodes dir x"
        using group_value [OF v(1) x(1) _ True H] v(3,6) i reach_same [OF ok True] by auto
      moreover have "reach nodes dir t \<subset> reach nodes dir x" using out_of_facts(3) [OF ok x(1,2)] .
      ultimately show ?thesis unfolding covered_def by blast
    next
      case False
      with x(3) i show ?thesis unfolding covered_def by auto
    qed
  qed
  moreover have "fst ` set (w_stack w) = insert i (fst ` set rest)" using stack by simp
  then have "w_done w \<union> fst ` set (w_stack w) = w_done w \<union> fst ` set rest" using i by auto
  ultimately show ?thesis using v by (intro walk_invI) simp_all
qed

text \<open>Finishing a node: everything it depends on is merged; what depends on it is pushed.\<close>

lemma walk_finish:
  assumes ok: "edges_ok nodes" "valid_dir dir" and W: "region nodes dir W"
    and H: "\<forall>x \<in> dom nodes. \<forall>y \<in> dom nodes. H x = H y \<longleftrightarrow> same_scc nodes x y"
    and inv: "walk_inv nodes dir H W I w C"
    and stack: "w_stack w = (i, length (todo_of nodes dir i)) # rest" and i: "i \<notin> w_done w"
    and memo: "memo_ok nodes dir memo"
  shows "walk_inv nodes dir H W I
    (w\<lparr>w_done := insert i (w_done w), w_memo := memo,
       w_stack := fold (\<lambda>f s. (f, 0) # s) (todo_of nodes (opposite dir) i) rest\<rparr>) C"
proof -
  note v = walk_invD [OF inv]
  have dom: "i \<in> dom nodes" using v(9) stack by simp
  have merged: "t \<in> w_done w \<and> reach nodes dir t \<subseteq> C i" if "t \<in> out_of nodes dir i" for t
  proof -
    have "covered nodes dir (w_done w) C {} i t" using v(9) stack that by simp
    then show ?thesis by (simp add: covered_def)
  qed
  then have outs: "out_of nodes dir i \<subseteq> w_done w" by blast
  have "reach nodes dir i \<subseteq> C i"
    unfolding reach_unfold [OF ok dom] using v(4) [OF dom] merged by blast
  then have Ci: "C i = reach nodes dir i" using v(5) [OF dom] by blast
  let ?fs = "todo_of nodes (opposite dir) i"
  have fs: "set ?fs \<subseteq> dom nodes" using out_of_facts(1) [OF ok(1) _ dom, of "opposite dir"] by auto
  have st: "stack_ok nodes dir (insert i (w_done w)) C {} (fold (\<lambda>f s. (f, 0) # s) ?fs rest)"
  proof (rule stack_ok_push [OF fs], rule stack_ok_transfer)
    show "stack_ok nodes dir (w_done w) C {i} rest" using v(9) stack by simp
    fix Z x t
    assume x: "x \<in> dom nodes" "t \<in> out_of nodes dir x" "covered nodes dir (w_done w) C ({i} \<union> Z) x t"
    show "covered nodes dir (insert i (w_done w)) C ({} \<union> set ?fs \<union> Z) x t"
    proof (cases "same_scc nodes x i")
      case True
      have "t \<in> w_done w" using outs x(2) out_same [OF True] by auto
      moreover have "C x = reach nodes dir x"
        using group_value [OF v(1) x(1) dom True H] Ci reach_same [OF ok True] by simp
      moreover have "reach nodes dir t \<subset> reach nodes dir x" using out_of_facts(3) [OF ok x(1,2)] .
      ultimately show ?thesis unfolding covered_def by blast
    next
      case False
      show ?thesis
      proof (cases "t = i")
        case True
        with out_of_facts(4) [OF ok x(1,2)] show ?thesis unfolding covered_def by auto
      next
        case False
        with x(3) \<open>\<not> same_scc nodes x i\<close> show ?thesis unfolding covered_def by auto
      qed
    qed
  qed
  have iW: "i \<in> W" using v(10) stack by auto
  have fW: "set ?fs \<subseteq> W" using W iW unfolding region_def by simp
  have ids: "fst ` set (w_stack w) = insert i (fst ` set rest)" using stack by simp
  let ?w = "w\<lparr>w_done := insert i (w_done w), w_memo := memo,
       w_stack := fold (\<lambda>f s. (f, 0) # s) ?fs rest\<rparr>"
  have sel: "w_cache ?w = w_cache w" "w_memo ?w = memo" "w_done ?w = insert i (w_done w)"
    "w_stack ?w = fold (\<lambda>f s. (f, 0) # s) ?fs rest" by simp_all
  have fut: "out_of nodes (opposite dir) x \<subseteq> insert i (w_done w) \<union> (set ?fs \<union> fst ` set rest)"
    if "x \<in> insert i (w_done w)" for x
    using that v(8) [of x] unfolding ids by auto
  have out: "out_of nodes dir x \<subseteq> insert i (w_done w)" if "x \<in> insert i (w_done w)" for x
    using that outs v(7) [of x] by blast
  have fin: "C x = reach nodes dir x" if "x \<in> insert i (w_done w)" for x
    using that Ci v(6) [of x] by blast
  have dd: "insert i (w_done w) \<subseteq> dom nodes" using v(3) dom by blast
  have inW: "insert i (w_done w) \<union> (set ?fs \<union> fst ` set rest) \<subseteq> W" using v(10) ids iW fW by blast
  have I: "I \<subseteq> insert i (w_done w) \<union> (set ?fs \<union> fst ` set rest)" using v(12) ids by blast
  show ?thesis
    by (rule walk_invI, unfold sel fold_push_ids)
       (rule v(1) memo dd v(4) v(5) fin out fut st inW v(11) I; assumption)+
qed

text \<open>Merging the closure of something done, and pushing something that is not.\<close>

lemma take_Suc_set: "k < length xs \<Longrightarrow> set (take (Suc k) xs) = insert (xs ! k) (set (take k xs))"
  by (simp add: take_Suc_conv_app_nth)

lemma walk_merge:
  assumes ok: "edges_ok nodes" "valid_dir dir" and W: "region nodes dir W"
    and H: "\<forall>x \<in> dom nodes. \<forall>y \<in> dom nodes. H x = H y \<longleftrightarrow> same_scc nodes x y"
    and inv: "walk_inv nodes dir H W I w C" and memo: "memo_ok nodes dir memo"
    and stack: "w_stack w = (i, k) # rest" and k: "k < length (todo_of nodes dir i)"
    and t: "t = todo_of nodes dir i ! k" "t \<in> w_done w"
  shows "\<exists>cache C'. addToCache (w_cache w) i t = Inr cache
    \<and> walk_inv nodes dir H W I (w\<lparr>w_memo := memo, w_stack := (i, k + 1) # rest, w_cache := cache\<rparr>) C'"
proof -
  note v = walk_invD [OF inv]
  have dom: "i \<in> dom nodes" "t \<in> dom nodes" using v(3,9) stack t(2) by auto
  have t_out: "t \<in> out_of nodes dir i" using nth_mem [OF k] t(1) by simp
  have Ct: "C t = reach nodes dir t" using v(6) [OF t(2)] .
  let ?v = "insert i (C i \<union> C t)"
  let ?C = "\<lambda>y. if H y = H i then ?v else C y"
  let ?cache = "nkm_Set (w_cache w) (Uint32ToStr i) ?v"
  have run: "addToCache (w_cache w) i t = Inr ?cache"
    using nkm_rep_Get [OF v(1)] dom by (simp add: addToCache_def)
  have rep: "nkm_rep H (dom nodes) ?cache ?C" by (rule nkm_rep_Set [OF v(1) dom(1)])
  have Ceq: "C x = C i" "reach nodes dir x = reach nodes dir i"
    if "x \<in> dom nodes" "H x = H i" for x
  proof -
    have s: "same_scc nodes x i" using H that dom(1) by blast
    show "C x = C i" by (rule group_value [OF v(1) that(1) dom(1) s H])
    show "reach nodes dir x = reach nodes dir i" by (rule reach_same [OF ok s])
  qed
  have up: "?v \<subseteq> reach nodes dir i"
    using v(5) [OF dom(1)] Ct out_of_facts(3) [OF ok dom(1) t_out] reach_refl by blast
  have grow: "C x \<subseteq> ?C x" if "x \<in> dom nodes" for x
    using Ceq(1) [OF that] by auto
  have cov: "covered nodes dir (w_done w) ?C A x u"
    if "x \<in> dom nodes" "covered nodes dir (w_done w) C A x u" for A x u
    using that grow [OF that(1)] unfolding covered_def by blast
  have "covered nodes dir (w_done w) ?C {} i t"
    using t(2) Ct by (auto simp: covered_def)
  moreover have "\<And>u. u \<in> set (take k (todo_of nodes dir i)) \<Longrightarrow> covered nodes dir (w_done w) C {} i u"
    and rest: "stack_ok nodes dir (w_done w) C {i} rest"
    using v(9) stack by auto
  ultimately have top: "covered nodes dir (w_done w) ?C {} i u"
    if "u \<in> set (take (Suc k) (todo_of nodes dir i))" for u
    using that cov [OF dom(1)] t(1) unfolding take_Suc_set [OF k] by blast
  have "stack_ok nodes dir (w_done w) ?C {i} rest"
    by (rule stack_ok_transfer [OF rest]) (rule cov)
  then have st: "stack_ok nodes dir (w_done w) ?C {} ((i, k + 1) # rest)"
    using top dom(1) k by simp
  have comp: "comp_of nodes x \<subseteq> ?C x" if "x \<in> dom nodes" for x
    using v(4) [OF that] grow [OF that] by blast
  have le: "?C x \<subseteq> reach nodes dir x" if "x \<in> dom nodes" for x
    using v(5) [OF that] up Ceq(2) [OF that] by auto
  have fin: "?C x = reach nodes dir x" if "x \<in> w_done w" for x
  proof -
    have x: "x \<in> dom nodes" using that v(3) by blast
    show ?thesis using le [OF x] grow [OF x] v(6) [OF that] by blast
  qed
  have iW: "i \<in> W" using v(10) stack by auto
  have far: "?C x = comp_of nodes x" if "x \<in> dom nodes" "x \<notin> W" for x
  proof -
    have "\<not> same_scc nodes i x" using W iW that(2) unfolding region_def by blast
    then have "H x \<noteq> H i" using H that(1) dom(1) same_scc_sym by blast
    then show ?thesis using v(11) [OF that] by simp
  qed
  have ids: "fst ` set ((i, k + 1) # rest) = fst ` set (w_stack w)" using stack by simp
  let ?w = "w\<lparr>w_memo := memo, w_stack := (i, k + 1) # rest, w_cache := ?cache\<rparr>"
  have sel: "w_cache ?w = ?cache" "w_memo ?w = memo" "w_done ?w = w_done w"
    "w_stack ?w = (i, k + 1) # rest" by simp_all
  have "walk_inv nodes dir H W I ?w ?C"
    by (rule walk_invI, unfold sel ids)
       (rule rep memo v(3) comp le fin v(7) v(8) st v(10) far v(12); assumption)+
  with run show ?thesis by blast
qed

lemma walk_push:
  assumes ok: "edges_ok nodes" "valid_dir dir" and W: "region nodes dir W"
    and inv: "walk_inv nodes dir H W I w C" and memo: "memo_ok nodes dir memo"
    and stack: "w_stack w = (i, k) # rest" and k: "k < length (todo_of nodes dir i)"
    and t: "t = todo_of nodes dir i ! k" "t \<notin> w_done w"
  shows "walk_inv nodes dir H W I (w\<lparr>w_memo := memo, w_stack := (t, 0) # (i, k + 1) # rest\<rparr>) C"
proof -
  note v = walk_invD [OF inv]
  have dom: "i \<in> dom nodes" using v(9) stack by simp
  have t_out: "t \<in> out_of nodes dir i" using nth_mem [OF k] t(1) by simp
  have td: "t \<in> dom nodes" using out_of_facts(1) [OF ok dom t_out] .
  have cov: "covered nodes dir (w_done w) C ({t} \<union> A) x u"
    if "covered nodes dir (w_done w) C A x u" for A x u
    using that unfolding covered_def by blast
  have old: "\<And>u. u \<in> set (take k (todo_of nodes dir i)) \<Longrightarrow> covered nodes dir (w_done w) C {} i u"
    and rest: "stack_ok nodes dir (w_done w) C {i} rest"
    using v(9) stack by auto
  have top: "covered nodes dir (w_done w) C {t} i u"
    if "u \<in> set (take (Suc k) (todo_of nodes dir i))" for u
  proof (cases "u = t")
    case True
    with t(2) show ?thesis by (simp add: covered_def)
  next
    case False
    then show ?thesis using that cov [OF old, of u] t(1) unfolding take_Suc_set [OF k] by simp
  qed
  have "stack_ok nodes dir (w_done w) C (insert i {t}) rest"
    by (rule stack_ok_transfer [OF rest]) (auto simp: covered_def)
  then have st: "stack_ok nodes dir (w_done w) C {} ((t, 0) # (i, k + 1) # rest)"
    using top dom td k by simp
  have iW: "i \<in> W" using v(10) stack by auto
  then have tW: "t \<in> W" using W t_out unfolding region_def by blast
  have ids: "fst ` set ((t, 0) # (i, k + 1) # rest) = insert t (fst ` set (w_stack w))" using stack by auto
  let ?w = "w\<lparr>w_memo := memo, w_stack := (t, 0) # (i, k + 1) # rest\<rparr>"
  have sel: "w_cache ?w = w_cache w" "w_memo ?w = memo" "w_done ?w = w_done w"
    "w_stack ?w = (t, 0) # (i, k + 1) # rest" by simp_all
  have fut: "out_of nodes (opposite dir) x \<subseteq> w_done w \<union> insert t (fst ` set (w_stack w))"
    if "x \<in> w_done w" for x
    using v(8) [OF that] by blast
  have inW: "w_done w \<union> insert t (fst ` set (w_stack w)) \<subseteq> W" using v(10) tW by blast
  have I: "I \<subseteq> w_done w \<union> insert t (fst ` set (w_stack w))" using v(12) by blast
  show ?thesis
    by (rule walk_invI, unfold sel ids)
       (rule v(1) memo v(3) v(4) v(5) v(6) v(7) fut st inW v(11) I; assumption)+
qed

section \<open>The loop ends\<close>

text \<open>
  A turn finishes a node, or shrinks the stack in the multiset order: an entry is replaced by itself
  one position further and by something that reaches strictly less.
\<close>

definition entry_size :: "(id \<rightharpoonup> node) \<Rightarrow> direction \<Rightarrow> id \<times> nat \<Rightarrow> nat \<times> nat" where
  "entry_size nodes dir p =
     (card (reach nodes dir (fst p)), length (todo_of nodes dir (fst p)) - snd p)"

definition walk_size :: "(id \<rightharpoonup> node) \<Rightarrow> direction \<Rightarrow> walk_state \<Rightarrow> nat \<times> (nat \<times> nat) multiset" where
  "walk_size nodes dir w =
     (card (dom nodes - w_done w), image_mset (entry_size nodes dir) (mset (w_stack w)))"

definition size_less :: "((nat \<times> (nat \<times> nat) multiset) \<times> (nat \<times> (nat \<times> nat) multiset)) set" where
  "size_less = less_than <*lex*> mult (less_than <*lex*> less_than)"

lemma wf_size_less: "wf size_less"
  unfolding size_less_def by (intro wf_lex_prod wf_mult wf_less_than)

lemma size_stack:
  assumes "w_done w' = w_done w" and "w_stack w = p # rest" and "w_stack w' = qs @ rest"
    and "\<And>q. q \<in> set qs \<Longrightarrow> (entry_size nodes dir q, entry_size nodes dir p) \<in> less_than <*lex*> less_than"
  shows "(walk_size nodes dir w', walk_size nodes dir w) \<in> size_less"
proof -
  have "(image_mset (entry_size nodes dir) (mset rest) + image_mset (entry_size nodes dir) (mset qs),
      image_mset (entry_size nodes dir) (mset rest) + {#entry_size nodes dir p#})
    \<in> mult (less_than <*lex*> less_than)"
    using assms(4) by (intro one_step_implies_mult) auto
  then show ?thesis
    using assms(1-3) by (simp add: walk_size_def size_less_def add.commute)
qed

lemma size_done:
  assumes "w_done w' = insert i (w_done w)" and "i \<in> dom nodes" "i \<notin> w_done w"
  shows "(walk_size nodes dir w', walk_size nodes dir w) \<in> size_less"
proof -
  have "dom nodes - w_done w' \<subset> dom nodes - w_done w" using assms by auto
  then have "card (dom nodes - w_done w') < card (dom nodes - w_done w)"
    by (intro psubset_card_mono) simp_all
  then show ?thesis by (simp add: walk_size_def size_less_def)
qed

lemma entry_next: "k < length (todo_of nodes dir i) \<Longrightarrow>
    (entry_size nodes dir (i, k + 1), entry_size nodes dir (i, k)) \<in> less_than <*lex*> less_than"
  by (simp add: entry_size_def)

lemma entry_below:
  "reach nodes dir t \<subset> reach nodes dir i \<Longrightarrow>
     (entry_size nodes dir (t, m), entry_size nodes dir (i, k)) \<in> less_than <*lex*> less_than"
  by (simp add: entry_size_def psubset_card_mono)

lemma walk_step_ok:
  assumes ok: "edges_ok nodes" "valid_dir dir" and W: "region nodes dir W"
    and ids: "\<And>i n. nodes i = Some n \<Longrightarrow> n_ID n = i" and env: "env_ok nodes dir H env"
    and H: "\<forall>x \<in> dom nodes. \<forall>y \<in> dom nodes. H x = H y \<longleftrightarrow> same_scc nodes x y"
    and inv: "walk_inv nodes dir H W I w C" and ne: "w_stack w \<noteq> []"
  shows "\<exists>w' C'. walk_step env w = Inr w' \<and> walk_inv nodes dir H W I w' C'
    \<and> (walk_size nodes dir w', walk_size nodes dir w) \<in> size_less"
proof -
  note v = walk_invD [OF inv]
  obtain i k rest where stack: "w_stack w = (i, k) # rest" using ne by (cases "w_stack w") auto
  have dom: "i \<in> dom nodes" and k: "k \<le> length (todo_of nodes dir i)" using v(9) stack by auto
  then obtain cur where cur: "nodes i = Some cur" "n_ID cur = i" using ids by blast
  have en: "e_nodes env i = Some cur" using env cur(1) by (simp add: env_ok_def)
  show ?thesis
  proof (cases "i \<in> w_done w")
    case True
    have "walk_step env w = Inr (w\<lparr>w_stack := rest\<rparr>)"
      using stack en cur(2) True by (simp add: walk_step_def)
    moreover have "(walk_size nodes dir (w\<lparr>w_stack := rest\<rparr>), walk_size nodes dir w) \<in> size_less"
      by (rule size_stack [OF _ stack, of _ "[]"]) simp_all
    ultimately show ?thesis using walk_pop [OF ok H inv stack True] by blast
  next
    case False
    obtain memo where get: "getTodoAndFutureNodesCached (e_children env) (e_parents env) cur (e_dir env) (w_memo w)
        = Inr (memo, todo_of nodes dir i, todo_of nodes (opposite dir) i)"
      and memo: "memo_ok nodes dir memo"
      using todo_future_ok [OF env ok(2) _ v(2), of cur] dom cur(2) by auto
    show ?thesis
    proof (cases "k = length (todo_of nodes dir i)")
      case True
      let ?w = "w\<lparr>w_done := insert i (w_done w), w_memo := memo,
         w_stack := fold (\<lambda>f s. (f, 0) # s) (todo_of nodes (opposite dir) i) rest\<rparr>"
      have "walk_step env w = Inr ?w"
        using stack en cur(2) False get True by (simp add: walk_step_def)
      moreover have "(walk_size nodes dir ?w, walk_size nodes dir w) \<in> size_less"
        by (rule size_done [OF _ dom False]) simp
      ultimately show ?thesis
        using walk_finish [OF ok W H inv _ False memo] stack True by blast
    next
      case less: False
      then have lt: "k < length (todo_of nodes dir i)" using k by simp
      let ?t = "todo_of nodes dir i ! k"
      have t_out: "?t \<in> out_of nodes dir i" using nth_mem [OF lt] by simp
      note facts = out_of_facts [OF ok dom t_out]
      have scc: "map_get (e_scc env) i \<noteq> map_get (e_scc env) ?t"
        using env dom facts(1,2) unfolding env_ok_def by blast
      show ?thesis
      proof (cases "?t \<in> w_done w")
        case True
        obtain cache C' where m: "addToCache (w_cache w) i ?t = Inr cache"
          "walk_inv nodes dir H W I (w\<lparr>w_memo := memo, w_stack := (i, k + 1) # rest, w_cache := cache\<rparr>) C'"
          using walk_merge [OF ok W H inv memo stack lt refl True] by blast
        let ?w = "w\<lparr>w_memo := memo, w_stack := (i, k + 1) # rest, w_cache := cache\<rparr>"
        have "walk_step env w = Inr ?w"
          using stack en cur(2) False get less lt scc True m(1) by (simp add: walk_step_def Let_def)
        moreover have "(walk_size nodes dir ?w, walk_size nodes dir w) \<in> size_less"
          by (rule size_stack [OF _ stack, of _ "[(i, k + 1)]"]) (use entry_next [OF lt] in simp_all)
        ultimately show ?thesis using m(2) by blast
      next
        case not_done: False
        let ?w = "w\<lparr>w_memo := memo, w_stack := (?t, 0) # (i, k + 1) # rest\<rparr>"
        have "walk_step env w = Inr ?w"
          using stack en cur(2) False get less lt scc not_done by (simp add: walk_step_def Let_def)
        moreover have "(walk_size nodes dir ?w, walk_size nodes dir w) \<in> size_less"
        proof (rule size_stack [OF _ stack, of _ "[(?t, 0), (i, k + 1)]"])
          show "(entry_size nodes dir q, entry_size nodes dir (i, k)) \<in> less_than <*lex*> less_than"
            if "q \<in> set [(?t, 0), (i, k + 1)]" for q
            using that entry_next [OF lt] entry_below [OF facts(3), of 0 k] by fastforce
        qed simp_all
        ultimately show ?thesis using walk_push [OF ok W inv memo stack lt refl not_done] by blast
      qed
    qed
  qed
qed

lemma walk_loop_ok:
  assumes ok: "edges_ok nodes" "valid_dir dir" and W: "region nodes dir W"
    and ids: "\<And>i n. nodes i = Some n \<Longrightarrow> n_ID n = i" and env: "env_ok nodes dir H env"
    and H: "\<forall>x \<in> dom nodes. \<forall>y \<in> dom nodes. H x = H y \<longleftrightarrow> same_scc nodes x y"
    and inv: "walk_inv nodes dir H W I w C"
  shows "\<exists>w' C'. walk_loop env w = Some (Inr w') \<and> walk_inv nodes dir H W I w' C' \<and> w_stack w' = []"
  using inv
proof (induction "walk_size nodes dir w" arbitrary: w C rule: wf_induct_rule [OF wf_size_less])
  case 1
  show ?case
  proof (cases "w_stack w = []")
    case True
    with "1.prems" show ?thesis by (subst walk_loop.simps) auto
  next
    case False
    obtain w' C' where w': "walk_step env w = Inr w'" "walk_inv nodes dir H W I w' C'"
      "(walk_size nodes dir w', walk_size nodes dir w) \<in> size_less"
      using walk_step_ok [OF ok W ids env H "1.prems" False] by blast
    from "1.hyps" [OF w'(3) w'(2)] show ?thesis
      using False w'(1) by (subst walk_loop.simps) simp
  qed
qed

section \<open>All starting points\<close>

text \<open>What is connected to a set of nodes by edges followed in either direction.\<close>

definition connected_to :: "(id \<rightharpoonup> node) \<Rightarrow> id set \<Rightarrow> id set" where
  "connected_to nodes U =
     (edges nodes ChildrenDirection \<union> edges nodes ParentsDirection)\<^sup>* `` U"

lemma connected_step:
  assumes "x \<in> connected_to nodes U" and "(x, y) \<in> edges nodes dir" and "valid_dir dir"
  shows "y \<in> connected_to nodes U"
  using assms unfolding connected_to_def valid_dir_def by (auto intro: rtrancl_into_rtrancl)

lemma connected_reach:
  assumes "x \<in> connected_to nodes U" and "valid_dir dir"
  shows "reach nodes dir x \<subseteq> connected_to nodes U"
  by (rule closed_reach [OF assms(1)]) (use connected_step [OF _ _ assms(2)] in blast)

lemma connected_same:
  assumes "edges_ok nodes" and "x \<in> connected_to nodes U" and "same_scc nodes x y"
  shows "y \<in> connected_to nodes U"
  using connected_reach [OF assms(2), of ChildrenDirection]
    same_scc_reach [OF assms(1), of ChildrenDirection] assms(3) by auto

lemma connected_region:
  assumes "edges_ok nodes"
  shows "region nodes dir (connected_to nodes U)"
proof -
  have "out_of nodes d x \<subseteq> connected_to nodes U" if "x \<in> connected_to nodes U" "valid_dir d" for x d
  proof
    fix t assume "t \<in> out_of nodes d x"
    then obtain y where "y \<in> comp_of nodes x" "(y, t) \<in> edges nodes d" unfolding out_of_def by blast
    then show "t \<in> connected_to nodes U"
      using connected_same [OF assms that(1), of y] connected_step [OF _ _ that(2)]
      by (auto simp: comp_of_def)
  qed
  moreover have "out_of nodes dir x \<subseteq> connected_to nodes U" if "x \<in> connected_to nodes U" "\<not> valid_dir dir" for x
  proof -
    have "edges nodes dir = edges nodes ParentsDirection"
      using that(2) by (auto simp: edges_def nbrs_def valid_dir_def)
    then have "out_of nodes dir x = out_of nodes ParentsDirection x" by (simp add: out_of_def)
    with calculation [OF that(1), of ParentsDirection] show ?thesis by simp
  qed
  ultimately show ?thesis
    using connected_same [OF assms] unfolding region_def by (metis valid_dirs(3))
qed

lemma walk_restart:
  assumes "walk_inv nodes dir H W I w C" and "w_stack w = []" and "i \<in> dom nodes" "i \<in> W"
  shows "walk_inv nodes dir H W (insert i I) (w\<lparr>w_stack := [(i, 0)]\<rparr>) C"
proof -
  note v = walk_invD [OF assms(1)]
  let ?w = "w\<lparr>w_stack := [(i, 0)]\<rparr>"
  have sel: "w_cache ?w = w_cache w" "w_memo ?w = w_memo w" "w_done ?w = w_done w"
    "w_stack ?w = [(i, 0)]" "fst ` set [(i, 0)] = {i}" by simp_all
  have fut: "out_of nodes (opposite dir) x \<subseteq> w_done w \<union> {i}" if "x \<in> w_done w" for x
    using v(8) [OF that] assms(2) by auto
  have st: "stack_ok nodes dir (w_done w) C {} [(i, 0)]" using assms(3) by simp
  have inW: "w_done w \<union> {i} \<subseteq> W" using v(10) assms(4) by blast
  have I: "insert i I \<subseteq> w_done w \<union> {i}" using v(12) assms(2) by auto
  show ?thesis
    by (rule walk_invI, unfold sel)
       (rule v(1) v(2) v(3) v(4) v(5) v(6) v(7) fut st inW v(11) I; assumption)+
qed

lemma walk_all_ok:
  assumes ok: "edges_ok nodes" "valid_dir dir" and W: "region nodes dir W"
    and ids: "\<And>i n. nodes i = Some n \<Longrightarrow> n_ID n = i" and env: "env_ok nodes dir H env"
    and H: "\<forall>x \<in> dom nodes. \<forall>y \<in> dom nodes. H x = H y \<longleftrightarrow> same_scc nodes x y"
    and "walk_inv nodes dir H W I w C" and "w_stack w = []" and "set us \<subseteq> dom nodes" "set us \<subseteq> W"
  shows "\<exists>w' C'. walk_all env us w = Some (Inr w') \<and> walk_inv nodes dir H W (I \<union> set us) w' C'
    \<and> w_stack w' = []"
  using assms(7-)
proof (induction us arbitrary: I w C)
  case Nil
  then show ?case by auto
next
  case (Cons i us)
  have "walk_inv nodes dir H W (insert i I) (w\<lparr>w_stack := [(i, 0)]\<rparr>) C"
    using walk_restart [OF Cons.prems(1,2)] Cons.prems(3,4) by simp
  from walk_loop_ok [OF ok W ids env H this] obtain w1 C1 where
    w1: "walk_loop env (w\<lparr>w_stack := [(i, 0)]\<rparr>) = Some (Inr w1)"
    "walk_inv nodes dir H W (insert i I) w1 C1" "w_stack w1 = []" by blast
  obtain w' C' where "walk_all env us w1 = Some (Inr w')"
    "walk_inv nodes dir H W (insert i I \<union> set us) w' C'" "w_stack w' = []"
    using Cons.IH [OF w1(2,3)] Cons.prems(3,4) by auto
  with w1(1) show ?case by auto
qed

section \<open>The closures\<close>

definition closure_or_comp :: "(id \<rightharpoonup> node) \<Rightarrow> direction \<Rightarrow> id set \<Rightarrow> id \<Rightarrow> bitmap" where
  "closure_or_comp nodes dir U x =
     (if x \<in> connected_to nodes U then reach nodes dir x else comp_of nodes x)"

text \<open>
  When the stack is empty the nodes that are done are closed under edges, up to the members of their
  components, so everything connected to a starting point has its closure.
\<close>

lemma walk_end:
  assumes ok: "edges_ok nodes" "valid_dir dir"
    and H: "\<forall>x \<in> dom nodes. \<forall>y \<in> dom nodes. H x = H y \<longleftrightarrow> same_scc nodes x y"
    and inv: "walk_inv nodes dir H (connected_to nodes U) U w C" and empty: "w_stack w = []"
    and x: "x \<in> dom nodes"
  shows "C x = closure_or_comp nodes dir U x"
proof (cases "x \<in> connected_to nodes U")
  case False
  then show ?thesis using walk_invD(11) [OF inv x] by (simp add: closure_or_comp_def)
next
  case True
  note v = walk_invD [OF inv]
  let ?A = "{y. \<exists>z \<in> w_done w. same_scc nodes z y}"
  have step: "b \<in> ?A" if a: "a \<in> ?A" and ab: "(a, b) \<in> edges nodes d" and d: "d = dir \<or> d = opposite dir" for a b d
  proof -
    obtain z where z: "z \<in> w_done w" "same_scc nodes z a" using a by blast
    have "a \<in> dom nodes" "b \<in> dom nodes"
      using edges_dom [OF ok(1) _ ab] d ok(2) by auto
    then have "a \<in> comp_of nodes z" using z(2) by (simp add: comp_of_def)
    then have "b \<in> comp_of nodes z \<or> b \<in> out_of nodes d z" using ab unfolding out_of_def by blast
    moreover have "out_of nodes d z \<subseteq> w_done w" using d v(7,8) [OF z(1)] empty by auto
    ultimately have "b \<in> comp_of nodes z \<or> b \<in> w_done w" by blast
    then show ?thesis
    proof
      assume "b \<in> comp_of nodes z"
      then show ?thesis using z(1) by (auto simp: comp_of_def)
    next
      assume b: "b \<in> w_done w"
      have "same_scc nodes b b" by simp
      with b show ?thesis by blast
    qed
  qed
  have "edges nodes ChildrenDirection \<union> edges nodes ParentsDirection = edges nodes dir \<union> edges nodes (opposite dir)"
    using ok(2) unfolding valid_dir_def by auto
  then obtain u where u: "u \<in> U" "(u, x) \<in> (edges nodes dir \<union> edges nodes (opposite dir))\<^sup>*"
    using True unfolding connected_to_def by auto
  have "u \<in> w_done w" using u(1) v(12) empty by auto
  then have "u \<in> ?A" using same_scc_refl [of nodes u] by blast
  with u(2) have "x \<in> ?A" by induction (use step in blast)+
  then obtain z where z: "z \<in> w_done w" "same_scc nodes z x" by blast
  then have "C x = C z" using group_value [OF v(1) _ x z(2) H] v(3) by auto
  also have "\<dots> = reach nodes dir x" using v(6) [OF z(1)] reach_same [OF ok z(2)] by simp
  finally show ?thesis using True by (simp add: closure_or_comp_def)
qed

lemma buildCache_ok:
  assumes ok: "edges_ok nodes" "valid_dir dir" and ro: "range_ok ro"
    and ids: "\<And>i n. nodes i = Some n \<Longrightarrow> n_ID n = i" and sha: "no_collision sha nodes"
    and scc: "distinct (keys_of scc)" "set (keys_of scc) = dom nodes"
      "\<And>x y. x \<in> dom nodes \<Longrightarrow> y \<in> dom nodes \<Longrightarrow> map_of scc x = map_of scc y \<longleftrightarrow> same_scc nodes x y"
    and us: "set us \<subseteq> dom nodes"
  shows "\<exists>m H. buildCache ro k sha us dir scc nodes = Some (Inr m)
    \<and> nkm_rep H (dom nodes) m (closure_or_comp nodes dir (set us))"
proof -
  obtain bm H where bm: "addCyclesToBindMap ro k sha scc empty_maps nodes = Inr bm"
    and H: "\<forall>x \<in> dom nodes. \<forall>y \<in> dom nodes. H x = H y \<longleftrightarrow> same_scc nodes x y"
    and rep: "nkm_rep H (dom nodes) (b_cache bm) (comp_of nodes)"
      "nkm_rep H (dom nodes) (b_children bm) (out_of nodes ChildrenDirection)"
      "nkm_rep H (dom nodes) (b_parents bm) (out_of nodes ParentsDirection)"
    using addCycles_ok [OF ro ids scc sha] by blast
  let ?env = "\<lparr>e_children = b_children bm, e_parents = b_parents bm, e_dir = dir,
     e_scc = map_of scc, e_nodes = nodes\<rparr>"
  let ?w = "\<lparr>w_stack = [], w_done = {}, w_cache = b_cache bm, w_memo = Map.empty\<rparr>"
  have some: "\<exists>l. map_of scc x = Some l" if "x \<in> dom nodes" for x
    using that scc(2) by (metis dom_map_of_keys domD)
  have "map_get (map_of scc) x = map_get (map_of scc) y \<longleftrightarrow> same_scc nodes x y"
    if xy: "x \<in> dom nodes" "y \<in> dom nodes" for x y
    using some [OF xy(1)] some [OF xy(2)] scc(3) [OF xy] by (auto simp: map_get_def)
  then have env: "env_ok nodes dir H ?env" using rep(2,3) by (simp add: env_ok_def)
  let ?W = "connected_to nodes (set us)"
  have "walk_inv nodes dir H ?W {} ?w (comp_of nodes)"
    using rep(1) comp_reach [OF ok] by (intro walk_invI) simp_all
  moreover have "set us \<subseteq> ?W" unfolding connected_to_def by auto
  ultimately obtain w C where w: "walk_all ?env (to_array (set us)) ?w = Some (Inr w)"
    "walk_inv nodes dir H ?W ({} \<union> set (to_array (set us))) w C" "w_stack w = []"
    using walk_all_ok [OF ok connected_region [OF ok(1)] ids env H, of "set us" "{}" ?w "comp_of nodes"
        "to_array (set us)"] us by auto
  have "C x = closure_or_comp nodes dir (set us) x" if "x \<in> dom nodes" for x
    using walk_end [OF ok H _ w(3) that] w(2) by simp
  moreover have "nkm_rep H (dom nodes) (w_cache w) C" by (rule walk_invD(1) [OF w(2)])
  ultimately have "nkm_rep H (dom nodes) (w_cache w) (closure_or_comp nodes dir (set us))"
    by (simp add: nkm_rep_def)
  with bm w(1) show ?thesis by (auto simp: buildCache_def)
qed

section \<open>Cache on a storage\<close>

lemma graph_ok_small:
  assumes "graph_ok g"
  shows "small_graph (g_nodes g)" "card (dom (g_nodes g)) = g_next g"
    "dom (g_nodes g) = of_nat ` {1..g_next g}" "edges_ok (g_nodes g)"
    "g_nodes g i = Some n \<Longrightarrow> n_ID n = i"
proof -
  have ids: "g_next g < 4294967296" "dom (g_nodes g) = of_nat ` {1..g_next g}"
    using assms by (simp_all add: graph_ok_def ids_ok_def)
  have "inj_on (of_nat :: nat \<Rightarrow> id) {1..g_next g}"
    using ids(1) of_nat_id_inject by (auto simp: inj_on_def)
  then show card: "card (dom (g_nodes g)) = g_next g" unfolding ids(2) by (simp add: card_image)
  show edges: "edges_ok (g_nodes g)" using assms by (simp add: graph_ok_def)
  show "small_graph (g_nodes g)"
    using card ids(1) edges_ok_dom [OF edges] by (auto simp: small_graph_def)
  show "dom (g_nodes g) = of_nat ` {1..g_next g}" by (rule ids(2))
  show "g_nodes g i = Some n \<Longrightarrow> n_ID n = i"
    using assms unfolding graph_ok_def names_ok_def by blast
qed

lemma collect_caches_ok:
  assumes "nkm_rep H P m f" and "set xs \<subseteq> P"
  shows "collect_caches m (map (\<lambda>x. (Uint32ToStr x, g x)) xs)
    = Inr (map (\<lambda>x. NewNodeCache x (insert x (f x)) (insert x (g x))) xs)"
  using assms(2) by (induction xs) (simp_all add: nkm_rep_Get [OF assms(1)])

lemma GetAll_ok:
  assumes rep: "nkm_rep H P m f" and ro: "range_ok ro"
  shows "\<exists>xs. GetAllKeysAndValues ro k m = Inr (map Uint32ToStr xs, map f xs)
    \<and> set xs = P \<and> distinct xs"
proof -
  let ?kv = "go_range ro k (k_keyMap m)"
  have keys: "distinct (keys_of ?kv)" "set (keys_of ?kv) = Uint32ToStr ` P" "set ?kv = set (k_keyMap m)"
    using rep ro by (simp_all add: nkm_rep_def distinct_keys_go_range)
  define xs where "xs = map (\<lambda>p. inv Uint32ToStr (fst p)) ?kv"
  have inv: "inv Uint32ToStr (Uint32ToStr x) = x" for x by (simp add: inj_def)
  have entry: "\<exists>x \<in> P. p = (Uint32ToStr x, H x) \<and> k_data m (H x) = Some (f x)" if "p \<in> set ?kv" for p
  proof -
    have "fst p \<in> Uint32ToStr ` P" using that keys(2) by (metis image_eqI set_map)
    then obtain x where x: "x \<in> P" "fst p = Uint32ToStr x" by blast
    have "map_of (k_keyMap m) (fst p) = Some (snd p)"
      using that keys(3) rep by (intro map_of_is_SomeI) (simp_all add: nkm_rep_def)
    with x rep show ?thesis by (cases p) (auto simp: nkm_rep_def)
  qed
  have kv: "?kv = map (\<lambda>x. (Uint32ToStr x, H x)) xs"
    unfolding xs_def map_map by (rule map_idI [symmetric]) (use entry inv in fastforce)
  have "set xs = inv Uint32ToStr ` set (keys_of ?kv)" by (simp add: xs_def image_image)
  then have xsP: "set xs = P" unfolding keys(2) image_image inv by simp
  have "distinct xs" using keys(1) unfolding kv by (simp add: distinct_map comp_def)
  have "keys_and_values m ?kv = Inr (map (\<lambda>(k, h). (k, the (k_data m h))) ?kv)"
    by (rule keys_and_values_bound) (use entry in fastforce)
  also have "map (\<lambda>(k, h). (k, the (k_data m h))) ?kv = map (\<lambda>x. (Uint32ToStr x, f x)) xs"
    unfolding kv map_map using xsP rep by (intro map_cong) (auto simp: nkm_rep_def)
  finally have "GetAllKeysAndValues ro k m = Inr (map Uint32ToStr xs, map f xs)"
    by (simp add: GetAllKeysAndValues_def comp_def)
  with xsP \<open>distinct xs\<close> show ?thesis by blast
qed

text \<open>The cache entry that \<open>Cache\<close> saves for a node when \<open>U\<close> is waiting to be cached.\<close>

definition cache_entry :: "(id \<rightharpoonup> node) \<Rightarrow> id set \<Rightarrow> id \<Rightarrow> node_cache" where
  "cache_entry nodes U i =
     NewNodeCache i (insert i (closure_or_comp nodes ParentsDirection U i))
       (insert i (closure_or_comp nodes ChildrenDirection U i))"

lemma map_of_entries:
  "distinct xs \<Longrightarrow> (\<And>i. c_ID (f i) = i) \<Longrightarrow>
     map_of (rev (map (\<lambda>c. (c_ID c, c)) (map f xs))) i = (if i \<in> set xs then Some (f i) else None)"
  by (induction xs) (auto simp: map_add_def split: option.splits)

context graph_store
begin

lemma Cache_idle:
  assumes "wf s" and "g_pending (abs s) = {}"
  shows "Cache ro sha st s = Some (s, Inr ())"
proof -
  obtain ks where "st_ToBeCached st s = Inr ks" "set ks = {}"
    using ToBeCached [OF assms(1)] assms(2) by auto
  then show ?thesis by (simp add: Cache_def)
qed

lemma Cache_runs:
  assumes wf: "wf s" and ok: "graph_ok (abs s)" and pend: "g_pending (abs s) \<noteq> {}"
      "g_pending (abs s) \<subseteq> dom (g_nodes (abs s))"
    and ro: "range_ok ro" and sha: "no_collision sha (g_nodes (abs s))"
  shows "\<exists>s'. Cache ro sha st s = Some (s', Inr ()) \<and> wf s'
    \<and> abs s' = (abs s)\<lparr>g_caches := (\<lambda>i. if i \<in> dom (g_nodes (abs s))
          then Some (cache_entry (g_nodes (abs s)) (g_pending (abs s)) i) else g_caches (abs s) i),
        g_pending := {}\<rparr>"
proof -
  let ?N = "g_nodes (abs s)" and ?U = "g_pending (abs s)"
  note small = graph_ok_small [OF ok]
  obtain us where us: "st_ToBeCached st s = Inr us" "set us = ?U" using ToBeCached [OF wf] by blast
  have us_ne: "us \<noteq> []" using pend(1) us(2) by auto
  obtain ks where ks: "st_GetAllKeys st s = Inr ks" "distinct ks" "set ks = dom ?N"
    using GetAllKeys [OF wf] by blast
  have len: "length ks = g_next (abs s)" using ks(2,3) small(2) distinct_card by metis
  obtain al where al: "st_GetNodes st s ks = Inr al" "map_of al = ?N |` set ks"
    using GetNodes [OF wf] by blast
  then have nodes: "map_of al = ?N" using ks(3) by (auto simp: fun_eq_iff restrict_map_def)
  obtain scc where scc: "findCycles (length ks) ?N = Inr scc" "distinct (keys_of scc)"
    "set (keys_of scc) = dom ?N"
    "\<forall>x \<in> dom ?N. \<forall>y \<in> dom ?N. map_of scc x = map_of scc y \<longleftrightarrow> same_scc ?N x y"
    using findCycles_correct [OF small(1) small(3)] len by auto
  have usd: "set us \<subseteq> dom ?N" using us(2) pend(2) by simp
  have build: "\<exists>m H. buildCache ro k sha us dir scc ?N = Some (Inr m)
    \<and> nkm_rep H (dom ?N) m (closure_or_comp ?N dir (set us))" if "valid_dir dir" for dir k
    by (rule buildCache_ok [OF small(4) that ro small(5) sha scc(2,3) _ usd])
       (assumption | rule bspec [OF bspec [OF scc(4)]])+
  obtain mc Hc where mc: "buildCache ro 0 sha us ChildrenDirection scc ?N = Some (Inr mc)"
    "nkm_rep Hc (dom ?N) mc (closure_or_comp ?N ChildrenDirection ?U)"
    using build [of ChildrenDirection 0] us(2) by auto
  obtain mp Hp where mp: "buildCache ro 2 sha us ParentsDirection scc ?N = Some (Inr mp)"
    "nkm_rep Hp (dom ?N) mp (closure_or_comp ?N ParentsDirection ?U)"
    using build [of ParentsDirection 2] us(2) by auto
  obtain xs where xs: "GetAllKeysAndValues ro 4 mc
      = Inr (map Uint32ToStr xs, map (closure_or_comp ?N ChildrenDirection ?U) xs)"
    "set xs = dom ?N" "distinct xs"
    using GetAll_ok [OF mc(2) ro] by blast
  let ?cs = "map (cache_entry ?N ?U) xs"
  have "zip (map Uint32ToStr xs) (map (closure_or_comp ?N ChildrenDirection ?U) xs)
      = map (\<lambda>x. (Uint32ToStr x, closure_or_comp ?N ChildrenDirection ?U x)) xs"
    by (induction xs) simp_all
  then have collect: "collect_caches mp (zip (map Uint32ToStr xs)
      (map (closure_or_comp ?N ChildrenDirection ?U) xs)) = Inr ?cs"
    using collect_caches_ok [OF mp(2), of xs] xs(2) by (simp add: cache_entry_def [abs_def])
  obtain s1 where s1: "st_SaveCaches st s ?cs = (s1, Inr ())" "wf s1"
    "abs s1 = (abs s)\<lparr>g_caches := g_caches (abs s) ++ map_of (rev (map (\<lambda>c. (c_ID c, c)) ?cs))\<rparr>"
    using SaveCaches [OF wf] by blast
  obtain s2 where s2: "st_ClearCacheStack st s1 = (s2, Inr ())" "wf s2"
    "abs s2 = (abs s1)\<lparr>g_pending := {}\<rparr>"
    using ClearCacheStack [OF s1(2)] by blast
  have run: "Cache ro sha st s = Some (s2, Inr ())"
    using us_ne
    by (simp add: Cache_def us(1) ks(1) al(1) nodes scc(1) mc(1) mp(1) xs(1) collect s1(1) s2(1))
  have caches: "g_caches (abs s) ++ map_of (rev (map (\<lambda>c. (c_ID c, c)) ?cs))
      = (\<lambda>i. if i \<in> dom ?N then Some (cache_entry ?N ?U i) else g_caches (abs s) i)"
  proof
    fix i
    have "map_of (rev (map (\<lambda>c. (c_ID c, c)) ?cs)) i
        = (if i \<in> set xs then Some (cache_entry ?N ?U i) else None)"
      by (rule map_of_entries [OF xs(3)]) (simp add: cache_entry_def)
    then show "(g_caches (abs s) ++ map_of (rev (map (\<lambda>c. (c_ID c, c)) ?cs))) i
        = (if i \<in> dom ?N then Some (cache_entry ?N ?U i) else g_caches (abs s) i)"
      unfolding xs(2) by (simp add: map_add_def)
  qed
  have "abs s2 = (abs s)\<lparr>g_caches := (\<lambda>i. if i \<in> dom ?N then Some (cache_entry ?N ?U i)
      else g_caches (abs s) i), g_pending := {}\<rparr>"
    unfolding s2(3) s1(3) caches by simp
  with run s2(2) show ?thesis by blast
qed

text \<open>With something waiting in every part of the graph, the cached queries answer like the walk.\<close>

lemma Cache_queries:
  assumes wf: "wf s" and ok: "graph_ok (abs s)" and pend: "g_pending (abs s) \<noteq> {}"
      "g_pending (abs s) \<subseteq> dom (g_nodes (abs s))"
    and ro: "range_ok ro" and sha: "no_collision sha (g_nodes (abs s))"
    and n: "g_nodes (abs s) i = Some n" and dir: "valid_dir dir"
    and run: "Cache ro sha st s = Some (s', r)"
  shows "r = Inr () \<and>
    (if dir = ChildrenDirection then QueryDependencies st s' n else QueryDependents st s' n)
      = Inr (insert i (closure_or_comp (g_nodes (abs s)) dir (g_pending (abs s)) i))"
proof -
  obtain s1 where s1: "Cache ro sha st s = Some (s1, Inr ())" "wf s1"
    "abs s1 = (abs s)\<lparr>g_caches := (\<lambda>i. if i \<in> dom (g_nodes (abs s))
          then Some (cache_entry (g_nodes (abs s)) (g_pending (abs s)) i) else g_caches (abs s) i),
        g_pending := {}\<rparr>"
    using Cache_runs [OF wf ok pend ro sha] by blast
  have eq: "s' = s1" "r = Inr ()" using run s1(1) by simp_all
  obtain ks where ks: "st_ToBeCached st s1 = Inr ks" "ks = []"
    using ToBeCached [OF s1(2)] s1(3) by auto
  have id: "n_ID n = i" using graph_ok_small(5) [OF ok n] .
  have "g_caches (abs s1) i = Some (cache_entry (g_nodes (abs s)) (g_pending (abs s)) i)"
    using s1(3) n by auto
  then have "st_GetCache st s1 i = Inr (Some (cache_entry (g_nodes (abs s)) (g_pending (abs s)) i))"
    by (rule GetCache_Some [OF s1(2)])
  then show ?thesis
    using ks dir unfolding eq
    by (auto simp: QueryDependencies_def QueryDependents_def id cache_entry_def valid_dir_def)
qed

end

end
