(* ===== verification/Cache_Props.thy ===== *)
theory Cache_Props
  imports Cache_Correct
begin

text \<open>
  The properties of \<open>Cache\<close> on the back ends, and small graphs on which they are evaluated.
\<close>

section \<open>A hash without collisions\<close>

text \<open>
  For the witnesses SHA-256 is the identity: then the text that is hashed is the text itself, and
  different lists of keys give different texts.
\<close>

lemma join_nonempty: "x \<noteq> [] \<Longrightarrow> join_with sep (x # xs) \<noteq> []"
  by (cases xs) simp_all

lemma join_inject:
  assumes "\<forall>x \<in> set xs. x \<noteq> [] \<and> CHR '' '' \<notin> set x" and "\<forall>y \<in> set ys. y \<noteq> [] \<and> CHR '' '' \<notin> set y"
    and "join_with '' '' xs = join_with '' '' ys"
  shows "xs = ys"
  using assms
proof (induction xs arbitrary: ys)
  case Nil
  then show ?case by (cases ys) (auto dest: sym simp: join_nonempty)
next
  case (Cons x xs)
  have split: "takeWhile (\<lambda>c. c \<noteq> CHR '' '') (join_with '' '' (u # us)) = u
      \<and> dropWhile (\<lambda>c. c \<noteq> CHR '' '') (join_with '' '' (u # us))
        = (if us = [] then [] else CHR '' '' # join_with '' '' us)"
    if "CHR '' '' \<notin> set u" for u us
  proof (cases us)
    case Nil
    have "takeWhile (\<lambda>c. c \<noteq> CHR '' '') u = u" "dropWhile (\<lambda>c. c \<noteq> CHR '' '') u = []"
      using that by (auto simp: takeWhile_eq_all_conv dropWhile_eq_Nil_conv)
    with Nil show ?thesis by simp
  next
    case (Cons w ws)
    have "takeWhile (\<lambda>c. c \<noteq> CHR '' '') (u @ CHR '' '' # r) = u"
      "dropWhile (\<lambda>c. c \<noteq> CHR '' '') (u @ CHR '' '' # r) = CHR '' '' # r" for r
      using that by (induction u) auto
    with Cons show ?thesis by simp
  qed
  obtain y ys' where ys: "ys = y # ys'"
  proof (cases ys)
    case Nil
    then have "join_with '' '' (x # xs) = []" using Cons.prems(3) by simp
    moreover have "x \<noteq> []" using Cons.prems(1) by simp
    ultimately have False using join_nonempty by blast
    then show ?thesis ..
  qed blast
  have sp: "CHR '' '' \<notin> set x" "CHR '' '' \<notin> set y" using Cons.prems(1,2) ys by auto
  have eq: "join_with '' '' (x # xs) = join_with '' '' (y # ys')" using Cons.prems(3) ys by simp
  have "x = y" using split [OF sp(1), of xs] split [OF sp(2), of ys'] eq by simp
  moreover have "(if xs = [] then [] else CHR '' '' # join_with '' '' xs)
      = (if ys' = [] then [] else CHR '' '' # join_with '' '' ys')"
    using split [OF sp(1), of xs] split [OF sp(2), of ys'] eq by simp
  then have "join_with '' '' xs = join_with '' '' ys'" by (auto split: if_splits)
  then have "xs = ys'" using Cons.prems(1,2) ys by (intro Cons.IH) auto
  ultimately show ?case using ys by simp
qed

lemma digits_no_space: "CHR '' '' \<notin> set (FormatUint n)"
  using FormatUint_digits [of "CHR '' ''" n] by (auto simp: is_digit_char_def byte_of_def)

lemma digits_no_bracket: "CHR '']'' \<notin> set (FormatUint n)"
  using FormatUint_digits [of "CHR '']''" n] by (auto simp: is_digit_char_def byte_of_def)

lemma join_no_bracket:
  "(\<And>x. x \<in> set xs \<Longrightarrow> CHR '']'' \<notin> set x) \<Longrightarrow> CHR '']'' \<notin> set (join_with '' '' xs)"
  by (induction "'' ''" xs rule: join_with.induct) auto

lemma Sprint_bytes_inject: "Sprint_bytes a = Sprint_bytes b \<longleftrightarrow> a = b"
proof
  assume "Sprint_bytes a = Sprint_bytes b"
  then have "join_with '' '' (map (\<lambda>c. FormatUint (byte_of c)) a)
      = join_with '' '' (map (\<lambda>c. FormatUint (byte_of c)) b)"
    by (simp add: Sprint_bytes_def)
  then have "map (\<lambda>c. FormatUint (byte_of c)) a = map (\<lambda>c. FormatUint (byte_of c)) b"
    by (rule join_inject [rotated 2]) (auto simp: digits_no_space)
  then show "a = b" by (rule map_injective) (simp add: inj_def)
qed simp

lemma cut_inject:
  assumes "u @ c # A = w @ c # B" and "c \<notin> set u" and "c \<notin> set w"
  shows "u = w \<and> A = B"
  using assms
proof (induction u arbitrary: w)
  case Nil
  then show ?case by (cases w) auto
next
  case (Cons a u)
  then obtain w' where "w = a # w'" by (cases w) auto
  with Cons show ?case by auto
qed

lemma Sprint_concat_inject:
  "concat (map Sprint_bytes xs) = concat (map Sprint_bytes ys) \<Longrightarrow> xs = ys"
proof (induction xs arbitrary: ys)
  case Nil
  then show ?case by (cases ys) (auto simp: Sprint_bytes_def)
next
  case (Cons x xs)
  have form: "\<exists>u. Sprint_bytes z = u @ '']'' \<and> CHR '']'' \<notin> set u" for z
    using join_no_bracket [of "map (\<lambda>c. FormatUint (byte_of c)) z"] digits_no_bracket
    by (intro exI [of _ "''['' @ join_with '' '' (map (\<lambda>c. FormatUint (byte_of c)) z)"])
       (auto simp: Sprint_bytes_def)
  obtain y ys' where ys: "ys = y # ys'" using Cons.prems by (cases ys) (auto simp: Sprint_bytes_def)
  obtain u where u: "Sprint_bytes x = u @ '']''" "CHR '']'' \<notin> set u" using form by blast
  obtain w where w: "Sprint_bytes y = w @ '']''" "CHR '']'' \<notin> set w" using form by blast
  have "u @ CHR '']'' # concat (map Sprint_bytes xs) = w @ CHR '']'' # concat (map Sprint_bytes ys')"
    using Cons.prems ys u(1) w(1) by simp
  then have "u = w \<and> concat (map Sprint_bytes xs) = concat (map Sprint_bytes ys')"
    by (rule cut_inject [OF _ u(2) w(2)])
  moreover from this have "x = y" using u(1) w(1) Sprint_bytes_inject [of x y] by simp
  ultimately show ?case using Cons.IH ys by blast
qed

lemma byte_of_hex: "d < 16 \<Longrightarrow> byte_of (hex_digit d) = (if d < 10 then 48 + d else 87 + d)"
  by (simp add: hex_digit_def)

lemma hex_digit_inject:
  assumes "a < 16" and "b < 16"
  shows "hex_digit a = hex_digit b \<longleftrightarrow> a = b"
proof
  assume "hex_digit a = hex_digit b"
  then have "byte_of (hex_digit a) = byte_of (hex_digit b)" by simp
  then have "(if a < 10 then 48 + a else 87 + a) = (if b < 10 then 48 + b else 87 + b)"
    unfolding byte_of_hex [OF assms(1)] byte_of_hex [OF assms(2)] .
  then show "a = b" using assms by (auto split: if_splits)
qed simp

lemma hex_string_inject: "hex_string xs = hex_string ys \<longleftrightarrow> xs = ys"
proof
  have "hex_string xs = hex_string ys \<Longrightarrow> xs = ys"
  proof (induction xs arbitrary: ys)
    case Nil
    then show ?case by (cases ys) (simp_all add: hex_string_def)
  next
    case (Cons x xs)
    then obtain y ys' where ys: "ys = y # ys'" by (cases ys) (simp_all add: hex_string_def)
    have eq: "hex_digit (byte_of x div 16) = hex_digit (byte_of y div 16)"
      "hex_digit (byte_of x mod 16) = hex_digit (byte_of y mod 16)" "hex_string xs = hex_string ys'"
      using Cons.prems ys by (simp_all add: hex_string_def)
    have "byte_of x div 16 = byte_of y div 16" "byte_of x mod 16 = byte_of y mod 16"
      using eq(1,2) byte_of_less [of x] byte_of_less [of y] by (simp_all add: hex_digit_inject less_mult_imp_div_less)
    then have "byte_of x = byte_of y" by (metis div_mult_mod_eq)
    then show ?case using Cons.IH [OF eq(3)] ys by (simp add: byte_of_def)
  qed
  then show "hex_string xs = hex_string ys \<Longrightarrow> xs = ys" .
qed simp

lemma no_collision_id: "no_collision (\<lambda>s. s) nodes"
proof -
  have "set ks = set ks'"
    if "bind_hash (\<lambda>s. s) (map Uint32ToStr ks) = bind_hash (\<lambda>s. s) (map Uint32ToStr ks')" for ks ks'
  proof -
    have "concat (map Sprint_bytes (map Uint32ToStr ks)) = concat (map Sprint_bytes (map Uint32ToStr ks'))"
      using that by (simp add: bind_hash_def hex_string_inject)
    then have "map Uint32ToStr ks = map Uint32ToStr ks'" by (rule Sprint_concat_inject)
    then have "ks = ks'" by (rule map_injective) (simp add: inj_def)
    then show ?thesis by simp
  qed
  then show ?thesis unfolding no_collision_def by blast
qed

section \<open>The cached queries\<close>

context graph_store
begin

text \<open>With every node waiting, the cached queries answer like the walk.\<close>

lemma Cache_exact:
  assumes wf: "wf s" and ok: "graph_ok (abs s)" and pend: "g_pending (abs s) = dom (g_nodes (abs s))"
    and ro: "range_ok ro" and sha: "no_collision sha (g_nodes (abs s))" and n: "g_nodes (abs s) i = Some n"
  shows "\<exists>s'. Cache ro sha st s = Some (s', Inr ())
    \<and> QueryDependencies st s' n = Inr (reach (g_nodes (abs s)) ChildrenDirection i)
    \<and> QueryDependents st s' n = Inr (reach (g_nodes (abs s)) ParentsDirection i)"
proof -
  have ne: "g_pending (abs s) \<noteq> {}" "g_pending (abs s) \<subseteq> dom (g_nodes (abs s))" using pend n by auto
  obtain s' where s': "Cache ro sha st s = Some (s', Inr ())"
    using Cache_runs [OF wf ok ne ro sha] by blast
  have "i \<in> connected_to (g_nodes (abs s)) (g_pending (abs s))"
    using n pend by (auto simp: connected_to_def)
  then have "insert i (closure_or_comp (g_nodes (abs s)) dir (g_pending (abs s)) i)
      = reach (g_nodes (abs s)) dir i" for dir
    by (simp add: closure_or_comp_def insert_absorb)
  then have "QueryDependencies st s' n = Inr (reach (g_nodes (abs s)) ChildrenDirection i)"
    "QueryDependents st s' n = Inr (reach (g_nodes (abs s)) ParentsDirection i)"
    using Cache_queries [OF wf ok ne ro sha n _ s', of ChildrenDirection]
      Cache_queries [OF wf ok ne ro sha n _ s', of ParentsDirection]
    by simp_all
  with s' show ?thesis by blast
qed

text \<open>What \<open>Cache\<close> leaves for a node that nothing waiting is connected to.\<close>

lemma Cache_unconnected:
  assumes wf: "wf s" and ok: "graph_ok (abs s)" and ne: "g_pending (abs s) \<noteq> {}"
      "g_pending (abs s) \<subseteq> dom (g_nodes (abs s))"
    and ro: "range_ok ro" and sha: "no_collision sha (g_nodes (abs s))" and n: "g_nodes (abs s) i = Some n"
    and i: "i \<notin> connected_to (g_nodes (abs s)) (g_pending (abs s))"
  shows "\<exists>s'. Cache ro sha st s = Some (s', Inr ())
    \<and> QueryDependencies st s' n = Inr (comp_of (g_nodes (abs s)) i)
    \<and> QueryDependents st s' n = Inr (comp_of (g_nodes (abs s)) i)"
proof -
  obtain s' where s': "Cache ro sha st s = Some (s', Inr ())"
    using Cache_runs [OF wf ok ne ro sha] by blast
  have "i \<in> comp_of (g_nodes (abs s)) i" using n by (intro comp_self) auto
  then have "insert i (closure_or_comp (g_nodes (abs s)) dir (g_pending (abs s)) i)
      = comp_of (g_nodes (abs s)) i" for dir
    using i by (simp add: closure_or_comp_def insert_absorb)
  then have "QueryDependencies st s' n = Inr (comp_of (g_nodes (abs s)) i)"
    "QueryDependents st s' n = Inr (comp_of (g_nodes (abs s)) i)"
    using Cache_queries [OF wf ok ne ro sha n _ s', of ChildrenDirection]
      Cache_queries [OF wf ok ne ro sha n _ s', of ParentsDirection]
    by simp_all
  with s' show ?thesis by blast
qed

end

section \<open>A small graph\<close>

text \<open>
  Three nodes: \<open>1\<close> depends on \<open>2\<close>, and \<open>3\<close> stands alone. \<open>pending\<close> is what waits to be cached.
\<close>

definition sample :: "id \<Rightarrow> id set \<Rightarrow> id set \<Rightarrow> string \<Rightarrow> node" where
  "sample i cs ps name = \<lparr>n_Metadata = MNil, n_Children = cs, n_Parents = ps, n_Type = ''library'',
     n_Name = name, n_ChildData = '''', n_ParentData = '''', n_ID = i\<rparr>"

definition small_mock :: "id list \<Rightarrow> mock" where
  "small_mock pending = NewMockStorage
     \<lparr>m_nodes := [(1, sample 1 {2} {} ''a''), (2, sample 2 {} {1} ''b''), (3, sample 3 {} {} ''c'')],
      m_nameToID := [''a'' \<mapsto> 1, ''b'' \<mapsto> 2, ''c'' \<mapsto> 3], m_toBeCached := pending, m_idCounter := 3\<rparr>"

lemma sample_simps [simp]:
  "n_ID (sample i cs ps nm) = i" "n_Children (sample i cs ps nm) = cs" "n_Parents (sample i cs ps nm) = ps"
  "n_Name (sample i cs ps nm) = nm" "n_Type (sample i cs ps nm) = ''library''"
  by (simp_all add: sample_def)

definition small_nodes :: "id \<rightharpoonup> node" where
  "small_nodes = [1 \<mapsto> sample 1 {2} {} ''a'', 2 \<mapsto> sample 2 {} {1} ''b'', 3 \<mapsto> sample 3 {} {} ''c'']"

lemma small_mock_simps [simp]:
  "map_of (m_nodes (small_mock p)) = small_nodes" "set (m_toBeCached (small_mock p)) = set p"
  by (simp_all add: small_mock_def small_nodes_def NewMockStorage_def fun_eq_iff)

lemma small_mock_wf: "mock_wf (small_mock p)"
  by (simp add: mock_wf_def small_mock_def NewMockStorage_def cache_entries_def)

lemma small_nodes_dom: "dom small_nodes = {1, 2, 3}"
  by (auto simp: small_nodes_def)

lemma small_mock_ok: "graph_ok (mock_abs (small_mock p))"
proof -
  have "names_ok (mock_abs (small_mock p))"
    unfolding names_ok_def mock_abs_simps small_mock_simps
    by (auto simp: small_mock_def small_nodes_def split: if_splits)
  moreover have "edges_ok small_nodes"
    unfolding edges_ok_def small_nodes_def by (auto split: if_splits)
  moreover have "{1..3} = {1, 2, 3::nat}" by auto
  then have "(of_nat :: nat \<Rightarrow> id) ` {1..3} = {1, 2, 3}" by simp
  then have "ids_ok (mock_abs (small_mock p))"
    by (simp add: ids_ok_def small_nodes_dom) (simp add: small_mock_def)
  ultimately show ?thesis by (simp add: graph_ok_def)
qed

lemma small_edges:
  "edges small_nodes ChildrenDirection = {(1, 2)}" "edges small_nodes ParentsDirection = {(2, 1)}"
  by (auto simp: edges_def nbrs_def small_nodes_def split: if_splits)

lemma small_reach: "reach small_nodes ChildrenDirection 1 = {1, 2}" "reach small_nodes ChildrenDirection 2 = {2}"
  "reach small_nodes ParentsDirection 1 = {1}" "reach small_nodes ParentsDirection 2 = {1, 2}"
proof -
  have "x = 1 \<or> x = 2" if "(1, x) \<in> {(1, 2 :: id)}\<^sup>*" for x :: id using that by induction auto
  moreover have "x = 2" if "(2, x) \<in> {(1, 2 :: id)}\<^sup>*" for x :: id using that by induction auto
  moreover have "x = 1 \<or> x = 2" if "(2, x) \<in> {(2, 1 :: id)}\<^sup>*" for x :: id using that by induction auto
  moreover have "x = 1" if "(1, x) \<in> {(2, 1 :: id)}\<^sup>*" for x :: id using that by induction auto
  ultimately show "reach small_nodes ChildrenDirection 1 = {1, 2}" "reach small_nodes ChildrenDirection 2 = {2}"
    "reach small_nodes ParentsDirection 1 = {1}" "reach small_nodes ParentsDirection 2 = {1, 2}"
    unfolding reach_def small_edges by (auto simp: set_eq_iff Image_iff)
qed

lemma small_apart: "1 \<notin> connected_to small_nodes {3}"
proof -
  have "x = 3" if "(3, x) \<in> {(1, 2), (2, 1 :: id)}\<^sup>*" for x :: id
    using that by induction auto
  from this [of 1] show ?thesis by (auto simp: connected_to_def small_edges insert_commute)
qed

lemma small_comp: "comp_of small_nodes 1 = {1}"
proof -
  have "x \<in> reach small_nodes ChildrenDirection 1 \<and> 1 \<in> reach small_nodes ChildrenDirection x"
    if "same_scc small_nodes 1 x" for x
    using that by (auto simp: same_scc_def reach_def)
  then have "x = 1" if "same_scc small_nodes 1 x" for x
    using that small_reach by fastforce
  then show ?thesis by (auto simp: comp_of_def small_nodes_dom)
qed

end
