(* ===== verification/Graph_Props.thy ===== *)
theory Graph_Props
  imports Cache_Props
begin

text \<open>
  The properties of the storage back ends, of the graph operations over them and of the cache.
\<close>

section \<open>Storage back ends\<close>

text \<open>
  C1. The SQL back end implements the storage contract: every method of \<open>SQLStorage\<close>, run on tables
  that hold a graph, returns and leaves what the abstract graph prescribes, and keeps the tables
  consistent. Nodes are read back as JSON leaves them, a missing cache entry is no error, and a search by
  pattern returns every node, once, whose name the pattern accepts: with wildcards that cross slashes,
  without regard to case, and with the failing escapes of \<open>sql_accepts\<close>. No statement fails and the engine
  sets no limit to the variables of a statement.
\<close>

theorem sql_implements_contract:
  "searchable_store sql_storage (sql_wf b64) sql_abs (stored_node b64) (\<lambda>db p. Some (sql_accepts p))"
  by (rule sg.searchable_store_axioms)

text \<open>
  C2. The Redis back end implements the same contract, and dropping the caches puts every node that
  had an entry on the cache stack. A search by pattern returns every node, once, whose name the server
  matches with the pattern behind the prefix of the names, as long as the prefix stands for itself.
\<close>

theorem redis_implements_contract:
  "recaching_store redis_storage (redis_wf b64) redis_abs (stored_node b64)
    \<and> searchable_store redis_storage (\<lambda>r. redis_wf b64 r \<and> redis_literal r) redis_abs (stored_node b64)
        (\<lambda>r p. Some (\<lambda>x. r_match r (NameToIDKey @ p) (NameToIDKey @ x)))"
  by (intro conjI rd.recaching_store_axioms rg.searchable_store_axioms)

text \<open>
  C3. The in-memory back end implements the same contract, with nodes read back unchanged, and puts
  dropped entries on the cache stack. A search by pattern returns every node, once, whose name
  \<open>filepath.Match\<close> accepts, and a pattern that it cannot read is an error unless there is no node.
\<close>

theorem mock_implements_contract:
  "recaching_store mock_storage mock_wf mock_abs (\<lambda>n. n)
    \<and> searchable_store mock_storage mock_wf mock_abs (\<lambda>n. n) (\<lambda>m p. map_option match_elems (parse_glob p))"
  by (intro conjI ms.recaching_store_axioms mg.searchable_store_axioms)

section \<open>Building and querying the graph\<close>

text \<open>
  Starting from an empty SQL database, whatever sequence of \<open>AddNode\<close> and \<open>SetDependency\<close> calls has
  run (with at most \<open>k\<close> calls of \<open>AddNode\<close>), the stored graph is consistent: names and identifiers
  agree, every edge is recorded at both ends and stays in the graph, no node depends on itself, and the
  identifiers in use are \<open>1\<close> to at most \<open>k\<close>.
\<close>

theorem sql_runs_consistent:
  assumes "build_run sql_storage (empty_sqldb cd doc_like) k s" and "codec_ok b64 cd"
    and "k < 4294967295"
  shows "sql_wf b64 s \<and> graph_ok (sql_abs s) \<and> q_counter s \<le> k"
  using sq.build_run_ok [OF assms(1) empty_sqldb_ok(1) [OF assms(2)] empty_sqldb_ok(2) [OF assms(2)]]
    assms(3) by (simp add: empty_sqldb_def kv_empty)

theorem sql_runs_consistent_witness:
  "\<exists>s. build_run sql_storage (empty_sqldb (tree_codec rev) doc_like) 2 s \<and> graph_ok (sql_abs s)"
proof -
  let ?db = "empty_sqldb (tree_codec rev) doc_like"
  obtain s1 r1 where 1: "AddNode sql_storage ?db ''library'' MNil ''pkg:a'' = (s1, r1)" by fastforce
  obtain s2 r2 where 2: "AddNode sql_storage s1 ''library'' MNil ''pkg:b'' = (s2, r2)" by fastforce
  have "build_run sql_storage ?db (Suc (Suc 0)) s2"
    by (rule build_run.add [OF build_run.add [OF build_run.start 1] 2])
  then have run: "build_run sql_storage ?db 2 s2" by (simp add: numeral_2_eq_2)
  with sql_runs_consistent [OF run tree_codec_ok] show ?thesis by auto
qed

text \<open>
  Adding a name twice: on a consistent graph in an SQL database the second \<open>AddNode\<close> changes nothing
  and returns the node that the first call made, as JSON leaves it, whatever type and metadata the
  second call is given.
\<close>

theorem sql_AddNode_idempotent:
  assumes "sql_wf b64 s" and "graph_ok (sql_abs s)" and "Suc (g_next (sql_abs s)) < 4294967296"
    and "AddNode sql_storage s ty meta name = (s1, r)"
  shows "\<exists>n. r = Inr n \<and> n_Name n = name
    \<and> AddNode sql_storage s1 ty' meta' name = (s1, Inr (stored_node b64 n))"
  by (rule sq.AddNode_twice [OF assms])

theorem sql_AddNode_idempotent_witness:
  "\<exists>s n. AddNode sql_storage (empty_sqldb (tree_codec rev) doc_like) ''library'' (MBytes ''x'') ''pkg:a'' = (s, Inr n)
    \<and> AddNode sql_storage s ''vuln'' MNil ''pkg:a'' = (s, Inr (stored_node rev n))"
proof -
  let ?db = "empty_sqldb (tree_codec rev) doc_like"
  obtain s r where r: "AddNode sql_storage ?db ''library'' (MBytes ''x'') ''pkg:a'' = (s, r)" by fastforce
  have "Suc (g_next (sql_abs ?db)) < 4294967296" by (simp add: empty_sqldb_def)
  from sql_AddNode_idempotent [OF empty_sqldb_ok [OF tree_codec_ok] this r, of "''vuln''" MNil] r
  show ?thesis by auto
qed

text \<open>
  C17. Without the cache, dependencies and dependents are exactly what is reachable along the child and
  the parent edges, the node included, in every graph built on an empty Redis.
\<close>

theorem redis_walk_is_reachability:
  assumes "build_run redis_storage (empty_redis cd match) k s" and "codec_ok b64 cd"
    and "prefix_patterns match" and "k < 4294967295" and "st_GetNode redis_storage s i = Inr n"
  shows "QueryDependenciesNoCache (Some redis_storage) s (Some n)
      = Inr (reach (g_nodes (redis_abs s)) ChildrenDirection i)
    \<and> QueryDependentsNoCache (Some redis_storage) s (Some n)
      = Inr (reach (g_nodes (redis_abs s)) ParentsDirection i)"
proof -
  note start = empty_redis_ok [OF assms(2,3)]
  have "redis_wf b64 s \<and> graph_ok (redis_abs s)"
    using rd.build_run_ok [OF assms(1) start] assms(4) by (simp add: empty_redis_def kv_empty)
  then show ?thesis using rd.walk_is_reach [OF _ _ assms(5)] by blast
qed

theorem redis_walk_is_reachability_witness:
  "\<exists>(s :: (bitmap, bitmap node_aux + bitmap cache_aux) redis) n i. QueryDependenciesNoCache (Some redis_storage) s (Some n)
      = Inr (reach (g_nodes (redis_abs s)) ChildrenDirection i)
    \<and> QueryDependentsNoCache (Some redis_storage) s (Some n)
      = Inr (reach (g_nodes (redis_abs s)) ParentsDirection i)"
proof -
  let ?m = "\<lambda>p k. has_prefix k (butlast p)"
  let ?db = "empty_redis (tree_codec rev) ?m"
  have m: "prefix_patterns ?m" by (simp add: prefix_patterns_def butlast_append)
  note start = empty_redis_ok [OF tree_codec_ok m]
  have room: "Suc (g_next (redis_abs ?db)) < 4294967296" by (simp add: empty_redis_def)
  obtain s n where s: "AddNode redis_storage ?db ''library'' MNil ''pkg:a'' = (s, Inr n)" "redis_wf rev s"
    "g_names (redis_abs s) ''pkg:a'' = Some (n_ID n)" "graph_ok (redis_abs s)"
    using rd.AddNode_graph_ok [OF start room] by blast
  then obtain x where "g_nodes (redis_abs s) (n_ID n) = Some x"
    unfolding graph_ok_def names_ok_def by blast
  then have x: "st_GetNode redis_storage s (n_ID n) = Inr x" using rd.GetNode_Some [OF s(2)] by blast
  have "build_run redis_storage ?db (Suc 0) s" by (rule build_run.add [OF build_run.start s(1)])
  from redis_walk_is_reachability [OF this tree_codec_ok m _ x] show ?thesis by auto
qed

text \<open>
  Dependents and dependencies are inverse: in a consistent graph in memory, \<open>b\<close> is a dependent of
  \<open>a\<close> if and only if \<open>a\<close> is a dependency of \<open>b\<close>.
\<close>

theorem mock_queries_dual:
  assumes "mock_wf s" and "graph_ok (mock_abs s)"
    and "st_GetNode mock_storage s a = Inr x" and "st_GetNode mock_storage s b = Inr y"
    and "QueryDependentsNoCache (Some mock_storage) s (Some x) = Inr up"
    and "QueryDependenciesNoCache (Some mock_storage) s (Some y) = Inr down"
  shows "b \<in> up \<longleftrightarrow> a \<in> down"
proof -
  have "up = reach (g_nodes (mock_abs s)) ParentsDirection a"
    using ms.walk_is_reach [OF assms(1-3)] assms(5) by simp
  moreover have "down = reach (g_nodes (mock_abs s)) ChildrenDirection b"
    using ms.walk_is_reach [OF assms(1,2,4)] assms(6) by simp
  ultimately show ?thesis using reach_converse [OF graph_ok_small(4) [OF assms(2)]] by simp
qed

theorem mock_queries_dual_witness:
  "\<exists>x y up down. QueryDependentsNoCache (Some mock_storage) (small_mock []) (Some x) = Inr up
    \<and> QueryDependenciesNoCache (Some mock_storage) (small_mock []) (Some y) = Inr down
    \<and> 1 \<in> up \<and> 2 \<in> down"
proof -
  note s = small_mock_wf [of "[]"] small_mock_ok [of "[]"]
  have g: "st_GetNode mock_storage (small_mock []) 2 = Inr (sample 2 {} {1} ''b'')"
    "st_GetNode mock_storage (small_mock []) 1 = Inr (sample 1 {2} {} ''a'')"
    by (rule ms.GetNode_Some [OF s(1)], simp add: small_nodes_def)+
  have q: "QueryDependentsNoCache (Some mock_storage) (small_mock []) (Some (sample 2 {} {1} ''b'')) = Inr {1, 2}"
    "QueryDependenciesNoCache (Some mock_storage) (small_mock []) (Some (sample 1 {2} {} ''a'')) = Inr {1, 2}"
    using ms.walk_is_reach [OF s g(1)] ms.walk_is_reach [OF s g(2)] by (simp_all add: small_reach)
  with mock_queries_dual [OF s g q] show ?thesis by blast
qed

section \<open>The cache\<close>

text \<open>
  C6. \<open>findCycles\<close> finds the strongly connected components: on the nodes of a consistent graph it ends
  without an error, gives every node one number, and two nodes get the same number if and only if each
  depends on the other.
\<close>

theorem findCycles_components:
  assumes "graph_ok g"
  shows "\<exists>scc. findCycles (card (dom (g_nodes g))) (g_nodes g) = Inr scc \<and> distinct (keys_of scc)
    \<and> set (keys_of scc) = dom (g_nodes g)
    \<and> (\<forall>x \<in> dom (g_nodes g). \<forall>y \<in> dom (g_nodes g). map_of scc x = map_of scc y
         \<longleftrightarrow> y \<in> reach (g_nodes g) ChildrenDirection x \<and> x \<in> reach (g_nodes g) ChildrenDirection y)"
  using findCycles_correct [OF graph_ok_small(1) [OF assms] graph_ok_small(3) [OF assms]]
    graph_ok_small(2) [OF assms]
  by (simp add: same_scc_def reach_def)

theorem findCycles_components_witness:
  "\<exists>scc. findCycles 3 small_nodes = Inr scc \<and> map_of scc 1 \<noteq> map_of scc 2"
  using findCycles_components [OF small_mock_ok [of "[]"]]
  by (auto simp: small_nodes_dom small_reach numeral_3_eq_3)

text \<open>
  C4. \<open>Cache\<close> is exact after a build: for every sequence of \<open>AddNode\<close> and \<open>SetDependency\<close> calls on an
  empty SQL database, \<open>Cache\<close> ends and succeeds, and from then on the cached queries of every node
  return what is reachable along the edges. SHA-256 has no collision on the keys of the graph.
\<close>

theorem sql_Cache_exact:
  assumes "build_run sql_storage (empty_sqldb cd doc_like) k s" and "codec_ok b64 cd" and "k < 4294967295"
    and "range_ok ro" and "no_collision sha (g_nodes (sql_abs s))" and "st_GetNode sql_storage s i = Inr n"
  shows "\<exists>s'. Cache ro sha sql_storage s = Some (s', Inr ())
    \<and> QueryDependencies sql_storage s' n = Inr (reach (g_nodes (sql_abs s)) ChildrenDirection i)
    \<and> QueryDependents sql_storage s' n = Inr (reach (g_nodes (sql_abs s)) ParentsDirection i)"
proof -
  have "sql_wf b64 s \<and> graph_ok (sql_abs s) \<and> g_pending (sql_abs s) = dom (g_nodes (sql_abs s))"
    using sq.build_run_ok [OF assms(1) empty_sqldb_ok [OF assms(2)]] assms(3)
    by (simp add: empty_sqldb_def kv_empty)
  then show ?thesis using sq.Cache_exact [OF _ _ _ assms(4,5)] sq.read_node [OF _ assms(6)] by blast
qed

theorem sql_Cache_exact_witness:
  "\<exists>(s :: (bitmap, bitmap node_aux + bitmap cache_aux) sqldb) s' n i.
     Cache in_order (\<lambda>t. t) sql_storage s = Some (s', Inr ())
     \<and> QueryDependencies sql_storage s' n = Inr (reach (g_nodes (sql_abs s)) ChildrenDirection i)"
proof -
  let ?db = "empty_sqldb (tree_codec rev) doc_like"
  note start = empty_sqldb_ok [OF tree_codec_ok [of rev]]
  have room: "Suc (g_next (sql_abs ?db)) < 4294967296" by (simp add: empty_sqldb_def)
  obtain s n where s: "AddNode sql_storage ?db ''library'' MNil ''pkg:a'' = (s, Inr n)" "sql_wf rev s"
    "g_names (sql_abs s) ''pkg:a'' = Some (n_ID n)" "graph_ok (sql_abs s)"
    using sq.AddNode_graph_ok [OF start room] by blast
  then obtain x where "g_nodes (sql_abs s) (n_ID n) = Some x"
    unfolding graph_ok_def names_ok_def by blast
  then have x: "st_GetNode sql_storage s (n_ID n) = Inr x" using sq.GetNode_Some [OF s(2)] by blast
  have "build_run sql_storage ?db (Suc 0) s" by (rule build_run.add [OF build_run.start s(1)])
  from sql_Cache_exact [OF this tree_codec_ok _ range_ok_in_order no_collision_id x] show ?thesis by auto
qed

text \<open>
  C5. What one run of \<open>Cache\<close> leaves on Redis: an entry for every node, exact for the nodes connected
  to something that was waiting, and the node's own component for the others; entries of identifiers
  without a node and all nodes are kept, and nothing waits any more.
\<close>

theorem redis_Cache_entries:
  assumes "redis_wf b64 s" and "graph_ok (redis_abs s)" and "g_pending (redis_abs s) \<noteq> {}"
    and "g_pending (redis_abs s) \<subseteq> dom (g_nodes (redis_abs s))" and "range_ok ro"
    and "no_collision sha (g_nodes (redis_abs s))"
  shows "\<exists>s'. Cache ro sha redis_storage s = Some (s', Inr ()) \<and> redis_wf b64 s'
    \<and> redis_abs s' = (redis_abs s)\<lparr>g_caches := (\<lambda>i. if i \<in> dom (g_nodes (redis_abs s))
          then Some (cache_entry (g_nodes (redis_abs s)) (g_pending (redis_abs s)) i)
          else g_caches (redis_abs s) i), g_pending := {}\<rparr>"
  by (rule rd.Cache_runs [OF assms])

theorem redis_Cache_entries_witness:
  "\<exists>(s :: (bitmap, bitmap node_aux + bitmap cache_aux) redis) s'. g_pending (redis_abs s) \<noteq> {}
    \<and> Cache in_order (\<lambda>t. t) redis_storage s = Some (s', Inr ()) \<and> g_pending (redis_abs s') = {}"
proof -
  let ?m = "\<lambda>p k. has_prefix k (butlast p)"
  let ?db = "empty_redis (tree_codec rev) ?m"
  have m: "prefix_patterns ?m" by (simp add: prefix_patterns_def butlast_append)
  note start = empty_redis_ok [OF tree_codec_ok m]
  have room: "Suc (g_next (redis_abs ?db)) < 4294967296" by (simp add: empty_redis_def)
  obtain s n where s: "AddNode redis_storage ?db ''library'' MNil ''pkg:a'' = (s, Inr n)" "redis_wf rev s"
    "g_names (redis_abs s) ''pkg:a'' = Some (n_ID n)" "graph_ok (redis_abs s)"
    using rd.AddNode_graph_ok [OF start room] by blast
  have "build_run redis_storage ?db (Suc 0) s" by (rule build_run.add [OF build_run.start s(1)])
  then have p: "g_pending (redis_abs s) = dom (g_nodes (redis_abs s))"
    using rd.build_run_ok [OF _ start] by (simp add: empty_redis_def kv_empty)
  moreover obtain x where "g_nodes (redis_abs s) (n_ID n) = Some x"
    using s(3,4) unfolding graph_ok_def names_ok_def by blast
  ultimately have ne: "g_pending (redis_abs s) \<noteq> {}" "g_pending (redis_abs s) \<subseteq> dom (g_nodes (redis_abs s))"
    by auto
  obtain s' c where s': "Cache in_order (\<lambda>t. t) redis_storage s = Some (s', Inr ())"
    "redis_abs s' = (redis_abs s)\<lparr>g_caches := c, g_pending := {}\<rparr>"
    using redis_Cache_entries [OF s(2,4) ne range_ok_in_order no_collision_id] by blast
  have "g_pending (redis_abs s') = {}" unfolding s'(2) by simp
  with ne s'(1) show ?thesis by blast
qed

text \<open>
  C31. \<open>Cache\<close> forgets what it is not asked about: on a consistent graph in memory where the cache is
  stale only for a part of the graph, a node that no waiting node is connected to ends with its own
  component as its cached dependencies and dependents, whatever it depends on.
\<close>

theorem mock_Cache_forgets:
  assumes "mock_wf s" and "graph_ok (mock_abs s)" and "g_pending (mock_abs s) \<noteq> {}"
    and "g_pending (mock_abs s) \<subseteq> dom (g_nodes (mock_abs s))" and "range_ok ro"
    and "no_collision sha (g_nodes (mock_abs s))" and "g_nodes (mock_abs s) i = Some n"
    and "i \<notin> connected_to (g_nodes (mock_abs s)) (g_pending (mock_abs s))"
  shows "\<exists>s'. Cache ro sha mock_storage s = Some (s', Inr ())
    \<and> QueryDependencies mock_storage s' n = Inr (comp_of (g_nodes (mock_abs s)) i)
    \<and> QueryDependents mock_storage s' n = Inr (comp_of (g_nodes (mock_abs s)) i)"
  by (rule ms.Cache_unconnected [OF assms])

theorem mock_Cache_forgets_witness:
  "\<exists>s'. Cache in_order (\<lambda>t. t) mock_storage (small_mock [3]) = Some (s', Inr ())
    \<and> QueryDependencies mock_storage s' (sample 1 {2} {} ''a'') = Inr {1}
    \<and> QueryDependenciesNoCache (Some mock_storage) (small_mock [3]) (Some (sample 1 {2} {} ''a'')) = Inr {1, 2}"
proof -
  let ?s = "small_mock [3]"
  note s = small_mock_wf [of "[3]"] small_mock_ok [of "[3]"]
  have n: "g_nodes (mock_abs ?s) 1 = Some (sample 1 {2} {} ''a'')" by (simp add: small_nodes_def)
  have p: "g_pending (mock_abs ?s) \<noteq> {}" "g_pending (mock_abs ?s) \<subseteq> dom (g_nodes (mock_abs ?s))"
    by (simp_all add: small_nodes_dom)
  have i: "1 \<notin> connected_to (g_nodes (mock_abs ?s)) (g_pending (mock_abs ?s))" by (simp add: small_apart)
  have "QueryDependenciesNoCache (Some mock_storage) ?s (Some (sample 1 {2} {} ''a'')) = Inr {1, 2}"
    using ms.walk_is_reach [OF s ms.GetNode_Some [OF s(1) n]] by (simp add: small_reach)
  with mock_Cache_forgets [OF s p range_ok_in_order no_collision_id n i] show ?thesis
    by (auto simp: small_comp)
qed

section \<open>Dropping the caches\<close>

text \<open>
  In memory, dropping the caches is safe: the queries of every node that had an entry walk the graph
  afterwards and return what is reachable.
\<close>

theorem mock_RemoveAllCaches_walks:
  assumes "mock_wf s" and "graph_ok (mock_abs s)" and "g_nodes (mock_abs s) i = Some n"
    and "i \<in> dom (g_caches (mock_abs s))" and "st_RemoveAllCaches mock_storage s = (s', r)"
  shows "QueryDependents mock_storage s' n = Inr (reach (g_nodes (mock_abs s)) ParentsDirection i)
    \<and> QueryDependencies mock_storage s' n = Inr (reach (g_nodes (mock_abs s)) ChildrenDirection i)"
  using ms.cleared_then_walked [OF assms] by blast

theorem mock_RemoveAllCaches_walks_witness:
  "\<exists>s'. QueryDependencies mock_storage s' (sample 1 {2} {} ''a'') = Inr {1, 2}"
proof -
  let ?s = "small_mock [] \<lparr>m_cache := Some [(1, NewNodeCache 1 {1} {1})]\<rparr>"
  have "mock_wf ?s" using small_mock_wf [of "[]"] by (simp add: mock_wf_def)
  moreover have "graph_ok (mock_abs ?s)"
    using small_mock_ok [of "[]"] by (simp add: graph_ok_def names_ok_def ids_ok_def)
  moreover have "g_nodes (mock_abs ?s) 1 = Some (sample 1 {2} {} ''a'')" "1 \<in> dom (g_caches (mock_abs ?s))"
    by (simp_all add: small_nodes_def)
  moreover obtain s' r where "st_RemoveAllCaches mock_storage ?s = (s', r)" by fastforce
  ultimately show ?thesis using mock_RemoveAllCaches_walks [of ?s 1 _ s' r] by (auto simp: small_reach)
qed

text \<open>
  C30. In SQL it is not: when the caches are up to date and are then dropped, nothing is put on the cache
  stack, so \<open>Cache\<close> has nothing to do and the queries of every node dereference a nil cache entry.
\<close>

theorem sql_RemoveAllCaches_strands:
  assumes "sql_wf b64 s" and "g_pending (sql_abs s) = {}" and "st_RemoveAllCaches sql_storage s = (s', r)"
  shows "r = Inr () \<and> Cache ro sha sql_storage s' = Some (s', Inr ())
    \<and> QueryDependencies sql_storage s' n = Inl (Panic ''nil pointer dereference'')
    \<and> QueryDependents sql_storage s' n = Inl (Panic ''nil pointer dereference'')"
proof -
  obtain s1 where s1: "Sql_RemoveAllCaches s = (s1, Inr ())" "sql_wf b64 s1"
    "sql_abs s1 = (sql_abs s)\<lparr>g_caches := Map.empty\<rparr>"
    using sql_RemoveAllCaches_ok [OF assms(1)] by blast
  have s': "s' = s1" "r = Inr ()" using assms(3) s1(1) by (simp_all add: sql_storage_simps)
  have state: "g_caches (sql_abs s1) = Map.empty" "g_pending (sql_abs s1) = {}"
    unfolding s1(3) using assms(2) by simp_all
  have "st_ToBeCached sql_storage s1 = Inr []"
    using sq.ToBeCached [OF s1(2)] unfolding state(2) by auto
  moreover have "st_GetCache sql_storage s1 i = Inr None" for i
    using sql_GetCache_ok [OF s1(2), of i] state(1) by (simp add: sql_storage_simps)
  ultimately show ?thesis
    using sq.Cache_idle [OF s1(2) state(2)] by (simp add: s' QueryDependencies_def QueryDependents_def)
qed

theorem sql_RemoveAllCaches_strands_witness:
  "\<exists>(s :: (bitmap, bitmap node_aux + bitmap cache_aux) sqldb) s' n.
     st_RemoveAllCaches sql_storage s = (s', Inr ()) \<and> g_caches (sql_abs s) (n_ID n) \<noteq> None
     \<and> QueryDependenciesNoCache (Some sql_storage) s' (Some n) = Inr {n_ID n}
     \<and> Cache in_order (\<lambda>t. t) sql_storage s' = Some (s', Inr ())
     \<and> QueryDependencies sql_storage s' n = Inl (Panic ''nil pointer dereference'')"
proof -
  let ?db = "empty_sqldb (tree_codec rev) doc_like"
  let ?n = "new_node ''library'' MNil ''a'' 1"
  note start = empty_sqldb_ok [OF tree_codec_ok [of rev]]
  obtain s0 where s0: "st_SaveCache sql_storage ?db (NewNodeCache 1 {1} {1}) = (s0, Inr ())" "sql_wf rev s0"
    "sql_abs s0 = (sql_abs ?db)\<lparr>g_caches := (g_caches (sql_abs ?db))(1 \<mapsto> NewNodeCache 1 {1} {1})\<rparr>"
    using sq.SaveCache [OF start(1), of "NewNodeCache 1 {1} {1}"] by auto
  have p0: "g_pending (sql_abs s0) = {}" unfolding s0(3) by (simp add: empty_sqldb_def)
  have c0: "g_caches (sql_abs s0) 1 = Some (NewNodeCache 1 {1} {1})" unfolding s0(3) by simp
  obtain s' r where s': "st_RemoveAllCaches sql_storage s0 = (s', r)" by fastforce
  have "QueryDependenciesNoCache (Some sql_storage) s' (Some ?n) = Inr {n_ID ?n}"
    by (simp add: QueryDependenciesNoCache_def queryBitmap_def new_node_def step_nodes_def to_array_def)
  moreover have "g_caches (sql_abs s0) (n_ID ?n) \<noteq> None" unfolding new_node_def node.simps c0 by blast
  moreover note sql_RemoveAllCaches_strands [OF s0(2) p0 s', of in_order "\<lambda>t. t" ?n]
  ultimately show ?thesis using s' by blast
qed

section \<open>Searching by glob\<close>







text \<open>
  C40. The escaping of the LIKE wildcards does not work: a search in SQL for a pattern with an underscore
  or a percent sign finds nothing, whatever is stored, when no key has a backslash.
\<close>

theorem sql_glob_escape_misses:
  assumes "sql_wf b64 db" and "CHR ''_'' \<in> set p \<or> CHR ''%'' \<in> set p"
    and "\<forall>k \<in> set (keys_of (q_kv db)). CHR 0x5C \<notin> set k"
  shows "Sql_GetNodesByGlob db p = Inr []"
proof -
  have wf: "q_like db = doc_like" "range_ok (q_order db)" using assms(1) by (simp_all add: sql_wf_def)
  have "CHR 0x5C \<in> set (NameToIDKey @ convertGlobToSQLPattern p)"
    using convert_escapes [of p] assms(2) by auto
  then have "\<not> doc_like (NameToIDKey @ convertGlobToSQLPattern p) k" if "CHR 0x5C \<notin> set k" for k
    using doc_like_literal [of "NameToIDKey @ convertGlobToSQLPattern p" k "CHR 0x5C"] that
      lower_backslash [THEN iffD2, of "CHR 0x5C"] lower_backslash by simp metis
  then have "filter (\<lambda>r. doc_like (NameToIDKey @ convertGlobToSQLPattern p) (fst r))
      (go_range (q_order db) i (q_kv db)) = []" for i
    using assms(3) wf(2) by (auto simp: filter_empty_conv)
  then show ?thesis using assms(1) by (simp add: Sql_GetNodesByGlob_def sql_Find_def wf(1))
qed

theorem sql_glob_escape_misses_witness:
  "\<exists>db. Sql_SaveNode (empty_sqldb (tree_codec rev) doc_like) (Some (sample 1 {} {} ''my_lib'')) = (db, Inr ())
    \<and> Sql_NameToID db ''my_lib'' = Inr 1 \<and> filepath_Match ''my_lib'' ''my_lib'' = Inr True
    \<and> Sql_GetNodesByGlob db ''my_lib'' = Inr []"
proof -
  let ?db = "empty_sqldb (tree_codec rev) doc_like"
  let ?n = "sample 1 {} {} ''my_lib''"
  obtain db where db: "Sql_SaveNode ?db (Some ?n) = (db, Inr ())" "sql_wf rev db"
    "sql_abs db = (sql_abs ?db)\<lparr>g_nodes := (g_nodes (sql_abs ?db))(n_ID ?n \<mapsto> stored_node rev ?n),
       g_names := (g_names (sql_abs ?db))(n_Name ?n \<mapsto> n_ID ?n),
       g_pending := insert (n_ID ?n) (g_pending (sql_abs ?db))\<rparr>"
    using sql_SaveNode_ok [OF empty_sqldb_ok(1) [OF tree_codec_ok [of rev]]] by blast
  have name: "g_names (sql_abs db) ''my_lib'' = Some 1" unfolding db(3) by simp
  have "keys_of (q_kv db) = [NodeKeyPrefix @ Uint32ToStr 1, NameToIDKey @ ''my_lib'']"
    using db(1) by (auto simp: Sql_SaveNode_def empty_sqldb_def Node_MarshalJSON_def tree_codec_def
        rollback_def sql_exec_def NodeKeyPrefix_def NameToIDKey_def split: if_splits)
  moreover have "CHR 0x5C \<notin> set (Uint32ToStr 1)"
    using Uint32ToStr_digits [of "CHR 0x5C" 1] by (auto simp: is_digit_char_def byte_of_def)
  ultimately have "\<forall>k \<in> set (keys_of (q_kv db)). CHR 0x5C \<notin> set k"
    by (simp add: NodeKeyPrefix_def NameToIDKey_def)
  from sql_glob_escape_misses [OF db(2) _ this, of "''my_lib''"]
  have "Sql_GetNodesByGlob db ''my_lib'' = Inr []" by simp
  moreover have "Sql_NameToID db ''my_lib'' = Inr 1"
    using sql_NameToID_ok [OF db(2)] name by simp
  moreover have "filepath_Match ''my_lib'' ''my_lib'' = Inr True"
    by (rule trans [OF filepath_Match_plain]) (simp_all add: plain_char_def)
  ultimately show ?thesis using db(1) by blast
qed

end
