(* ===== verification/Ingest_Steps.thy ===== *)
theory Ingest_Steps
  imports Graph_Runs
begin

text \<open>
  The two steps that every ingester takes on a storage, adding a node and linking two nodes, with
  everything that the ingesters rely on: what is added and what is kept.
\<close>

text \<open>What linking keeps: the nodes by their identifier, name and type.\<close>

definition same_node :: "node \<Rightarrow> node \<Rightarrow> bool" where
  "same_node n m \<longleftrightarrow> n_ID n = n_ID m \<and> n_Name n = n_Name m \<and> n_Type n = n_Type m
     \<and> n_Metadata n = n_Metadata m"

definition keeps_nodes :: "(id \<rightharpoonup> node) \<Rightarrow> (id \<rightharpoonup> node) \<Rightarrow> bool" where
  "keeps_nodes f g \<longleftrightarrow> (\<forall>i n. f i = Some n \<longrightarrow> (\<exists>m. g i = Some m \<and> same_node n m))"

lemma same_node_refl [simp]: "same_node n n"
  by (simp add: same_node_def)

lemma same_node_trans: "same_node a b \<Longrightarrow> same_node b c \<Longrightarrow> same_node a c"
  by (simp add: same_node_def)

lemma keeps_nodesD: "keeps_nodes f g \<Longrightarrow> f i = Some n \<Longrightarrow> \<exists>m. g i = Some m \<and> same_node n m"
  unfolding keeps_nodes_def by blast

lemma keeps_nodes_refl [simp]: "keeps_nodes f f"
  by (simp add: keeps_nodes_def)

lemma keeps_nodes_trans: "keeps_nodes f g \<Longrightarrow> keeps_nodes g h \<Longrightarrow> keeps_nodes f h"
  unfolding keeps_nodes_def using same_node_trans by blast

lemma keeps_nodes_le: "f \<subseteq>\<^sub>m g \<Longrightarrow> keeps_nodes f g"
  unfolding keeps_nodes_def
proof (intro allI impI)
  fix i n assume le: "f \<subseteq>\<^sub>m g" and "f i = Some n"
  then have "g i = Some n" by (auto simp: map_le_def dom_def)
  then show "\<exists>m. g i = Some m \<and> same_node n m" by simp
qed

lemma keeps_nodes_link:
  assumes x: "nodes (n_ID x) = Some x" and y: "nodes (n_ID y) = Some y" and "n_ID x \<noteq> n_ID y"
  shows "keeps_nodes nodes (link_nodes nodes x y)"
  unfolding keeps_nodes_def
proof (intro allI impI)
  fix i n assume n: "nodes i = Some n"
  show "\<exists>m. link_nodes nodes x y i = Some m \<and> same_node n m"
  proof (cases "i = n_ID y")
    case True
    have "n = y" using trans [OF n [unfolded True, symmetric] y] by (simp only: option.inject)
    then show ?thesis unfolding True link_nodes_def by (simp add: same_node_def)
  next
    case False
    show ?thesis
    proof (cases "i = n_ID x")
      case True
      have "n = x" using trans [OF n [unfolded True, symmetric] x] by (simp only: option.inject)
      then show ?thesis using False unfolding True link_nodes_def by (simp add: same_node_def)
    qed (use False n in \<open>simp add: link_nodes_def\<close>)
  qed
qed

lemma SetDependency_first:
  "n_ID x \<noteq> n_ID y \<Longrightarrow> fst (snd (fst (SetDependency (Some st) s (Some x) (Some y))))
     = Some (x\<lparr>n_Children := insert (n_ID y) (n_Children x)\<rparr>)"
  by (simp only: SetDependency_def Let_def prod.case option.case if_False fst_conv snd_conv)

context graph_store
begin

text \<open>
  A node is added or found. The node that is returned is current: it is, up to JSON, what the storage
  holds. Nodes and edges that were there are kept.
\<close>

lemma AddNode_step:
  assumes wf: "wf s" and ok: "graph_ok (abs s)" and room: "Suc (g_next (abs s)) < 4294967296"
  shows "\<exists>s' n. AddNode st s ty meta name = (s', Inr n) \<and> wf s' \<and> graph_ok (abs s')
    \<and> n_Name n = name \<and> g_nodes (abs s') (n_ID n) = Some (norm n)
    \<and> g_names (abs s') = (g_names (abs s))(name \<mapsto> n_ID n)
    \<and> g_nodes (abs s) \<subseteq>\<^sub>m g_nodes (abs s')
    \<and> edges (g_nodes (abs s')) ChildrenDirection = edges (g_nodes (abs s)) ChildrenDirection
    \<and> g_next (abs s') = (if g_names (abs s) name = None then Suc (g_next (abs s)) else g_next (abs s))
    \<and> (g_names (abs s) name = None \<longrightarrow> n_Type n = ty \<and> n_ID n \<notin> dom (g_nodes (abs s)))"
proof (cases "g_names (abs s) name")
  case (Some i)
  obtain n where n: "AddNode st s ty meta name = (s, Inr n)" "g_nodes (abs s) i = Some n" "n_Name n = name"
    using AddNode_known [OF wf ok Some] by blast
  have "n_ID n = i" "norm n = n" using stored_nodes [OF wf ok n(2)] norm_stored [OF wf n(2)] by simp_all
  with n Some wf ok show ?thesis by (auto simp: fun_upd_idem)
next
  case None
  obtain s' i where s': "i = of_nat (Suc (g_next (abs s)))"
    "AddNode st s ty meta name = (s', Inr (new_node ty meta name i))" "wf s'"
    "abs s' = (abs s)\<lparr>g_nodes := (g_nodes (abs s))(i \<mapsto> norm (new_node ty meta name i)),
       g_names := (g_names (abs s))(name \<mapsto> i),
       g_caches := (g_caches (abs s))(i \<mapsto> NewNodeCache i {} {}),
       g_pending := insert i (g_pending (abs s)), g_next := Suc (g_next (abs s))\<rparr>"
    using AddNode_new [OF wf None room] by blast
  have fresh: "g_nodes (abs s) i = None" unfolding s'(1) by (rule graph_ok_fresh [OF ok room])
  have nodes: "g_nodes (abs s') = (g_nodes (abs s))(i \<mapsto> norm (new_node ty meta name i))"
    and names: "g_names (abs s') = (g_names (abs s))(name \<mapsto> i)"
    and nxt: "g_next (abs s') = Suc (g_next (abs s))" by (simp_all add: s'(4))
  have "graph_ok (abs s')" using AddNode_graph_ok [OF wf ok room, of ty meta name] s'(2) by auto
  moreover have "edges (g_nodes (abs s')) ChildrenDirection = edges (g_nodes (abs s)) ChildrenDirection"
    using fresh unfolding nodes by (auto simp: edges_children norm_simps new_node_def split: if_splits)
  moreover have "g_nodes (abs s) \<subseteq>\<^sub>m g_nodes (abs s')" using fresh unfolding nodes by (auto simp: map_le_def)
  moreover have "n_ID (new_node ty meta name i) = i" "n_Name (new_node ty meta name i) = name"
    "n_Type (new_node ty meta name i) = ty" by (simp_all add: new_node_def)
  ultimately show ?thesis using s'(2,3) nodes names nxt None fresh by auto
qed

lemma link_step:
  assumes wf: "wf s" and ok: "graph_ok (abs s)" and ne: "n_ID x \<noteq> n_ID y"
    and x: "g_nodes (abs s) (n_ID x) = Some (norm x)" and y: "g_nodes (abs s) (n_ID y) = Some (norm y)"
  shows "\<exists>s' x' y'. SetDependency (Some st) s (Some x) (Some y) = ((s', Some x', Some y'), Inr ())
    \<and> wf s' \<and> graph_ok (abs s')
    \<and> edges (g_nodes (abs s')) ChildrenDirection
       = insert (n_ID x, n_ID y) (edges (g_nodes (abs s)) ChildrenDirection)
    \<and> keeps_nodes (g_nodes (abs s)) (g_nodes (abs s'))
    \<and> dom (g_nodes (abs s')) = dom (g_nodes (abs s))
    \<and> g_names (abs s') = g_names (abs s) \<and> g_next (abs s') = g_next (abs s)
    \<and> g_nodes (abs s') (n_ID x) = Some (norm x') \<and> n_ID x' = n_ID x \<and> n_Name x' = n_Name x"
proof -
  obtain s' x' y' where s': "SetDependency (Some st) s (Some x) (Some y) = ((s', Some x', Some y'), Inr ())"
    "wf s'" "graph_ok (abs s')"
    "edges (g_nodes (abs s')) ChildrenDirection
       = insert (n_ID x, n_ID y) (edges (g_nodes (abs s)) ChildrenDirection)"
    "g_nodes (abs s') = link_nodes (g_nodes (abs s)) (norm x) (norm y)"
    "g_names (abs s') = g_names (abs s)" "g_next (abs s') = g_next (abs s)"
    "g_nodes (abs s') (n_ID x) = Some (norm x')"
    using SetDependency_links [OF wf ok ne x y] by blast
  have "keeps_nodes (g_nodes (abs s)) (g_nodes (abs s'))"
    unfolding s'(5) by (rule keeps_nodes_link) (use x y ne in \<open>simp_all add: norm_simps\<close>)
  moreover have "dom (g_nodes (abs s')) = dom (g_nodes (abs s))"
    unfolding s'(5) dom_link_nodes norm_simps using x y by auto
  moreover have "x' = x\<lparr>n_Children := insert (n_ID y) (n_Children x)\<rparr>"
    using SetDependency_first [OF ne, of st s] unfolding s'(1) fst_conv snd_conv option.inject .
  then have "n_ID x' = n_ID x" "n_Name x' = n_Name x" by simp_all
  ultimately show ?thesis using s'(1-4,6-8) by blast
qed

end

end
