(* ===== verification/Ingest_Growth.thy ===== *)
theory Ingest_Growth
  imports Ingest_Steps
begin

text \<open>
  What the ingesters do to a graph, in terms that compose: a graph grows when its nodes and names are
  kept, and it is linked by a set of edges when those are added and nothing else changes.
\<close>

text \<open>What ingestion does to a graph.\<close>

definition grown :: "gstate \<Rightarrow> gstate \<Rightarrow> bool" where
  "grown g g' \<longleftrightarrow> graph_ok g' \<and> keeps_nodes (g_nodes g) (g_nodes g') \<and> g_names g \<subseteq>\<^sub>m g_names g'"

lemma grown_refl: "graph_ok g \<Longrightarrow> grown g g"
  by (simp add: grown_def)

lemma grown_trans: "grown g h \<Longrightarrow> grown h k \<Longrightarrow> grown g k"
  unfolding grown_def using keeps_nodes_trans map_le_trans by blast

lemma grown_name: "grown g g' \<Longrightarrow> g_names g x = Some i \<Longrightarrow> g_names g' x = Some i"
  unfolding grown_def map_le_def by (metis domI)

lemma graph_ok_names_differ:
  "graph_ok g \<Longrightarrow> g_names g x = Some i \<Longrightarrow> g_names g y = Some j \<Longrightarrow> x \<noteq> y \<Longrightarrow> i \<noteq> j"
  unfolding graph_ok_def names_ok_def by (metis option.inject)

text \<open>What adding edges between nodes of the graph does to it.\<close>

definition linked_as :: "(id \<times> id) set \<Rightarrow> gstate \<Rightarrow> gstate \<Rightarrow> bool" where
  "linked_as E g g' \<longleftrightarrow> grown g g' \<and> dom (g_nodes g') = dom (g_nodes g) \<and> g_names g' = g_names g
     \<and> edges (g_nodes g') ChildrenDirection = edges (g_nodes g) ChildrenDirection \<union> E"

lemma linked_as_refl: "graph_ok g \<Longrightarrow> linked_as {} g g"
  by (simp add: linked_as_def grown_refl)

lemma linked_as_trans: "linked_as E g h \<Longrightarrow> linked_as F h k \<Longrightarrow> linked_as (E \<union> F) g k"
  unfolding linked_as_def using grown_trans by (auto simp: Un_assoc)

lemma linked_asD: "linked_as E g h \<Longrightarrow> graph_ok h" "linked_as E g h \<Longrightarrow> dom (g_nodes h) = dom (g_nodes g)"
  by (simp_all add: linked_as_def grown_def)

text \<open>Room for the names in \<open>S\<close>, whether they are known or not.\<close>

definition room_for :: "string set \<Rightarrow> gstate \<Rightarrow> bool" where
  "room_for S g \<longleftrightarrow> Suc (g_next g) + card (S - dom (g_names g)) < 4294967296"

lemma room_for_next: "room_for S g \<Longrightarrow> Suc (g_next g) < 4294967296"
  by (simp add: room_for_def)

lemma room_for_add:
  assumes "room_for S g" and "finite S" and "x \<in> S" and "dom (g_names g') = insert x (dom (g_names g))"
    and "g_next g' \<le> Suc (g_next g)" and "g_names g x \<noteq> None \<longrightarrow> g_next g' = g_next g"
  shows "room_for S g'"
proof (cases "g_names g x")
  case None
  have "S - dom (g_names g') = (S - dom (g_names g)) - {x}" unfolding assms(4) by blast
  moreover have "x \<in> S - dom (g_names g)" using None assms(3) by blast
  ultimately have "Suc (card (S - dom (g_names g'))) = card (S - dom (g_names g))"
    using assms(2) by (metis card.remove finite_Diff)
  then show ?thesis using assms(1,5) unfolding room_for_def by linarith
next
  case (Some i)
  then have "dom (g_names g') = dom (g_names g)" unfolding assms(4) by blast
  then show ?thesis using assms(1,6) Some unfolding room_for_def by simp
qed

lemma room_for_same: "room_for S g \<Longrightarrow> g_names g' = g_names g \<Longrightarrow> g_next g' = g_next g \<Longrightarrow> room_for S g'"
  by (simp add: room_for_def)

text \<open>
  Nodes with the names in the range of \<open>P\<close> are there, and each pair \<open>(i, x)\<close> of \<open>P\<close> is an edge from \<open>i\<close> to
  the node named \<open>x\<close>.
\<close>

definition gained :: "(id \<times> string) set \<Rightarrow> gstate \<Rightarrow> gstate \<Rightarrow> bool" where
  "gained P g g' \<longleftrightarrow> grown g g' \<and> dom (g_names g') = dom (g_names g) \<union> snd ` P
     \<and> edges (g_nodes g') ChildrenDirection = edges (g_nodes g) ChildrenDirection
         \<union> {(i, v). \<exists>x. (i, x) \<in> P \<and> g_names g' x = Some v}"

lemma gained_refl: "graph_ok g \<Longrightarrow> gained {} g g"
  by (simp add: gained_def grown_refl)

lemma gained_trans:
  assumes 1: "gained P g h" and 2: "gained Q h k"
  shows "gained (P \<union> Q) g k"
proof -
  have mono: "g_names k x = Some i" if "g_names h x = Some i" for x i
    using grown_name [of h k] 2 that unfolding gained_def by blast
  have same: "g_names k x = g_names h x" if "x \<in> snd ` P" for x
  proof -
    have "x \<in> dom (g_names h)" using that 1 by (simp add: gained_def)
    then obtain i where "g_names h x = Some i" by blast
    with mono show ?thesis by simp
  qed
  have "{(i, v). \<exists>x. (i, x) \<in> P \<and> g_names h x = Some v} = {(i, v). \<exists>x. (i, x) \<in> P \<and> g_names k x = Some v}"
    using same by force
  then show ?thesis using 1 2 grown_trans [of g h k] unfolding gained_def by (auto simp: image_Un)
qed

text \<open>Nodes that take no part are not touched.\<close>

definition attached :: "(id \<times> string) set \<Rightarrow> gstate \<Rightarrow> gstate \<Rightarrow> bool" where
  "attached P g g' \<longleftrightarrow> grown g g' \<and> dom (g_names g') = dom (g_names g) \<union> snd ` P
     \<and> edges (g_nodes g') ChildrenDirection = edges (g_nodes g) ChildrenDirection
         \<union> {(i, v). \<exists>x. (i, x) \<in> P \<and> g_names g' x = Some v}
     \<and> (\<forall>j \<in> dom (g_nodes g). j \<notin> fst ` P \<and> (\<forall>x \<in> snd ` P. g_names g' x \<noteq> Some j)
          \<longrightarrow> g_nodes g' j = g_nodes g j)"

lemma attached_refl: "graph_ok g \<Longrightarrow> attached {} g g"
  by (simp add: attached_def grown_refl)

lemma attached_gained: "attached P g g' \<Longrightarrow> gained P g g'"
  by (simp add: attached_def gained_def)

lemma attachedD:
  "attached P g g' \<Longrightarrow> grown g g'" "attached P g g' \<Longrightarrow> graph_ok g'"
  "attached P g g' \<Longrightarrow> dom (g_names g') = dom (g_names g) \<union> snd ` P"
  by (simp_all add: attached_def grown_def)

lemma grown_dom: "grown g g' \<Longrightarrow> dom (g_nodes g) \<subseteq> dom (g_nodes g')"
proof
  fix i assume g: "grown g g'" and "i \<in> dom (g_nodes g)"
  then obtain n where "g_nodes g i = Some n" by blast
  with g keeps_nodesD [of "g_nodes g" "g_nodes g'"] show "i \<in> dom (g_nodes g')" unfolding grown_def by blast
qed

lemma attached_trans:
  assumes 1: "attached P g h" and 2: "attached Q h k"
  shows "attached (P \<union> Q) g k"
proof -
  have mono: "g_names k x = Some i" if "g_names h x = Some i" for x i
    using grown_name [OF attachedD(1) [OF 2] that] .
  have "g_nodes k j = g_nodes g j"
    if j: "j \<in> dom (g_nodes g)" "j \<notin> fst ` (P \<union> Q)" "\<forall>x \<in> snd ` (P \<union> Q). g_names k x \<noteq> Some j" for j
  proof -
    have "\<forall>x \<in> snd ` P. g_names h x \<noteq> Some j" using j(3) mono by blast
    then have "g_nodes h j = g_nodes g j" using 1 j(1,2) unfolding attached_def by (simp add: image_Un)
    moreover have "j \<in> dom (g_nodes h)" using grown_dom [OF attachedD(1) [OF 1]] j(1) by blast
    moreover have "g_nodes k j = g_nodes h j"
      using 2 j(2,3) calculation(2) unfolding attached_def by (simp add: image_Un)
    ultimately show ?thesis by simp
  qed
  then show ?thesis
    using gained_trans [OF attached_gained [OF 1] attached_gained [OF 2]]
    unfolding gained_def attached_def by (simp add: image_Un)
qed

context graph_store
begin

lemma AddNode_grown:
  assumes "wf s" and "graph_ok (abs s)" and "Suc (g_next (abs s)) < 4294967296"
  shows "\<exists>s' n. AddNode st s ty meta name = (s', Inr n) \<and> wf s' \<and> grown (abs s) (abs s')
    \<and> g_names (abs s') name = Some (n_ID n)
    \<and> dom (g_names (abs s')) = insert name (dom (g_names (abs s)))
    \<and> edges (g_nodes (abs s')) ChildrenDirection = edges (g_nodes (abs s)) ChildrenDirection
    \<and> g_next (abs s') \<le> Suc (g_next (abs s)) \<and> (g_names (abs s) name \<noteq> None \<longrightarrow> g_next (abs s') = g_next (abs s))
    \<and> n_Name n = name \<and> g_nodes (abs s') (n_ID n) = Some (norm n)
    \<and> (g_names (abs s) name = None \<longrightarrow> n_Type n = ty)"
proof -
  obtain s' n where s': "AddNode st s ty meta name = (s', Inr n)" "wf s'" "graph_ok (abs s')"
    "n_Name n = name" "g_nodes (abs s') (n_ID n) = Some (norm n)"
    "g_names (abs s') = (g_names (abs s))(name \<mapsto> n_ID n)"
    "g_nodes (abs s) \<subseteq>\<^sub>m g_nodes (abs s')"
    "edges (g_nodes (abs s')) ChildrenDirection = edges (g_nodes (abs s)) ChildrenDirection"
    "g_next (abs s') = (if g_names (abs s) name = None then Suc (g_next (abs s)) else g_next (abs s))"
    "g_names (abs s) name = None \<longrightarrow> n_Type n = ty \<and> n_ID n \<notin> dom (g_nodes (abs s))"
    using AddNode_step [OF assms, of ty meta name] by - (elim exE conjE, rule that; assumption)
  have "g_names (abs s') x = Some i" if "g_names (abs s) x = Some i" for x i
  proof (cases "x = name")
    case True
    have "g_names (abs s) name = Some i" using that True by simp
    with assms(2) obtain m where m: "g_nodes (abs s) i = Some m" "n_Name m = name"
      unfolding graph_ok_def names_ok_def by blast
    then have "g_nodes (abs s') i = Some m" using s'(7) by (metis domI map_le_def)
    then have "g_names (abs s') (n_Name m) = Some i" using s'(3) unfolding graph_ok_def names_ok_def by blast
    then show ?thesis using m(2) True by simp
  qed (use that s'(6) in simp)
  then have "grown (abs s) (abs s')"
    using s'(3) keeps_nodes_le [OF s'(7)] by (auto simp: grown_def map_le_def dom_def)
  then show ?thesis using s'(1,2,4-6,8-10) by auto
qed

text \<open>All keys, then all nodes: the whole graph is read.\<close>

lemma read_all:
  assumes wf: "wf s"
  shows "\<exists>ks al. st_GetAllKeys st s = Inr ks \<and> st_GetNodes st s ks = Inr al \<and> distinct ks
    \<and> set ks = dom (g_nodes (abs s)) \<and> distinct (keys_of al) \<and> map_of al = g_nodes (abs s)"
proof -
  obtain ks where ks: "st_GetAllKeys st s = Inr ks" "set ks = dom (g_nodes (abs s))" "distinct ks"
    using GetAllKeys [OF wf] by blast
  obtain al where al: "st_GetNodes st s ks = Inr al" "distinct (keys_of al)" "map_of al = g_nodes (abs s) |` set ks"
    using GetNodes [OF wf] by blast
  have "map_of al = g_nodes (abs s)" using al(3) ks(2) by (auto simp: fun_eq_iff restrict_map_def)
  with ks al(1,2) show ?thesis by blast
qed

lemma read_all_nodes:
  assumes wf: "wf s" and ok: "graph_ok (abs s)" and ro: "range_ok ro"
    and al: "distinct (keys_of al)" "map_of al = g_nodes (abs s)"
  shows "distinct (map n_ID (map snd (go_range ro k al)))"
    and "n \<in> set (map snd (go_range ro k al)) \<longleftrightarrow> g_nodes (abs s) (n_ID n) = Some n"
proof -
  have mem: "(i, n) \<in> set al \<longleftrightarrow> g_nodes (abs s) i = Some n" for i n
    using al map_of_eq_Some_iff [OF al(1), of i n] by simp
  have id: "n_ID n = i" if "(i, n) \<in> set al" for i n
    using stored_nodes [OF wf ok] that mem by blast
  have "map n_ID (map snd (go_range ro k al)) = keys_of (go_range ro k al)"
    unfolding list.map_comp comp_def by (rule map_cong [OF refl]) (use id ro in force)
  then show "distinct (map n_ID (map snd (go_range ro k al)))"
    using al(1) distinct_keys_go_range [OF ro, of k al] by (simp only:)
  have "n \<in> set (map snd (go_range ro k al)) \<longleftrightarrow> (\<exists>i. (i, n) \<in> set al)" using ro by force
  then show "n \<in> set (map snd (go_range ro k al)) \<longleftrightarrow> g_nodes (abs s) (n_ID n) = Some n"
    using mem [of _ n] id by blast
qed

text \<open>A node is found or added, and linked as a dependency of a node whose copy is current.\<close>

lemma attach_step:
  assumes wf: "wf s" and ok: "graph_ok (abs s)" and room: "room_for S (abs s)" "finite S" "name \<in> S"
    and x: "g_nodes (abs s) (n_ID x) = Some (norm x)" "n_Name x \<noteq> name"
  shows "\<exists>s1 y s2 x' y'. AddNode st s ty meta name = (s1, Inr y)
    \<and> SetDependency (Some st) s1 (Some x) (Some y) = ((s2, Some x', Some y'), Inr ())
    \<and> wf s2 \<and> attached {(n_ID x, name)} (abs s) (abs s2) \<and> room_for S (abs s2)
    \<and> g_nodes (abs s2) (n_ID x) = Some (norm x') \<and> n_ID x' = n_ID x \<and> n_Name x' = n_Name x"
proof -
  obtain s1 y where s1: "AddNode st s ty meta name = (s1, Inr y)" "wf s1" "grown (abs s) (abs s1)"
    "g_names (abs s1) name = Some (n_ID y)" "dom (g_names (abs s1)) = insert name (dom (g_names (abs s)))"
    "edges (g_nodes (abs s1)) ChildrenDirection = edges (g_nodes (abs s)) ChildrenDirection"
    "g_next (abs s1) \<le> Suc (g_next (abs s))" "g_names (abs s) name \<noteq> None \<longrightarrow> g_next (abs s1) = g_next (abs s)"
    "n_Name y = name" "g_nodes (abs s1) (n_ID y) = Some (norm y)"
    using AddNode_grown [OF wf ok room_for_next [OF room(1)], of ty meta name]
    by - (elim exE conjE, rule that; assumption)
  have le: "g_nodes (abs s) \<subseteq>\<^sub>m g_nodes (abs s1)"
    using AddNode_step [OF wf ok room_for_next [OF room(1)], of ty meta name] unfolding s1(1) by auto
  have x1: "g_nodes (abs s1) (n_ID x) = Some (norm x)" using le x(1) by (metis domI map_le_def)
  have ok1: "graph_ok (abs s1)" using s1(3) by (simp add: grown_def)
  have "g_names (abs s1) (n_Name x) = Some (n_ID x)"
    using ok1 x1 norm_simps(2) unfolding graph_ok_def names_ok_def by metis
  from graph_ok_names_differ [OF ok1 this s1(4) x(2)] have ne: "n_ID x \<noteq> n_ID y" .
  obtain s2 x' y' where s2: "SetDependency (Some st) s1 (Some x) (Some y) = ((s2, Some x', Some y'), Inr ())"
    "wf s2" "graph_ok (abs s2)"
    "edges (g_nodes (abs s2)) ChildrenDirection = insert (n_ID x, n_ID y) (edges (g_nodes (abs s1)) ChildrenDirection)"
    "keeps_nodes (g_nodes (abs s1)) (g_nodes (abs s2))"
    "g_names (abs s2) = g_names (abs s1)" "g_next (abs s2) = g_next (abs s1)"
    "g_nodes (abs s2) (n_ID x) = Some (norm x')" "n_ID x' = n_ID x" "n_Name x' = n_Name x"
    using link_step [OF s1(2) ok1 ne x1 s1(10)] by - (elim exE conjE, rule that; assumption)
  have nodes2: "g_nodes (abs s2) = link_nodes (g_nodes (abs s1)) (norm x) (norm y)"
    using SetDependency_links [OF s1(2) ok1 ne x1 s1(10)] unfolding s2(1) by auto
  have other: "g_nodes (abs s2) j = g_nodes (abs s) j"
    if "j \<in> dom (g_nodes (abs s))" "j \<noteq> n_ID x" "j \<noteq> n_ID y" for j
    using that le unfolding nodes2 link_nodes_def by (simp add: norm_simps map_le_def)
  have "grown (abs s) (abs s2)"
    using s1(3) s2(3,5,6) keeps_nodes_trans [of "g_nodes (abs s)" "g_nodes (abs s1)"] by (simp add: grown_def)
  then have "attached {(n_ID x, name)} (abs s) (abs s2)"
    using s1(4-6) s2(4,6) other unfolding attached_def by (auto simp: dom_def)
  moreover have "room_for S (abs s2)"
    by (rule room_for_same [OF room_for_add [OF room s1(5,7,8)] s2(6,7)])
  ultimately show ?thesis using s1(1) s2(1,2,8-10) by blast
qed

end

section \<open>A graph with one node\<close>

definition lone_node :: "string \<Rightarrow> string \<Rightarrow> metadata \<Rightarrow> node" where
  "lone_node ty name meta = \<lparr>n_Metadata = meta, n_Children = {}, n_Parents = {}, n_Type = ty,
     n_Name = name, n_ChildData = '''', n_ParentData = '''', n_ID = 1\<rparr>"

definition lone_mock :: "string \<Rightarrow> string \<Rightarrow> metadata \<Rightarrow> mock" where
  "lone_mock ty name meta = NewMockStorage
     \<lparr>m_nodes := [(1, lone_node ty name meta)], m_nameToID := [name \<mapsto> 1], m_idCounter := 1\<rparr>"

lemma lone_node_simps [simp]:
  "n_ID (lone_node ty name meta) = 1" "n_Name (lone_node ty name meta) = name"
  "n_Type (lone_node ty name meta) = ty" "n_Metadata (lone_node ty name meta) = meta"
  "n_Children (lone_node ty name meta) = {}" "n_Parents (lone_node ty name meta) = {}"
  by (simp_all add: lone_node_def)

lemma lone_mock_simps:
  "g_nodes (mock_abs (lone_mock ty name meta)) = [1 \<mapsto> lone_node ty name meta]"
  "g_names (mock_abs (lone_mock ty name meta)) = [name \<mapsto> 1]"
  "g_next (mock_abs (lone_mock ty name meta)) = 1"
  "edges (g_nodes (mock_abs (lone_mock ty name meta))) ChildrenDirection = {}"
  by (simp_all add: lone_mock_def NewMockStorage_def edges_def nbrs_def)

lemma lone_mock_wf: "mock_wf (lone_mock ty name meta)"
  by (simp add: mock_wf_def lone_mock_def NewMockStorage_def cache_entries_def)

lemma lone_mock_ok: "graph_ok (mock_abs (lone_mock ty name meta))"
proof -
  let ?g = "mock_abs (lone_mock ty name meta)"
  have "names_ok ?g" unfolding names_ok_def lone_mock_simps by (auto split: if_splits)
  moreover have "edges_ok (g_nodes ?g)" unfolding edges_ok_def lone_mock_simps by (auto split: if_splits)
  moreover have "ids_ok ?g" unfolding ids_ok_def lone_mock_simps by simp
  ultimately show ?thesis by (simp only: graph_ok_def)
qed

end
