(* ===== verification/Purl.thy ===== *)
theory Purl
  imports Sapper_Prelude
begin

text \<open>
  Package URLs, \<open>pkg/tools/ingest/helpers.go\<close>: from a purl to the name, version and ecosystem that OSV
  uses. The parser of purls is a library, so it is an argument of the model; of what it returns the
  record keeps the fields that are read. \<open>pkg/tools/types.go\<close> has the types of nodes.
\<close>

section \<open>types.go\<close>

definition LibraryType :: string where "LibraryType = ''library''"
definition VulnerabilityType :: string where "VulnerabilityType = ''vuln''"
definition ScorecardType :: string where "ScorecardType = ''scorecard''"

lemmas node_types = LibraryType_def VulnerabilityType_def ScorecardType_def

section \<open>Ecosystems\<close>

definition pkg_prefix :: string where "pkg_prefix = ''pkg:''"

record package_url =
  pu_Type :: string
  pu_Namespace :: string
  pu_Name :: string
  pu_Version :: string

text \<open>Type to namespace to ecosystem; a star stands for any namespace.\<close>

definition purlEcosystems :: "(string \<times> (string \<times> string) list) list" where
  "purlEcosystems =
     [(''apk'', [(''alpine'', ''Alpine'')]),
      (''cargo'', [(''*'', ''crates.io'')]),
      (''deb'', [(''debian'', ''Debian'')]),
      (''hex'', [(''*'', ''Hex'')]),
      (''golang'', [(''*'', ''Go'')]),
      (''maven'', [(''*'', ''Maven'')]),
      (''nuget'', [(''*'', ''NuGet'')]),
      (''npm'', [(''*'', ''npm'')]),
      (''composer'', [(''*'', ''Packagist'')]),
      (''generic'', [(''*'', ''OSS-Fuzz'')]),
      (''pypi'', [(''*'', ''PyPI'')]),
      (''gem'', [(''*'', ''RubyGems'')])]"

record package_info =
  pi_Name :: string
  pi_Version :: string
  pi_Ecosystem :: string
  pi_Commit :: string

definition getPURLEcosystem :: "package_url \<Rightarrow> string" where
  "getPURLEcosystem pkgURL =
     (case map_of purlEcosystems (pu_Type pkgURL) of
        None \<Rightarrow> pu_Type pkgURL @ '':'' @ pu_Namespace pkgURL
      | Some ecoMap \<Rightarrow>
          (case map_of ecoMap ''*'' of
             Some wildcardRes \<Rightarrow> wildcardRes
           | None \<Rightarrow>
               (case map_of ecoMap (pu_Namespace pkgURL) of
                  None \<Rightarrow> pu_Type pkgURL @ '':'' @ pu_Namespace pkgURL
                | Some ecosystem \<Rightarrow> ecosystem)))"

definition PURLToPackage :: "(string \<Rightarrow> package_url res) \<Rightarrow> string \<Rightarrow> package_info res" where
  "PURLToPackage parse purl =
     bind_res (ctx ''failed to parse purl'' (parse purl)) (\<lambda>parsedPURL.
       let ecosystem = getPURLEcosystem parsedPURL;
           nm = (if pu_Namespace parsedPURL \<noteq> '''' then
                   (if ecosystem = ''Maven'' then pu_Namespace parsedPURL @ '':'' @ pu_Name parsedPURL
                    else if ecosystem = ''Debian'' \<or> ecosystem = ''Alpine'' then pu_Name parsedPURL
                    else pu_Namespace parsedPURL @ ''/'' @ pu_Name parsedPURL)
                 else pu_Name parsedPURL)
       in Inr \<lparr>pi_Name = nm, pi_Version = pu_Version parsedPURL, pi_Ecosystem = ecosystem, pi_Commit = ''''\<rparr>)"

text \<open>
  The ecosystem of every purl of the types that OSV knows: a wildcard type has its ecosystem in any
  namespace, Debian and Alpine packages only in theirs, and every other purl gets its type and
  namespace joined by a colon. The version is kept, and a namespace becomes part of the name except
  for Debian and Alpine.
\<close>

theorem PURLToPackage_naming:
  assumes "parse purl = Inr u"
  shows "\<exists>info. PURLToPackage parse purl = Inr info \<and> pi_Version info = pu_Version u
    \<and> (pu_Type u = ''golang'' \<longrightarrow> pi_Ecosystem info = ''Go'')
    \<and> (pu_Type u = ''maven'' \<and> pu_Namespace u \<noteq> '''' \<longrightarrow>
         pi_Name info = pu_Namespace u @ '':'' @ pu_Name u \<and> pi_Ecosystem info = ''Maven'')
    \<and> (pu_Type u = ''deb'' \<longrightarrow> (pi_Ecosystem info = ''Debian'' \<longleftrightarrow> pu_Namespace u = ''debian''))
    \<and> (pu_Type u = ''deb'' \<and> pu_Namespace u = ''debian'' \<longrightarrow> pi_Name info = pu_Name u)
    \<and> (pu_Type u = ''npm'' \<and> pu_Namespace u \<noteq> '''' \<longrightarrow> pi_Name info = pu_Namespace u @ ''/'' @ pu_Name u)
    \<and> (map_of purlEcosystems (pu_Type u) = None \<longrightarrow>
         pi_Ecosystem info = pu_Type u @ '':'' @ pu_Namespace u)"
  using assms by (auto simp: PURLToPackage_def getPURLEcosystem_def purlEcosystems_def Let_def)

theorem PURLToPackage_naming_witness:
  "PURLToPackage (\<lambda>_. Inr \<lparr>pu_Type = ''maven'', pu_Namespace = ''org.apache'', pu_Name = ''log4j'', pu_Version = ''2.0''\<rparr>) ''p''
    = Inr \<lparr>pi_Name = ''org.apache:log4j'', pi_Version = ''2.0'', pi_Ecosystem = ''Maven'', pi_Commit = ''''\<rparr>"
proof -
  let ?u = "\<lparr>pu_Type = ''maven'', pu_Namespace = ''org.apache'', pu_Name = ''log4j'', pu_Version = ''2.0''\<rparr>"
  obtain info where i: "PURLToPackage (\<lambda>_. Inr ?u) ''p'' = Inr info" "pi_Version info = ''2.0''"
    "pi_Name info = ''org.apache:log4j''" "pi_Ecosystem info = ''Maven''"
    using PURLToPackage_naming [of "\<lambda>_. Inr ?u" "''p''" ?u] by auto
  moreover have "pi_Commit info = ''''" using i(1) by (auto simp: PURLToPackage_def Let_def)
  ultimately show ?thesis by simp
qed

end
