(* ===== verification/Go_Sort.thy ===== *)
theory Go_Sort
  imports Sapper_Prelude
begin

text \<open>
  The sorting of Go's \<open>sort\<close> package that the source uses, with the comparison as an argument. The model
  is the insertion sort that \<open>sort.SliceStable\<close> runs on up to 20 elements and \<open>sort.Slice\<close> on up to 12;
  beyond that Go merges sorted blocks (or partitions), which gives the same list whenever the result is
  determined, as it is when the comparison is a strict weak order and, for \<open>sort.Slice\<close>, elements that
  compare equal are equal. \<open>sort.Strings\<close> is the case of \<open>str_less\<close>.
\<close>

text \<open>Moving \<open>x\<close> to the left over the sorted elements before it, which are given in reverse.\<close>

fun insert_left :: "('a \<Rightarrow> 'a \<Rightarrow> bool) \<Rightarrow> 'a \<Rightarrow> 'a list \<Rightarrow> 'a list" where
  "insert_left lt x [] = [x]"
| "insert_left lt x (p # ps) = (if lt x p then p # insert_left lt x ps else x # p # ps)"

definition stable_sort :: "('a \<Rightarrow> 'a \<Rightarrow> bool) \<Rightarrow> 'a list \<Rightarrow> 'a list" where
  "stable_sort lt xs = rev (fold (insert_left lt) xs [])"

definition sort_Strings :: "string list \<Rightarrow> string list" where
  "sort_Strings = stable_sort str_less"

lemma mset_insert_left [simp]: "mset (insert_left lt x ps) = add_mset x (mset ps)"
  by (induction ps) auto

lemma mset_fold_insert: "mset (fold (insert_left lt) xs acc) = mset acc + mset xs"
  by (induction xs arbitrary: acc) auto

lemma mset_stable_sort [simp]: "mset (stable_sort lt xs) = mset xs"
  by (simp add: stable_sort_def mset_fold_insert)

lemma set_stable_sort [simp]: "set (stable_sort lt xs) = set xs"
  by (metis mset_stable_sort set_mset_mset)

lemma length_stable_sort [simp]: "length (stable_sort lt xs) = length xs"
  by (metis mset_stable_sort size_mset)

lemma distinct_stable_sort [simp]: "distinct (stable_sort lt xs) = distinct xs"
  by (metis mset_stable_sort mset_eq_imp_distinct_iff)

lemma distinct_map_stable_sort: "distinct (map f xs) \<Longrightarrow> distinct (map f (stable_sort lt xs))"
  using mset_eq_imp_distinct_iff [of "map f (stable_sort lt xs)" "map f xs"] by simp

lemma stable_sort_empty [simp]: "stable_sort lt [] = []"
  by (simp add: stable_sort_def)

lemma stable_sort_single [simp]: "stable_sort lt [x] = [x]"
  by (simp add: stable_sort_def)

text \<open>
  The result is in order when the comparison is irreflexive on the elements and what is not less is
  transitive: no element is less than one before it.
\<close>

definition weak_order_on :: "'a set \<Rightarrow> ('a \<Rightarrow> 'a \<Rightarrow> bool) \<Rightarrow> bool" where
  "weak_order_on A lt \<longleftrightarrow> (\<forall>x \<in> A. \<forall>y \<in> A. lt x y \<longrightarrow> \<not> lt y x)
     \<and> (\<forall>x \<in> A. \<forall>y \<in> A. \<forall>z \<in> A. \<not> lt y x \<longrightarrow> \<not> lt z y \<longrightarrow> \<not> lt z x)"

lemma weak_order_subset: "weak_order_on A lt \<Longrightarrow> B \<subseteq> A \<Longrightarrow> weak_order_on B lt"
  unfolding weak_order_on_def by blast

lemma insert_left_sorted:
  assumes "weak_order_on (insert x (set ps)) lt" and "sorted_wrt (\<lambda>a b. \<not> lt a b) ps"
  shows "sorted_wrt (\<lambda>a b. \<not> lt a b) (insert_left lt x ps)"
  using assms
proof (induction ps)
  case Nil
  then show ?case by simp
next
  case (Cons p ps)
  have w: "weak_order_on (insert x (set ps)) lt" by (rule weak_order_subset [OF Cons.prems(1)]) auto
  show ?case
  proof (cases "lt x p")
    case True
    have "set (insert_left lt x ps) = insert x (set ps)" by (metis mset_insert_left set_mset_add_mset_insert set_mset_mset)
    moreover have "\<not> lt p x" using Cons.prems(1) True unfolding weak_order_on_def by auto
    ultimately show ?thesis using Cons.IH [OF w] Cons.prems(2) True by auto
  next
    case False
    have "\<not> lt x q" if "q \<in> set ps" for q
    proof -
      have "\<not> lt p q" using Cons.prems(2) that by simp
      with False that Cons.prems(1) show ?thesis unfolding weak_order_on_def by (metis insertCI list.simps(15))
    qed
    then show ?thesis using Cons.prems(2) False by simp
  qed
qed

lemma fold_insert_sorted:
  assumes "weak_order_on (set acc \<union> set xs) lt" and "sorted_wrt (\<lambda>a b. \<not> lt a b) acc"
  shows "sorted_wrt (\<lambda>a b. \<not> lt a b) (fold (insert_left lt) xs acc)"
  using assms
proof (induction xs arbitrary: acc)
  case (Cons x xs)
  have "set (insert_left lt x acc) = insert x (set acc)"
    by (metis mset_insert_left set_mset_add_mset_insert set_mset_mset)
  moreover have "sorted_wrt (\<lambda>a b. \<not> lt a b) (insert_left lt x acc)"
    by (rule insert_left_sorted [OF weak_order_subset [OF Cons.prems(1)] Cons.prems(2)]) auto
  ultimately show ?case using Cons.IH [of "insert_left lt x acc"] Cons.prems(1) by (simp add: Un_commute)
qed simp

lemma sorted_stable_sort:
  assumes "weak_order_on (set xs) lt"
  shows "sorted_wrt (\<lambda>a b. \<not> lt b a) (stable_sort lt xs)"
  using fold_insert_sorted [of "[]" xs lt] assms by (simp add: stable_sort_def sorted_wrt_rev)

lemma str_less_irrefl [simp]: "\<not> str_less a a"
  by (simp add: str_less_def)

lemma str_less_total: "str_less a b \<or> a = b \<or> str_less b a"
  using str_compare_antisym [of b a] str_compare_eq_0 [of a b] by (auto simp: str_less_def)

lemma str_less_trans: "str_less a b \<Longrightarrow> str_less b c \<Longrightarrow> str_less a c"
  unfolding str_less_def by (rule str_compare_trans)

lemma str_less_asym: "str_less a b \<Longrightarrow> \<not> str_less b a"
  using str_less_trans str_less_irrefl by blast

lemma weak_order_str_less [simp]: "weak_order_on A str_less"
  unfolding weak_order_on_def by (metis str_less_asym str_less_total str_less_trans)

lemma weak_order_key: "weak_order_on B lt \<Longrightarrow> f ` A \<subseteq> B \<Longrightarrow> weak_order_on A (\<lambda>x y. lt (f x) (f y))"
  unfolding weak_order_on_def by blast

lemma weak_order_nat [simp]: "weak_order_on A (\<lambda>x y. f x < (f y :: nat))"
  unfolding weak_order_on_def by auto

lemma weak_order_cong:
  assumes "\<And>a b. a \<in> A \<Longrightarrow> b \<in> A \<Longrightarrow> lt a b = lt' a b"
  shows "weak_order_on A lt = weak_order_on A lt'"
  unfolding weak_order_on_def by (simp add: assms cong: ball_cong)

lemma weak_order_lex:
  assumes "weak_order_on A lt1" and "weak_order_on A lt2"
  shows "weak_order_on A (\<lambda>a b. lt1 a b \<or> \<not> lt1 b a \<and> lt2 a b)"
  using assms unfolding weak_order_on_def by (intro conjI ballI impI) metis+

text \<open>Leaving elements out and sorting commute.\<close>

lemma insert_left_filter:
  assumes "weak_order_on (insert x (set ps)) lt" and "sorted_wrt (\<lambda>a b. \<not> lt a b) ps"
  shows "filter P (insert_left lt x ps) = (if P x then insert_left lt x (filter P ps) else filter P ps)"
  using assms
proof (induction ps)
  case (Cons p ps)
  have w: "weak_order_on (insert x (set ps)) lt" by (rule weak_order_subset [OF Cons.prems(1)]) auto
  have IH: "filter P (insert_left lt x ps) = (if P x then insert_left lt x (filter P ps) else filter P ps)"
    using Cons.IH [OF w] Cons.prems(2) by simp
  show ?case
  proof (cases "lt x p")
    case True
    show ?thesis
    proof (cases "P p")
      case False
      then show ?thesis using True IH by simp
    qed (use True IH in simp)
  next
    case False
    have "\<not> lt x q" if "q \<in> set ps" for q
    proof -
      have "\<not> lt p q" using Cons.prems(2) that by simp
      with False that Cons.prems(1) show ?thesis unfolding weak_order_on_def by (metis insertCI list.simps(15))
    qed
    then have "insert_left lt x (filter P ps) = x # filter P ps" by (cases "filter P ps") (auto dest: filter_eq_ConsD)
    with False show ?thesis by simp
  qed
qed simp

lemma stable_sort_filter:
  assumes "weak_order_on (set xs) lt"
  shows "stable_sort lt (filter P xs) = filter P (stable_sort lt xs)"
proof -
  have "fold (insert_left lt) (filter P ys) (filter P acc) = filter P (fold (insert_left lt) ys acc)"
    if "weak_order_on (set acc \<union> set ys) lt" "sorted_wrt (\<lambda>a b. \<not> lt a b) acc" for ys acc
    using that
  proof (induction ys arbitrary: acc)
    case (Cons y ys)
    have w: "weak_order_on (insert y (set acc)) lt" by (rule weak_order_subset [OF Cons.prems(1)]) auto
    have set: "set (insert_left lt y acc) = insert y (set acc)"
      by (metis mset_insert_left set_mset_add_mset_insert set_mset_mset)
    have "weak_order_on (set (insert_left lt y acc) \<union> set ys) lt"
      unfolding set by (rule weak_order_subset [OF Cons.prems(1)]) auto
    from Cons.IH [OF this insert_left_sorted [OF w Cons.prems(2)]] insert_left_filter [OF w Cons.prems(2), of P]
    show ?case by (cases "P y") simp_all
  qed simp
  from this [of "[]" xs] assms show ?thesis by (simp add: stable_sort_def rev_filter)
qed

text \<open>On distinct elements the sorted strings are strictly increasing, so they depend on the set only.\<close>

lemma sort_Strings_strict:
  "distinct xs \<Longrightarrow> sorted_wrt str_less (sort_Strings xs)"
proof -
  assume d: "distinct xs"
  have "sorted_wrt (\<lambda>a b. \<not> str_less b a \<and> a \<noteq> b) (sort_Strings xs)"
    using sorted_stable_sort [OF weak_order_str_less, of xs] d
    by (simp add: sort_Strings_def sorted_wrt_iff_nth_less distinct_conv_nth [symmetric])
       (metis distinct_stable_sort d length_stable_sort nth_eq_iff_index_eq less_trans nat_neq_iff)
  then show ?thesis by (rule sorted_wrt_mono_rel [rotated]) (use str_less_total in blast)
qed

lemma sorted_str_unique:
  "sorted_wrt str_less xs \<Longrightarrow> sorted_wrt str_less ys \<Longrightarrow> set xs = set ys \<Longrightarrow> xs = ys"
proof (induction xs arbitrary: ys)
  case Nil
  then show ?case by simp
next
  case (Cons x xs)
  then obtain y ys' where ys: "ys = y # ys'" by (cases ys) auto
  have "x = y"
  proof (rule ccontr)
    assume "x \<noteq> y"
    then have "x \<in> set ys'" "y \<in> set xs" using Cons.prems(3) ys by auto
    then have "str_less y x" "str_less x y" using Cons.prems(1,2) ys by auto
    then show False using str_less_asym by blast
  qed
  moreover have "x \<notin> set xs" "y \<notin> set ys'" using Cons.prems(1,2) ys by auto
  ultimately have "set xs = set ys'" using Cons.prems(3) ys by auto
  then show ?case using Cons ys \<open>x = y\<close> by simp
qed

end
