(* ===== verification/Versions.thy ===== *)
theory Versions
  imports Convert Go_Sort
begin

text \<open>
  Versions and version ranges of OSV records, the second half of \<open>pkg/tools/ingest/vuln.go\<close>: the natural
  order of ecosystem versions, the order of range events, and the decision whether a version is
  affected. Semantic versions are parsed and compared by a library, which is an argument of the model.
\<close>

section \<open>Natural order\<close>

definition is_letter_char :: "char \<Rightarrow> bool" where
  "is_letter_char c \<longleftrightarrow> is_lower_char c"

text \<open>The loop of \<open>versionSegments\<close>: the segment being read, and whether it is one of digits.\<close>

fun segments_loop :: "string \<Rightarrow> string \<Rightarrow> bool \<Rightarrow> string list" where
  "segments_loop [] current digit = (if current \<noteq> [] then [current] else [])"
| "segments_loop (r # rs) current digit =
     (let isDigit = is_digit_char r; isLetter = is_letter_char r
      in if \<not> isDigit \<and> \<not> isLetter then
           (if current \<noteq> [] then current # segments_loop rs [] digit else segments_loop rs current digit)
         else if current \<noteq> [] \<and> isDigit \<noteq> digit then current # segments_loop rs [r] isDigit
         else segments_loop rs (current @ [r]) isDigit)"

definition versionSegments :: "string \<Rightarrow> string list" where
  "versionSegments v = segments_loop (to_lower (trim_prefix v ''v'')) [] False"

definition isWord :: "string \<Rightarrow> bool" where
  "isWord s \<longleftrightarrow> s \<noteq> [] \<and> (byte_of (hd s) < 48 \<or> 57 < byte_of (hd s))"

definition isPostRelease :: "string \<Rightarrow> bool" where
  "isPostRelease s \<longleftrightarrow> s = ''post'' \<or> s = ''p'' \<or> s = ''pl'' \<or> s = ''patch''"

definition trim_zeros :: "string \<Rightarrow> string" where
  "trim_zeros = dropWhile (\<lambda>c. c = CHR ''0'')"

definition number_compare :: "string \<Rightarrow> string \<Rightarrow> int" where
  "number_compare x y =
     (let nx = trim_zeros x; ny = trim_zeros y
      in if length nx \<noteq> length ny then (if length nx < length ny then -1 else 1)
         else str_compare nx ny)"

text \<open>The loop of \<open>naturalCompare\<close> over what is left of the two lists of segments.\<close>

fun natural_loop :: "string list \<Rightarrow> string list \<Rightarrow> int" where
  "natural_loop [] [] = 0"
| "natural_loop [] (y # ys) = (if isWord y \<and> \<not> isPostRelease y then 1 else -1)"
| "natural_loop (x # xs) [] = (if isWord x \<and> \<not> isPostRelease x then -1 else 1)"
| "natural_loop (x # xs) (y # ys) =
     (if \<not> isWord x \<and> \<not> isWord y then
        (if number_compare x y \<noteq> 0 then number_compare x y else natural_loop xs ys)
      else if isWord x \<noteq> isWord y then
        (if isWord x then (if isPostRelease x then 1 else -1)
         else (if isPostRelease y then -1 else 1))
      else if str_compare x y \<noteq> 0 then str_compare x y
      else natural_loop xs ys)"

definition naturalCompare :: "string \<Rightarrow> string \<Rightarrow> int" where
  "naturalCompare v1 v2 = natural_loop (versionSegments v1) (versionSegments v2)"

section \<open>Comparing versions\<close>

text \<open>The semver library: \<open>NewVersion\<close>, which may fail, and \<open>Compare\<close>.\<close>

record 'v semver =
  sv_NewVersion :: "string \<Rightarrow> 'v option"
  sv_Compare :: "'v \<Rightarrow> 'v \<Rightarrow> int"

definition compareEcosystemVersions :: "'v semver \<Rightarrow> string \<Rightarrow> string \<Rightarrow> int" where
  "compareEcosystemVersions sv v1 v2 =
     (case (sv_NewVersion sv v1, sv_NewVersion sv v2) of
        (Some a, Some b) \<Rightarrow> sv_Compare sv a b
      | _ \<Rightarrow> naturalCompare v1 v2)"

definition compareVersions :: "'v semver \<Rightarrow> string \<Rightarrow> string \<Rightarrow> string \<Rightarrow> int" where
  "compareVersions sv v1 v2 eventType =
     (if eventType = ''SEMVER'' then
        (case (sv_NewVersion sv v1, sv_NewVersion sv v2) of
           (Some a, Some b) \<Rightarrow> sv_Compare sv a b
         | _ \<Rightarrow> str_compare v1 v2)
      else if eventType = ''ECOSYSTEM'' then compareEcosystemVersions sv v1 v2
      else if eventType = ''GIT'' then str_compare v1 v2
      else str_compare v1 v2)"

section \<open>Ranges\<close>

record event =
  ev_Introduced :: string
  ev_Fixed :: string
  ev_LastAffected :: string
  ev_Limit :: string

record version_range =
  vr_Type :: string
  vr_Repo :: string
  vr_Events :: "event list"

definition getVersionFromEvent :: "event \<Rightarrow> string" where
  "getVersionFromEvent evt =
     (if ev_Introduced evt \<noteq> '''' then ev_Introduced evt
      else if ev_Fixed evt \<noteq> '''' then ev_Fixed evt
      else if ev_LastAffected evt \<noteq> '''' then ev_LastAffected evt
      else '''')"

text \<open>The comparison that \<open>sortRangeEvents\<close> passes to the sort.\<close>

definition event_less :: "'v semver \<Rightarrow> string \<Rightarrow> event \<Rightarrow> event \<Rightarrow> bool" where
  "event_less sv eventType a b =
     (let zi = ev_Introduced a = ''0''; zj = ev_Introduced b = ''0''
      in if zi \<or> zj then zi \<and> \<not> zj
         else compareVersions sv (getVersionFromEvent a) (getVersionFromEvent b) eventType < 0)"

definition sortRangeEvents :: "'v semver \<Rightarrow> event list \<Rightarrow> string \<Rightarrow> event list" where
  "sortRangeEvents sv events eventType = stable_sort (event_less sv eventType) events"

text \<open>One turn of the loop over the sorted events.\<close>

definition event_step :: "'v semver \<Rightarrow> string \<Rightarrow> string \<Rightarrow> event \<Rightarrow> bool \<Rightarrow> bool" where
  "event_step sv ty version evt vulnerable =
     (if ev_Introduced evt = ''0''
         \<or> (ev_Introduced evt \<noteq> '''' \<and> 0 \<le> compareVersions sv version (ev_Introduced evt) ty) then True
      else if ev_Fixed evt \<noteq> '''' \<and> 0 \<le> compareVersions sv version (ev_Fixed evt) ty then False
      else if ev_LastAffected evt \<noteq> '''' \<and> 0 < compareVersions sv version (ev_LastAffected evt) ty then False
      else vulnerable)"

fun isVersionInRanges :: "'v semver \<Rightarrow> string \<Rightarrow> version_range list \<Rightarrow> bool" where
  "isVersionInRanges sv version [] = False"
| "isVersionInRanges sv version (r # rs) =
     (let sortedEvents = sortRangeEvents sv (vr_Events r) (vr_Type r)
      in if fold (event_step sv (vr_Type r) version) sortedEvents False then True
         else isVersionInRanges sv version rs)"

fun isVersionIncluded :: "string \<Rightarrow> string list \<Rightarrow> bool" where
  "isVersionIncluded version [] = False"
| "isVersionIncluded version (v # vs) = (if v = version then True else isVersionIncluded version vs)"

lemma isVersionIncluded_iff [simp]: "isVersionIncluded v vs \<longleftrightarrow> v \<in> set vs"
  by (induction vs) auto

section \<open>Comparing is antisymmetric\<close>

lemma number_compare_antisym: "number_compare y x = - number_compare x y"
  by (simp add: number_compare_def Let_def str_compare_antisym [of "trim_zeros y"])

lemma natural_loop_antisym: "natural_loop ys xs = - natural_loop xs ys"
proof (induction xs ys rule: natural_loop.induct)
  case (4 x xs y ys)
  then show ?case by (simp add: number_compare_antisym [of y x] str_compare_antisym [of y x])
qed simp_all

lemma naturalCompare_antisym_lemma: "naturalCompare w v = - naturalCompare v w"
  unfolding naturalCompare_def by (rule natural_loop_antisym)

section \<open>Numbers compare as numbers\<close>

definition digits_value :: "string \<Rightarrow> nat" where
  "digits_value s = foldl (\<lambda>n c. n * 10 + (byte_of c - 48)) 0 s"

lemma foldl_digits: "foldl (\<lambda>n c. n * 10 + (byte_of c - 48)) k s = k * 10 ^ length s + digits_value s"
proof (induction s arbitrary: k rule: rev_induct)
  case (snoc c s)
  show ?case by (simp add: snoc [of k] digits_value_def algebra_simps)
qed (simp add: digits_value_def)

lemma digits_value_Cons: "digits_value (c # s) = (byte_of c - 48) * 10 ^ length s + digits_value s"
  using foldl_digits [of "byte_of c - 48" s] by (simp add: digits_value_def)

lemma digits_value_less: "(\<forall>c \<in> set s. is_digit_char c) \<Longrightarrow> digits_value s < 10 ^ length s"
proof (induction s)
  case (Cons c s)
  have "byte_of c - 48 \<le> 9" using Cons.prems by (auto simp: is_digit_char_def)
  then have "(byte_of c - 48) * 10 ^ length s \<le> 9 * 10 ^ length s" by (rule mult_le_mono1)
  moreover have "digits_value s < 10 ^ length s" using Cons by simp
  ultimately have "(byte_of c - 48) * 10 ^ length s + digits_value s < 9 * 10 ^ length s + 10 ^ length s"
    by (rule add_le_less_mono)
  then show ?case by (simp add: digits_value_Cons)
qed (simp add: digits_value_def)

lemma digits_value_FormatUint [simp]: "digits_value (FormatUint n) = n"
proof (induction n rule: FormatUint.induct)
  case (1 n)
  then show ?case
    by (cases "n < 10") (simp_all add: FormatUint.simps [of n] digits_value_def)
qed

lemma digits_value_trim: "digits_value (trim_zeros s) = digits_value s"
  by (induction s) (auto simp: trim_zeros_def digits_value_Cons byte_of_def)

text \<open>Of equally many digits, the bytes compare like the numbers.\<close>

lemma str_compare_digits:
  assumes "length s = length t" and "\<forall>c \<in> set s. is_digit_char c" and "\<forall>c \<in> set t. is_digit_char c"
  shows "str_compare s t = (if digits_value s < digits_value t then -1
    else if digits_value t < digits_value s then 1 else 0)"
  using assms
proof (induction s t rule: list_induct2)
  case (Cons c s d t)
  have b: "digits_value s < 10 ^ length t" "digits_value t < 10 ^ length t"
    using digits_value_less [of s] digits_value_less [of t] Cons.prems Cons.hyps by auto
  have d: "48 \<le> byte_of c" "48 \<le> byte_of d" using Cons.prems by (simp_all add: is_digit_char_def)
  consider "byte_of c < byte_of d" | "byte_of d < byte_of c" | "c = d" using byte_of_inject by fastforce
  then show ?case
  proof cases
    case 1
    then have "Suc (byte_of c - 48) \<le> byte_of d - 48" using d by simp
    then have "Suc (byte_of c - 48) * 10 ^ length t \<le> (byte_of d - 48) * 10 ^ length t" by (rule mult_le_mono1)
    with 1 b Cons.hyps show ?thesis by (simp add: digits_value_Cons)
  next
    case 2
    then have "Suc (byte_of d - 48) \<le> byte_of c - 48" using d by simp
    then have "Suc (byte_of d - 48) * 10 ^ length t \<le> (byte_of c - 48) * 10 ^ length t" by (rule mult_le_mono1)
    with 2 b Cons.hyps show ?thesis by (simp add: digits_value_Cons)
  next
    case 3
    with Cons show ?thesis by (simp add: digits_value_Cons)
  qed
qed simp

lemma longer_digits:
  assumes "length s < length t" and "\<forall>c \<in> set s. is_digit_char c" and "\<forall>c \<in> set t. is_digit_char c"
    and "t = [] \<or> hd t \<noteq> CHR ''0''"
  shows "digits_value s < digits_value t"
proof -
  obtain c u where t: "t = c # u" using assms(1) by (cases t) auto
  have "c \<noteq> CHR ''0''" "is_digit_char c" using assms(3,4) t by simp_all
  moreover have "byte_of (CHR ''0'') = 48" by (simp add: byte_of_def)
  ultimately have "byte_of c \<noteq> 48" using byte_of_inject [of c "CHR ''0''"] by metis
  with \<open>is_digit_char c\<close> have "1 \<le> byte_of c - 48" unfolding is_digit_char_def by linarith
  then have "10 ^ length u \<le> (byte_of c - 48) * 10 ^ length u" by simp
  then have "10 ^ length u \<le> digits_value t" unfolding t digits_value_Cons by linarith
  moreover have "(10::nat) ^ length s \<le> 10 ^ length u" using assms(1) t by (intro power_increasing) simp_all
  moreover have "digits_value s < 10 ^ length s" by (rule digits_value_less [OF assms(2)])
  ultimately show ?thesis by linarith
qed

lemma trim_zeros_hd: "trim_zeros s = [] \<or> hd (trim_zeros s) \<noteq> CHR ''0''"
  by (induction s) (auto simp: trim_zeros_def)

lemma trim_zeros_set: "set (trim_zeros s) \<subseteq> set s"
  by (auto simp: trim_zeros_def dest: set_dropWhileD)

lemma number_compare_digits:
  assumes "\<forall>c \<in> set s. is_digit_char c" and "\<forall>c \<in> set t. is_digit_char c"
  shows "number_compare s t = (if digits_value s < digits_value t then -1
    else if digits_value t < digits_value s then 1 else 0)"
proof -
  have z: "\<forall>c \<in> set (trim_zeros s). is_digit_char c" "\<forall>c \<in> set (trim_zeros t). is_digit_char c"
    using assms trim_zeros_set by blast+
  have "digits_value s < digits_value t" if "length (trim_zeros s) < length (trim_zeros t)"
    using longer_digits [OF that z trim_zeros_hd] by (simp add: digits_value_trim)
  moreover have "digits_value t < digits_value s" if "length (trim_zeros t) < length (trim_zeros s)"
    using longer_digits [OF that z(2,1) trim_zeros_hd] by (simp add: digits_value_trim)
  ultimately show ?thesis
    using str_compare_digits [of "trim_zeros s" "trim_zeros t"] z
    by (auto simp: number_compare_def Let_def digits_value_trim not_less_iff_gr_or_eq)
qed

section \<open>Dotted numbers\<close>

fun dotted :: "nat list \<Rightarrow> string" where
  "dotted [] = []"
| "dotted [n] = FormatUint n"
| "dotted (n # m # ns) = FormatUint n @ ''.'' @ dotted (m # ns)"

text \<open>The reference: numbers from left to right, and the longer list wins a tie.\<close>

fun num_compare :: "nat list \<Rightarrow> nat list \<Rightarrow> int" where
  "num_compare [] [] = 0"
| "num_compare [] (y # ys) = -1"
| "num_compare (x # xs) [] = 1"
| "num_compare (x # xs) (y # ys) = (if x < y then -1 else if y < x then 1 else num_compare xs ys)"

lemma lower_digit: "is_digit_char c \<Longrightarrow> lower_char c = c"
  by (simp add: lower_char_def is_upper_char_def is_digit_char_def)

lemma dot_char: "lower_char (CHR ''.'') = CHR ''.''" "\<not> is_digit_char (CHR ''.'')" "\<not> is_letter_char (CHR ''.'')"
  by (simp_all add: lower_char_def is_upper_char_def is_digit_char_def is_letter_char_def is_lower_char_def byte_of_def)

lemma lower_dotted: "to_lower (dotted ns) = dotted ns"
  by (induction ns rule: dotted.induct)
     (auto simp: to_lower_def dot_char intro!: map_idI lower_digit dest: FormatUint_digits)

lemma hd_FormatUint: "is_digit_char (hd (FormatUint n))"
  using FormatUint_digits [OF hd_in_set [OF FormatUint_nonempty]] .

lemma trim_v_dotted: "trim_prefix (dotted ns) ''v'' = dotted ns"
proof (cases ns)
  case Nil
  then show ?thesis by (simp add: trim_prefix_def)
next
  case (Cons n ms)
  obtain c cs where c: "FormatUint n = c # cs" using FormatUint_nonempty by (cases "FormatUint n") auto
  then have "is_digit_char c" using hd_FormatUint [of n] by simp
  then have "c \<noteq> CHR ''v''" by (auto simp: is_digit_char_def byte_of_def)
  moreover obtain ds where "dotted ns = c # ds" using Cons c by (cases ms) auto
  ultimately show ?thesis by (simp add: trim_prefix_def has_prefix_def)
qed

lemma segments_digits:
  "(\<forall>c \<in> set ds. is_digit_char c) \<Longrightarrow> current \<noteq> [] \<Longrightarrow>
     segments_loop (ds @ rest) current True = segments_loop rest (current @ ds) True"
  by (induction ds arbitrary: current) auto

lemma segments_number:
  assumes "\<forall>c \<in> set ds. is_digit_char c" and "ds \<noteq> []"
  shows "segments_loop (ds @ rest) [] digit = segments_loop rest ds True"
  using assms segments_digits [of "tl ds" "[hd ds]" rest] by (cases ds) auto

lemma segments_dotted: "segments_loop (dotted ns) [] digit = map FormatUint ns"
proof (induction ns arbitrary: digit rule: dotted.induct)
  case 1
  then show ?case by simp
next
  case (2 n)
  show ?case using segments_number [of "FormatUint n" "[]" digit] FormatUint_digits FormatUint_nonempty by auto
next
  case (3 n m ns)
  have "segments_loop (dotted (n # m # ns)) [] digit = segments_loop (CHR ''.'' # dotted (m # ns)) (FormatUint n) True"
    using segments_number [of "FormatUint n" "CHR ''.'' # dotted (m # ns)" digit] FormatUint_digits
      FormatUint_nonempty by auto
  also have "\<dots> = FormatUint n # segments_loop (dotted (m # ns)) [] True"
    using FormatUint_nonempty by (simp add: dot_char)
  finally show ?case using "3.IH" by simp
qed

lemma versionSegments_dotted: "versionSegments (dotted ns) = map FormatUint ns"
  by (simp add: versionSegments_def trim_v_dotted lower_dotted segments_dotted)

lemma isWord_FormatUint [simp]: "\<not> isWord (FormatUint n)"
  using hd_FormatUint [of n] by (auto simp: isWord_def is_digit_char_def)

lemma number_compare_FormatUint:
  "number_compare (FormatUint a) (FormatUint b) = (if a < b then -1 else if b < a then 1 else 0)"
  using number_compare_digits [of "FormatUint a" "FormatUint b"] FormatUint_digits by simp

lemma natural_loop_numbers: "natural_loop (map FormatUint ns) (map FormatUint ms) = num_compare ns ms"
  by (induction ns ms rule: num_compare.induct) (auto simp: number_compare_FormatUint)

section \<open>What a range means\<close>

text \<open>
  The order in which the events of a range take effect: an event from the very beginning is before every
  other, and otherwise the version that the event names decides.
\<close>

definition from_start :: "event \<Rightarrow> bool" where
  "from_start e \<longleftrightarrow> ev_Introduced e = ''0''"

definition event_version :: "event \<Rightarrow> string" where
  "event_version e = hd (filter (\<lambda>v. v \<noteq> '''') [ev_Introduced e, ev_Fixed e, ev_LastAffected e] @ [''''])"

definition event_before :: "'v semver \<Rightarrow> string \<Rightarrow> event \<Rightarrow> event \<Rightarrow> bool" where
  "event_before sv ty a b \<longleftrightarrow> \<not> from_start b
     \<and> (from_start a \<or> compareVersions sv (event_version a) (event_version b) ty < 0)"

lemma event_less_before: "event_less sv ty = event_before sv ty"
proof (intro ext)
  fix a b
  have "getVersionFromEvent e = event_version e" for e
    by (simp add: event_version_def getVersionFromEvent_def)
  then show "event_less sv ty a b = event_before sv ty a b"
    by (auto simp: event_less_def event_before_def from_start_def Let_def)
qed

text \<open>When an event switches the state on, and when off.\<close>

definition turns_on :: "'v semver \<Rightarrow> string \<Rightarrow> string \<Rightarrow> event \<Rightarrow> bool" where
  "turns_on sv ty v e \<longleftrightarrow> ev_Introduced e = ''0''
     \<or> (ev_Introduced e \<noteq> '''' \<and> 0 \<le> compareVersions sv v (ev_Introduced e) ty)"

definition turns_off :: "'v semver \<Rightarrow> string \<Rightarrow> string \<Rightarrow> event \<Rightarrow> bool" where
  "turns_off sv ty v e \<longleftrightarrow> \<not> turns_on sv ty v e
     \<and> ((ev_Fixed e \<noteq> '''' \<and> 0 \<le> compareVersions sv v (ev_Fixed e) ty)
        \<or> (ev_LastAffected e \<noteq> '''' \<and> 0 < compareVersions sv v (ev_LastAffected e) ty))"

lemma event_step_cases:
  "event_step sv ty v e b = (if turns_on sv ty v e then True else if turns_off sv ty v e then False else b)"
  by (auto simp: event_step_def turns_on_def turns_off_def)

lemma fold_event_step:
  assumes "sorted_wrt lt es" and "\<And>a b. a \<in> set es \<Longrightarrow> b \<in> set es \<Longrightarrow> lt a b \<Longrightarrow> \<not> lt b a"
  shows "fold (event_step sv ty v) es False \<longleftrightarrow>
    (\<exists>i \<in> set es. turns_on sv ty v i \<and> (\<forall>e \<in> set es. turns_off sv ty v e \<longrightarrow> lt e i))"
  using assms
proof (induction es rule: rev_induct)
  case (snoc e es)
  have IH: "fold (event_step sv ty v) es False \<longleftrightarrow>
      (\<exists>i \<in> set es. turns_on sv ty v i \<and> (\<forall>e \<in> set es. turns_off sv ty v e \<longrightarrow> lt e i))"
    by (rule snoc.IH) (use snoc.prems in \<open>simp_all add: sorted_wrt_append\<close>)
  have before: "lt x e" "\<not> lt e x" if "x \<in> set es" for x
    using snoc.prems(1) snoc.prems(2) [of x e] that by (simp_all add: sorted_wrt_append)
  consider (on) "turns_on sv ty v e" | (off) "turns_off sv ty v e" "\<not> turns_on sv ty v e"
    | (neither) "\<not> turns_on sv ty v e" "\<not> turns_off sv ty v e" by blast
  then show ?case
  proof cases
    case on
    then have "\<forall>x \<in> set (es @ [e]). turns_off sv ty v x \<longrightarrow> lt x e"
      using before(1) by (auto simp: turns_off_def)
    with on have "\<exists>i \<in> set (es @ [e]). turns_on sv ty v i
        \<and> (\<forall>x \<in> set (es @ [e]). turns_off sv ty v x \<longrightarrow> lt x i)"
      by (intro bexI [of _ e]) simp_all
    with on show ?thesis by (simp add: event_step_cases)
  next
    case off
    have "\<not> (turns_on sv ty v i \<and> (\<forall>x \<in> set (es @ [e]). turns_off sv ty v x \<longrightarrow> lt x i))"
      if "i \<in> set (es @ [e])" for i
      using that off before(2) by (cases "i = e") auto
    with off show ?thesis by (simp only: fold_append comp_def fold_simps event_step_cases if_True if_False) blast
  next
    case neither
    then have "fold (event_step sv ty v) (es @ [e]) False = fold (event_step sv ty v) es False"
      by (simp add: event_step_cases)
    with IH neither show ?thesis by simp
  qed
qed simp

text \<open>Events that the sort can tell apart: no two of them at one version.\<close>

definition events_apart :: "'v semver \<Rightarrow> string \<Rightarrow> event list \<Rightarrow> bool" where
  "events_apart sv ty es \<longleftrightarrow> distinct es \<and> weak_order_on (set es) (event_before sv ty)
     \<and> (\<forall>a \<in> set es. \<forall>b \<in> set es. a = b \<or> event_before sv ty a b \<or> event_before sv ty b a)"

lemma sorted_events:
  assumes "events_apart sv ty es"
  shows "sorted_wrt (event_less sv ty) (sortRangeEvents sv es ty)"
proof -
  let ?L = "sortRangeEvents sv es ty"
  have s: "sorted_wrt (\<lambda>a b. \<not> event_less sv ty b a) ?L"
    using assms unfolding sortRangeEvents_def events_apart_def event_less_before by (intro sorted_stable_sort) blast
  have d: "distinct ?L" "set ?L = set es" using assms by (simp_all add: sortRangeEvents_def events_apart_def)
  show ?thesis
    unfolding sorted_wrt_iff_nth_less
  proof (intro allI impI)
    fix i j assume ij: "i < j" "j < length ?L"
    then have "?L ! i \<noteq> ?L ! j" using d(1) nth_eq_iff_index_eq by fastforce
    moreover have "?L ! i \<in> set es" "?L ! j \<in> set es" using ij d(2) nth_mem by fastforce+
    moreover have "\<not> event_less sv ty (?L ! j) (?L ! i)" using s ij unfolding sorted_wrt_iff_nth_less by blast
    ultimately show "event_less sv ty (?L ! i) (?L ! j)"
      using assms unfolding events_apart_def event_less_before by blast
  qed
qed

text \<open>
  A version is in a range when it has reached an \<open>introduced\<close> event that comes after every \<open>fixed\<close> and
  \<open>last_affected\<close> event that takes effect on it.
\<close>

definition in_range :: "'v semver \<Rightarrow> string \<Rightarrow> version_range \<Rightarrow> bool" where
  "in_range sv v r \<longleftrightarrow> (\<exists>i \<in> set (vr_Events r). turns_on sv (vr_Type r) v i
     \<and> (\<forall>e \<in> set (vr_Events r). turns_off sv (vr_Type r) v e \<longrightarrow> event_before sv (vr_Type r) e i))"

definition ranges_apart :: "'v semver \<Rightarrow> version_range list \<Rightarrow> bool" where
  "ranges_apart sv rs \<longleftrightarrow> (\<forall>r \<in> set rs. events_apart sv (vr_Type r) (vr_Events r))"

lemma sorted_events_in_range:
  assumes "events_apart sv (vr_Type r) (vr_Events r)"
  shows "fold (event_step sv (vr_Type r) v) (sortRangeEvents sv (vr_Events r) (vr_Type r)) False \<longleftrightarrow> in_range sv v r"
proof -
  let ?ty = "vr_Type r" and ?es = "vr_Events r"
  let ?L = "sortRangeEvents sv ?es ?ty"
  have set: "set ?L = set ?es" by (simp add: sortRangeEvents_def)
  have "\<not> event_less sv ?ty b a" if "a \<in> set ?L" "b \<in> set ?L" "event_less sv ?ty a b" for a b
    using that assms unfolding set events_apart_def weak_order_on_def event_less_before by blast
  then have "fold (event_step sv ?ty v) ?L False \<longleftrightarrow> (\<exists>i \<in> set ?L. turns_on sv ?ty v i
      \<and> (\<forall>e \<in> set ?L. turns_off sv ?ty v e \<longrightarrow> event_less sv ?ty e i))"
    by (intro fold_event_step [OF sorted_events [OF assms]])
  then show ?thesis unfolding set in_range_def event_less_before .
qed

lemma isVersionInRanges_iff:
  "ranges_apart sv rs \<Longrightarrow> isVersionInRanges sv v rs \<longleftrightarrow> (\<exists>r \<in> set rs. in_range sv v r)"
  unfolding ranges_apart_def
proof (induction rs)
  case (Cons r rs)
  then show ?case by (simp add: sorted_events_in_range)
qed simp

section \<open>Properties\<close>

text \<open>
  C34. On versions that are numbers joined by dots, the natural order compares the numbers from left to
  right as numbers, whatever their length, and a longer version wins a tie.
\<close>

theorem naturalCompare_numbers: "naturalCompare (dotted ns) (dotted ms) = num_compare ns ms"
  by (simp add: naturalCompare_def versionSegments_dotted natural_loop_numbers)

text \<open>
  The order of range events: \<open>sortRangeEvents\<close> keeps the events, and its result has no event before
  one that is less, whenever the comparison is a strict weak order on the events.
\<close>

theorem sortRangeEvents_sorts:
  assumes "weak_order_on (set es) (event_less sv ty)"
  shows "mset (sortRangeEvents sv es ty) = mset es
    \<and> sorted_wrt (\<lambda>a b. \<not> event_less sv ty b a) (sortRangeEvents sv es ty)"
  using sorted_stable_sort [OF assms] by (simp add: sortRangeEvents_def)

definition no_semver :: "unit semver" where
  "no_semver = \<lparr>sv_NewVersion = (\<lambda>_. None), sv_Compare = (\<lambda>_ _. 0)\<rparr>"

definition introduced :: "string \<Rightarrow> event" where
  "introduced v = \<lparr>ev_Introduced = v, ev_Fixed = '''', ev_LastAffected = '''', ev_Limit = ''''\<rparr>"

definition fixed_in :: "string \<Rightarrow> event" where
  "fixed_in v = \<lparr>ev_Introduced = '''', ev_Fixed = v, ev_LastAffected = '''', ev_Limit = ''''\<rparr>"

definition sample_events :: "event list" where
  "sample_events = [fixed_in ''1.10'', introduced ''2.0rc1'', introduced ''1.2'']"

lemma sample_events_apart: "events_apart no_semver ''ECOSYSTEM'' sample_events"
  unfolding events_apart_def by (intro conjI; code_simp)

theorem sortRangeEvents_sorts_witness:
  "mset (sortRangeEvents no_semver sample_events ''ECOSYSTEM'') = mset sample_events
    \<and> sortRangeEvents no_semver sample_events ''ECOSYSTEM''
      = [introduced ''1.2'', fixed_in ''1.10'', introduced ''2.0rc1'']"
proof -
  have "weak_order_on (set sample_events) (event_less no_semver ''ECOSYSTEM'')" by code_simp
  from sortRangeEvents_sorts [OF this]
  have "mset (sortRangeEvents no_semver sample_events ''ECOSYSTEM'') = mset sample_events" by blast
  moreover have "sortRangeEvents no_semver sample_events ''ECOSYSTEM''
      = [introduced ''1.2'', fixed_in ''1.10'', introduced ''2.0rc1'']" by code_simp
  ultimately show ?thesis by blast
qed

text \<open>
  C23. What the ranges of a record mean, in whatever order they and their events are listed: a version is
  affected if and only if one of the ranges has an \<open>introduced\<close> event that the version has reached and
  that comes after every \<open>fixed\<close> and \<open>last_affected\<close> event of the same range that takes effect on it. In
  each range the comparison of versions is a strict weak order that tells the events apart.
\<close>

theorem isVersionInRanges_meaning:
  assumes "\<forall>r \<in> set rs. events_apart sv (vr_Type r) (vr_Events r)"
  shows "isVersionInRanges sv v rs \<longleftrightarrow> (\<exists>r \<in> set rs. \<exists>i \<in> set (vr_Events r). turns_on sv (vr_Type r) v i
    \<and> (\<forall>e \<in> set (vr_Events r). turns_off sv (vr_Type r) v e \<longrightarrow> event_before sv (vr_Type r) e i))"
  using isVersionInRanges_iff [of sv rs v] assms unfolding ranges_apart_def in_range_def by blast

definition sample_range :: version_range where
  "sample_range = \<lparr>vr_Type = ''ECOSYSTEM'', vr_Repo = '''', vr_Events = sample_events\<rparr>"

definition second_range :: version_range where
  "second_range = \<lparr>vr_Type = ''ECOSYSTEM'', vr_Repo = '''', vr_Events = [introduced ''1.11'', fixed_in ''1.12'']\<rparr>"

lemma sample_ranges_apart: "\<forall>r \<in> set [sample_range, second_range]. events_apart no_semver (vr_Type r) (vr_Events r)"
proof -
  have "events_apart no_semver (vr_Type second_range) (vr_Events second_range)"
    unfolding events_apart_def by (intro conjI; code_simp)
  then show ?thesis using sample_events_apart by (simp add: sample_range_def)
qed

theorem isVersionInRanges_meaning_witness:
  "isVersionInRanges no_semver ''1.9'' [sample_range, second_range]
    \<and> isVersionInRanges no_semver ''v1.11'' [sample_range, second_range]
    \<and> \<not> isVersionInRanges no_semver ''1.12'' [sample_range, second_range]"
proof -
  note meaning = isVersionInRanges_meaning [OF sample_ranges_apart]
  let ?spec = "\<lambda>v. \<exists>r \<in> set [sample_range, second_range]. \<exists>i \<in> set (vr_Events r). turns_on no_semver (vr_Type r) v i
    \<and> (\<forall>e \<in> set (vr_Events r). turns_off no_semver (vr_Type r) v e \<longrightarrow> event_before no_semver (vr_Type r) e i)"
  have "?spec ''1.9''" "?spec ''v1.11''" "\<not> ?spec ''1.12''" by code_simp+
  then show ?thesis unfolding meaning by blast
qed

text \<open>
  C38. The natural order is antisymmetric, so every version equals itself, but it is not transitive: a
  release candidate is before its release, which is before its post release, which is before the
  release candidate.
\<close>

theorem naturalCompare_cycle:
  "naturalCompare w v = - naturalCompare v w \<and> naturalCompare v v = 0
    \<and> naturalCompare ''1.0rc1'' ''1.0'' < 0 \<and> naturalCompare ''1.0'' ''1.0.post1'' < 0
    \<and> naturalCompare ''1.0.post1'' ''1.0rc1'' < 0"
proof -
  have "naturalCompare ''1.0rc1'' ''1.0'' < 0" "naturalCompare ''1.0'' ''1.0.post1'' < 0"
    "naturalCompare ''1.0.post1'' ''1.0rc1'' < 0"
    by code_simp+
  then show ?thesis using naturalCompare_antisym_lemma [of w v] naturalCompare_antisym_lemma [of v v] by simp
qed

end
