(* ===== verification/Vuln_Ingest.thy ===== *)
theory Vuln_Ingest
  imports Ingest_Steps Purl Versions
begin

text \<open>
  OSV records, the first half of \<open>pkg/tools/ingest/vuln.go\<close>: the record, the index of library nodes by
  package name, and the ingestion that links every affected library to the node of the vulnerability.
  Decoding and encoding JSON, purls and semantic versions are arguments of the model.
\<close>

section \<open>The record\<close>

record severity =
  sev_Type :: string
  sev_Score :: string

record osv_package =
  op_Ecosystem :: string
  op_Name :: string
  op_Purl :: string

record affected =
  af_Package :: osv_package
  af_Severity :: "severity list"
  af_Ranges :: "version_range list"
  af_Versions :: "string list"
  af_EcosystemSpecific :: "string \<rightharpoonup> metadata"
  af_DatabaseSpecific :: "string \<rightharpoonup> metadata"

record reference =
  rf_Type :: string
  rf_URL :: string

record credit =
  cr_Name :: string
  cr_Contact :: "string list"
  cr_Type :: string

record vulnerability =
  vu_SchemaVersion :: string
  vu_ID :: string
  vu_Modified :: string
  vu_Published :: string
  vu_Withdrawn :: string
  vu_Aliases :: "string list"
  vu_Related :: "string list"
  vu_Summary :: string
  vu_Details :: string
  vu_Severity :: "severity list"
  vu_Affected :: "affected list"
  vu_References :: "reference list"
  vu_Credits :: "credit list"
  vu_DatabaseSpecific :: "string \<rightharpoonup> metadata"

text \<open>The libraries that the ingestion calls.\<close>

record 'v osv_libs =
  ol_purl :: "string \<Rightarrow> package_url res"
  ol_semver :: "'v semver"
  ol_Unmarshal :: "string \<Rightarrow> vulnerability res"
  ol_Marshal :: "vulnerability \<Rightarrow> string res"

section \<open>Affected packages\<close>

fun isPackageAffected_loop :: "'v semver \<Rightarrow> affected list \<Rightarrow> package_info \<Rightarrow> bool" where
  "isPackageAffected_loop sv [] pkgInfo = False"
| "isPackageAffected_loop sv (a # as) pkgInfo =
     (if op_Name (af_Package a) \<noteq> pi_Name pkgInfo \<or> op_Ecosystem (af_Package a) \<noteq> pi_Ecosystem pkgInfo then
        isPackageAffected_loop sv as pkgInfo
      else if isVersionIncluded (pi_Version pkgInfo) (af_Versions a) then True
      else if isVersionInRanges sv (pi_Version pkgInfo) (af_Ranges a) then True
      else isPackageAffected_loop sv as pkgInfo)"

definition isPackageAffected :: "'v semver \<Rightarrow> vulnerability \<Rightarrow> package_info \<Rightarrow> bool" where
  "isPackageAffected sv vuln pkgInfo = isPackageAffected_loop sv (vu_Affected vuln) pkgInfo"

section \<open>The library index\<close>

type_synonym indexedPackage = "id \<times> package_info"

text \<open>A missing name reads as the empty slice.\<close>

type_synonym library_index = "string \<Rightarrow> indexedPackage list"

fun index_nodes :: "(string \<Rightarrow> package_url res) \<Rightarrow> node list \<Rightarrow> library_index \<Rightarrow> library_index" where
  "index_nodes purl [] idx = idx"
| "index_nodes purl (n # ns) idx =
     (if n_Type n \<noteq> LibraryType \<or> \<not> has_prefix (n_Name n) pkg_prefix then index_nodes purl ns idx
      else
        (case PURLToPackage purl (n_Name n) of
           Inl err \<Rightarrow> index_nodes purl ns idx
         | Inr info \<Rightarrow> index_nodes purl ns (idx(pi_Name info := idx (pi_Name info) @ [(n_ID n, info)]))))"

definition BuildLibraryIndex ::
  "range_order \<Rightarrow> (string \<Rightarrow> package_url res) \<Rightarrow> 's storage \<Rightarrow> 's \<Rightarrow> library_index res" where
  "BuildLibraryIndex ro purl st s =
     bind_res (ctx ''failed to get all keys'' (st_GetAllKeys st s)) (\<lambda>ks.
     bind_res (ctx ''failed to get nodes from storage'' (st_GetNodes st s ks)) (\<lambda>nodes.
     Inr (index_nodes purl (map snd (go_range ro 0 nodes)) (\<lambda>_. []))))"

section \<open>Ingestion\<close>

text \<open>The body of the inner loop: the node of the vulnerability, a fresh copy of the library, the edge.\<close>

definition link_candidate ::
  "'s storage \<Rightarrow> 's \<Rightarrow> vulnerability \<Rightarrow> string \<Rightarrow> id \<Rightarrow> 's \<times> unit res" where
  "link_candidate st s vuln vulnData i =
     bind_st (ctx_st ''failed to add vulnerabilityType node to storage''
       (AddNode st s VulnerabilityType (MBytes vulnData) (vu_ID vuln))) (\<lambda>s1 vulnNode.
     bind_st (ctx_st ''failed to get node'' (s1, st_GetNode st s1 i)) (\<lambda>s2 n.
       let r = SetDependency (Some st) s2 (Some n) (Some vulnNode)
       in ctx_st ''failed to add dependency edge to vulnerabilityType node'' (fst (fst r), snd r)))"

fun link_candidates ::
  "'v semver \<Rightarrow> 's storage \<Rightarrow> vulnerability \<Rightarrow> string \<Rightarrow> 's \<Rightarrow> id set \<Rightarrow> indexedPackage list \<Rightarrow> 's \<times> id set res" where
  "link_candidates sv st vuln vulnData s seen [] = (s, Inr seen)"
| "link_candidates sv st vuln vulnData s seen (c # cs) =
     (if fst c \<in> seen \<or> \<not> isPackageAffected sv vuln (snd c) then
        link_candidates sv st vuln vulnData s seen cs
      else
        bind_st (link_candidate st s vuln vulnData (fst c)) (\<lambda>s1 _.
          link_candidates sv st vuln vulnData s1 (insert (fst c) seen) cs))"

fun link_affected ::
  "'v semver \<Rightarrow> 's storage \<Rightarrow> vulnerability \<Rightarrow> string \<Rightarrow> library_index \<Rightarrow> 's \<Rightarrow> id set \<Rightarrow> affected list \<Rightarrow> 's \<times> unit res" where
  "link_affected sv st vuln vulnData idx s seen [] = (s, Inr ())"
| "link_affected sv st vuln vulnData idx s seen (a # as) =
     bind_st (link_candidates sv st vuln vulnData s seen (idx (op_Name (af_Package a)))) (\<lambda>s1 seen1.
       link_affected sv st vuln vulnData idx s1 seen1 as)"

definition VulnerabilitiesWithIndex ::
  "'v osv_libs \<Rightarrow> 's storage \<Rightarrow> 's \<Rightarrow> string \<Rightarrow> library_index \<Rightarrow> 's \<times> unit res" where
  "VulnerabilitiesWithIndex libs st s data idx =
     (if length data = 0 then (s, Inl (Err ''data is empty''))
      else
        (case ctx ''failed to unmarshal vulnerabilityType data'' (ol_Unmarshal libs data) of
           Inl e \<Rightarrow> (s, Inl e)
         | Inr vuln \<Rightarrow>
             (case ctx ''failed to marshal vulnerability'' (ol_Marshal libs vuln) of
                Inl e \<Rightarrow> (s, Inl e)
              | Inr vulnData \<Rightarrow>
                  link_affected (ol_semver libs) st vuln vulnData idx s {} (vu_Affected vuln))))"

definition Vulnerabilities ::
  "range_order \<Rightarrow> 'v osv_libs \<Rightarrow> 's storage \<Rightarrow> 's \<Rightarrow> string \<Rightarrow> 's \<times> unit res" where
  "Vulnerabilities ro libs st s data =
     (case BuildLibraryIndex ro (ol_purl libs) st s of
        Inl e \<Rightarrow> (s, Inl e)
      | Inr idx \<Rightarrow> VulnerabilitiesWithIndex libs st s data idx)"

section \<open>What is affected\<close>

lemma isPackageAffected_iff:
  "isPackageAffected sv vuln info \<longleftrightarrow> (\<exists>a \<in> set (vu_Affected vuln).
     op_Name (af_Package a) = pi_Name info \<and> op_Ecosystem (af_Package a) = pi_Ecosystem info
     \<and> (pi_Version info \<in> set (af_Versions a) \<or> isVersionInRanges sv (pi_Version info) (af_Ranges a)))"
proof -
  have "isPackageAffected_loop sv as info \<longleftrightarrow> (\<exists>a \<in> set as.
     op_Name (af_Package a) = pi_Name info \<and> op_Ecosystem (af_Package a) = pi_Ecosystem info
     \<and> (pi_Version info \<in> set (af_Versions a) \<or> isVersionInRanges sv (pi_Version info) (af_Ranges a)))" for as
    by (induction as) auto
  then show ?thesis by (simp add: isPackageAffected_def)
qed

text \<open>
  What an OSV record affects: a version of a package that one of its entries names, by name and
  ecosystem, and lists or has in one of its ranges.
\<close>

definition affects :: "'v semver \<Rightarrow> vulnerability \<Rightarrow> package_info \<Rightarrow> bool" where
  "affects sv vuln info \<longleftrightarrow> (\<exists>a \<in> set (vu_Affected vuln).
     op_Name (af_Package a) = pi_Name info \<and> op_Ecosystem (af_Package a) = pi_Ecosystem info
     \<and> (pi_Version info \<in> set (af_Versions a) \<or> (\<exists>r \<in> set (af_Ranges a). in_range sv (pi_Version info) r)))"

lemma isPackageAffected_affects:
  assumes "\<forall>a \<in> set (vu_Affected vuln). ranges_apart sv (af_Ranges a)"
  shows "isPackageAffected sv vuln info \<longleftrightarrow> affects sv vuln info"
proof -
  have "isVersionInRanges sv (pi_Version info) (af_Ranges a) \<longleftrightarrow> (\<exists>r \<in> set (af_Ranges a). in_range sv (pi_Version info) r)"
    if "a \<in> set (vu_Affected vuln)" for a
    using assms that isVersionInRanges_iff by blast
  then show ?thesis unfolding isPackageAffected_iff affects_def by (intro bex_cong [OF refl]) simp
qed

lemma affected_name:
  "isPackageAffected sv vuln info \<Longrightarrow> \<exists>a \<in> set (vu_Affected vuln). op_Name (af_Package a) = pi_Name info"
  unfolding isPackageAffected_iff by blast

text \<open>The libraries of a graph, with what their names say.\<close>

definition library_of :: "(string \<Rightarrow> package_url res) \<Rightarrow> (id \<rightharpoonup> node) \<Rightarrow> id \<Rightarrow> package_info \<Rightarrow> bool" where
  "library_of purl nodes i info \<longleftrightarrow> (\<exists>n. nodes i = Some n \<and> n_Type n = LibraryType
     \<and> has_prefix (n_Name n) pkg_prefix \<and> PURLToPackage purl (n_Name n) = Inr info)"

text \<open>An index lists, under every name, exactly the libraries of that name.\<close>

definition index_fresh :: "(string \<Rightarrow> package_url res) \<Rightarrow> (id \<rightharpoonup> node) \<Rightarrow> library_index \<Rightarrow> bool" where
  "index_fresh purl nodes idx \<longleftrightarrow> (\<forall>x i info. (i, info) \<in> set (idx x) \<longleftrightarrow> library_of purl nodes i info \<and> pi_Name info = x)"

lemma index_freshD:
  "index_fresh purl nodes idx \<Longrightarrow> (i, info) \<in> set (idx x) \<longleftrightarrow> library_of purl nodes i info \<and> pi_Name info = x"
  unfolding index_fresh_def by blast

lemma index_nodes_mem:
  "(i, info) \<in> set (index_nodes purl ns idx x) \<longleftrightarrow> (i, info) \<in> set (idx x)
     \<or> (\<exists>n \<in> set ns. n_ID n = i \<and> n_Type n = LibraryType \<and> has_prefix (n_Name n) pkg_prefix
          \<and> PURLToPackage purl (n_Name n) = Inr info \<and> pi_Name info = x)"
proof (induction ns arbitrary: idx)
  case (Cons n ns)
  show ?case
  proof (cases "n_Type n \<noteq> LibraryType \<or> \<not> has_prefix (n_Name n) pkg_prefix")
    case True
    then show ?thesis using Cons.IH by auto
  next
    case False
    show ?thesis
    proof (cases "PURLToPackage purl (n_Name n)")
      case (Inl e)
      with False show ?thesis using Cons.IH by auto
    next
      case (Inr u)
      with False show ?thesis using Cons.IH by auto
    qed
  qed
qed simp

text \<open>
  What ingestion does to a graph: the identifiers in \<open>L\<close> get an edge to the node of the vulnerability,
  which is added when it is new, and everything else is kept. Without \<open>L\<close> nothing changes at all.
\<close>

definition linked_by :: "gstate \<Rightarrow> string \<Rightarrow> id set \<Rightarrow> id \<Rightarrow> gstate \<Rightarrow> bool" where
  "linked_by g vid L v g' \<longleftrightarrow> g_names g' = (g_names g)(vid \<mapsto> v)
     \<and> edges (g_nodes g') ChildrenDirection = edges (g_nodes g) ChildrenDirection \<union> L \<times> {v}
     \<and> (case g_names g vid of None \<Rightarrow> v \<notin> dom (g_nodes g) \<and> g_next g' = Suc (g_next g)
        | Some w \<Rightarrow> v = w \<and> g_next g' = g_next g)"

definition linked :: "gstate \<Rightarrow> string \<Rightarrow> id set \<Rightarrow> gstate \<Rightarrow> bool" where
  "linked g vid L g' \<longleftrightarrow> graph_ok g' \<and> keeps_nodes (g_nodes g) (g_nodes g')
     \<and> (if L = {} then g' = g else \<exists>v. linked_by g vid L v g')"

definition vuln_room :: "gstate \<Rightarrow> string \<Rightarrow> bool" where
  "vuln_room g vid \<longleftrightarrow> (if g_names g vid = None then Suc (Suc (g_next g)) else Suc (g_next g)) < 4294967296"

lemma linked_refl: "graph_ok g \<Longrightarrow> linked g vid {} g"
  by (simp add: linked_def)

lemma linkedE:
  assumes "linked g vid L g'" and "L \<noteq> {}"
  obtains v where "linked_by g vid L v g'"
  using assms by (auto simp: linked_def)

lemma linkedD: "linked g vid L g' \<Longrightarrow> graph_ok g'" "linked g vid L g' \<Longrightarrow> keeps_nodes (g_nodes g) (g_nodes g')"
  by (simp_all add: linked_def)

lemma linked_byD:
  assumes "linked_by g vid L v g'"
  shows "g_names g' = (g_names g)(vid \<mapsto> v)"
    "edges (g_nodes g') ChildrenDirection = edges (g_nodes g) ChildrenDirection \<union> L \<times> {v}"
  using assms by (simp_all add: linked_by_def)

lemma linked_by_trans:
  assumes "linked_by g vid L1 v g1" and "linked_by g1 vid L2 w g2"
  shows "linked_by g vid (L1 \<union> L2) v g2"
proof -
  have vid: "g_names g1 vid = Some v" using linked_byD(1) [OF assms(1)] by simp
  then have w: "w = v" "g_next g2 = g_next g1" using assms(2) by (simp_all add: linked_by_def)
  have "g_names g2 = (g_names g)(vid \<mapsto> v)"
    using linked_byD(1) [OF assms(1)] linked_byD(1) [OF assms(2)] w(1) by simp
  moreover have "edges (g_nodes g2) ChildrenDirection = edges (g_nodes g) ChildrenDirection \<union> (L1 \<union> L2) \<times> {v}"
    unfolding linked_byD(2) [OF assms(2)] linked_byD(2) [OF assms(1)] w(1) by blast
  ultimately show ?thesis
    using assms(1) w(2) unfolding linked_by_def by (cases "g_names g vid") simp_all
qed

lemma linked_trans:
  assumes "linked g vid L1 g1" and "linked g1 vid L2 g2"
  shows "linked g vid (L1 \<union> L2) g2"
proof -
  consider "L1 = {}" | "L2 = {}" | "L1 \<noteq> {}" "L2 \<noteq> {}" by blast
  then show ?thesis
  proof cases
    case 3
    obtain v w where "linked_by g vid L1 v g1" "linked_by g1 vid L2 w g2"
      using linkedE [OF assms(1) 3(1)] linkedE [OF assms(2) 3(2)] by metis
    from linked_by_trans [OF this] 3(1) show ?thesis
      using linkedD(1) [OF assms(2)] keeps_nodes_trans [OF linkedD(2) [OF assms(1)] linkedD(2) [OF assms(2)]]
      unfolding linked_def by auto
  qed (use assms in \<open>simp_all add: linked_def\<close>)
qed

lemma linked_room:
  assumes "linked g vid L g'" and "vuln_room g vid"
  shows "vuln_room g' vid"
proof (cases "L = {}")
  case True
  then show ?thesis using assms by (simp add: linked_def)
next
  case False
  then obtain v where v: "linked_by g vid L v g'" using linkedE [OF assms(1)] by blast
  then have "g_names g' vid = Some v" using linked_byD(1) by simp
  with v assms(2) show ?thesis
    by (cases "g_names g vid") (simp_all add: linked_by_def vuln_room_def)
qed

lemma linked_dom:
  assumes "linked g vid L g'"
  shows "dom (g_nodes g) \<subseteq> dom (g_nodes g')"
proof
  fix i assume "i \<in> dom (g_nodes g)"
  then obtain n where "g_nodes g i = Some n" by blast
  from keeps_nodesD [OF linkedD(2) [OF assms] this] show "i \<in> dom (g_nodes g')" by blast
qed

lemma linked_other:
  assumes "linked g vid L g'" and "i \<in> dom (g_nodes g)" and "g_names g vid \<noteq> Some i"
  shows "g_names g' vid \<noteq> Some i"
proof (cases "L = {}")
  case True
  then show ?thesis using assms by (simp add: linked_def)
next
  case False
  then obtain v where v: "linked_by g vid L v g'" using linkedE [OF assms(1)] by blast
  then have "g_names g' vid = Some v" using linked_byD(1) by simp
  with v assms(2,3) show ?thesis by (cases "g_names g vid") (auto simp: linked_by_def)
qed

context graph_store
begin

lemma link_candidate_ok:
  assumes wf: "wf s" and ok: "graph_ok (abs s)" and room: "vuln_room (abs s) (vu_ID vuln)"
    and i: "i \<in> dom (g_nodes (abs s))" "g_names (abs s) (vu_ID vuln) \<noteq> Some i"
  shows "\<exists>s'. link_candidate st s vuln d i = (s', Inr ()) \<and> wf s'
    \<and> linked (abs s) (vu_ID vuln) {i} (abs s')"
proof -
  let ?vid = "vu_ID vuln"
  have r: "Suc (g_next (abs s)) < 4294967296" using room by (auto simp: vuln_room_def split: if_splits)
  obtain s1 v where s1: "AddNode st s VulnerabilityType (MBytes d) ?vid = (s1, Inr v)" "wf s1" "graph_ok (abs s1)"
    "n_Name v = ?vid" "g_nodes (abs s1) (n_ID v) = Some (norm v)"
    "g_names (abs s1) = (g_names (abs s))(?vid \<mapsto> n_ID v)" "g_nodes (abs s) \<subseteq>\<^sub>m g_nodes (abs s1)"
    "edges (g_nodes (abs s1)) ChildrenDirection = edges (g_nodes (abs s)) ChildrenDirection"
    "g_next (abs s1) = (if g_names (abs s) ?vid = None then Suc (g_next (abs s)) else g_next (abs s))"
    "g_names (abs s) ?vid = None \<longrightarrow> n_Type v = VulnerabilityType \<and> n_ID v \<notin> dom (g_nodes (abs s))"
    using AddNode_step [OF wf ok r, of VulnerabilityType "MBytes d" ?vid] by - (elim exE conjE, rule that; assumption)
  have known: "n_ID v = w" if w: "g_names (abs s) ?vid = Some w" for w
  proof -
    obtain n where "AddNode st s VulnerabilityType (MBytes d) ?vid = (s, Inr n)" "g_nodes (abs s) w = Some n"
      using AddNode_known [OF wf ok w] by blast
    then show ?thesis using s1(1) stored_nodes [OF wf ok] by fastforce
  qed
  obtain n where n: "g_nodes (abs s) i = Some n" using i(1) by blast
  then have n1: "g_nodes (abs s1) i = Some n" using s1(7) by (auto simp: map_le_def dom_def)
  note read = stored_nodes [OF s1(2,3) n1]
  have ne: "n_ID n \<noteq> n_ID v" using i known s1(10) read by (cases "g_names (abs s) ?vid") auto
  have cur: "g_nodes (abs s1) (n_ID n) = Some (norm n)" using n1 read norm_stored [OF s1(2) n1] by simp
  obtain s2 x' y' where s2: "SetDependency (Some st) s1 (Some n) (Some v) = ((s2, Some x', Some y'), Inr ())"
    "wf s2" "graph_ok (abs s2)"
    "edges (g_nodes (abs s2)) ChildrenDirection
       = insert (n_ID n, n_ID v) (edges (g_nodes (abs s1)) ChildrenDirection)"
    "keeps_nodes (g_nodes (abs s1)) (g_nodes (abs s2))" "g_names (abs s2) = g_names (abs s1)"
    "g_next (abs s2) = g_next (abs s1)"
    using link_step [OF s1(2,3) ne cur s1(5)] by blast
  have run: "link_candidate st s vuln d i = (s2, Inr ())"
    using s1(1) read s2(1) by (simp add: link_candidate_def Let_def)
  have keeps: "keeps_nodes (g_nodes (abs s)) (g_nodes (abs s2))"
    using keeps_nodes_trans [OF keeps_nodes_le [OF s1(7)] s2(5)] .
  have "g_names (abs s2) = (g_names (abs s))(?vid \<mapsto> n_ID v)" using s2(6) s1(6) by simp
  moreover have "edges (g_nodes (abs s2)) ChildrenDirection
      = edges (g_nodes (abs s)) ChildrenDirection \<union> {i} \<times> {n_ID v}"
    using s2(4) s1(8) read by auto
  ultimately have "linked_by (abs s) ?vid {i} (n_ID v) (abs s2)"
    unfolding linked_by_def using s2(7) s1(9,10) known by (cases "g_names (abs s) ?vid") simp_all
  then have "linked (abs s) ?vid {i} (abs s2)"
    using s2(3) keeps by (auto simp: linked_def)
  with run s2(2) show ?thesis by blast
qed

lemma link_candidates_ok:
  assumes "wf s" and "graph_ok (abs s)" and "vuln_room (abs s) (vu_ID vuln)"
    and "\<forall>c \<in> set cs. fst c \<in> dom (g_nodes (abs s)) \<and> g_names (abs s) (vu_ID vuln) \<noteq> Some (fst c)"
  shows "\<exists>s'. link_candidates sv st vuln d s seen cs
      = (s', Inr (seen \<union> {i. \<exists>info. (i, info) \<in> set cs \<and> isPackageAffected sv vuln info})) \<and> wf s'
    \<and> linked (abs s) (vu_ID vuln) ({i. \<exists>info. (i, info) \<in> set cs \<and> isPackageAffected sv vuln info} - seen) (abs s')"
  using assms
proof (induction cs arbitrary: s seen)
  case Nil
  then show ?case by (simp add: linked_refl)
next
  case (Cons c cs)
  let ?A = "\<lambda>cs. {i. \<exists>info. (i, info) \<in> set cs \<and> isPackageAffected sv vuln info}"
  show ?case
  proof (cases "fst c \<in> seen \<or> \<not> isPackageAffected sv vuln (snd c)")
    case True
    then have A: "seen \<union> ?A (c # cs) = seen \<union> ?A cs" "?A (c # cs) - seen = ?A cs - seen" by (cases c, auto)+
    show ?thesis unfolding A using Cons True by simp
  next
    case False
    let ?i = "fst c"
    obtain s1 where s1: "link_candidate st s vuln d ?i = (s1, Inr ())" "wf s1"
      "linked (abs s) (vu_ID vuln) {?i} (abs s1)"
      using link_candidate_ok [OF Cons.prems(1-3)] Cons.prems(4) by fastforce
    have side: "\<forall>c \<in> set cs. fst c \<in> dom (g_nodes (abs s1)) \<and> g_names (abs s1) (vu_ID vuln) \<noteq> Some (fst c)"
      using Cons.prems(4) linked_dom [OF s1(3)] linked_other [OF s1(3)] by (meson list.set_intros(2) subsetD)
    have ok1: "graph_ok (abs s1)" using s1(3) by (simp add: linked_def)
    obtain s2 where s2: "link_candidates sv st vuln d s1 (insert ?i seen) cs = (s2, Inr (insert ?i seen \<union> ?A cs))"
      "wf s2" "linked (abs s1) (vu_ID vuln) (?A cs - insert ?i seen) (abs s2)"
      using Cons.IH [OF s1(2) ok1 linked_room [OF s1(3) Cons.prems(3)] side, of "insert ?i seen"] by blast
    have A: "insert ?i seen \<union> ?A cs = seen \<union> ?A (c # cs)"
      "{?i} \<union> (?A cs - insert ?i seen) = ?A (c # cs) - seen"
      using False by (cases c, auto)+
    have "link_candidates sv st vuln d s seen (c # cs) = (s2, Inr (seen \<union> ?A (c # cs)))"
      using False s1(1) s2(1) unfolding A(1) by simp
    moreover have "linked (abs s) (vu_ID vuln) (?A (c # cs) - seen) (abs s2)"
      using linked_trans [OF s1(3) s2(3)] unfolding A(2) .
    ultimately show ?thesis using s2(2) by blast
  qed
qed

lemma link_affected_ok:
  assumes "wf s" and "graph_ok (abs s)" and "vuln_room (abs s) (vu_ID vuln)"
    and "\<forall>a \<in> set as. \<forall>c \<in> set (idx (op_Name (af_Package a))).
      fst c \<in> dom (g_nodes (abs s)) \<and> g_names (abs s) (vu_ID vuln) \<noteq> Some (fst c)"
  shows "\<exists>s'. link_affected sv st vuln d idx s seen as = (s', Inr ()) \<and> wf s'
    \<and> linked (abs s) (vu_ID vuln) ({i. \<exists>a \<in> set as. \<exists>info. (i, info) \<in> set (idx (op_Name (af_Package a)))
         \<and> isPackageAffected sv vuln info} - seen) (abs s')"
  using assms
proof (induction as arbitrary: s seen)
  case Nil
  then show ?case by (simp add: linked_refl)
next
  case (Cons a as)
  let ?cs = "idx (op_Name (af_Package a))"
  let ?A = "{i. \<exists>info. (i, info) \<in> set ?cs \<and> isPackageAffected sv vuln info}"
  let ?B = "\<lambda>as. {i. \<exists>a \<in> set as. \<exists>info. (i, info) \<in> set (idx (op_Name (af_Package a)))
         \<and> isPackageAffected sv vuln info}"
  obtain s1 where s1: "link_candidates sv st vuln d s seen ?cs = (s1, Inr (seen \<union> ?A))" "wf s1"
    "linked (abs s) (vu_ID vuln) (?A - seen) (abs s1)"
    using link_candidates_ok [OF Cons.prems(1-3), of ?cs sv d seen] Cons.prems(4) by fastforce
  have ok1: "graph_ok (abs s1)" using s1(3) by (simp add: linked_def)
  have side: "\<forall>a \<in> set as. \<forall>c \<in> set (idx (op_Name (af_Package a))).
      fst c \<in> dom (g_nodes (abs s1)) \<and> g_names (abs s1) (vu_ID vuln) \<noteq> Some (fst c)"
    using Cons.prems(4) linked_dom [OF s1(3)] linked_other [OF s1(3)] by (meson list.set_intros(2) subsetD)
  obtain s2 where s2: "link_affected sv st vuln d idx s1 (seen \<union> ?A) as = (s2, Inr ())" "wf s2"
    "linked (abs s1) (vu_ID vuln) (?B as - (seen \<union> ?A)) (abs s2)"
    using Cons.IH [OF s1(2) ok1 linked_room [OF s1(3) Cons.prems(3)] side, of "seen \<union> ?A"] by blast
  have "(?A - seen) \<union> (?B as - (seen \<union> ?A)) = ?B (a # as) - seen" by auto
  with linked_trans [OF s1(3) s2(3)] have "linked (abs s) (vu_ID vuln) (?B (a # as) - seen) (abs s2)" by simp
  moreover have "link_affected sv st vuln d idx s seen (a # as) = (s2, Inr ())" using s1(1) s2(1) by simp
  ultimately show ?case using s2(2) by blast
qed

lemma BuildLibraryIndex_ok:
  assumes wf: "wf s" and ok: "graph_ok (abs s)" and ro: "range_ok ro"
  shows "\<exists>idx. BuildLibraryIndex ro purl st s = Inr idx \<and> index_fresh purl (g_nodes (abs s)) idx"
proof -
  obtain ks where ks: "st_GetAllKeys st s = Inr ks" "set ks = dom (g_nodes (abs s))"
    using GetAllKeys [OF wf] by blast
  obtain al where al: "st_GetNodes st s ks = Inr al" "distinct (keys_of al)" "map_of al = g_nodes (abs s) |` set ks"
    using GetNodes [OF wf] by blast
  have map: "map_of al = g_nodes (abs s)" using al(3) ks(2) by (auto simp: fun_eq_iff restrict_map_def)
  have mem: "n \<in> set (map snd (go_range ro 0 al)) \<and> n_ID n = i \<longleftrightarrow> g_nodes (abs s) i = Some n" for n i
  proof -
    have "(j, n) \<in> set al \<longleftrightarrow> g_nodes (abs s) j = Some n" for j
      using map map_of_eq_Some_iff [OF al(2), of j n] by simp
    then have "n \<in> snd ` set al \<longleftrightarrow> (\<exists>j. g_nodes (abs s) j = Some n)" by force
    then show ?thesis using ro stored_nodes [OF wf ok] by auto
  qed
  let ?ns = "map snd (go_range ro 0 al)"
  have "(i, info) \<in> set (index_nodes purl ?ns (\<lambda>_. []) x)
      \<longleftrightarrow> library_of purl (g_nodes (abs s)) i info \<and> pi_Name info = x" for x i info
    unfolding index_nodes_mem library_of_def using mem [of _ i] by (auto simp del: set_map)
  moreover have "BuildLibraryIndex ro purl st s = Inr (index_nodes purl ?ns (\<lambda>_. []))"
    by (simp add: BuildLibraryIndex_def ks(1) al(1))
  ultimately show ?thesis unfolding index_fresh_def by blast
qed

text \<open>The whole ingestion: every affected library, and no other node, is linked to the vulnerability.\<close>

lemma VulnerabilitiesWithIndex_ok:
  assumes wf: "wf s" and ok: "graph_ok (abs s)" and room: "vuln_room (abs s) (vu_ID vuln)"
    and idx: "index_fresh (ol_purl libs) (g_nodes (abs s)) idx"
    and data: "data \<noteq> ''''" "ol_Unmarshal libs data = Inr vuln" "ol_Marshal libs vuln = Inr d"
    and other: "\<forall>i info. library_of (ol_purl libs) (g_nodes (abs s)) i info \<longrightarrow> g_names (abs s) (vu_ID vuln) \<noteq> Some i"
  shows "\<exists>s'. VulnerabilitiesWithIndex libs st s data idx = (s', Inr ()) \<and> wf s'
    \<and> linked (abs s) (vu_ID vuln) {i. \<exists>info. library_of (ol_purl libs) (g_nodes (abs s)) i info
        \<and> isPackageAffected (ol_semver libs) vuln info} (abs s')"
proof -
  have dom: "i \<in> dom (g_nodes (abs s))" if "library_of (ol_purl libs) (g_nodes (abs s)) i info" for i info
    using that unfolding library_of_def by blast
  have side: "\<forall>a \<in> set (vu_Affected vuln). \<forall>c \<in> set (idx (op_Name (af_Package a))).
      fst c \<in> dom (g_nodes (abs s)) \<and> g_names (abs s) (vu_ID vuln) \<noteq> Some (fst c)"
    using index_freshD [OF idx] dom other by fastforce
  let ?L = "{i. \<exists>a \<in> set (vu_Affected vuln). \<exists>info. (i, info) \<in> set (idx (op_Name (af_Package a)))
         \<and> isPackageAffected (ol_semver libs) vuln info}"
  have "(\<exists>a \<in> set (vu_Affected vuln). \<exists>info. (i, info) \<in> set (idx (op_Name (af_Package a))) \<and> isPackageAffected (ol_semver libs) vuln info)
      \<longleftrightarrow> (\<exists>info. library_of (ol_purl libs) (g_nodes (abs s)) i info \<and> isPackageAffected (ol_semver libs) vuln info)" for i
    by (simp add: index_freshD [OF idx]) (metis affected_name)
  then have "?L = {i. \<exists>info. library_of (ol_purl libs) (g_nodes (abs s)) i info
        \<and> isPackageAffected (ol_semver libs) vuln info}" by simp
  moreover obtain s' where "link_affected (ol_semver libs) st vuln d idx s {} (vu_Affected vuln) = (s', Inr ())"
    "wf s'" "linked (abs s) (vu_ID vuln) ?L (abs s')"
    using link_affected_ok [OF wf ok room side, of "ol_semver libs" d "{}"] unfolding Diff_empty
    by - (elim exE conjE, rule that; assumption)
  ultimately show ?thesis using data by (simp add: VulnerabilitiesWithIndex_def)
qed

lemma Vulnerabilities_ok:
  assumes wf: "wf s" and ok: "graph_ok (abs s)" and room: "vuln_room (abs s) (vu_ID vuln)" and ro: "range_ok ro"
    and data: "data \<noteq> ''''" "ol_Unmarshal libs data = Inr vuln" "ol_Marshal libs vuln = Inr d"
    and other: "\<forall>i info. library_of (ol_purl libs) (g_nodes (abs s)) i info \<longrightarrow> g_names (abs s) (vu_ID vuln) \<noteq> Some i"
  shows "\<exists>s'. Vulnerabilities ro libs st s data = (s', Inr ()) \<and> wf s'
    \<and> linked (abs s) (vu_ID vuln) {i. \<exists>info. library_of (ol_purl libs) (g_nodes (abs s)) i info
        \<and> isPackageAffected (ol_semver libs) vuln info} (abs s')"
proof -
  obtain idx where idx: "BuildLibraryIndex ro (ol_purl libs) st s = Inr idx" "index_fresh (ol_purl libs) (g_nodes (abs s)) idx"
    using BuildLibraryIndex_ok [OF wf ok ro] by blast
  from VulnerabilitiesWithIndex_ok [OF wf ok room idx(2) data other] idx(1)
  show ?thesis by (simp add: Vulnerabilities_def)
qed

end

section \<open>Properties\<close>

text \<open>
  C13. Ingesting an OSV record links exactly the affected libraries: on a consistent graph in an SQL
  database with room for one more identifier, \<open>Vulnerabilities\<close> succeeds and adds one edge to the node
  named after the record from every library that an entry of the record names, by package name and
  ecosystem, with a version that the entry lists or has in one of its ranges, and from no other; that
  node is added when it is new and some library is affected, every other node, name and edge is kept, and
  without an affected library the graph does not change. No library bears the name of the record, and the
  comparison of versions tells the events of every range apart.
\<close>

theorem sql_Vulnerabilities_link:
  assumes "sql_wf b64 s" and "graph_ok (sql_abs s)" and "vuln_room (sql_abs s) (vu_ID vuln)" and "range_ok ro"
    and "data \<noteq> ''''" and "ol_Unmarshal libs data = Inr vuln" and "ol_Marshal libs vuln = Inr d"
    and "\<forall>i info. library_of (ol_purl libs) (g_nodes (sql_abs s)) i info
      \<longrightarrow> g_names (sql_abs s) (vu_ID vuln) \<noteq> Some i"
    and apart: "\<forall>a \<in> set (vu_Affected vuln). ranges_apart (ol_semver libs) (af_Ranges a)"
  shows "\<exists>s'. Vulnerabilities ro libs sql_storage s data = (s', Inr ()) \<and> sql_wf b64 s'
    \<and> linked (sql_abs s) (vu_ID vuln) {i. \<exists>info. library_of (ol_purl libs) (g_nodes (sql_abs s)) i info
        \<and> affects (ol_semver libs) vuln info} (sql_abs s')"
  using sq.Vulnerabilities_ok [OF assms(1-8)] unfolding isPackageAffected_affects [OF apart] .

definition sample_vuln :: vulnerability where
  "sample_vuln = \<lparr>vu_SchemaVersion = '''', vu_ID = ''GO-1'', vu_Modified = '''', vu_Published = '''',
     vu_Withdrawn = '''', vu_Aliases = [''CVE-1''], vu_Related = [], vu_Summary = '''', vu_Details = '''',
     vu_Severity = [], vu_Affected =
       [\<lparr>af_Package = \<lparr>op_Ecosystem = ''npm'', op_Name = ''a'', op_Purl = ''''\<rparr>, af_Severity = [], af_Ranges = [],
         af_Versions = [''1.0''], af_EcosystemSpecific = Map.empty, af_DatabaseSpecific = Map.empty\<rparr>],
     vu_References = [], vu_Credits = [], vu_DatabaseSpecific = Map.empty\<rparr>"

definition sample_libs :: "unit osv_libs" where
  "sample_libs = \<lparr>ol_purl = (\<lambda>_. Inr \<lparr>pu_Type = ''npm'', pu_Namespace = '''', pu_Name = ''a'', pu_Version = ''1.0''\<rparr>),
     ol_semver = no_semver, ol_Unmarshal = (\<lambda>_. Inr sample_vuln), ol_Marshal = (\<lambda>_. Inr ''osv'')\<rparr>"

text \<open>A record that lists the version for another ecosystem, and has it in a range for this one.\<close>

definition range_vuln :: vulnerability where
  "range_vuln = sample_vuln\<lparr>vu_Affected :=
     [\<lparr>af_Package = \<lparr>op_Ecosystem = ''PyPI'', op_Name = ''a'', op_Purl = ''''\<rparr>, af_Severity = [], af_Ranges = [],
       af_Versions = [''1.0''], af_EcosystemSpecific = Map.empty, af_DatabaseSpecific = Map.empty\<rparr>,
      \<lparr>af_Package = \<lparr>op_Ecosystem = ''npm'', op_Name = ''a'', op_Purl = ''''\<rparr>, af_Severity = [],
       af_Ranges = [\<lparr>vr_Type = ''ECOSYSTEM'', vr_Repo = '''', vr_Events = [fixed_in ''1.10'', introduced ''0'']\<rparr>],
       af_Versions = [], af_EcosystemSpecific = Map.empty, af_DatabaseSpecific = Map.empty\<rparr>]\<rparr>"

definition range_libs :: "unit osv_libs" where
  "range_libs = sample_libs\<lparr>ol_Unmarshal := (\<lambda>_. Inr range_vuln)\<rparr>"

lemma range_vuln_apart: "\<forall>a \<in> set (vu_Affected range_vuln). ranges_apart no_semver (af_Ranges a)"
proof -
  have "events_apart no_semver ''ECOSYSTEM'' [fixed_in ''1.10'', introduced ''0'']"
    unfolding events_apart_def by (intro conjI; code_simp)
  then show ?thesis by (simp add: range_vuln_def ranges_apart_def)
qed

lemma range_vuln_affects:
  "affects no_semver range_vuln \<lparr>pi_Name = ''a'', pi_Version = ''1.0'', pi_Ecosystem = ''npm'', pi_Commit = ''''\<rparr>"
proof -
  have "in_range no_semver ''1.0'' \<lparr>vr_Type = ''ECOSYSTEM'', vr_Repo = '''', vr_Events = [fixed_in ''1.10'', introduced ''0'']\<rparr>"
    by code_simp
  then show ?thesis by (simp add: affects_def range_vuln_def)
qed

theorem sql_Vulnerabilities_link_witness:
  "\<exists>(s :: (bitmap, bitmap node_aux + bitmap cache_aux) sqldb) s' i v.
     edges (g_nodes (sql_abs s)) ChildrenDirection = {}
     \<and> Vulnerabilities in_order range_libs sql_storage s ''json'' = (s', Inr ())
     \<and> g_names (sql_abs s') ''pkg:a'' = Some i \<and> g_names (sql_abs s') ''GO-1'' = Some v
     \<and> edges (g_nodes (sql_abs s')) ChildrenDirection = {(i, v)}"
proof -
  let ?db = "empty_sqldb (tree_codec rev) doc_like"
  note start = empty_sqldb_ok [OF tree_codec_ok [of rev]]
  have e: "g_names (sql_abs ?db) = Map.empty" "g_nodes (sql_abs ?db) = Map.empty" "g_next (sql_abs ?db) = 0"
    by (simp_all add: empty_sqldb_def kv_empty)
  have room: "Suc (g_next (sql_abs ?db)) < 4294967296" unfolding e(3) by simp
  obtain s :: "(bitmap, bitmap node_aux + bitmap cache_aux) sqldb" and n where s: "sql_wf rev s" "graph_ok (sql_abs s)" "n_Name n = ''pkg:a''"
    "g_nodes (sql_abs s) (n_ID n) = Some (stored_node rev n)"
    "g_names (sql_abs s) = (g_names (sql_abs ?db))(''pkg:a'' \<mapsto> n_ID n)"
    "edges (g_nodes (sql_abs s)) ChildrenDirection = edges (g_nodes (sql_abs ?db)) ChildrenDirection"
    "g_next (sql_abs s) = (if g_names (sql_abs ?db) ''pkg:a'' = None then Suc (g_next (sql_abs ?db)) else g_next (sql_abs ?db))"
    "g_names (sql_abs ?db) ''pkg:a'' = None \<longrightarrow> n_Type n = ''library'' \<and> n_ID n \<notin> dom (g_nodes (sql_abs ?db))"
    using sq.AddNode_step [OF start room, where ty = "''library''" and meta = MNil and name = "''pkg:a''"]
    by - (elim exE conjE, rule that; assumption)
  let ?info = "\<lparr>pi_Name = ''a'', pi_Version = ''1.0'', pi_Ecosystem = ''npm'', pi_Commit = ''''\<rparr>"
  have info: "PURLToPackage (ol_purl range_libs) x = Inr ?info" for x
    by (simp add: PURLToPackage_def range_libs_def sample_libs_def getPURLEcosystem_def purlEcosystems_def)
  have sv: "ol_semver range_libs = no_semver" "vu_ID range_vuln = ''GO-1''"
    by (simp_all add: range_libs_def sample_libs_def range_vuln_def sample_vuln_def)
  have lib: "library_of (ol_purl range_libs) (g_nodes (sql_abs s)) i x \<longleftrightarrow> i = n_ID n \<and> x = ?info" for i x
  proof -
    have "i = n_ID n" if "g_nodes (sql_abs s) i = Some m" for m
    proof -
      have "g_names (sql_abs s) (n_Name m) = Some i" using that s(2) unfolding graph_ok_def names_ok_def by blast
      then show ?thesis unfolding s(5) e(1) by (simp split: if_splits)
    qed
    then show ?thesis
      using s(3,4,8) e(1) by (auto simp: library_of_def info LibraryType_def pkg_prefix_def has_prefix_def)
  qed
  have other: "\<forall>i x. library_of (ol_purl range_libs) (g_nodes (sql_abs s)) i x
      \<longrightarrow> g_names (sql_abs s) (vu_ID range_vuln) \<noteq> Some i"
    unfolding s(5) e(1) sv by simp
  have "vuln_room (sql_abs s) (vu_ID range_vuln)"
    unfolding vuln_room_def s(5,7) e sv by simp
  from sql_Vulnerabilities_link [OF s(1,2) this range_ok_in_order _ _ _ other, of "''json''" "''osv''"]
    range_vuln_apart
  obtain s' where s': "Vulnerabilities in_order range_libs sql_storage s ''json'' = (s', Inr ())"
    "linked (sql_abs s) (vu_ID range_vuln) {n_ID n} (sql_abs s')"
    unfolding lib sv using range_vuln_affects by (auto simp: range_libs_def sample_libs_def)
  then obtain v where v: "linked_by (sql_abs s) ''GO-1'' {n_ID n} v (sql_abs s')"
    unfolding sv by (auto simp: linked_def)
  have "edges (g_nodes (sql_abs s)) ChildrenDirection = {}" unfolding s(6) e by (simp add: edges_def)
  with s'(1) linked_byD [OF v] show ?thesis unfolding s(5) by (intro exI [of _ s] exI [of _ s'] exI) auto
qed

end
