(* ===== verification/Go_Float.thy ===== *)
theory Go_Float
  imports Complex_Main Go_Sort
begin

text \<open>
  \<open>float64\<close>: the finite values as rational numbers, the infinities and NaN. The sign of zero is not
  kept; no operation below is used where it could be seen (the sources never divide by a value that
  can be a negative zero). Rounding is an argument of the arithmetic.
\<close>

datatype float64 = Fin rat | PInf | NInf | NaN

fun is_NaN :: "float64 \<Rightarrow> bool" where
  "is_NaN NaN = True"
| "is_NaN x = False"

fun is_finite :: "float64 \<Rightarrow> bool" where
  "is_finite (Fin a) = True"
| "is_finite x = False"

text \<open>\<open><\<close>: false when either side is NaN.\<close>

fun fl_less :: "float64 \<Rightarrow> float64 \<Rightarrow> bool" where
  "fl_less (Fin a) (Fin b) = (a < b)"
| "fl_less NInf (Fin b) = True"
| "fl_less (Fin a) PInf = True"
| "fl_less NInf PInf = True"
| "fl_less x y = False"

text \<open>\<open>!=\<close>: true when either side is NaN.\<close>

definition fl_neq :: "float64 \<Rightarrow> float64 \<Rightarrow> bool" where
  "fl_neq x y \<longleftrightarrow> is_NaN x \<or> is_NaN y \<or> x \<noteq> y"

lemma fl_less_irrefl: "\<not> fl_less x x"
  by (cases x) simp_all

lemma fl_less_trans: "fl_less x y \<Longrightarrow> fl_less y z \<Longrightarrow> fl_less x z"
  by (cases x; cases y; cases z) simp_all

lemma fl_less_total: "\<not> is_NaN x \<Longrightarrow> \<not> is_NaN y \<Longrightarrow> fl_less x y \<or> x = y \<or> fl_less y x"
  by (cases x; cases y) auto

text \<open>Greatest first is a strict weak order on numbers.\<close>

lemma weak_order_float:
  assumes "\<And>x. x \<in> A \<Longrightarrow> \<not> is_NaN (f x)"
  shows "weak_order_on A (\<lambda>a b. fl_less (f b) (f a))"
  unfolding weak_order_on_def
proof (intro conjI ballI impI)
  fix x y z
  assume "x \<in> A" "y \<in> A" "z \<in> A" "\<not> fl_less (f x) (f y)" "\<not> fl_less (f y) (f z)"
  then show "\<not> fl_less (f x) (f z)"
    using fl_less_total [OF assms assms, of x y] fl_less_total [OF assms assms, of y z] fl_less_trans by metis
qed (use fl_less_trans fl_less_irrefl in blast)

text \<open>Arithmetic, with the rounding of exact results.\<close>

type_synonym rounding = "rat \<Rightarrow> float64"

fun fl_add :: "rounding \<Rightarrow> float64 \<Rightarrow> float64 \<Rightarrow> float64" where
  "fl_add rnd NaN y = NaN"
| "fl_add rnd x NaN = NaN"
| "fl_add rnd PInf NInf = NaN"
| "fl_add rnd NInf PInf = NaN"
| "fl_add rnd PInf y = PInf"
| "fl_add rnd NInf y = NInf"
| "fl_add rnd (Fin a) PInf = PInf"
| "fl_add rnd (Fin a) NInf = NInf"
| "fl_add rnd (Fin a) (Fin b) = rnd (a + b)"

fun fl_neg :: "float64 \<Rightarrow> float64" where
  "fl_neg (Fin a) = Fin (- a)"
| "fl_neg PInf = NInf"
| "fl_neg NInf = PInf"
| "fl_neg NaN = NaN"

text \<open>The infinity with the sign of a number, which is not zero; an infinity times zero is NaN.\<close>

definition inf_of :: "rat \<Rightarrow> float64" where
  "inf_of a = (if a = 0 then NaN else if 0 < a then PInf else NInf)"

fun fl_mul :: "rounding \<Rightarrow> float64 \<Rightarrow> float64 \<Rightarrow> float64" where
  "fl_mul rnd NaN y = NaN"
| "fl_mul rnd x NaN = NaN"
| "fl_mul rnd (Fin a) (Fin b) = rnd (a * b)"
| "fl_mul rnd (Fin a) PInf = inf_of a"
| "fl_mul rnd (Fin a) NInf = inf_of (- a)"
| "fl_mul rnd PInf (Fin b) = inf_of b"
| "fl_mul rnd NInf (Fin b) = inf_of (- b)"
| "fl_mul rnd PInf PInf = PInf"
| "fl_mul rnd NInf NInf = PInf"
| "fl_mul rnd PInf NInf = NInf"
| "fl_mul rnd NInf PInf = NInf"

text \<open>The zero that is divided by is positive.\<close>

fun fl_div :: "rounding \<Rightarrow> float64 \<Rightarrow> float64 \<Rightarrow> float64" where
  "fl_div rnd NaN y = NaN"
| "fl_div rnd x NaN = NaN"
| "fl_div rnd (Fin a) (Fin b) = (if b = 0 then inf_of a else rnd (a / b))"
| "fl_div rnd (Fin a) PInf = Fin 0"
| "fl_div rnd (Fin a) NInf = Fin 0"
| "fl_div rnd PInf (Fin b) = (if b < 0 then NInf else PInf)"
| "fl_div rnd NInf (Fin b) = (if b < 0 then PInf else NInf)"
| "fl_div rnd x y = NaN"

lemma fl_add_NaN [simp]: "fl_add rnd x NaN = NaN"
  by (cases x) simp_all

lemma fl_mul_NaN [simp]: "fl_mul rnd x NaN = NaN"
  by (cases x) simp_all

end
