(* ===== verification/Prioritize.thy ===== *)
theory Prioritize
  imports Ingest_Growth Vuln_Ingest Go_Float
begin

text \<open>
  The data that rank and filter vulnerabilities, \<open>pkg/tools/ingest/prioritize.go\<close>: the CISA KEV
  catalog, EPSS scores and OpenVEX statements, kept as custom data by vulnerability name. Decoding and
  encoding (JSON, gzip, CSV, base64, numbers) are arguments of the model.
\<close>

section \<open>Data\<close>

definition KEVTag :: string where "KEVTag = ''kev''"
definition EPSSTag :: string where "EPSSTag = ''epss''"
definition VEXTag :: string where "VEXTag = ''vex''"

record kev_entry =
  ke_CVEID :: string
  ke_VendorProject :: string
  ke_Product :: string
  ke_VulnerabilityName :: string
  ke_DateAdded :: string
  ke_ShortDescription :: string
  ke_RequiredAction :: string
  ke_DueDate :: string
  ke_KnownRansomwareCampaignUse :: string

record kev_catalog =
  kc_CatalogVersion :: string
  kc_Vulnerabilities :: "kev_entry list"

record epss_score =
  ep_EPSS :: float64
  ep_Percentile :: float64
  ep_Date :: string

record vex_statement =
  vs_Status :: string
  vs_Justification :: string
  vs_ImpactStatement :: string
  vs_ActionStatement :: string
  vs_Timestamp :: string

text \<open>An OpenVEX document.\<close>

record vex_product =
  vp_ID :: string
  vp_Subcomponents :: "string list"

record vex_entry =
  ve_ID :: string
  ve_Name :: string
  ve_Aliases :: "string list"
  ve_Products :: "vex_product list"
  ve_Status :: string
  ve_Justification :: string
  ve_ImpactStatement :: string
  ve_ActionStatement :: string
  ve_Timestamp :: string

record vex_doc =
  vx_Timestamp :: string
  vx_Statements :: "vex_entry list"

text \<open>
  The libraries. A gzip reader gives text up to a possible error; the CSV reader gives the sequence of
  what its calls return before the end of the file.
\<close>

record prio_libs =
  pl_base64 :: "string \<Rightarrow> string res"
  pl_osv :: "string \<Rightarrow> vulnerability res"
  pl_catalog :: "string \<Rightarrow> kev_catalog res"
  pl_entry_text :: "kev_entry \<Rightarrow> string res"
  pl_entry :: "string \<Rightarrow> kev_entry res"
  pl_gunzip :: "string \<Rightarrow> (string \<times> fault option) res"
  pl_csv :: "string \<Rightarrow> fault option \<Rightarrow> string list res list"
  pl_ParseFloat :: "string \<Rightarrow> float64 res"
  pl_score_text :: "epss_score \<Rightarrow> string"
  pl_score :: "string \<Rightarrow> epss_score res"
  pl_vex :: "string \<Rightarrow> vex_doc res"
  pl_statement_text :: "vex_statement \<Rightarrow> string"
  pl_statement :: "string \<Rightarrow> vex_statement res"

section \<open>Names of vulnerabilities\<close>

definition DecodeVulnerability :: "prio_libs \<Rightarrow> metadata \<Rightarrow> vulnerability res" where
  "DecodeVulnerability libs meta =
     bind_res (case meta of
        MBytes m \<Rightarrow> Inr m
      | MString m \<Rightarrow> (case pl_base64 libs m of Inr decoded \<Rightarrow> Inr decoded | Inl e \<Rightarrow> Inr m)
      | MNil \<Rightarrow> Inl (Err ''no metadata'')
      | MOther m \<Rightarrow> Inr m)
     (\<lambda>raw. ctx ''failed to decode the OSV record'' (pl_osv libs raw))"

definition VulnerabilityNames :: "prio_libs \<Rightarrow> node \<Rightarrow> string list" where
  "VulnerabilityNames libs n =
     (case DecodeVulnerability libs (n_Metadata n) of
        Inl e \<Rightarrow> [to_upper (n_Name n)]
      | Inr vuln \<Rightarrow> to_upper (n_Name n) # map to_upper (vu_Aliases vuln))"

fun collect_cves :: "prio_libs \<Rightarrow> node list \<Rightarrow> string set \<Rightarrow> string set" where
  "collect_cves libs [] cves = cves"
| "collect_cves libs (n # ns) cves =
     (if n_Type n \<noteq> VulnerabilityType then collect_cves libs ns cves
      else collect_cves libs ns
        (fold (\<lambda>x acc. if has_prefix x ''CVE-'' then insert x acc else acc) (VulnerabilityNames libs n) cves))"

definition CVEsInGraph :: "range_order \<Rightarrow> prio_libs \<Rightarrow> 's storage \<Rightarrow> 's \<Rightarrow> string set res" where
  "CVEsInGraph ro libs st s =
     bind_res (ctx ''failed to get all keys'' (st_GetAllKeys st s)) (\<lambda>ks.
     bind_res (ctx ''failed to get nodes'' (st_GetNodes st s ks)) (\<lambda>nodes.
     Inr (collect_cves libs (map snd (go_range ro 0 nodes)) {})))"

section \<open>KEV\<close>

text \<open>The functions return a count next to the error.\<close>

fun store_entries :: "prio_libs \<Rightarrow> 's storage \<Rightarrow> 's \<Rightarrow> nat \<Rightarrow> kev_entry list \<Rightarrow> 's \<times> nat \<times> unit res" where
  "store_entries libs st s stored [] = (s, stored, Inr ())"
| "store_entries libs st s stored (entry # rest) =
     (let cve = to_upper (trim_space (ke_CVEID entry))
      in if cve = '''' then store_entries libs st s stored rest
         else
           (case pl_entry_text libs entry of
              Inl e \<Rightarrow> (s, stored, Inl e)
            | Inr v \<Rightarrow>
                (case st_AddOrUpdateCustomData st s KEVTag cve ''entry'' v of
                   (s1, Inl e) \<Rightarrow> (s1, stored, Inl (wrap ''failed to store KEV entry'' e))
                 | (s1, Inr _) \<Rightarrow> store_entries libs st s1 (stored + 1) rest)))"

definition KEV :: "prio_libs \<Rightarrow> 's storage \<Rightarrow> 's \<Rightarrow> string \<Rightarrow> 's \<times> nat \<times> unit res" where
  "KEV libs st s data =
     (case ctx ''failed to parse the KEV catalog'' (pl_catalog libs data) of
        Inl e \<Rightarrow> (s, 0, Inl e)
      | Inr catalog \<Rightarrow> store_entries libs st s 0 (kc_Vulnerabilities catalog))"

section \<open>EPSS\<close>

text \<open>\<open>strings.Split\<close> and \<open>strings.Cut\<close> on one separator byte, and \<open>ReadString\<close>.\<close>

fun split_on :: "char \<Rightarrow> string \<Rightarrow> string list" where
  "split_on c [] = [[]]"
| "split_on c (x # xs) =
     (if x = c then [] # split_on c xs
      else (case split_on c xs of [] \<Rightarrow> [[x]] | y # ys \<Rightarrow> (x # y) # ys))"

definition cut_at :: "char \<Rightarrow> string \<Rightarrow> (string \<times> string) option" where
  "cut_at c s = (if c \<in> set s then Some (takeWhile (\<lambda>x. x \<noteq> c) s, tl (dropWhile (\<lambda>x. x \<noteq> c) s)) else None)"

definition read_string :: "char \<Rightarrow> string \<Rightarrow> string \<times> string" where
  "read_string c s = (let k = length (takeWhile (\<lambda>x. x \<noteq> c) s) + 1 in (take k s, drop k s))"

definition date_part :: "string \<Rightarrow> string \<Rightarrow> string" where
  "date_part part date =
     (case cut_at (CHR '':'') part of
        None \<Rightarrow> date
      | Some (k, v) \<Rightarrow>
          if trim_space k = ''score_date'' then
            (let d = trim_space v in if 10 \<le> length d then take 10 d else d)
          else date)"

text \<open>The date of the comment line, and the text after it.\<close>

definition score_date :: "string \<Rightarrow> string \<times> string" where
  "score_date txt =
     (case txt of
        [] \<Rightarrow> ('''', txt)
      | c # cs \<Rightarrow>
          if c = CHR ''#'' then
            (let (line, rest) = read_string (CHR 0x0A) txt
             in (fold date_part (split_on (CHR '','') (trim_space (trim_prefix line ''#''))) '''', rest))
          else ('''', txt))"

definition header_columns :: "string list \<Rightarrow> (string \<rightharpoonup> nat)" where
  "header_columns header =
     fold (\<lambda>(i, nm) col. col(to_lower (trim_space nm) \<mapsto> i)) (enumerate 0 header) Map.empty"

fun store_scores ::
  "prio_libs \<Rightarrow> 's storage \<Rightarrow> string set \<Rightarrow> string \<Rightarrow> nat \<Rightarrow> nat \<Rightarrow> nat \<Rightarrow> 's \<Rightarrow> nat \<Rightarrow> string list res list
    \<Rightarrow> 's \<times> nat \<times> unit res" where
  "store_scores libs st known date cveCol epssCol pctCol s stored [] = (s, stored, Inr ())"
| "store_scores libs st known date cveCol epssCol pctCol s stored (Inl e # rest) =
     (s, stored, Inl (wrap ''failed to read the EPSS file'' e))"
| "store_scores libs st known date cveCol epssCol pctCol s stored (Inr record # rest) =
     (if length record \<le> max cveCol (max epssCol pctCol) then
        store_scores libs st known date cveCol epssCol pctCol s stored rest
      else
        (let cve = to_upper (trim_space (record ! cveCol))
         in if cve \<notin> known then store_scores libs st known date cveCol epssCol pctCol s stored rest
            else
              (case (pl_ParseFloat libs (trim_space (record ! epssCol)),
                     pl_ParseFloat libs (trim_space (record ! pctCol))) of
                 (Inr score, Inr percentile) \<Rightarrow>
                   (case st_AddOrUpdateCustomData st s EPSSTag cve ''score''
                           (pl_score_text libs \<lparr>ep_EPSS = score, ep_Percentile = percentile, ep_Date = date\<rparr>) of
                      (s1, Inl e) \<Rightarrow> (s1, stored, Inl (wrap ''failed to store the EPSS score'' e))
                    | (s1, Inr _) \<Rightarrow>
                        store_scores libs st known date cveCol epssCol pctCol s1 (stored + 1) rest)
               | _ \<Rightarrow> store_scores libs st known date cveCol epssCol pctCol s stored rest)))"

text \<open>The reader of the file, gzipped or not: the text and a possible error after it.\<close>

definition open_scores :: "prio_libs \<Rightarrow> string \<Rightarrow> (string \<times> fault option) res" where
  "open_scores libs data =
     (if 2 < length data \<and> byte_of (data ! 0) = 31 \<and> byte_of (data ! 1) = 139 then
        ctx ''failed to read the gzipped EPSS file'' (pl_gunzip libs data)
      else Inr (data, None))"

definition EPSS :: "range_order \<Rightarrow> prio_libs \<Rightarrow> 's storage \<Rightarrow> 's \<Rightarrow> string \<Rightarrow> 's \<times> nat \<times> unit res" where
  "EPSS ro libs st s data =
     (case CVEsInGraph ro libs st s of
        Inl e \<Rightarrow> (s, 0, Inl e)
      | Inr known \<Rightarrow>
          if known = {} then (s, 0, Inr ())
          else
            (case open_scores libs data of
               Inl e \<Rightarrow> (s, 0, Inl e)
             | Inr (txt, err) \<Rightarrow>
                 (let (date, rest) = score_date txt
                  in case pl_csv libs rest err of
                       [] \<Rightarrow> (s, 0, Inl (Wrap ''failed to read the EPSS header'' (Err ''EOF'')))
                     | Inl e # rows \<Rightarrow> (s, 0, Inl (wrap ''failed to read the EPSS header'' e))
                     | Inr header # rows \<Rightarrow>
                         (let col = header_columns header
                          in case (col ''cve'', col ''epss'', col ''percentile'') of
                               (Some cveCol, Some epssCol, Some pctCol) \<Rightarrow>
                                 store_scores libs st known date cveCol epssCol pctCol s 0 rows
                             | _ \<Rightarrow> (s, 0, Inl (Err ''the EPSS file needs the columns cve, epss and percentile''))))))"

section \<open>VEX\<close>

definition known_status :: "string \<Rightarrow> bool" where
  "known_status x \<longleftrightarrow> x = ''not_affected'' \<or> x = ''affected'' \<or> x = ''fixed'' \<or> x = ''under_investigation''"

fun store_names :: "'s storage \<Rightarrow> string \<Rightarrow> string \<Rightarrow> 's \<Rightarrow> string list \<Rightarrow> 's \<times> unit res" where
  "store_names st product v s [] = (s, Inr ())"
| "store_names st product v s (nm # nms) =
     (if trim_space nm = '''' then store_names st product v s nms
      else
        bind_st (ctx_st ''failed to store a VEX statement''
          (st_AddOrUpdateCustomData st s VEXTag (to_upper (trim_space nm)) product v)) (\<lambda>s1 _.
            store_names st product v s1 nms))"

fun store_products :: "'s storage \<Rightarrow> string list \<Rightarrow> string \<Rightarrow> 's \<Rightarrow> nat \<Rightarrow> vex_product list \<Rightarrow> 's \<times> nat \<times> unit res" where
  "store_products st nms v s stored [] = (s, stored, Inr ())"
| "store_products st nms v s stored (p # ps) =
     (if vp_ID p = '''' then store_products st nms v s stored ps
      else
        (case store_names st (vp_ID p) v s nms of
           (s1, Inl e) \<Rightarrow> (s1, stored, Inl e)
         | (s1, Inr _) \<Rightarrow> store_products st nms v s1 (stored + 1) ps))"

definition statement_of :: "string \<Rightarrow> vex_entry \<Rightarrow> vex_statement" where
  "statement_of docTimestamp e =
     \<lparr>vs_Status = ve_Status e, vs_Justification = ve_Justification e, vs_ImpactStatement = ve_ImpactStatement e,
      vs_ActionStatement = ve_ActionStatement e,
      vs_Timestamp = (if ve_Timestamp e = '''' then docTimestamp else ve_Timestamp e)\<rparr>"

fun store_statements :: "prio_libs \<Rightarrow> 's storage \<Rightarrow> string \<Rightarrow> 's \<Rightarrow> nat \<Rightarrow> vex_entry list \<Rightarrow> 's \<times> nat \<times> unit res" where
  "store_statements libs st docTimestamp s stored [] = (s, stored, Inr ())"
| "store_statements libs st docTimestamp s stored (e # es) =
     (if \<not> known_status (ve_Status e) then (s, stored, Inl (Err ''unknown VEX status''))
      else
        (case store_products st (ve_Name e # ve_Aliases e) (pl_statement_text libs (statement_of docTimestamp e))
                s stored (ve_Products e) of
           (s1, stored1, Inl err) \<Rightarrow> (s1, stored1, Inl err)
         | (s1, stored1, Inr _) \<Rightarrow> store_statements libs st docTimestamp s1 stored1 es))"

definition VEX :: "prio_libs \<Rightarrow> 's storage \<Rightarrow> 's \<Rightarrow> string \<Rightarrow> 's \<times> nat \<times> unit res" where
  "VEX libs st s data =
     (case ctx ''failed to parse the OpenVEX document'' (pl_vex libs data) of
        Inl e \<Rightarrow> (s, 0, Inl e)
      | Inr doc \<Rightarrow> store_statements libs st (vx_Timestamp doc) s 0 (vx_Statements doc))"

section \<open>What is stored\<close>

text \<open>A sequence of writes \<open>((tag, key), (field, value))\<close> to the custom data; the last one to a field stays.\<close>

type_synonym custom_write = "(string \<times> string) \<times> (string \<times> string)"

definition writes_to :: "custom_write list \<Rightarrow> string \<times> string \<Rightarrow> (string \<rightharpoonup> string)" where
  "writes_to W tk = map_of (rev (map snd (filter (\<lambda>w. fst w = tk) W)))"

definition customised :: "custom_write list \<Rightarrow> gstate \<Rightarrow> gstate" where
  "customised W g = g\<lparr>g_custom := (\<lambda>tk. g_custom g tk ++ writes_to W tk)\<rparr>"

lemma writes_to_Nil [simp]: "writes_to [] tk = Map.empty"
  by (simp add: writes_to_def)

lemma writes_to_append: "writes_to (V @ W) tk = writes_to V tk ++ writes_to W tk"
  by (simp add: writes_to_def)

lemma writes_to_one: "writes_to [(tk', dk, v)] tk = (if tk = tk' then [dk \<mapsto> v] else Map.empty)"
  by (simp add: writes_to_def)

lemma writes_to_none: "tk \<notin> fst ` set W \<Longrightarrow> writes_to W tk = Map.empty"
proof -
  assume "tk \<notin> fst ` set W"
  then have "filter (\<lambda>w. fst w = tk) W = []" by (auto simp: filter_empty_conv)
  then show ?thesis by (simp add: writes_to_def)
qed

lemma customised_Nil [simp]: "customised [] g = g"
  by (simp add: customised_def)

lemma customised_trans: "customised W (customised V g) = customised (V @ W) g"
  by (simp add: customised_def writes_to_append map_add_assoc)

lemma customised_Cons: "customised W (customised [w] g) = customised (w # W) g"
  using customised_trans [of W "[w]" g] by simp

lemma customised_simps [simp]:
  "g_nodes (customised W g) = g_nodes g" "g_names (customised W g) = g_names g"
  "g_caches (customised W g) = g_caches g" "g_pending (customised W g) = g_pending g"
  "g_next (customised W g) = g_next g"
  "g_custom (customised W g) tk = g_custom g tk ++ writes_to W tk"
  by (simp_all add: customised_def)

lemma tags_ok [simp]: "tag_ok KEVTag" "tag_ok EPSSTag" "tag_ok VEXTag"
  by (simp_all add: tag_ok_def KEVTag_def EPSSTag_def VEXTag_def)

lemma tags_apart [simp]: "KEVTag \<noteq> EPSSTag" "KEVTag \<noteq> VEXTag" "EPSSTag \<noteq> VEXTag"
  by (simp_all add: KEVTag_def EPSSTag_def VEXTag_def)

text \<open>What a catalog and a document ask for.\<close>

definition cve_of :: "kev_entry \<Rightarrow> string" where
  "cve_of e = to_upper (trim_space (ke_CVEID e))"

fun kev_writes :: "(kev_entry \<Rightarrow> string) \<Rightarrow> kev_entry list \<Rightarrow> custom_write list" where
  "kev_writes txt [] = []"
| "kev_writes txt (e # es) =
     (if cve_of e = '''' then kev_writes txt es else ((KEVTag, cve_of e), (''entry'', txt e)) # kev_writes txt es)"

definition name_writes :: "string \<Rightarrow> string \<Rightarrow> string list \<Rightarrow> custom_write list" where
  "name_writes product v nms =
     map (\<lambda>x. ((VEXTag, to_upper (trim_space x)), (product, v))) (filter (\<lambda>x. trim_space x \<noteq> '''') nms)"

definition product_ids :: "vex_entry \<Rightarrow> string list" where
  "product_ids e = filter (\<lambda>p. p \<noteq> '''') (map vp_ID (ve_Products e))"

definition known_statements :: "vex_entry list \<Rightarrow> vex_entry list" where
  "known_statements es = takeWhile (\<lambda>e. known_status (ve_Status e)) es"

definition vex_writes :: "(vex_entry \<Rightarrow> string) \<Rightarrow> vex_entry list \<Rightarrow> custom_write list" where
  "vex_writes txt es =
     concat (map (\<lambda>e. concat (map (\<lambda>p. name_writes p (txt e) (ve_Name e # ve_Aliases e)) (product_ids e))) es)"

text \<open>The CVE names of the vulnerabilities of a graph.\<close>

definition cves_of :: "prio_libs \<Rightarrow> (id \<rightharpoonup> node) \<Rightarrow> string set" where
  "cves_of libs nodes = {x. \<exists>i n. nodes i = Some n \<and> n_Type n = VulnerabilityType
     \<and> x \<in> set (VulnerabilityNames libs n) \<and> has_prefix x ''CVE-''}"

lemma collect_cves_eq:
  "collect_cves libs ns acc = acc \<union> {x. \<exists>n \<in> set ns. n_Type n = VulnerabilityType
     \<and> x \<in> set (VulnerabilityNames libs n) \<and> has_prefix x ''CVE-''}"
proof (induction ns arbitrary: acc)
  case (Cons n ns)
  have "fold (\<lambda>x acc. if has_prefix x ''CVE-'' then insert x acc else acc) xs acc
      = acc \<union> {x \<in> set xs. has_prefix x ''CVE-''}" for xs acc
    by (induction xs arbitrary: acc) auto
  then show ?case using Cons.IH by auto
qed simp

context graph_store
begin

lemma CVEsInGraph_ok:
  assumes wf: "wf s" and ok: "graph_ok (abs s)" and ro: "range_ok ro"
  shows "CVEsInGraph ro libs st s = Inr (cves_of libs (g_nodes (abs s)))"
proof -
  obtain ks al where read: "st_GetAllKeys st s = Inr ks" "st_GetNodes st s ks = Inr al"
    "distinct (keys_of al)" "map_of al = g_nodes (abs s)" using read_all [OF wf] by blast
  let ?ns = "map snd (go_range ro 0 al)"
  have "(\<exists>n \<in> set ?ns. P n) \<longleftrightarrow> (\<exists>i n. g_nodes (abs s) i = Some n \<and> P n)" for P
    using read_all_nodes(2) [OF wf ok ro read(3,4), of _ 0] stored_nodes [OF wf ok] by metis
  then have "collect_cves libs ?ns {} = cves_of libs (g_nodes (abs s))"
    unfolding collect_cves_eq cves_of_def by (simp only: Un_empty_left)
  then show ?thesis by (simp add: CVEsInGraph_def read(1,2))
qed

lemma AddCustom_write:
  assumes "wf s" and "tag_ok tag"
  shows "\<exists>s'. st_AddOrUpdateCustomData st s tag k dk v = (s', Inr ()) \<and> wf s'
    \<and> abs s' = customised [((tag, k), (dk, v))] (abs s)"
proof -
  obtain s' where s': "st_AddOrUpdateCustomData st s tag k dk v = (s', Inr ())" "wf s'"
    "abs s' = (abs s)\<lparr>g_custom := (g_custom (abs s))((tag, k) := (g_custom (abs s) (tag, k))(dk \<mapsto> v))\<rparr>"
    using AddOrUpdateCustomData [OF assms] by blast
  have "(g_custom (abs s))((tag, k) := (g_custom (abs s) (tag, k))(dk \<mapsto> v))
      = (\<lambda>tk. g_custom (abs s) tk ++ writes_to [((tag, k), (dk, v))] tk)"
    by (simp add: fun_eq_iff writes_to_one)
  with s' show ?thesis unfolding customised_def by auto
qed

lemma store_entries_ok:
  assumes "wf s" and "\<And>e. pl_entry_text libs e = Inr (txt e)"
  shows "\<exists>s'. store_entries libs st s n es = (s', n + length (kev_writes txt es), Inr ()) \<and> wf s'
    \<and> abs s' = customised (kev_writes txt es) (abs s)"
  using assms(1)
proof (induction es arbitrary: s n)
  case (Cons e es)
  show ?case
  proof (cases "cve_of e = ''''")
    case True
    then show ?thesis using Cons.IH [OF Cons.prems] by (simp add: cve_of_def Let_def)
  next
    case False
    obtain s1 where s1: "st_AddOrUpdateCustomData st s KEVTag (cve_of e) ''entry'' (txt e) = (s1, Inr ())" "wf s1"
      "abs s1 = customised [((KEVTag, cve_of e), (''entry'', txt e))] (abs s)"
      using AddCustom_write [OF Cons.prems tags_ok(1)] by blast
    from Cons.IH [OF s1(2), of "n + 1"] show ?thesis
      using False s1(1) unfolding s1(3) customised_Cons by (auto simp: cve_of_def Let_def assms(2))
  qed
qed simp

lemma store_names_ok:
  assumes "wf s"
  shows "\<exists>s'. store_names st p v s nms = (s', Inr ()) \<and> wf s' \<and> abs s' = customised (name_writes p v nms) (abs s)"
  using assms
proof (induction nms arbitrary: s)
  case (Cons x xs)
  show ?case
  proof (cases "trim_space x = ''''")
    case True
    then show ?thesis using Cons.IH [OF Cons.prems] by (simp add: name_writes_def)
  next
    case False
    obtain s1 where s1: "st_AddOrUpdateCustomData st s VEXTag (to_upper (trim_space x)) p v = (s1, Inr ())" "wf s1"
      "abs s1 = customised [((VEXTag, to_upper (trim_space x)), (p, v))] (abs s)"
      using AddCustom_write [OF Cons.prems tags_ok(3)] by blast
    from Cons.IH [OF s1(2)] show ?thesis
      using False s1(1) unfolding s1(3) customised_Cons by (simp add: name_writes_def)
  qed
qed (simp add: name_writes_def)

lemma store_products_ok:
  assumes "wf s"
  shows "\<exists>s'. store_products st nms v s n ps
      = (s', n + length (filter (\<lambda>p. p \<noteq> '''') (map vp_ID ps)), Inr ()) \<and> wf s'
    \<and> abs s' = customised (concat (map (\<lambda>p. name_writes p v nms) (filter (\<lambda>p. p \<noteq> '''') (map vp_ID ps)))) (abs s)"
  using assms
proof (induction ps arbitrary: s n)
  case (Cons p ps)
  show ?case
  proof (cases "vp_ID p = ''''")
    case True
    then show ?thesis using Cons.IH [OF Cons.prems] by simp
  next
    case False
    obtain s1 where s1: "store_names st (vp_ID p) v s nms = (s1, Inr ())" "wf s1"
      "abs s1 = customised (name_writes (vp_ID p) v nms) (abs s)"
      using store_names_ok [OF Cons.prems] by blast
    from Cons.IH [OF s1(2), of "n + 1"] show ?thesis
      using False s1(1) unfolding s1(3) customised_trans by auto
  qed
qed simp

text \<open>The statements up to the first one with an unknown status are stored, which ends the run.\<close>

lemma store_statements_ok:
  assumes "wf s"
  shows "\<exists>s'. store_statements libs st ts s n es = (s', n + length (concat (map product_ids (known_statements es))),
        if known_statements es = es then Inr () else Inl (Err ''unknown VEX status'')) \<and> wf s'
    \<and> abs s' = customised (vex_writes (\<lambda>e. pl_statement_text libs (statement_of ts e)) (known_statements es)) (abs s)"
  using assms
proof (induction es arbitrary: s n)
  case (Cons e es)
  show ?case
  proof (cases "known_status (ve_Status e)")
    case False
    then show ?thesis using Cons.prems by (simp add: known_statements_def vex_writes_def)
  next
    case True
  let ?v = "pl_statement_text libs (statement_of ts e)"
  let ?nms = "ve_Name e # ve_Aliases e"
  obtain s1 where s1: "store_products st ?nms ?v s n (ve_Products e) = (s1, n + length (product_ids e), Inr ())" "wf s1"
    "abs s1 = customised (concat (map (\<lambda>p. name_writes p ?v ?nms) (product_ids e))) (abs s)"
    using store_products_ok [OF Cons.prems, of ?nms ?v n "ve_Products e"] unfolding product_ids_def by blast
  from Cons.IH [OF s1(2), of "n + length (product_ids e)"] show ?thesis
    using True s1(1) unfolding s1(3) customised_trans
    by (auto simp: vex_writes_def known_statements_def add.assoc split: if_splits)
  qed
qed (simp add: vex_writes_def known_statements_def)

text \<open>Scores are only ever written for known names, whatever the rows are.\<close>

lemma store_scores_known:
  assumes "wf s"
  shows "\<exists>s' n' r W. store_scores libs st known date a b c s n rows = (s', n', r) \<and> wf s'
    \<and> abs s' = customised W (abs s) \<and> fst ` set W \<subseteq> {EPSSTag} \<times> known"
  using assms
proof (induction rows arbitrary: s n)
  case Nil
  then show ?case by (auto intro!: exI [of _ "[]"])
next
  case (Cons row rows)
  have skip: ?case if "store_scores libs st known date a b c s n (row # rows)
      = store_scores libs st known date a b c s n rows"
    unfolding that by (rule Cons.IH [OF Cons.prems])
  have stop: ?case if "store_scores libs st known date a b c s n (row # rows) = (s, n', r)" for n' r
    unfolding that using Cons.prems by (auto intro!: exI [of _ "[]"])
  show ?case
  proof (cases row)
    case (Inl e)
    show ?thesis by (rule stop) (simp add: Inl)
  next
    case (Inr rec)
    let ?cve = "to_upper (trim_space (rec ! a))"
    show ?thesis
    proof (cases "length rec \<le> max a (max b c) \<or> ?cve \<notin> known
        \<or> (\<exists>e. pl_ParseFloat libs (trim_space (rec ! b)) = Inl e) \<or> (\<exists>e. pl_ParseFloat libs (trim_space (rec ! c)) = Inl e)")
      case True
      show ?thesis by (rule skip) (use True in \<open>auto simp: Inr Let_def split: sum.splits\<close>)
    next
      case False
      then obtain x y where xy: "pl_ParseFloat libs (trim_space (rec ! b)) = Inr x"
        "pl_ParseFloat libs (trim_space (rec ! c)) = Inr y"
        by (cases "pl_ParseFloat libs (trim_space (rec ! b))"; cases "pl_ParseFloat libs (trim_space (rec ! c))") auto
      let ?v = "pl_score_text libs \<lparr>ep_EPSS = x, ep_Percentile = y, ep_Date = date\<rparr>"
      obtain s1 where s1: "st_AddOrUpdateCustomData st s EPSSTag ?cve ''score'' ?v = (s1, Inr ())" "wf s1"
        "abs s1 = customised [((EPSSTag, ?cve), (''score'', ?v))] (abs s)"
        using AddCustom_write [OF Cons.prems tags_ok(2)] by blast
      have run: "store_scores libs st known date a b c s n (row # rows) = store_scores libs st known date a b c s1 (n + 1) rows"
        using False xy s1(1) by (simp add: Inr Let_def)
      obtain s' n' r W where s': "store_scores libs st known date a b c s1 (n + 1) rows = (s', n', r)" "wf s'"
        "abs s' = customised W (abs s1)" "fst ` set W \<subseteq> {EPSSTag} \<times> known" using Cons.IH [OF s1(2)] by blast
      have "fst ` set (((EPSSTag, ?cve), (''score'', ?v)) # W) \<subseteq> {EPSSTag} \<times> known" using s'(4) False by auto
      then show ?thesis unfolding run s'(1) using s'(2,3) unfolding s1(3) customised_Cons by blast
    qed
  qed
qed

lemma EPSS_ok:
  assumes wf: "wf s" and ok: "graph_ok (abs s)" and ro: "range_ok ro"
  shows "\<exists>s' n r W. EPSS ro libs st s data = (s', n, r) \<and> wf s' \<and> abs s' = customised W (abs s)
    \<and> fst ` set W \<subseteq> {EPSSTag} \<times> cves_of libs (g_nodes (abs s))"
proof -
  let ?known = "cves_of libs (g_nodes (abs s))"
  have stop: ?thesis if "EPSS ro libs st s data = (s, n, r)" for n r
    unfolding that using wf by (auto intro!: exI [of _ "[]"])
  have go: ?thesis if "EPSS ro libs st s data = store_scores libs st ?known d a b c s 0 rows" for d a b c rows
    unfolding that by (rule store_scores_known [OF wf])
  note run = EPSS_def CVEsInGraph_ok [OF wf ok ro]
  show ?thesis
  proof (cases "?known = {}")
    case True
    show ?thesis by (rule stop) (simp add: run True)
  next
    case False
    show ?thesis
    proof (cases "open_scores libs data")
      case (Inl e)
      show ?thesis by (rule stop) (simp add: run False Inl)
    next
      case opened: (Inr p)
      obtain tx err date rest where p: "p = (tx, err)" "score_date tx = (date, rest)" by fastforce
      show ?thesis
      proof (cases "pl_csv libs rest err")
        case Nil
        show ?thesis by (rule stop) (simp add: run False opened p Nil)
      next
        case (Cons h rows)
        show ?thesis
        proof (cases h)
          case (Inl e)
          show ?thesis by (rule stop) (simp add: run False opened p Cons Inl)
        next
          case (Inr header)
          note step = run False opened p Cons Inr
          show ?thesis
          proof (cases "\<exists>a b c. header_columns header ''cve'' = Some a \<and> header_columns header ''epss'' = Some b
              \<and> header_columns header ''percentile'' = Some c")
            case True
            then obtain a b c where "header_columns header ''cve'' = Some a" "header_columns header ''epss'' = Some b"
              "header_columns header ''percentile'' = Some c" by blast
            then show ?thesis by (intro go) (simp add: step)
          next
            case False
            show ?thesis by (rule stop) (use False in \<open>auto simp: step Let_def split: option.split\<close>)
          qed
        qed
      qed
    qed
  qed
qed

end

section \<open>Properties\<close>

text \<open>
  A KEV catalog is stored entry by entry: on a graph in an SQL database \<open>KEV\<close> succeeds, returns the
  number of entries that name a CVE, and writes exactly those, each under its CVE trimmed and in upper
  case, the last one of a CVE staying; the graph does not change.
\<close>

theorem sql_KEV_stores:
  assumes "sql_wf b64 s" and "pl_catalog libs data = Inr cat" and "\<forall>e. pl_entry_text libs e = Inr (txt e)"
  shows "\<exists>s'. KEV libs sql_storage s data = (s', length (kev_writes txt (kc_Vulnerabilities cat)), Inr ())
    \<and> sql_wf b64 s' \<and> sql_abs s' = customised (kev_writes txt (kc_Vulnerabilities cat)) (sql_abs s)"
  using sq.store_entries_ok [OF assms(1), of libs "txt" 0 "kc_Vulnerabilities cat"] assms(2,3) by (simp add: KEV_def)

definition sample_entry :: "string \<Rightarrow> kev_entry" where
  "sample_entry cve = \<lparr>ke_CVEID = cve, ke_VendorProject = '''', ke_Product = '''', ke_VulnerabilityName = '''',
     ke_DateAdded = '''', ke_ShortDescription = '''', ke_RequiredAction = '''', ke_DueDate = '''',
     ke_KnownRansomwareCampaignUse = ''''\<rparr>"

definition sample_prio :: prio_libs where
  "sample_prio = \<lparr>pl_base64 = (\<lambda>t. Inr (rev t)), pl_osv = (\<lambda>t. if t = ''vso'' then Inl (Err ''no JSON'') else Inr sample_vuln),
     pl_catalog = (\<lambda>_. Inr \<lparr>kc_CatalogVersion = ''1'', kc_Vulnerabilities =
       [sample_entry '' cve-1 '', sample_entry '' '']\<rparr>),
     pl_entry_text = (\<lambda>e. Inr (''entry '' @ ke_CVEID e)), pl_entry = (\<lambda>t. Inr (sample_entry t)),
     pl_gunzip = (\<lambda>t. Inr (t, None)),
     pl_csv = (\<lambda>t _. [Inr [''cve'', ''epss'', ''percentile''], Inr [''CVE-1'', ''0.5'', ''0.9''], Inr [''CVE-2'', ''0.5'', ''0.9'']]),
     pl_ParseFloat = (\<lambda>t. Inr (Fin (1 / 2))), pl_score_text = (\<lambda>e. ''score ''  @ ep_Date e),
     pl_score = (\<lambda>t. Inr \<lparr>ep_EPSS = Fin (1 / 2), ep_Percentile = Fin (1 / 2), ep_Date = t\<rparr>),
     pl_vex = (\<lambda>t. Inr \<lparr>vx_Timestamp = ''2024'', vx_Statements =
       [\<lparr>ve_ID = '''', ve_Name = ''CVE-1'', ve_Aliases = [''ghsa-1''], ve_Products = [\<lparr>vp_ID = ''pkg:p'', vp_Subcomponents = []\<rparr>],
         ve_Status = ''fixed'', ve_Justification = '''', ve_ImpactStatement = '''', ve_ActionStatement = '''', ve_Timestamp = ''''\<rparr>,
        \<lparr>ve_ID = '''', ve_Name = ''CVE-2'', ve_Aliases = [], ve_Products = [], ve_Status = ''maybe'', ve_Justification = '''',
         ve_ImpactStatement = '''', ve_ActionStatement = '''', ve_Timestamp = ''''\<rparr>]\<rparr>),
     pl_statement_text = (\<lambda>v. vs_Status v @ '' '' @ vs_Timestamp v),
     pl_statement = (\<lambda>t. Inr \<lparr>vs_Status = t, vs_Justification = '''', vs_ImpactStatement = '''', vs_ActionStatement = '''', vs_Timestamp = ''''\<rparr>)\<rparr>"

lemma empty_sql_custom: "g_custom (sql_abs (empty_sqldb cd like)) tk = Map.empty"
  by (simp add: sql_abs_def empty_sqldb_def split: prod.split)

theorem sql_KEV_stores_witness:
  "\<exists>(s :: (bitmap, bitmap node_aux + bitmap cache_aux) sqldb) s'. KEV sample_prio sql_storage s ''json'' = (s', 1, Inr ())
     \<and> writes_to (kev_writes (\<lambda>e. ''entry '' @ ke_CVEID e) [sample_entry '' cve-1 '', sample_entry '' '']) (KEVTag, ''CVE-1'')
        = [''entry'' \<mapsto> ''entry  cve-1 '']"
proof -
  let ?es = "[sample_entry '' cve-1 '', sample_entry '' '']"
  have w: "kev_writes (\<lambda>e. ''entry '' @ ke_CVEID e) ?es = [((KEVTag, ''CVE-1''), (''entry'', ''entry  cve-1 ''))]"
    by code_simp
  from sql_KEV_stores [OF empty_sqldb_ok(1) [OF tree_codec_ok [of rev]], of sample_prio "''json''"
      "\<lparr>kc_CatalogVersion = ''1'', kc_Vulnerabilities = ?es\<rparr>" "\<lambda>e. ''entry '' @ ke_CVEID e"]
  obtain s' :: "(bitmap, bitmap node_aux + bitmap cache_aux) sqldb" where
    "KEV sample_prio sql_storage (empty_sqldb (tree_codec rev) doc_like) ''json'' = (s', 1, Inr ())"
    unfolding kev_catalog.select_convs w by (auto simp: sample_prio_def)
  then show ?thesis unfolding w by (auto simp: writes_to_one)
qed

text \<open>
  C24. EPSS scores are kept for the vulnerabilities of the graph only: whatever the file holds, and also
  when reading it fails half way, \<open>EPSS\<close> on a consistent graph in memory writes nothing but scores of
  CVE names of vulnerabilities in the graph, and changes nothing else.
\<close>

theorem mock_EPSS_only_known:
  assumes "mock_wf s" and "graph_ok (mock_abs s)" and "range_ok ro"
  shows "\<exists>s' n r W. EPSS ro libs mock_storage s data = (s', n, r) \<and> mock_wf s'
    \<and> mock_abs s' = customised W (mock_abs s)
    \<and> fst ` set W \<subseteq> {EPSSTag} \<times> cves_of libs (g_nodes (mock_abs s))"
  by (rule ms.EPSS_ok [OF assms])

lemma sample_prio_cves: "cves_of sample_prio [1 \<mapsto> lone_node ''vuln'' ''GO-1'' (MBytes ''osv'')] = {''CVE-1''}"
proof -
  have "VulnerabilityNames sample_prio (lone_node ''vuln'' ''GO-1'' (MBytes ''osv'')) = [''GO-1'', ''CVE-1'']"
    by code_simp
  then show ?thesis by (auto simp: cves_of_def VulnerabilityType_def has_prefix_def split: if_splits)
qed

theorem mock_EPSS_only_known_witness:
  "\<exists>s' W. EPSS in_order sample_prio mock_storage (lone_mock ''vuln'' ''GO-1'' (MBytes ''osv'')) ''csv'' = (s', 1, Inr ())
     \<and> mock_abs s' = customised W (mock_abs (lone_mock ''vuln'' ''GO-1'' (MBytes ''osv'')))
     \<and> fst ` set W \<subseteq> {(EPSSTag, ''CVE-1'')}"
proof -
  let ?s = "lone_mock ''vuln'' ''GO-1'' (MBytes ''osv'')"
  obtain s' n r W where s': "EPSS in_order sample_prio mock_storage ?s ''csv'' = (s', n, r)"
    "mock_abs s' = customised W (mock_abs ?s)" "fst ` set W \<subseteq> {EPSSTag} \<times> cves_of sample_prio (g_nodes (mock_abs ?s))"
    using mock_EPSS_only_known [OF lone_mock_wf lone_mock_ok range_ok_in_order] by blast
  have "snd (EPSS in_order sample_prio mock_storage ?s ''csv'') = (1, Inr ())" by code_simp
  then have "n = 1" "r = Inr ()" unfolding s'(1) by simp_all
  moreover have "{EPSSTag} \<times> cves_of sample_prio (g_nodes (mock_abs ?s)) = {(EPSSTag, ''CVE-1'')}"
    unfolding lone_mock_simps sample_prio_cves by simp
  ultimately show ?thesis using s' by auto
qed

text \<open>
  C25. VEX statements are stored under every name of their vulnerability and every product: on a graph in
  Redis, the statements up to the first one with an unknown status are stored, and counted by their
  products; an unknown status ends the run with an error, and what was stored before it stays.
\<close>

theorem redis_VEX_stores:
  assumes "redis_wf b64 s" and "pl_vex libs data = Inr doc"
  shows "\<exists>s'. VEX libs redis_storage s data
      = (s', length (concat (map product_ids (known_statements (vx_Statements doc)))),
         if known_statements (vx_Statements doc) = vx_Statements doc then Inr () else Inl (Err ''unknown VEX status''))
    \<and> redis_wf b64 s' \<and> redis_abs s' = customised (vex_writes (\<lambda>e. pl_statement_text libs (statement_of (vx_Timestamp doc) e))
        (known_statements (vx_Statements doc))) (redis_abs s)"
  using rd.store_statements_ok [OF assms(1), of libs "vx_Timestamp doc" 0 "vx_Statements doc"] assms(2)
  by (simp add: VEX_def)

theorem redis_VEX_stores_witness:
  "\<exists>(s :: (bitmap, bitmap node_aux + bitmap cache_aux) redis) s'. VEX sample_prio redis_storage s ''json''
      = (s', 1, Inl (Err ''unknown VEX status''))
    \<and> g_custom (redis_abs s') (VEXTag, ''GHSA-1'') ''pkg:p'' = Some ''fixed 2024''"
proof -
  let ?m = "\<lambda>p k. has_prefix k (butlast p)"
  define db where "db = (empty_redis (tree_codec rev) ?m :: (bitmap, bitmap node_aux + bitmap cache_aux) redis)"
  have m: "prefix_patterns ?m" by (simp add: prefix_patterns_def butlast_append)
  note start = empty_redis_ok(1) [OF tree_codec_ok [of rev] m, folded db_def]
  define doc where "doc = (case pl_vex sample_prio ''json'' of Inr d \<Rightarrow> d)"
  have doc: "pl_vex sample_prio ''json'' = Inr doc" by (simp add: doc_def sample_prio_def)
  have n: "length (concat (map product_ids (known_statements (vx_Statements doc)))) = 1"
    "known_statements (vx_Statements doc) \<noteq> vx_Statements doc" unfolding doc_def by code_simp+
  have w: "writes_to (vex_writes (\<lambda>e. pl_statement_text sample_prio (statement_of (vx_Timestamp doc) e))
        (known_statements (vx_Statements doc))) (VEXTag, ''GHSA-1'') ''pkg:p'' = Some ''fixed 2024''"
    unfolding doc_def by code_simp
  obtain s' where s': "VEX sample_prio redis_storage db ''json'' = (s', 1, Inl (Err ''unknown VEX status''))"
    "redis_abs s' = customised (vex_writes (\<lambda>e. pl_statement_text sample_prio (statement_of (vx_Timestamp doc) e))
        (known_statements (vx_Statements doc))) (redis_abs db)"
    using redis_VEX_stores [OF start doc] n by auto
  have "g_custom (redis_abs s') (VEXTag, ''GHSA-1'') ''pkg:p'' = Some ''fixed 2024''"
    unfolding s'(2) customised_simps map_add_def w by simp
  with s'(1) show ?thesis by blast
qed

text \<open>
  C29. An OSV record survives storage: the ingester keeps its bytes as metadata, the databases return them
  as base64 text, and decoding the stored node gives the record and the names of the original.
\<close>

theorem stored_vulnerability_names:
  assumes "\<forall>d. pl_base64 libs (b64 d) = Inr d"
  shows "DecodeVulnerability libs (stored_metadata b64 m) = DecodeVulnerability libs m
    \<and> VulnerabilityNames libs (stored_node b64 n) = VulnerabilityNames libs n"
proof -
  have dec: "DecodeVulnerability libs (stored_metadata b64 m) = DecodeVulnerability libs m" for m
    using assms by (cases m) (simp_all add: DecodeVulnerability_def)
  have "n_Metadata (stored_node b64 n) = stored_metadata b64 (n_Metadata n)" by (simp add: stored_node_def)
  then show ?thesis by (simp add: VulnerabilityNames_def dec split: sum.split)
qed

theorem stored_vulnerability_names_witness:
  "VulnerabilityNames sample_prio (stored_node rev (lone_node ''vuln'' ''go-1'' (MBytes ''json''))) = [''GO-1'', ''CVE-1'']"
proof -
  have "\<forall>d. pl_base64 sample_prio (rev d) = Inr d" by (simp add: sample_prio_def)
  from stored_vulnerability_names [OF this, THEN conjunct2, of "lone_node ''vuln'' ''go-1'' (MBytes ''json'')"]
  have "VulnerabilityNames sample_prio (stored_node rev (lone_node ''vuln'' ''go-1'' (MBytes ''json'')))
      = VulnerabilityNames sample_prio (lone_node ''vuln'' ''go-1'' (MBytes ''json''))" .
  also have "\<dots> = to_upper ''go-1'' # map to_upper [''CVE-1'']"
    by (simp add: VulnerabilityNames_def DecodeVulnerability_def sample_prio_def sample_vuln_def)
  also have "\<dots> = [''GO-1'', ''CVE-1'']" by code_simp
  finally show ?thesis .
qed

end
