(* ===== verification/Report_Merge.thy ===== *)
theory Report_Merge
  imports Prioritize
begin

text \<open>
  Findings and the joining of those that describe one vulnerability, \<open>pkg/report/merge.go\<close>: a union-find
  over the names of the findings, and the merge of each group into one finding.
\<close>

section \<open>Findings\<close>

record product =
  pr_Name :: string
  pr_Path :: "string list"
  pr_VEX :: "vex_statement option"

record finding =
  fd_ID :: string
  fd_Aliases :: "string list"
  fd_Summary :: string
  fd_Severity :: string
  fd_KEV :: "kev_entry option"
  fd_EPSS :: "epss_score option"
  fd_Packages :: "string list"
  fd_Products :: "product list"
  fd_Suppressed :: "product list"

definition namesOf :: "finding \<Rightarrow> string list" where
  "namesOf f = to_upper (fd_ID f) # map to_upper (fd_Aliases f)"

definition idRank :: "string \<Rightarrow> nat" where
  "idRank i = (if has_prefix i ''GHSA-'' then 0 else if has_prefix i ''CVE-'' then 2 else 1)"

definition severityRank :: "string \<Rightarrow> nat" where
  "severityRank s =
     (let u = to_upper s
      in if u = ''CRITICAL'' then 5 else if u = ''HIGH'' then 4
         else if u = ''MODERATE'' \<or> u = ''MEDIUM'' then 3 else if u = ''LOW'' then 2
         else if u = '''' then 0 else 1)"

section \<open>Union-find\<close>

text \<open>
  \<open>find\<close>, which compresses the path it follows. It ends only on a forest, so it is a partial function:
  not returning is \<open>None\<close>.
\<close>

partial_function (option) uf_find :: "nat list \<Rightarrow> nat \<Rightarrow> (nat list \<times> nat) option" where
  "uf_find parent i =
     (if parent ! i \<noteq> i then
        Option.bind (uf_find parent (parent ! i)) (\<lambda>(parent', r). Some (parent'[i := r], r))
      else Some (parent, i))"

declare uf_find.simps [code]

text \<open>The loops over the names of a finding and over the findings.\<close>

fun join_names :: "nat \<Rightarrow> string list \<Rightarrow> nat list \<Rightarrow> (string \<rightharpoonup> nat) \<Rightarrow> (nat list \<times> (string \<rightharpoonup> nat)) option" where
  "join_names i [] parent owner = Some (parent, owner)"
| "join_names i (nm # nms) parent owner =
     (case owner nm of
        None \<Rightarrow> join_names i nms parent (owner(nm \<mapsto> i))
      | Some j \<Rightarrow>
          (case uf_find parent i of
             None \<Rightarrow> None
           | Some (parent1, ri) \<Rightarrow>
               (case uf_find parent1 j of
                  None \<Rightarrow> None
                | Some (parent2, rj) \<Rightarrow> join_names i nms (parent2[ri := rj]) owner)))"

fun join_findings :: "nat \<Rightarrow> finding list \<Rightarrow> nat list \<Rightarrow> (string \<rightharpoonup> nat) \<Rightarrow> (nat list \<times> (string \<rightharpoonup> nat)) option" where
  "join_findings i [] parent owner = Some (parent, owner)"
| "join_findings i (f # fs) parent owner =
     (case join_names i (namesOf f) parent owner of
        None \<Rightarrow> None
      | Some (parent', owner') \<Rightarrow> join_findings (i + 1) fs parent' owner')"

text \<open>The groups by root, and the roots in the order in which they are met.\<close>

fun group_findings ::
  "nat \<Rightarrow> finding list \<Rightarrow> nat list \<Rightarrow> (nat \<rightharpoonup> finding list) \<Rightarrow> nat list \<Rightarrow> ((nat \<rightharpoonup> finding list) \<times> nat list) option" where
  "group_findings i [] parent groups order = Some (groups, order)"
| "group_findings i (f # fs) parent groups order =
     (case uf_find parent i of
        None \<Rightarrow> None
      | Some (parent', rt) \<Rightarrow>
          (case groups rt of
             None \<Rightarrow> group_findings (i + 1) fs parent' (groups(rt \<mapsto> [f])) (order @ [rt])
           | Some g \<Rightarrow> group_findings (i + 1) fs parent' (groups(rt \<mapsto> g @ [f])) order))"

section \<open>Merging a group\<close>

definition product_less :: "product \<Rightarrow> product \<Rightarrow> bool" where
  "product_less a b \<longleftrightarrow> str_less (pr_Name a) (pr_Name b)"

definition sortedKeys :: "range_order \<Rightarrow> nat \<Rightarrow> string list \<Rightarrow> string list" where
  "sortedKeys ro k m = sort_Strings (go_range ro k m)"

definition sortedProducts :: "range_order \<Rightarrow> nat \<Rightarrow> (string \<times> product) list \<Rightarrow> product list" where
  "sortedProducts ro k m = stable_sort product_less (map snd (go_range ro k m))"

text \<open>The variables of the loop over a group. A set that is ranged over is the list of its keys.\<close>

record merge_state =
  ms_out :: finding
  ms_names :: "string set"
  ms_aliases :: "string list"
  ms_packages :: "string list"
  ms_products :: "(string \<times> product) list"
  ms_suppressed :: "(string \<times> product) list"

definition add_name :: "string \<Rightarrow> string set \<times> string list \<Rightarrow> string set \<times> string list" where
  "add_name n acc = (if n \<in> fst acc then acc else (insert n (fst acc), snd acc @ [n]))"

definition add_key :: "string \<Rightarrow> string list \<Rightarrow> string list" where
  "add_key x m = (if x \<in> set m then m else m @ [x])"

definition add_product :: "product \<Rightarrow> (string \<times> product) list \<Rightarrow> (string \<times> product) list" where
  "add_product p m = (if pr_Name p \<in> set (keys_of m) then m else m @ [(pr_Name p, p)])"

definition merge_one :: "finding \<Rightarrow> merge_state \<Rightarrow> merge_state" where
  "merge_one f m =
     (let (names, aliases) = fold add_name (namesOf f) (ms_names m, ms_aliases m);
          out = ms_out m;
          out1 = (if fd_Summary out = '''' then out\<lparr>fd_Summary := fd_Summary f\<rparr> else out);
          out2 = (if severityRank (fd_Severity out1) < severityRank (fd_Severity f)
                  then out1\<lparr>fd_Severity := fd_Severity f\<rparr> else out1);
          out3 = (if fd_KEV out2 = None then out2\<lparr>fd_KEV := fd_KEV f\<rparr> else out2);
          out4 = (case fd_EPSS f of
                    None \<Rightarrow> out3
                  | Some e \<Rightarrow>
                      (case fd_EPSS out3 of
                         None \<Rightarrow> out3\<lparr>fd_EPSS := Some e\<rparr>
                       | Some e' \<Rightarrow> if fl_less (ep_EPSS e') (ep_EPSS e) then out3\<lparr>fd_EPSS := Some e\<rparr> else out3))
      in \<lparr>ms_out = out4, ms_names = names, ms_aliases = aliases,
          ms_packages = fold add_key (fd_Packages f) (ms_packages m),
          ms_products = fold add_product (fd_Products f) (ms_products m),
          ms_suppressed = fold add_product (fd_Suppressed f) (ms_suppressed m)\<rparr>)"

text \<open>
  The range statements of a call are numbered from \<open>k\<close>; the first use of \<open>sortedProducts\<close> in the source,
  number \<open>k + 1\<close>, is overwritten by the second.
\<close>

definition mergeGroup :: "range_order \<Rightarrow> nat \<Rightarrow> finding list \<Rightarrow> finding res" where
  "mergeGroup ro k fs =
     (if length fs = 1 then Inr (hd fs)
      else
        (case stable_sort (\<lambda>a b. idRank (fd_ID a) < idRank (fd_ID b)) fs of
           [] \<Rightarrow> Inl (Panic ''index out of range'')
         | first # rest \<Rightarrow>
             (let m = fold merge_one (first # rest)
                    \<lparr>ms_out = first, ms_names = {to_upper (fd_ID first)}, ms_aliases = [], ms_packages = [],
                     ms_products = [], ms_suppressed = []\<rparr>;
                  products = filter (\<lambda>p. fst p \<notin> set (keys_of (ms_suppressed m))) (ms_products m)
              in Inr ((ms_out m)\<lparr>fd_Aliases := sort_Strings (ms_aliases m),
                    fd_Packages := sortedKeys ro k (ms_packages m),
                    fd_Products := sortedProducts ro (k + 2) products,
                    fd_Suppressed :=
                      (if 0 < length (ms_suppressed m) then sortedProducts ro (k + 3) (ms_suppressed m) else [])\<rparr>))))"

fun merge_groups :: "range_order \<Rightarrow> nat \<Rightarrow> finding list list \<Rightarrow> finding list res" where
  "merge_groups ro k [] = Inr []"
| "merge_groups ro k (g # gs) =
     bind_res (mergeGroup ro k g) (\<lambda>f. bind_res (merge_groups ro (k + 4) gs) (\<lambda>fs. Inr (f # fs)))"

definition mergeAliases :: "range_order \<Rightarrow> nat \<Rightarrow> finding list \<Rightarrow> finding list res option" where
  "mergeAliases ro k findings =
     (case join_findings 0 findings [0..<length findings] Map.empty of
        None \<Rightarrow> None
      | Some (parent, owner) \<Rightarrow>
          (case group_findings 0 findings parent Map.empty [] of
             None \<Rightarrow> None
           | Some (groups, order) \<Rightarrow>
               Some (merge_groups ro k (map (\<lambda>rt. case groups rt of None \<Rightarrow> [] | Some g \<Rightarrow> g) order))))"

section \<open>Forests\<close>

text \<open>\<open>rep p i r\<close>: following the parents from \<open>i\<close> ends in the root \<open>r\<close>.\<close>

inductive rep :: "nat list \<Rightarrow> nat \<Rightarrow> nat \<Rightarrow> bool" for p where
  root: "i < length p \<Longrightarrow> p ! i = i \<Longrightarrow> rep p i i"
| step: "i < length p \<Longrightarrow> p ! i \<noteq> i \<Longrightarrow> rep p (p ! i) r \<Longrightarrow> rep p i r"

inductive_cases repE: "rep p i r"

definition forest :: "nat list \<Rightarrow> bool" where
  "forest p \<longleftrightarrow> (\<forall>i < length p. \<exists>r. rep p i r)"

lemma rep_bounds: "rep p i r \<Longrightarrow> i < length p \<and> r < length p \<and> p ! r = r"
  by (induction rule: rep.induct) auto

lemma rep_of_root: "rep p i r \<Longrightarrow> p ! i = i \<Longrightarrow> r = i"
  by (erule repE) simp_all

lemma rep_of_step: "rep p i r \<Longrightarrow> p ! i \<noteq> i \<Longrightarrow> rep p (p ! i) r"
  by (erule repE) simp_all

lemma rep_unique: "rep p i r \<Longrightarrow> rep p i s \<Longrightarrow> r = s"
proof (induction arbitrary: s rule: rep.induct)
  case (root i)
  show ?case using rep_of_root [OF root(3,2)] by simp
next
  case (step i r)
  show ?case by (rule step.IH [OF rep_of_step [OF step.prems step.hyps(2)]])
qed

lemma forestD: "forest p \<Longrightarrow> i < length p \<Longrightarrow> \<exists>r. rep p i r"
  by (simp add: forest_def)

text \<open>Redirecting a node to its root changes no root.\<close>

lemma rep_compress:
  assumes r: "rep p i r" and k: "rep p k s"
  shows "rep (p[i := r]) k s"
  using k
proof (induction rule: rep.induct)
  case (root k)
  have "p[i := r] ! k = k" using rep_of_root [OF r] root by (cases "k = i") simp_all
  show ?case by (rule rep.root) (use root(1) \<open>p[i := r] ! k = k\<close> in simp_all)
next
  case (step k s)
  show ?case
  proof (cases "k = i")
    case True
    then have s: "s = r" using rep_unique [OF r rep.step [OF step(1-3) [unfolded True]]] by simp
    have b: "r < length p" "p ! r = r" using rep_bounds [OF r] by blast+
    then have ne: "r \<noteq> i" using step(2) True by blast
    have top: "rep (p[i := r]) r r" by (rule rep.root) (use b ne in simp_all)
    show ?thesis unfolding True s by (rule rep.step) (use step(1) True ne top in simp_all)
  next
    case False
    show ?thesis by (rule rep.step) (use step False in simp_all)
  qed
qed

lemma rep_transfer:
  assumes "forest p" and "length q = length p" and "\<And>k s. rep p k s \<Longrightarrow> rep q k s"
  shows "forest q" and "rep q k s \<longleftrightarrow> rep p k s"
proof -
  show "forest q" using assms unfolding forest_def by metis
  show "rep q k s \<longleftrightarrow> rep p k s"
    using assms rep_unique rep_bounds unfolding forest_def by metis
qed

lemma uf_find_ok:
  assumes "rep p i r" and "forest p"
  shows "\<exists>q. uf_find p i = Some (q, r) \<and> length q = length p \<and> forest q \<and> (\<forall>k s. rep q k s \<longleftrightarrow> rep p k s)"
  using assms
proof (induction rule: rep.induct)
  case (root i)
  then show ?case by (subst uf_find.simps) simp
next
  case (step i r)
  then obtain q where q: "uf_find p (p ! i) = Some (q, r)" "length q = length p" "forest q"
    "\<forall>k s. rep q k s \<longleftrightarrow> rep p k s" by blast
  have i: "rep q i r" using q(4) rep.step [OF step(1-3)] by simp
  have "uf_find p i = Some (q[i := r], r)" using step(2) q(1) by (subst uf_find.simps) simp
  moreover have "forest (q[i := r])" "rep (q[i := r]) k s \<longleftrightarrow> rep q k s" for k s
    using rep_transfer [OF q(3) _ rep_compress [OF i]] by simp_all
  ultimately show ?case using q(2,4) by auto
qed

text \<open>Linking a root to another root joins their trees.\<close>

lemma rep_link:
  assumes a: "a < length p" "p ! a = a" and b: "b < length p" "p ! b = b" and k: "rep p k s"
  shows "rep (p[a := b]) k (if s = a then b else s)"
  using k
proof (induction rule: rep.induct)
  case (root k)
  have fixed: "rep (p[a := b]) b b"
  proof (rule rep.root)
    show "p[a := b] ! b = b" using b by (cases "a = b") simp_all
  qed (use b in simp)
  show ?case
  proof (cases "k = a")
    case False
    show ?thesis unfolding if_not_P [OF False] by (rule rep.root) (use root False in simp_all)
  next
    case True
    show ?thesis
    proof (cases "a = b")
      case True
      show ?thesis using fixed \<open>k = a\<close> True by simp
    next
      case False
      have "rep (p[a := b]) a b" by (rule rep.step) (use a False fixed in simp_all)
      then show ?thesis using \<open>k = a\<close> by simp
    qed
  qed
next
  case (step k s)
  have "k \<noteq> a" using a step(2) by blast
  show ?case by (rule rep.step) (use step \<open>k \<noteq> a\<close> in simp_all)
qed

lemma forest_link:
  assumes "forest p" and "a < length p" "p ! a = a" and "b < length p" "p ! b = b"
  shows "forest (p[a := b])"
  using rep_link [OF assms(2-5)] assms(1) unfolding forest_def by (metis length_list_update)

lemma forest_upt: "forest [0..<n]" "rep [0..<n] i r \<longleftrightarrow> i < n \<and> r = i"
proof -
  have r: "rep [0..<n] i i" if "i < n" for i by (rule rep.root) (use that in auto)
  then show "forest [0..<n]" by (auto simp: forest_def)
  show "rep [0..<n] i r \<longleftrightarrow> i < n \<and> r = i"
    using r rep_unique [OF r] rep_bounds [of "[0..<n]" i r] by auto
qed

section \<open>Joining by names\<close>

definition same_tree :: "nat list \<Rightarrow> nat \<Rightarrow> nat \<Rightarrow> bool" where
  "same_tree p i j \<longleftrightarrow> (\<exists>r. rep p i r \<and> rep p j r)"

lemma same_tree_sym: "same_tree p i j \<Longrightarrow> same_tree p j i"
  unfolding same_tree_def by blast

lemma same_tree_trans: "same_tree p i j \<Longrightarrow> same_tree p j k \<Longrightarrow> same_tree p i k"
  unfolding same_tree_def using rep_unique by blast

lemma same_tree_refl: "forest p \<Longrightarrow> i < length p \<Longrightarrow> same_tree p i i"
  unfolding same_tree_def using forestD by blast

text \<open>\<open>S\<close> holds the pairs of a position and a name that were met.\<close>

definition shares :: "(nat \<times> string) set \<Rightarrow> (nat \<times> nat) set" where
  "shares S = {(i, j). \<exists>x. (i, x) \<in> S \<and> (j, x) \<in> S}"

definition joined :: "nat list \<Rightarrow> (string \<rightharpoonup> nat) \<Rightarrow> (nat \<times> string) set \<Rightarrow> bool" where
  "joined p owner S \<longleftrightarrow> forest p \<and> fst ` S \<subseteq> {..<length p}
     \<and> (\<forall>x j. owner x = Some j \<longrightarrow> (j, x) \<in> S) \<and> snd ` S \<subseteq> dom owner
     \<and> (\<forall>i < length p. \<forall>j < length p. same_tree p i j \<longleftrightarrow> (i, j) \<in> (shares S)\<^sup>*)"

lemma shares_mono: "S \<subseteq> T \<Longrightarrow> shares S \<subseteq> shares T"
  unfolding shares_def by blast

lemma shares_sym: "(i, j) \<in> (shares S)\<^sup>* \<Longrightarrow> (j, i) \<in> (shares S)\<^sup>*"
proof -
  have "sym (shares S)" unfolding shares_def sym_def by blast
  from sym_rtrancl [OF this] show "(i, j) \<in> (shares S)\<^sup>* \<Longrightarrow> (j, i) \<in> (shares S)\<^sup>*" by (rule symD)
qed

lemma joined_new:
  assumes j: "joined p owner S" and i: "i < length p" and x: "owner x = None"
  shows "joined p (owner(x \<mapsto> i)) (insert (i, x) S)"
proof -
  have "snd ` S \<subseteq> dom owner" using j unfolding joined_def by blast
  then have none: "(a, x) \<notin> S" for a using x by force
  have "shares (insert (i, x) S) = shares S \<union> {(i, i)}" unfolding shares_def using none by auto
  then have "(shares (insert (i, x) S))\<^sup>* = (shares S)\<^sup>*" by (intro rtrancl_subset) auto
  then show ?thesis using j i unfolding joined_def by auto
qed

lemma joined_old:
  assumes j: "joined p owner S" and i: "i < length p" and x: "owner x = Some k"
  shows "\<exists>p1 ri p2 rj. uf_find p i = Some (p1, ri) \<and> uf_find p1 k = Some (p2, rj) \<and> length p2 = length p
    \<and> joined (p2[ri := rj]) owner (insert (i, x) S)"
proof -
  have f: "forest p" and dom: "fst ` S \<subseteq> {..<length p}" and k: "(k, x) \<in> S"
    and eq: "\<And>a b. a < length p \<Longrightarrow> b < length p \<Longrightarrow> same_tree p a b \<longleftrightarrow> (a, b) \<in> (shares S)\<^sup>*"
    using j x unfolding joined_def by auto
  have "k < length p" using k dom by force
  obtain ri rj where r: "rep p i ri" "rep p k rj" using forestD [OF f] i \<open>k < length p\<close> by blast
  obtain p1 where p1: "uf_find p i = Some (p1, ri)" "length p1 = length p" "forest p1"
    "\<forall>k s. rep p1 k s \<longleftrightarrow> rep p k s" using uf_find_ok [OF r(1) f] by blast
  obtain p2 where p2: "uf_find p1 k = Some (p2, rj)" "length p2 = length p1" "forest p2"
    "\<forall>k s. rep p2 k s \<longleftrightarrow> rep p1 k s" using uf_find_ok [OF _ p1(3)] r(2) p1(4) by blast
  have reps: "rep p2 k s \<longleftrightarrow> rep p k s" for k s using p1(4) p2(4) by simp
  let ?q = "p2[ri := rj]"
  have roots: "ri < length p2" "p2 ! ri = ri" "rj < length p2" "p2 ! rj = rj"
    using rep_bounds r unfolding reps [symmetric] by blast+
  have q: "rep ?q a (if s = ri then rj else s)" if "rep p a s" for a s
    using rep_link [OF roots] that unfolding reps by blast
  have fq: "forest ?q" by (rule forest_link [OF p2(3) roots])
  let ?S = "insert (i, x) S"
  have keep: "same_tree ?q a b" if "same_tree p a b" for a b
    using that q unfolding same_tree_def by blast
  have meet: "same_tree ?q i a" if "(a, x) \<in> S" for a
  proof -
    have "a < length p" using that dom by force
    moreover have "(a, k) \<in> shares S" using that k unfolding shares_def by blast
    ultimately have "same_tree p a k" using eq \<open>k < length p\<close> by blast
    then have "rep p a rj" using r(2) rep_unique unfolding same_tree_def by blast
    from q [OF this] q [OF r(1)] show ?thesis unfolding same_tree_def by (auto split: if_splits)
  qed
  have "same_tree ?q a b \<longleftrightarrow> (a, b) \<in> (shares ?S)\<^sup>*" if a: "a < length p" and b: "b < length p" for a b
  proof
    assume "same_tree ?q a b"
    obtain s t where st: "rep p a s" "rep p b t" using forestD [OF f] a b by blast
    have sub: "(u, v) \<in> (shares ?S)\<^sup>*" if "same_tree p u v" "u < length p" "v < length p" for u v
      using eq [OF that(2,3)] that(1) rtrancl_mono [OF shares_mono [of S ?S]] by blast
    have ik: "(i, k) \<in> shares ?S" using k unfolding shares_def by blast
    have "(if s = ri then rj else s) = (if t = ri then rj else t)"
      using \<open>same_tree ?q a b\<close> q [OF st(1)] q [OF st(2)] rep_unique unfolding same_tree_def by blast
    then consider "s = t" | "s = ri" "t = rj" | "s = rj" "t = ri" by (auto split: if_splits)
    then show "(a, b) \<in> (shares ?S)\<^sup>*"
    proof cases
      case 1
      then show ?thesis using st sub a b unfolding same_tree_def by blast
    next
      case 2
      then have "(a, i) \<in> (shares ?S)\<^sup>*" "(k, b) \<in> (shares ?S)\<^sup>*"
        using st r sub a b i \<open>k < length p\<close> unfolding same_tree_def by blast+
      with ik show ?thesis by (meson rtrancl.rtrancl_into_rtrancl rtrancl_trans)
    next
      case 3
      then have "(b, i) \<in> (shares ?S)\<^sup>*" "(k, a) \<in> (shares ?S)\<^sup>*"
        using st r sub a b i \<open>k < length p\<close> unfolding same_tree_def by blast+
      with ik have "(b, a) \<in> (shares ?S)\<^sup>*" by (meson rtrancl.rtrancl_into_rtrancl rtrancl_trans)
      then show ?thesis by (rule shares_sym)
    qed
  next
    assume "(a, b) \<in> (shares ?S)\<^sup>*"
    then show "same_tree ?q a b"
    proof (induction rule: rtrancl_induct)
      case base
      show ?case using same_tree_refl [OF fq] a p1(2) p2(2) by simp
    next
      case (step b c)
      obtain y where y: "(b, y) \<in> ?S" "(c, y) \<in> ?S" using step(2) unfolding shares_def by blast
      have "same_tree ?q b c"
      proof (cases "(b, y) \<in> S \<and> (c, y) \<in> S")
        case True
        then have "(b, c) \<in> shares S" "b < length p" "c < length p" using dom unfolding shares_def by force+
        then show ?thesis using keep eq by blast
      next
        case False
        then have "y = x" "b = i \<or> c = i" using y by auto
        then show ?thesis
          using y meet same_tree_sym same_tree_refl [OF fq, of i] i p1(2) p2(2) by auto
      qed
      with step(3) show ?case by (rule same_tree_trans)
    qed
  qed
  moreover have "fst ` ?S \<subseteq> {..<length ?q}" using dom i p1(2) p2(2) by simp
  moreover have "snd ` ?S \<subseteq> dom owner" "\<forall>y l. owner y = Some l \<longrightarrow> (l, y) \<in> ?S"
    using j x unfolding joined_def by auto
  ultimately have "joined ?q owner ?S" using fq p1(2) p2(2) unfolding joined_def by simp
  then show ?thesis using p1(1,2) p2(1,2) by auto
qed

lemma join_names_ok:
  assumes "joined p owner S" and "i < length p"
  shows "\<exists>p' owner'. join_names i nms p owner = Some (p', owner') \<and> length p' = length p
    \<and> joined p' owner' (S \<union> {i} \<times> set nms)"
  using assms
proof (induction nms arbitrary: p owner S)
  case (Cons x nms)
  have S: "insert (i, x) S \<union> {i} \<times> set nms = S \<union> {i} \<times> set (x # nms)" by auto
  show ?case
  proof (cases "owner x")
    case None
    from Cons.IH [OF joined_new [OF Cons.prems None] Cons.prems(2)] show ?thesis unfolding S
      using None by (simp only: join_names.simps option.case)
  next
    case (Some k)
    obtain p1 ri p2 rj where u: "uf_find p i = Some (p1, ri)" "uf_find p1 k = Some (p2, rj)" "length p2 = length p"
      "joined (p2[ri := rj]) owner (insert (i, x) S)" using joined_old [OF Cons.prems Some] by blast
    have "i < length (p2[ri := rj])" using Cons.prems(2) u(3) by simp
    from Cons.IH [OF u(4) this] show ?thesis unfolding S using Some u(1-3) by simp
  qed
qed simp

text \<open>The pairs of a position and a name of a list of findings.\<close>

definition names_at :: "finding list \<Rightarrow> (nat \<times> string) set" where
  "names_at fs = {(i, x). i < length fs \<and> x \<in> set (namesOf (fs ! i))}"

lemma names_at_snoc: "names_at (fs @ [f]) = names_at fs \<union> {length fs} \<times> set (namesOf f)"
  unfolding names_at_def by (auto simp: nth_append less_Suc_eq split: if_splits)

lemma join_findings_ok:
  assumes "joined p owner (names_at done)" and "length done + length fs = length p"
  shows "\<exists>p' owner'. join_findings (length done) fs p owner = Some (p', owner') \<and> length p' = length p
    \<and> joined p' owner' (names_at (done @ fs))"
  using assms
proof (induction fs arbitrary: "done" p owner)
  case (Cons f fs)
  obtain p1 o1 where 1: "join_names (length done) (namesOf f) p owner = Some (p1, o1)" "length p1 = length p"
    "joined p1 o1 (names_at (done @ [f]))"
    using join_names_ok [OF Cons.prems(1), of "length done" "namesOf f"] Cons.prems(2)
    unfolding names_at_snoc by auto
  have "length (done @ [f]) + length fs = length p1" using 1(2) Cons.prems(2) by simp
  from Cons.IH [OF 1(3) this] show ?case using 1(1,2) by simp
qed simp

lemma joined_start: "joined [0..<n] Map.empty (names_at [])"
proof -
  have "shares (names_at []) = {}" by (simp add: shares_def names_at_def)
  then show ?thesis by (auto simp: joined_def forest_upt same_tree_def names_at_def)
qed

section \<open>The groups\<close>

text \<open>The elements of a list in the order of their first occurrence, and the findings of one root.\<close>

definition firsts :: "'a list \<Rightarrow> 'a list" where
  "firsts xs = rev (remdups (rev xs))"

definition block :: "finding list \<Rightarrow> (nat \<Rightarrow> nat) \<Rightarrow> nat \<Rightarrow> finding list" where
  "block fs R r = map (\<lambda>k. fs ! k) (filter (\<lambda>k. R k = r) [0..<length fs])"

lemma firsts_snoc: "firsts (xs @ [x]) = (if x \<in> set xs then firsts xs else firsts xs @ [x])"
  by (simp add: firsts_def)

lemma set_firsts [simp]: "set (firsts xs) = set xs"
  by (simp add: firsts_def)

lemma distinct_firsts [simp]: "distinct (firsts xs)"
  by (simp add: firsts_def)

lemma block_snoc: "block (fs @ [f]) R r = block fs R r @ (if R (length fs) = r then [f] else [])"
proof -
  have "map (\<lambda>k. (fs @ [f]) ! k) (filter (\<lambda>k. R k = r) [0..<length fs]) = block fs R r"
    unfolding block_def by (rule map_cong) (auto simp: nth_append)
  then show ?thesis by (simp add: block_def)
qed

lemma set_block: "set (block fs R r) = {fs ! k | k. k < length fs \<and> R k = r}"
  by (auto simp: block_def)

lemma block_nonempty: "r \<in> R ` {..<length fs} \<Longrightarrow> block fs R r \<noteq> []"
  by (auto simp: block_def filter_empty_conv)

text \<open>The groups and the order after the findings \<open>fs\<close>.\<close>

definition grouped :: "finding list \<Rightarrow> (nat \<Rightarrow> nat) \<Rightarrow> (nat \<rightharpoonup> finding list) \<Rightarrow> nat list \<Rightarrow> bool" where
  "grouped fs R groups order \<longleftrightarrow> order = firsts (map R [0..<length fs])
     \<and> (\<forall>r. groups r = (if r \<in> R ` {..<length fs} then Some (block fs R r) else None))"

lemma grouped_step:
  assumes "grouped fs R groups order"
  shows "(case groups (R (length fs)) of
      None \<Rightarrow> grouped (fs @ [f]) R (groups(R (length fs) \<mapsto> [f])) (order @ [R (length fs)])
    | Some g \<Rightarrow> grouped (fs @ [f]) R (groups(R (length fs) \<mapsto> g @ [f])) order)"
proof (cases "R (length fs) \<in> R ` {..<length fs}")
  case True
  then have "R (length fs) \<in> set (map R [0..<length fs])" by (simp add: atLeast0LessThan)
  with True show ?thesis
    using assms by (simp add: grouped_def firsts_snoc block_snoc lessThan_Suc insert_absorb)
next
  case False
  then have ne: "R k \<noteq> R (length fs)" if "k < length fs" for k using that by (metis imageI lessThan_iff)
  then have "R (length fs) \<notin> set (map R [0..<length fs])" "block fs R (R (length fs)) = []"
    by (force, auto simp: block_def filter_empty_conv)
  with False show ?thesis
    using assms by (auto simp: grouped_def firsts_snoc block_snoc lessThan_Suc)
qed

lemma group_findings_ok:
  assumes "forest p" and "\<And>k s. rep p k s \<longleftrightarrow> k < length p \<and> s = R k"
    and "grouped done R groups order" and "length done + length fs = length p"
  shows "\<exists>groups' order'. group_findings (length done) fs p groups order = Some (groups', order')
    \<and> grouped (done @ fs) R groups' order'"
  using assms
proof (induction fs arbitrary: "done" p groups order)
  case (Cons f fs)
  have "rep p (length done) (R (length done))" using Cons.prems(2,4) by simp
  then obtain q where q: "uf_find p (length done) = Some (q, R (length done))" "length q = length p" "forest q"
    "\<forall>k s. rep q k s \<longleftrightarrow> rep p k s" using uf_find_ok Cons.prems(1) by blast
  have reps: "rep q k s \<longleftrightarrow> k < length q \<and> s = R k" for k s using q(2,4) Cons.prems(2) by simp
  have len: "length (done @ [f]) + length fs = length q" using q(2) Cons.prems(4) by simp
  show ?case
  proof (cases "groups (R (length done))")
    case None
    with grouped_step [OF Cons.prems(3), of f]
    have "grouped (done @ [f]) R (groups(R (length done) \<mapsto> [f])) (order @ [R (length done)])" by simp
    from Cons.IH [OF q(3) reps this len] show ?thesis using q(1) None by (simp del: fun_upd_apply)
  next
    case (Some g)
    with grouped_step [OF Cons.prems(3), of f]
    have "grouped (done @ [f]) R (groups(R (length done) \<mapsto> g @ [f])) order" by simp
    from Cons.IH [OF q(3) reps this len] show ?thesis using q(1) Some by (simp del: fun_upd_apply)
  qed
qed simp

text \<open>
  What \<open>mergeAliases\<close> merges: \<open>R\<close> numbers the groups, which are the classes of the findings that are
  joined by a chain of shared names, in the order of their first findings.
\<close>

lemma mergeAliases_groups:
  "\<exists>R. (\<forall>i < length fs. \<forall>j < length fs. R i = R j \<longleftrightarrow> (i, j) \<in> (shares (names_at fs))\<^sup>*)
     \<and> mergeAliases ro k fs
         = Some (merge_groups ro k (map (block fs R) (firsts (map R [0..<length fs]))))"
proof -
  let ?n = "length fs"
  obtain p owner where p: "join_findings 0 fs [0..<?n] Map.empty = Some (p, owner)" "length p = ?n"
    "joined p owner (names_at fs)"
    using join_findings_ok [where fs = fs, OF joined_start [of ?n]] by auto
  have f: "forest p" and eq: "\<And>i j. i < ?n \<Longrightarrow> j < ?n \<Longrightarrow> same_tree p i j \<longleftrightarrow> (i, j) \<in> (shares (names_at fs))\<^sup>*"
    using p(2,3) unfolding joined_def by auto
  define R where "R i = (if \<exists>r. rep p i r then SOME r. rep p i r else 0)" for i
  have R: "rep p i s \<longleftrightarrow> i < length p \<and> s = R i" for i s
  proof
    assume s: "rep p i s"
    then have "rep p i (R i)" unfolding R_def by (auto intro: someI)
    with s show "i < length p \<and> s = R i" using rep_unique rep_bounds by blast
  next
    assume "i < length p \<and> s = R i"
    then show "rep p i s" using forestD [OF f] unfolding R_def by (auto intro: someI)
  qed
  have "grouped [] R Map.empty []" by (simp add: grouped_def firsts_def)
  from group_findings_ok [OF f R this, of fs] p(2)
  obtain groups order where g: "group_findings 0 fs p Map.empty [] = Some (groups, order)" "grouped fs R groups order"
    by auto
  have "map (\<lambda>rt. case groups rt of None \<Rightarrow> [] | Some g \<Rightarrow> g) order = map (block fs R) (firsts (map R [0..<?n]))"
    using g(2) by (auto simp: grouped_def)
  then have "mergeAliases ro k fs = Some (merge_groups ro k (map (block fs R) (firsts (map R [0..<?n]))))"
    by (simp add: mergeAliases_def p(1) g(1))
  moreover have "R i = R j \<longleftrightarrow> (i, j) \<in> (shares (names_at fs))\<^sup>*" if "i < ?n" "j < ?n" for i j
    using eq [OF that] that p(2) unfolding same_tree_def R by auto
  ultimately show ?thesis by blast
qed

section \<open>The merge of a group\<close>

text \<open>Sorting what was ranged over: the result does not depend on the order of the range.\<close>

lemma go_range_keys: "range_ok ro \<Longrightarrow> mset (map f (go_range ro k xs)) = mset (map f xs)"
  by (simp add: mset_go_range)

lemma str_sorted_distinct: "sorted_wrt str_less xs \<Longrightarrow> distinct xs"
  by (induction xs) auto

lemma sorted_key_unique:
  assumes "sorted_wrt str_less (map f xs)" and "sorted_wrt str_less (map f ys)" and "set xs = set ys"
  shows "xs = ys"
proof -
  have eq: "map f xs = map f ys"
    by (rule sorted_str_unique [OF assms(1,2)]) (simp add: assms(3))
  have "distinct (map f xs)" using assms(1) by (rule str_sorted_distinct)
  then have "inj_on f (set xs)" by (simp add: distinct_map)
  then show ?thesis using inj_on_map_eq_map [of f xs ys] eq assms(3) by simp
qed

lemma sorted_products:
  assumes "distinct (map pr_Name ps)"
  shows "sorted_wrt str_less (map pr_Name (stable_sort product_less ps))"
proof -
  let ?s = "stable_sort product_less ps"
  have "weak_order_on (set ps) product_less"
    unfolding product_less_def [abs_def] by (rule weak_order_key [OF weak_order_str_less subset_UNIV])
  from sorted_stable_sort [OF this] have "sorted_wrt (\<lambda>a b. \<not> str_less b a) (map pr_Name ?s)"
    by (simp add: sorted_wrt_map product_less_def)
  moreover have "distinct (map pr_Name ?s)"
    by (rule distinct_map_stable_sort [OF assms])
  ultimately have "sorted_wrt (\<lambda>a b. \<not> str_less b a \<and> a \<noteq> b) (map pr_Name ?s)"
    by (simp add: sorted_wrt_iff_nth_less distinct_conv_nth)
  then show ?thesis by (rule sorted_wrt_mono_rel [rotated]) (use str_less_total in blast)
qed

lemma sortedKeys_any:
  assumes "range_ok ro" and "distinct m"
  shows "sortedKeys ro k m = sort_Strings m"
  unfolding sortedKeys_def
  by (rule sorted_str_unique) (use assms in \<open>simp_all add: sort_Strings_strict\<close>, simp add: sort_Strings_def assms)

definition product_map :: "(string \<times> product) list \<Rightarrow> bool" where
  "product_map m \<longleftrightarrow> distinct (keys_of m) \<and> (\<forall>(x, p) \<in> set m. pr_Name p = x)"

lemma product_map_names: "product_map m \<Longrightarrow> map pr_Name (map snd m) = keys_of m"
  by (auto simp: product_map_def)

lemma sortedProducts_any:
  assumes "range_ok ro" and "product_map m"
  shows "sortedProducts ro k m = stable_sort product_less (map snd m)"
proof (rule sorted_key_unique [of pr_Name])
  have d: "distinct (map pr_Name (map snd m))"
    using assms(2) unfolding product_map_names [OF assms(2)] by (simp add: product_map_def)
  then show "sorted_wrt str_less (map pr_Name (stable_sort product_less (map snd m)))" by (rule sorted_products)
  have "distinct (map pr_Name (map snd (go_range ro k m)))"
    using d go_range_keys [OF assms(1), of "\<lambda>x. pr_Name (snd x)" k m] mset_eq_imp_distinct_iff
    by (fastforce simp: comp_def)
  then show "sorted_wrt str_less (map pr_Name (sortedProducts ro k m))"
    unfolding sortedProducts_def by (rule sorted_products)
qed (simp add: sortedProducts_def assms(1))

text \<open>What the loop over a group keeps.\<close>

lemma fold_add_name:
  assumes "fold add_name ns (N, A) = (N', A')"
  shows "N' = N \<union> set ns" and "set A' = set A \<union> (set ns - N)"
proof -
  have "fold add_name ns (N, A) = (N', A') \<Longrightarrow> N' = N \<union> set ns \<and> set A' = set A \<union> (set ns - N)"
  proof (induction ns arbitrary: N A)
    case (Cons n ns)
    then have run: "fold add_name ns (if n \<in> N then (N, A) else (insert n N, A @ [n])) = (N', A')"
      by (cases "n \<in> N") (simp_all add: add_name_def [of n "(N, A)"])
    show ?case
    proof (cases "n \<in> N")
      case True
      then show ?thesis using Cons.IH [of N A] run by auto
    next
      case False
      then show ?thesis using Cons.IH [of "insert n N" "A @ [n]"] run by auto
    qed
  qed simp
  with assms show "N' = N \<union> set ns" "set A' = set A \<union> (set ns - N)" by blast+
qed

lemma fold_add_key: "set (fold add_key xs m) = set m \<union> set xs" "distinct m \<Longrightarrow> distinct (fold add_key xs m)"
  by (induction xs arbitrary: m) (auto simp: add_key_def)

lemma add_product_map: "product_map m \<Longrightarrow> product_map (add_product p m)"
  by (auto simp: add_product_def product_map_def)

lemma fold_add_product:
  "product_map m \<Longrightarrow> product_map (fold add_product ps m)"
  "set (keys_of (fold add_product ps m)) = set (keys_of m) \<union> pr_Name ` set ps"
proof -
  show "product_map m \<Longrightarrow> product_map (fold add_product ps m)"
    by (induction ps arbitrary: m) (simp_all add: add_product_map)
  show "set (keys_of (fold add_product ps m)) = set (keys_of m) \<union> pr_Name ` set ps"
    by (induction ps arbitrary: m) (auto simp: add_product_def)
qed

lemma fold_add_product_values: "snd ` set (fold add_product ps m) \<subseteq> snd ` set m \<union> set ps"
proof (induction ps arbitrary: m)
  case (Cons p ps)
  have "snd ` set (add_product p m) \<subseteq> insert p (snd ` set m)" by (auto simp: add_product_def)
  with Cons [of "add_product p m"] show ?case by auto
qed simp

lemma merge_one_fields:
  "ms_packages (merge_one f m) = fold add_key (fd_Packages f) (ms_packages m)"
  "ms_products (merge_one f m) = fold add_product (fd_Products f) (ms_products m)"
  "ms_suppressed (merge_one f m) = fold add_product (fd_Suppressed f) (ms_suppressed m)"
  "(ms_names (merge_one f m), ms_aliases (merge_one f m)) = fold add_name (namesOf f) (ms_names m, ms_aliases m)"
  "fd_ID (ms_out (merge_one f m)) = fd_ID (ms_out m)"
  "fd_KEV (ms_out (merge_one f m)) = (if fd_KEV (ms_out m) = None then fd_KEV f else fd_KEV (ms_out m))"
  "fd_EPSS (ms_out (merge_one f m)) \<in> {fd_EPSS (ms_out m), fd_EPSS f}"
  by (auto simp: merge_one_def Let_def split: prod.split option.split)

definition merge_inv :: "finding \<Rightarrow> finding set \<Rightarrow> merge_state \<Rightarrow> bool" where
  "merge_inv f0 F m \<longleftrightarrow> fd_ID (ms_out m) = fd_ID f0
     \<and> ms_names m = insert (to_upper (fd_ID f0)) (\<Union>f \<in> F. set (namesOf f))
     \<and> insert (to_upper (fd_ID f0)) (set (ms_aliases m)) = ms_names m
     \<and> (fd_KEV (ms_out m) = None \<longleftrightarrow> fd_KEV f0 = None \<and> (\<forall>f \<in> F. fd_KEV f = None))
     \<and> distinct (ms_packages m) \<and> set (ms_packages m) = (\<Union>f \<in> F. set (fd_Packages f))
     \<and> product_map (ms_products m) \<and> set (keys_of (ms_products m)) = (\<Union>f \<in> F. pr_Name ` set (fd_Products f))
     \<and> product_map (ms_suppressed m) \<and> set (keys_of (ms_suppressed m)) = (\<Union>f \<in> F. pr_Name ` set (fd_Suppressed f))
     \<and> snd ` set (ms_products m) \<subseteq> (\<Union>f \<in> F. set (fd_Products f))
     \<and> fd_EPSS (ms_out m) \<in> insert (fd_EPSS f0) (fd_EPSS ` F)"

lemma merge_inv_start:
  "merge_inv f {} \<lparr>ms_out = f, ms_names = {to_upper (fd_ID f)}, ms_aliases = [], ms_packages = [],
     ms_products = [], ms_suppressed = []\<rparr>"
  by (simp add: merge_inv_def product_map_def)

lemma merge_inv_step:
  assumes "merge_inv f0 F m"
  shows "merge_inv f0 (insert f F) (merge_one f m)"
proof -
  note names = fold_add_name [OF merge_one_fields(4) [symmetric], of f m]
  have "ms_names (merge_one f m) = insert (to_upper (fd_ID f0)) (\<Union>f \<in> insert f F. set (namesOf f))"
    unfolding names(1) using assms by (auto simp: merge_inv_def)
  moreover have "insert (to_upper (fd_ID f0)) (set (ms_aliases (merge_one f m))) = ms_names (merge_one f m)"
    unfolding names using assms by (auto simp: merge_inv_def)
  moreover have "fd_KEV (ms_out (merge_one f m)) = None \<longleftrightarrow> fd_KEV f0 = None \<and> (\<forall>f \<in> insert f F. fd_KEV f = None)"
    unfolding merge_one_fields(6) using assms by (auto simp: merge_inv_def)
  moreover have "distinct (ms_packages (merge_one f m))"
    "set (ms_packages (merge_one f m)) = (\<Union>f \<in> insert f F. set (fd_Packages f))"
    using assms unfolding merge_inv_def merge_one_fields(1) fold_add_key(1) by (simp_all add: fold_add_key(2) Un_commute)
  moreover have "product_map (ms_products (merge_one f m))" "product_map (ms_suppressed (merge_one f m))"
    "set (keys_of (ms_products (merge_one f m))) = (\<Union>f \<in> insert f F. pr_Name ` set (fd_Products f))"
    "set (keys_of (ms_suppressed (merge_one f m))) = (\<Union>f \<in> insert f F. pr_Name ` set (fd_Suppressed f))"
    using assms unfolding merge_inv_def merge_one_fields(2,3) fold_add_product(2)
    by (simp_all add: fold_add_product(1) Un_commute)
  moreover have "snd ` set (ms_products (merge_one f m)) \<subseteq> (\<Union>f \<in> insert f F. set (fd_Products f))"
  proof -
    have "snd ` set (ms_products m) \<subseteq> (\<Union>f \<in> F. set (fd_Products f))"
      using assms unfolding merge_inv_def by (elim conjE)
    from order_trans [OF fold_add_product_values Un_mono [OF this subset_refl]] show ?thesis
      unfolding merge_one_fields(2) by (simp add: Un_commute)
  qed
  moreover have "fd_EPSS (ms_out (merge_one f m)) \<in> insert (fd_EPSS f0) (fd_EPSS ` insert f F)"
  proof -
    have "fd_EPSS (ms_out m) \<in> insert (fd_EPSS f0) (fd_EPSS ` F)"
      using assms unfolding merge_inv_def by (elim conjE)
    then show ?thesis using merge_one_fields(7) [of f m] by auto
  qed
  moreover have "fd_ID (ms_out (merge_one f m)) = fd_ID f0"
    using assms unfolding merge_inv_def merge_one_fields(5) by simp
  ultimately show ?thesis unfolding merge_inv_def by (intro conjI) assumption+
qed

lemma merge_inv_fold: "merge_inv f0 F m \<Longrightarrow> merge_inv f0 (F \<union> set fs) (fold merge_one fs m)"
proof (induction fs arbitrary: F m)
  case (Cons f fs)
  from Cons.IH [OF merge_inv_step [OF Cons.prems]] show ?case by simp
qed simp

text \<open>
  What the merge of a group is: the group is \<open>fs\<close>, and the range statements may choose any order.
\<close>

definition suppressed_names :: "finding list \<Rightarrow> string set" where
  "suppressed_names fs = (\<Union>f \<in> set fs. pr_Name ` set (fd_Suppressed f))"

lemma weak_order_idRank: "weak_order_on A (\<lambda>a b. idRank (fd_ID a) < idRank (fd_ID b))"
  by simp

lemma keys_of_filter: "set (keys_of (filter (\<lambda>p. fst p \<notin> K) m)) = set (keys_of m) - K"
  by auto

lemma product_map_filter: "product_map m \<Longrightarrow> product_map (filter P m)"
  by (auto simp: product_map_def distinct_map intro: inj_on_subset)

lemma sortedProducts_names: "product_map m \<Longrightarrow> range_ok ro \<Longrightarrow> pr_Name ` set (sortedProducts ro k m) = set (keys_of m)"
  unfolding sortedProducts_def by (force simp: product_map_def)

lemma mergeGroup_many:
  assumes ro: "range_ok ro" and many: "length fs \<noteq> 1" "fs \<noteq> []"
  shows "\<exists>f0 \<in> set fs. \<exists>m. merge_inv f0 (set fs) m \<and> (\<forall>g \<in> set fs. idRank (fd_ID f0) \<le> idRank (fd_ID g))
    \<and> mergeGroup ro k fs = Inr ((ms_out m)\<lparr>fd_Aliases := sort_Strings (ms_aliases m),
        fd_Packages := sort_Strings (ms_packages m),
        fd_Products := stable_sort product_less
          (map snd (filter (\<lambda>p. fst p \<notin> set (keys_of (ms_suppressed m))) (ms_products m))),
        fd_Suppressed := stable_sort product_less (map snd (ms_suppressed m))\<rparr>)"
proof -
  let ?s = "stable_sort (\<lambda>a b. idRank (fd_ID a) < idRank (fd_ID b)) fs"
  have set: "set ?s = set fs" by simp
  with many(2) obtain f0 rest where s: "?s = f0 # rest" by (cases ?s) auto
  let ?m = "fold merge_one (f0 # rest)
    \<lparr>ms_out = f0, ms_names = {to_upper (fd_ID f0)}, ms_aliases = [], ms_packages = [],
     ms_products = [], ms_suppressed = []\<rparr>"
  have f0: "f0 \<in> set fs" using set unfolding s by auto
  have "\<not> idRank (fd_ID g) < idRank (fd_ID f0)" if "g \<in> set fs" for g
    using sorted_stable_sort [OF weak_order_idRank, of fs] that set unfolding s by auto
  then have least: "\<forall>g \<in> set fs. idRank (fd_ID f0) \<le> idRank (fd_ID g)" by (simp add: not_less)
  have inv: "merge_inv f0 (set fs) ?m"
    using merge_inv_fold [OF merge_inv_start [of f0], of "f0 # rest"] set unfolding s by (simp only: Un_empty_left)
  then have d: "distinct (ms_packages ?m)" "product_map (ms_products ?m)" "product_map (ms_suppressed ?m)"
    by (simp_all only: merge_inv_def)
  have "mergeGroup ro k fs = Inr ((ms_out ?m)\<lparr>fd_Aliases := sort_Strings (ms_aliases ?m),
        fd_Packages := sort_Strings (ms_packages ?m),
        fd_Products := stable_sort product_less
          (map snd (filter (\<lambda>p. fst p \<notin> set (keys_of (ms_suppressed ?m))) (ms_products ?m))),
        fd_Suppressed := stable_sort product_less (map snd (ms_suppressed ?m))\<rparr>)"
    unfolding mergeGroup_def if_not_P [OF many(1)] s list.case Let_def sortedKeys_any [OF ro d(1)]
      sortedProducts_any [OF ro product_map_filter [OF d(2)]] sortedProducts_any [OF ro d(3)]
    by (cases "ms_suppressed ?m") simp_all
  with inv f0 least show ?thesis by blast
qed

text \<open>The names, the catalog entry and the products of the result.\<close>

definition reaches :: "finding list \<Rightarrow> string set" where
  "reaches fs = (\<Union>f \<in> set fs. pr_Name ` set (fd_Products f))"

lemma to_upper_namesOf: "x \<in> set (namesOf f) \<Longrightarrow> to_upper x = x"
  by (auto simp: namesOf_def)

lemma set_namesOf: "set (namesOf f) = insert (to_upper (fd_ID f)) (to_upper ` set (fd_Aliases f))"
  by (simp add: namesOf_def)

lemma namesOf_head: "to_upper (fd_ID f) \<in> set (namesOf f)"
  by (simp add: namesOf_def)

lemma product_names:
  "product_map m \<Longrightarrow> pr_Name ` set (stable_sort product_less (map snd m)) = set (keys_of m)"
  by (simp only: set_stable_sort flip: set_map product_map_names)

lemma mergeGroup_result:
  assumes ro: "range_ok ro" and many: "length fs \<noteq> 1" "fs \<noteq> []"
  obtains f where "mergeGroup ro k fs = Inr f"
    and "set (namesOf f) = (\<Union>g \<in> set fs. set (namesOf g))"
    and "fd_KEV f = None \<longleftrightarrow> (\<forall>g \<in> set fs. fd_KEV g = None)"
    and "pr_Name ` set (fd_Suppressed f) = suppressed_names fs"
    and "pr_Name ` set (fd_Products f) = reaches fs - suppressed_names fs"
    and "set (fd_Products f) \<subseteq> (\<Union>g \<in> set fs. set (fd_Products g))"
    and "fd_EPSS f \<in> fd_EPSS ` set fs"
    and "\<exists>f0 \<in> set fs. fd_ID f = fd_ID f0 \<and> (\<forall>g \<in> set fs. idRank (fd_ID f0) \<le> idRank (fd_ID g))"
proof -
  obtain f0 m where f0: "f0 \<in> set fs" "\<forall>g \<in> set fs. idRank (fd_ID f0) \<le> idRank (fd_ID g)"
    and m: "merge_inv f0 (set fs) m"
    and run: "mergeGroup ro k fs = Inr ((ms_out m)\<lparr>fd_Aliases := sort_Strings (ms_aliases m),
        fd_Packages := sort_Strings (ms_packages m),
        fd_Products := stable_sort product_less
          (map snd (filter (\<lambda>p. fst p \<notin> set (keys_of (ms_suppressed m))) (ms_products m))),
        fd_Suppressed := stable_sort product_less (map snd (ms_suppressed m))\<rparr>)" (is "_ = Inr ?f")
    using mergeGroup_many [OF assms, of k] by blast
  note inv = m [unfolded merge_inv_def]
  have fields: "fd_Suppressed ?f = stable_sort product_less (map snd (ms_suppressed m))"
    "fd_Products ?f = stable_sort product_less
      (map snd (filter (\<lambda>p. fst p \<notin> set (keys_of (ms_suppressed m))) (ms_products m)))"
    by simp_all
  have all: "insert (to_upper (fd_ID f0)) (set (ms_aliases m)) = (\<Union>g \<in> set fs. set (namesOf g))"
    using inv f0(1) namesOf_head by (auto simp del: Union_iff)
  then have "to_upper x = x" if "x \<in> set (ms_aliases m)" for x using that to_upper_namesOf by blast
  then have "to_upper ` set (ms_aliases m) = set (ms_aliases m)" by force
  moreover have "fd_ID (ms_out m) = fd_ID f0" using inv by blast
  ultimately have "set (namesOf ?f) = (\<Union>g \<in> set fs. set (namesOf g))"
    unfolding all [symmetric] set_namesOf [of ?f] by (simp add: sort_Strings_def)
  moreover have "pr_Name ` set (fd_Suppressed ?f) = suppressed_names fs"
    using inv unfolding fields suppressed_names_def by (simp only: product_names)
  moreover have "pr_Name ` set (fd_Products ?f) = reaches fs - suppressed_names fs"
    using inv unfolding fields suppressed_names_def reaches_def
    by (simp only: product_names product_map_filter keys_of_filter)
  moreover have "set (fd_Products ?f) \<subseteq> (\<Union>g \<in> set fs. set (fd_Products g))"
  proof -
    have "snd ` set (ms_products m) \<subseteq> (\<Union>f \<in> set fs. set (fd_Products f))" using inv by (elim conjE)
    then show ?thesis unfolding fields by auto
  qed
  moreover have "fd_EPSS ?f \<in> fd_EPSS ` set fs"
  proof -
    have "fd_EPSS (ms_out m) \<in> insert (fd_EPSS f0) (fd_EPSS ` set fs)" using inv by (elim conjE)
    then show ?thesis using f0(1) by auto
  qed
  moreover have "fd_KEV ?f = None \<longleftrightarrow> (\<forall>g \<in> set fs. fd_KEV g = None)" using inv f0(1) by auto
  moreover have "fd_ID ?f = fd_ID f0" using inv by simp
  ultimately show thesis using run f0 by (intro that [of ?f]) blast+
qed

text \<open>Findings that keep apart the products they reach and those they suppress.\<close>

definition apart :: "finding \<Rightarrow> bool" where
  "apart f \<longleftrightarrow> pr_Name ` set (fd_Products f) \<inter> pr_Name ` set (fd_Suppressed f) = {}"

text \<open>What a merged finding keeps of its group.\<close>

definition merged_from :: "finding list \<Rightarrow> finding \<Rightarrow> bool" where
  "merged_from fs f \<longleftrightarrow> set (namesOf f) = (\<Union>g \<in> set fs. set (namesOf g))
     \<and> (fd_KEV f = None \<longleftrightarrow> (\<forall>g \<in> set fs. fd_KEV g = None))
     \<and> pr_Name ` set (fd_Suppressed f) = suppressed_names fs
     \<and> pr_Name ` set (fd_Products f) \<subseteq> reaches fs
     \<and> reaches fs - suppressed_names fs \<subseteq> pr_Name ` set (fd_Products f)
     \<and> (list_all apart fs \<longrightarrow> apart f)
     \<and> set (fd_Products f) \<subseteq> (\<Union>g \<in> set fs. set (fd_Products g)) \<and> fd_EPSS f \<in> fd_EPSS ` set fs"

lemma merged_names: "merged_from fs f \<Longrightarrow> set (namesOf f) = (\<Union>g \<in> set fs. set (namesOf g))"
  by (simp only: merged_from_def)

lemma merged_member:
  assumes "merged_from fs f" and "g \<in> set fs"
  shows "set (namesOf g) \<subseteq> set (namesOf f)" "fd_KEV g \<noteq> None \<longrightarrow> fd_KEV f \<noteq> None"
    "pr_Name ` set (fd_Suppressed g) \<subseteq> pr_Name ` set (fd_Suppressed f)"
    "pr_Name ` set (fd_Products g) \<subseteq> pr_Name ` set (fd_Products f @ fd_Suppressed f)"
proof -
  note m = assms(1) [unfolded merged_from_def]
  show "set (namesOf g) \<subseteq> set (namesOf f)" using merged_names [OF assms(1)] assms(2) by blast
  have "fd_KEV f = None \<longleftrightarrow> (\<forall>g \<in> set fs. fd_KEV g = None)" using m by (elim conjE)
  with assms(2) show "fd_KEV g \<noteq> None \<longrightarrow> fd_KEV f \<noteq> None" by auto
  have sup: "suppressed_names fs = pr_Name ` set (fd_Suppressed f)" using m by simp
  show "pr_Name ` set (fd_Suppressed g) \<subseteq> pr_Name ` set (fd_Suppressed f)"
    unfolding sup [symmetric] suppressed_names_def using assms(2) by blast
  have "reaches fs - suppressed_names fs \<subseteq> pr_Name ` set (fd_Products f)" using m by (elim conjE)
  then have "reaches fs \<subseteq> pr_Name ` set (fd_Products f @ fd_Suppressed f)"
    unfolding sup set_append image_Un by blast
  moreover have "pr_Name ` set (fd_Products g) \<subseteq> reaches fs" unfolding reaches_def using assms(2) by blast
  ultimately show "pr_Name ` set (fd_Products g) \<subseteq> pr_Name ` set (fd_Products f @ fd_Suppressed f)" by blast
qed

lemma list_all2_right: "list_all2 P xs ys \<Longrightarrow> y \<in> set ys \<Longrightarrow> \<exists>x \<in> set xs. P x y"
  by (induction rule: list_all2_induct) auto

lemma list_all2_left: "list_all2 P xs ys \<Longrightarrow> x \<in> set xs \<Longrightarrow> \<exists>y \<in> set ys. P x y"
  by (induction rule: list_all2_induct) auto

lemma mergeGroup_merged:
  assumes "range_ok ro" and "fs \<noteq> []"
  shows "\<exists>f. mergeGroup ro k fs = Inr f \<and> merged_from fs f"
proof (cases "length fs = 1")
  case True
  then obtain f where "fs = [f]" by (auto simp: length_Suc_conv)
  then show ?thesis by (simp add: mergeGroup_def merged_from_def suppressed_names_def reaches_def apart_def)
next
  case False
  show ?thesis
    by (rule mergeGroup_result [OF assms(1) False assms(2), of k]) (auto simp: merged_from_def apart_def)
qed

lemma merge_groups_merged:
  assumes "range_ok ro" and "\<forall>g \<in> set gs. g \<noteq> []"
  shows "\<exists>out. merge_groups ro k gs = Inr out \<and> list_all2 merged_from gs out"
  using assms(2)
proof (induction gs arbitrary: k)
  case (Cons g gs)
  then obtain f out where "mergeGroup ro k g = Inr f" "merged_from g f"
    "merge_groups ro (k + 4) gs = Inr out" "list_all2 merged_from gs out"
    using mergeGroup_merged [OF assms(1)] by (metis list.set_intros)
  then show ?case by simp
qed simp

lemma mergeGroup_any:
  assumes "range_ok ro" and "range_ok ro'"
  shows "mergeGroup ro k fs = mergeGroup ro' k' fs"
proof (cases "length fs = 1 \<or> fs = []")
  case True
  then show ?thesis by (auto simp: mergeGroup_def)
next
  case False
  let ?s = "stable_sort (\<lambda>a b. idRank (fd_ID a) < idRank (fd_ID b)) fs"
  from False obtain f0 rest where s: "?s = f0 # rest" by (metis length_0_conv length_stable_sort neq_Nil_conv)
  let ?m = "fold merge_one (f0 # rest)
    \<lparr>ms_out = f0, ms_names = {to_upper (fd_ID f0)}, ms_aliases = [], ms_packages = [],
     ms_products = [], ms_suppressed = []\<rparr>"
  have d: "distinct (ms_packages ?m)" "product_map (ms_products ?m)" "product_map (ms_suppressed ?m)"
    using merge_inv_fold [OF merge_inv_start [of f0], of "f0 # rest"] by (simp_all only: merge_inv_def)
  have "sortedKeys ro k (ms_packages ?m) = sortedKeys ro' k' (ms_packages ?m)"
    by (simp only: sortedKeys_any assms d)
  moreover have eq: "sortedProducts ro (k + a) m = sortedProducts ro' (k' + a) m" if "product_map m" for a m
    by (simp only: sortedProducts_any assms that)
  ultimately show ?thesis
    unfolding mergeGroup_def s list.case Let_def
    by (simp only: eq [OF product_map_filter [OF d(2)]] eq [OF d(3)])
qed

lemma merge_groups_any:
  assumes "range_ok ro" and "range_ok ro'"
  shows "merge_groups ro k gs = merge_groups ro' k' gs"
proof (induction gs arbitrary: k k')
  case (Cons g gs)
  show ?case by (simp only: merge_groups.simps mergeGroup_any [OF assms, of k g k'] Cons.IH [of "k + 4" "k' + 4"])
qed simp

lemma mergeAliases_merged:
  assumes "range_ok ro"
  obtains R out where "mergeAliases ro k fs = Some (Inr out)"
    and "\<And>i j. i < length fs \<Longrightarrow> j < length fs \<Longrightarrow> R i = R j \<longleftrightarrow> (i, j) \<in> (shares (names_at fs))\<^sup>*"
    and "list_all2 (\<lambda>r. merged_from (block fs R r)) (firsts (map R [0..<length fs])) out"
proof -
  obtain R where R: "\<forall>i < length fs. \<forall>j < length fs. R i = R j \<longleftrightarrow> (i, j) \<in> (shares (names_at fs))\<^sup>*"
    and run: "mergeAliases ro k fs = Some (merge_groups ro k (map (block fs R) (firsts (map R [0..<length fs]))))"
    using mergeAliases_groups by blast
  have "\<forall>g \<in> set (map (block fs R) (firsts (map R [0..<length fs]))). g \<noteq> []"
    using block_nonempty [of _ R fs] by (simp add: atLeast0LessThan)
  from merge_groups_merged [OF assms this, of k] obtain out
    where "merge_groups ro k (map (block fs R) (firsts (map R [0..<length fs]))) = Inr out"
      "list_all2 merged_from (map (block fs R) (firsts (map R [0..<length fs]))) out" by blast
  with R run show thesis by (intro that) (auto simp: list_all2_map1)
qed

text \<open>What holds of the merged groups of a list of findings.\<close>

lemma merged_covers:
  assumes "list_all2 (\<lambda>r. merged_from (block fs R r)) (firsts (map R [0..<length fs])) out" and "g \<in> set fs"
  shows "\<exists>r. \<exists>f \<in> set out. g \<in> set (block fs R r) \<and> merged_from (block fs R r) f"
proof -
  obtain i where i: "i < length fs" "g = fs ! i" using assms(2) by (metis in_set_conv_nth)
  then have "R i \<in> set (firsts (map R [0..<length fs]))" by simp
  then obtain f where "f \<in> set out" "merged_from (block fs R (R i)) f"
    using list_all2_left [OF assms(1)] by blast
  then show ?thesis using i by (auto simp: set_block)
qed

lemma merged_disjoint:
  assumes R: "\<And>i j. i < length fs \<Longrightarrow> j < length fs \<Longrightarrow> R i = R j \<longleftrightarrow> (i, j) \<in> (shares (names_at fs))\<^sup>*"
    and out: "list_all2 (\<lambda>r. merged_from (block fs R r)) (firsts (map R [0..<length fs])) out"
  shows "sorted_wrt (\<lambda>a b. set (namesOf a) \<inter> set (namesOf b) = {}) out"
proof -
  let ?rs = "firsts (map R [0..<length fs])"
  have len: "length ?rs = length out" using out by (rule list_all2_lengthD)
  have "set (namesOf (out ! a)) \<inter> set (namesOf (out ! b)) = {}" if "a < b" "b < length out" for a b
  proof (rule ccontr)
    have m: "merged_from (block fs R (?rs ! a)) (out ! a)" "merged_from (block fs R (?rs ! b)) (out ! b)"
      using out that by (simp_all add: list_all2_conv_all_nth)
    assume "set (namesOf (out ! a)) \<inter> set (namesOf (out ! b)) \<noteq> {}"
    then obtain x g h where x: "x \<in> set (namesOf g)" "x \<in> set (namesOf h)"
      "g \<in> set (block fs R (?rs ! a))" "h \<in> set (block fs R (?rs ! b))"
      using merged_names [OF m(1)] merged_names [OF m(2)] by blast
    then obtain i j where "i < length fs" "j < length fs" "g = fs ! i" "h = fs ! j" "R i = ?rs ! a" "R j = ?rs ! b"
      unfolding set_block by blast
    moreover from this x(1,2) have "(i, j) \<in> shares (names_at fs)" unfolding shares_def names_at_def by blast
    ultimately have "?rs ! a = ?rs ! b" using R by (metis r_into_rtrancl)
    then show False using that len nth_eq_iff_index_eq [OF distinct_firsts, of a "map R [0..<length fs]" b] by simp
  qed
  then show ?thesis by (simp add: sorted_wrt_iff_nth_less)
qed

lemma merged_apart:
  assumes out: "list_all2 (\<lambda>r. merged_from (block fs R r)) rs out"
    and "list_all apart fs"
  shows "list_all apart out"
  unfolding list_all_iff
proof
  fix f assume "f \<in> set out"
  then obtain r where m: "merged_from (block fs R r) f" using list_all2_right [OF out] by blast
  have "list_all apart (block fs R r)" using assms(2) by (auto simp: set_block list_all_iff)
  with m show "apart f" by (simp only: merged_from_def)
qed

section \<open>Properties of the merge\<close>

definition sample_finding :: "string \<Rightarrow> string list \<Rightarrow> finding" where
  "sample_finding i as = \<lparr>fd_ID = i, fd_Aliases = as, fd_Summary = '''', fd_Severity = '''', fd_KEV = None,
     fd_EPSS = None, fd_Packages = [], fd_Products = [], fd_Suppressed = []\<rparr>"

definition sample_findings :: "finding list" where
  "sample_findings = [sample_finding ''GO-1'' [''cve-1''], sample_finding ''GO-2'' [''CVE-2''],
     sample_finding ''GHSA-1'' [''CVE-1'']]"

text \<open>
  C18. Joining finds the classes of shared names: \<open>mergeAliases\<close> always returns, with one finding per class of
  the findings that a chain of shared names (in upper case) connects, in the order of the first finding of
  each class, and the names of a merged finding are the names of all findings of its class.
\<close>

theorem mergeAliases_classes:
  assumes "range_ok ro"
  shows "\<exists>R out. mergeAliases ro k fs = Some (Inr out)
    \<and> (\<forall>i < length fs. \<forall>j < length fs. R i = R j \<longleftrightarrow> (i, j) \<in> (shares (names_at fs))\<^sup>*)
    \<and> map (\<lambda>f. set (namesOf f)) out
        = map (\<lambda>r. \<Union>g \<in> set (block fs R r). set (namesOf g)) (firsts (map R [0..<length fs]))"
proof (rule mergeAliases_merged [OF assms, of k fs])
  fix R out
  assume out: "mergeAliases ro k fs = Some (Inr out)"
    "\<And>i j. i < length fs \<Longrightarrow> j < length fs \<Longrightarrow> R i = R j \<longleftrightarrow> (i, j) \<in> (shares (names_at fs))\<^sup>*"
    "list_all2 (\<lambda>r. merged_from (block fs R r)) (firsts (map R [0..<length fs])) out"
  have "map (\<lambda>f. set (namesOf f)) out
      = map (\<lambda>r. \<Union>g \<in> set (block fs R r). set (namesOf g)) (firsts (map R [0..<length fs]))"
    using out(3) by (induction rule: list_all2_induct) (auto simp: merged_from_def)
  with out show ?thesis by blast
qed

theorem mergeAliases_classes_witness:
  "\<exists>out. mergeAliases in_reverse 0 sample_findings = Some (Inr out)
    \<and> map (\<lambda>f. set (namesOf f)) out = [{''GO-1'', ''CVE-1'', ''GHSA-1''}, {''GO-2'', ''CVE-2''}]"
proof -
  obtain out where out: "mergeAliases in_reverse 0 sample_findings = Some (Inr out)"
    using mergeAliases_classes [OF range_ok_in_reverse] by blast
  have "map_option (map_sum id (map namesOf)) (mergeAliases in_reverse 0 sample_findings)
      = Some (Inr [[''GHSA-1'', ''CVE-1'', ''GO-1''], [''GO-2'', ''CVE-2'']])" by code_simp
  then have "map namesOf out = [[''GHSA-1'', ''CVE-1'', ''GO-1''], [''GO-2'', ''CVE-2'']]" by (simp add: out)
  then have "map set (map namesOf out) = [{''GO-1'', ''CVE-1'', ''GHSA-1''}, {''GO-2'', ''CVE-2''}]" by auto
  with out show ?thesis by (simp add: comp_def)
qed

text \<open>
  C19. Nothing is lost and nothing is reported twice: the merged findings have pairwise disjoint names, every
  finding has one among them that carries its names, is known to be exploited if the finding is, and
  suppresses the products the finding suppresses; and no product is both reached and suppressed when that
  holds of the findings themselves.
\<close>

theorem mergeAliases_keeps:
  assumes "range_ok ro"
  shows "\<exists>out. mergeAliases ro k fs = Some (Inr out)
    \<and> sorted_wrt (\<lambda>a b. set (namesOf a) \<inter> set (namesOf b) = {}) out
    \<and> (\<forall>g \<in> set fs. \<exists>f \<in> set out. set (namesOf g) \<subseteq> set (namesOf f) \<and> (fd_KEV g \<noteq> None \<longrightarrow> fd_KEV f \<noteq> None)
         \<and> pr_Name ` set (fd_Suppressed g) \<subseteq> pr_Name ` set (fd_Suppressed f)
         \<and> pr_Name ` set (fd_Products g) \<subseteq> pr_Name ` set (fd_Products f @ fd_Suppressed f))
    \<and> (list_all apart fs \<longrightarrow> list_all apart out)"
proof (rule mergeAliases_merged [OF assms, of k fs])
  fix R out
  assume out: "mergeAliases ro k fs = Some (Inr out)"
    "\<And>i j. i < length fs \<Longrightarrow> j < length fs \<Longrightarrow> R i = R j \<longleftrightarrow> (i, j) \<in> (shares (names_at fs))\<^sup>*"
    "list_all2 (\<lambda>r. merged_from (block fs R r)) (firsts (map R [0..<length fs])) out"
  have "\<exists>f \<in> set out. set (namesOf g) \<subseteq> set (namesOf f) \<and> (fd_KEV g \<noteq> None \<longrightarrow> fd_KEV f \<noteq> None)
         \<and> pr_Name ` set (fd_Suppressed g) \<subseteq> pr_Name ` set (fd_Suppressed f)
         \<and> pr_Name ` set (fd_Products g) \<subseteq> pr_Name ` set (fd_Products f @ fd_Suppressed f)" if g: "g \<in> set fs" for g
  proof -
    obtain r f where f: "f \<in> set out" "g \<in> set (block fs R r)" "merged_from (block fs R r) f"
      using merged_covers [OF out(3) g] by blast
    show ?thesis by (rule bexI [OF _ f(1)]) (intro conjI merged_member [OF f(3,2)])
  qed
  then show ?thesis using out(1) merged_disjoint [OF out(2,3)] merged_apart [OF out(3)] by blast
qed

theorem mergeAliases_keeps_witness:
  "\<exists>out. mergeAliases in_reverse 0 sample_findings = Some (Inr out)
    \<and> sorted_wrt (\<lambda>a b. set (namesOf a) \<inter> set (namesOf b) = {}) out \<and> list_all apart out"
proof -
  have "list_all apart sample_findings" by (simp add: sample_findings_def sample_finding_def apart_def)
  then show ?thesis using mergeAliases_keeps [OF range_ok_in_reverse, of 0 sample_findings] by blast
qed

text \<open>
  C28. The result does not depend on the order in which Go ranges over its maps: two runs of \<open>mergeAliases\<close>
  on the same findings give the same report.
\<close>

theorem mergeAliases_deterministic:
  assumes "range_ok ro" and "range_ok ro'"
  shows "mergeAliases ro k fs = mergeAliases ro' k' fs"
  unfolding mergeAliases_def merge_groups_any [OF assms, of k _ k'] by (rule refl)

theorem mergeAliases_deterministic_witness:
  "mergeAliases in_order 0 sample_findings = mergeAliases in_reverse 7 sample_findings"
  by (rule mergeAliases_deterministic) simp_all

text \<open>
  C27. The union-find always ends: on the parents that the loops of \<open>mergeAliases\<close> build, \<open>find\<close> returns
  for every finding, whatever the names are.
\<close>

theorem mergeAliases_finds:
  "\<exists>parent owner. join_findings 0 fs [0..<length fs] Map.empty = Some (parent, owner)
     \<and> list_all (\<lambda>i. \<exists>parent' r. uf_find parent i = Some (parent', r) \<and> parent ! r = r) [0..<length fs]"
proof -
  let ?n = "length fs"
  obtain p owner where p: "join_findings 0 fs [0..<?n] Map.empty = Some (p, owner)" "length p = ?n"
    "joined p owner (names_at fs)"
    using join_findings_ok [where fs = fs, OF joined_start [of ?n]] by auto
  then have f: "forest p" by (simp add: joined_def)
  have "\<exists>q r. uf_find p i = Some (q, r) \<and> p ! r = r" if "i < ?n" for i
    using forestD [OF f, of i] uf_find_ok [OF _ f] rep_bounds that p(2) by metis
  with p(1) show ?thesis by (simp add: list_all_iff)
qed

end
