(* ===== verification/Report.thy ===== *)
theory Report
  imports Report_Merge
begin

text \<open>
  The report, \<open>pkg/report/report.go\<close>: from every vulnerability up to the products that it reaches, with
  what is known about its exploitation, and the findings filtered and in order of urgency.
\<close>

section \<open>What is known about a vulnerability\<close>

record options =
  opt_Vulnerability :: string
  opt_KEVOnly :: bool
  opt_MinEPSS :: float64

definition contains :: "string list \<Rightarrow> string \<Rightarrow> bool" where
  "contains xs s = list_ex (\<lambda>item. item = s) xs"

definition epssOf :: "finding \<Rightarrow> float64" where
  "epssOf f = (case fd_EPSS f of None \<Rightarrow> Fin (- 1) | Some e \<Rightarrow> ep_EPSS e)"

fun first_score :: "severity list \<Rightarrow> string" where
  "first_score [] = ''''"
| "first_score (s # ss) = (if sev_Score s \<noteq> '''' then sev_Score s else first_score ss)"

definition severityOf :: "vulnerability \<Rightarrow> string" where
  "severityOf vuln =
     (case vu_DatabaseSpecific vuln ''severity'' of
        Some (MString s) \<Rightarrow> if s \<noteq> '''' then to_upper s else first_score (vu_Severity vuln)
      | _ \<Rightarrow> first_score (vu_Severity vuln))"

text \<open>Custom data that cannot be read count as empty.\<close>

definition read_custom :: "'s storage \<Rightarrow> 's \<Rightarrow> string \<Rightarrow> string \<Rightarrow> (string \<times> string) list res" where
  "read_custom st s tag name =
     (case st_GetCustomData st s tag name of
        Inr data \<Rightarrow> Inr data
      | Inl e \<Rightarrow> if is_panic e then Inl e else Inr [])"

definition decoded :: "(string \<Rightarrow> 'a res) \<Rightarrow> string option \<Rightarrow> 'a option" where
  "decoded decode raw =
     (case raw of None \<Rightarrow> None | Some r \<Rightarrow> (case decode r of Inl e \<Rightarrow> None | Inr x \<Rightarrow> Some x))"

definition better_score :: "epss_score option \<Rightarrow> finding \<Rightarrow> finding" where
  "better_score score f =
     (case score of
        None \<Rightarrow> f
      | Some sc \<Rightarrow>
          (case fd_EPSS f of
             None \<Rightarrow> f\<lparr>fd_EPSS := Some sc\<rparr>
           | Some e \<Rightarrow> if fl_less (ep_EPSS e) (ep_EPSS sc) then f\<lparr>fd_EPSS := Some sc\<rparr> else f))"

fun rank_finding :: "prio_libs \<Rightarrow> 's storage \<Rightarrow> 's \<Rightarrow> string list \<Rightarrow> finding \<Rightarrow> finding res" where
  "rank_finding libs st s [] f = Inr f"
| "rank_finding libs st s (nm # nms) f =
     (if \<not> has_prefix nm ''CVE-'' then rank_finding libs st s nms f
      else
        bind_res
          (if fd_KEV f = None then
             bind_res (read_custom st s KEVTag nm) (\<lambda>data.
               Inr (f\<lparr>fd_KEV := decoded (pl_entry libs) (map_of data ''entry'')\<rparr>))
           else Inr f) (\<lambda>f1.
        bind_res (read_custom st s EPSSTag nm) (\<lambda>data.
          rank_finding libs st s nms (better_score (decoded (pl_score libs) (map_of data ''score'')) f1))))"

text \<open>The VEX statements by product; the range statement over the data of the \<open>j\<close>-th name has number \<open>k + j\<close>.\<close>

definition add_statement :: "prio_libs \<Rightarrow> string \<times> string \<Rightarrow> (string \<rightharpoonup> vex_statement) \<Rightarrow> (string \<rightharpoonup> vex_statement)" where
  "add_statement libs p vex =
     (case pl_statement libs (snd p) of Inl e \<Rightarrow> vex | Inr x \<Rightarrow> vex(fst p \<mapsto> x))"

fun vex_statements ::
  "range_order \<Rightarrow> nat \<Rightarrow> prio_libs \<Rightarrow> 's storage \<Rightarrow> 's \<Rightarrow> string list \<Rightarrow> (string \<rightharpoonup> vex_statement)
    \<Rightarrow> (string \<rightharpoonup> vex_statement) res" where
  "vex_statements ro k libs st s [] vex = Inr vex"
| "vex_statements ro k libs st s (nm # nms) vex =
     bind_res (read_custom st s VEXTag nm) (\<lambda>data.
       vex_statements ro (k + 1) libs st s nms (fold (add_statement libs) (go_range ro k data) vex))"

section \<open>Walking up\<close>

text \<open>The variables of the walk; a key that is missing in \<open>next\<close> reads as 0.\<close>

record up_walk =
  uw_next :: "id \<rightharpoonup> id"
  uw_visited :: "id set"
  uw_queue :: "id list"
  uw_products :: "id list"
  uw_packages :: "string list"

definition visit_parent :: "(id \<rightharpoonup> node) \<Rightarrow> id \<Rightarrow> id \<Rightarrow> id \<Rightarrow> up_walk \<Rightarrow> up_walk" where
  "visit_parent nodes v current parent w =
     (if parent \<in> uw_visited w then w
      else w\<lparr>uw_visited := insert parent (uw_visited w), uw_next := (uw_next w)(parent \<mapsto> current),
             uw_queue := uw_queue w @ [parent],
             uw_packages :=
               (if current = v then
                  (case nodes parent of None \<Rightarrow> uw_packages w | Some p \<Rightarrow> uw_packages w @ [n_Name p])
                else uw_packages w)\<rparr>)"

definition up_step :: "(id \<rightharpoonup> node) \<Rightarrow> id \<Rightarrow> id \<Rightarrow> up_walk \<Rightarrow> up_walk" where
  "up_step nodes v current w =
     (case nodes current of
        None \<Rightarrow> w
      | Some node \<Rightarrow>
          fold (visit_parent nodes v current) (to_array (n_Parents node))
            (if current \<noteq> v \<and> n_Parents node = {} then w\<lparr>uw_products := uw_products w @ [current]\<rparr> else w))"

text \<open>Every turn takes one identifier from the queue, and every visited identifier is put there once.\<close>

lemma visit_parent_measure:
  "card (- uw_visited (visit_parent nodes v c p w)) + length (uw_queue (visit_parent nodes v c p w))
     = card (- uw_visited w) + length (uw_queue w)"
proof (cases "p \<in> uw_visited w")
  case False
  then have "- uw_visited w = insert p (- insert p (uw_visited w))" by auto
  then have "card (- uw_visited w) = Suc (card (- insert p (uw_visited w)))"
    by (metis ComplD card_insert_disjoint finite insertI1)
  with False show ?thesis by (simp add: visit_parent_def)
qed (simp add: visit_parent_def)

lemma up_step_measure:
  "card (- uw_visited (up_step nodes v c w)) + length (uw_queue (up_step nodes v c w))
     = card (- uw_visited w) + length (uw_queue w)"
proof -
  have "card (- uw_visited (fold (visit_parent nodes v c) ps w)) + length (uw_queue (fold (visit_parent nodes v c) ps w))
      = card (- uw_visited w) + length (uw_queue w)" for ps w
    by (induction ps arbitrary: w) (simp_all add: visit_parent_measure)
  then show ?thesis by (simp add: up_step_def split: option.split)
qed

function up_walk_loop :: "(id \<rightharpoonup> node) \<Rightarrow> id \<Rightarrow> up_walk \<Rightarrow> up_walk" where
  "up_walk_loop nodes v w =
     (case uw_queue w of
        [] \<Rightarrow> w
      | current # queue \<Rightarrow> up_walk_loop nodes v (up_step nodes v current (w\<lparr>uw_queue := queue\<rparr>)))"
  by pat_completeness auto
termination up_walk_loop
proof (relation "measure (\<lambda>(nodes, v, w). card (- uw_visited w) + length (uw_queue w))", goal_cases)
  case (2 nodes v w current queue)
  then show ?case using up_step_measure [of nodes v current "w\<lparr>uw_queue := queue\<rparr>"] by simp
qed simp

declare up_walk_loop.simps [simp del]

text \<open>
  The path from a product: it follows \<open>next\<close> until the vulnerability, so it may not end on an arbitrary
  map.
\<close>

partial_function (option) path_from ::
  "(id \<rightharpoonup> node) \<Rightarrow> (id \<rightharpoonup> id) \<Rightarrow> id \<Rightarrow> id \<Rightarrow> string list \<Rightarrow> string list res option" where
  "path_from nodes nxt v x path =
     (if x = v then Some (Inr path)
      else
        (case nodes x of
           None \<Rightarrow> Some (Inl (Panic ''nil pointer dereference''))
         | Some n \<Rightarrow>
             path_from nodes nxt v (case nxt x of None \<Rightarrow> 0 | Some y \<Rightarrow> y) (path @ [n_Name n])))"

declare path_from.simps [code]

section \<open>A finding\<close>

definition suppresses :: "vex_statement option \<Rightarrow> bool" where
  "suppresses x =
     (case x of None \<Rightarrow> False | Some st \<Rightarrow> vs_Status st = ''not_affected'' \<or> vs_Status st = ''fixed'')"

definition product_of :: "(string \<rightharpoonup> vex_statement) \<Rightarrow> string \<Rightarrow> string list \<Rightarrow> product" where
  "product_of vex name path =
     \<lparr>pr_Name = name, pr_Path = path,
      pr_VEX = (case vex name of
                  Some x \<Rightarrow> Some x
                | None \<Rightarrow> if 0 < length path then vex (last path) else None)\<rparr>"

fun file_products ::
  "(id \<rightharpoonup> node) \<Rightarrow> (id \<rightharpoonup> id) \<Rightarrow> id \<Rightarrow> (string \<rightharpoonup> vex_statement) \<Rightarrow> id list \<Rightarrow> finding \<Rightarrow> finding res option" where
  "file_products nodes nxt v vex [] f = Some (Inr f)"
| "file_products nodes nxt v vex (x # xs) f =
     (case nodes x of
        None \<Rightarrow> Some (Inl (Panic ''nil pointer dereference''))
      | Some n \<Rightarrow>
          (case path_from nodes nxt v x [] of
             None \<Rightarrow> None
           | Some (Inl e) \<Rightarrow> Some (Inl e)
           | Some (Inr path) \<Rightarrow>
               (let p = product_of vex (n_Name n) path
                in file_products nodes nxt v vex xs
                     (if suppresses (pr_VEX p) then f\<lparr>fd_Suppressed := fd_Suppressed f @ [p]\<rparr>
                      else f\<lparr>fd_Products := fd_Products f @ [p]\<rparr>))))"

definition described :: "prio_libs \<Rightarrow> node \<Rightarrow> finding" where
  "described libs n =
     (let f = \<lparr>fd_ID = n_Name n, fd_Aliases = [], fd_Summary = '''', fd_Severity = '''', fd_KEV = None,
               fd_EPSS = None, fd_Packages = [], fd_Products = [], fd_Suppressed = []\<rparr>
      in case DecodeVulnerability libs (n_Metadata n) of
           Inl e \<Rightarrow> f
         | Inr vuln \<Rightarrow> f\<lparr>fd_Aliases := vu_Aliases vuln, fd_Summary := vu_Summary vuln,
                          fd_Severity := severityOf vuln\<rparr>)"

definition start_walk :: "id \<Rightarrow> up_walk" where
  "start_walk v = \<lparr>uw_next = Map.empty, uw_visited = {v}, uw_queue = [v], uw_products = [], uw_packages = []\<rparr>"

definition buildFinding ::
  "range_order \<Rightarrow> nat \<Rightarrow> prio_libs \<Rightarrow> 's storage \<Rightarrow> 's \<Rightarrow> (id \<rightharpoonup> node) \<Rightarrow> node \<Rightarrow> string list \<Rightarrow> finding res option" where
  "buildFinding ro k libs st s nodes vulnNode names =
     (case rank_finding libs st s names (described libs vulnNode) of
        Inl e \<Rightarrow> Some (Inl e)
      | Inr f1 \<Rightarrow>
          (case vex_statements ro k libs st s names Map.empty of
             Inl e \<Rightarrow> Some (Inl e)
           | Inr vex \<Rightarrow>
               (let w = up_walk_loop nodes (n_ID vulnNode) (start_walk (n_ID vulnNode));
                    f2 = f1\<lparr>fd_Packages := sort_Strings (uw_packages w)\<rparr>
                in case file_products nodes (uw_next w) (n_ID vulnNode) vex (uw_products w) f2 of
                     None \<Rightarrow> None
                   | Some (Inl e) \<Rightarrow> Some (Inl e)
                   | Some (Inr f3) \<Rightarrow>
                       Some (Inr (f3\<lparr>fd_Products := stable_sort product_less (fd_Products f3),
                                     fd_Suppressed := stable_sort product_less (fd_Suppressed f3)\<rparr>)))))"

section \<open>The report\<close>

fun build_findings ::
  "range_order \<Rightarrow> nat \<Rightarrow> prio_libs \<Rightarrow> 's storage \<Rightarrow> 's \<Rightarrow> (id \<rightharpoonup> node) \<Rightarrow> node list \<Rightarrow> (nat \<times> finding list) res option" where
  "build_findings ro k libs st s nodes [] = Some (Inr (k, []))"
| "build_findings ro k libs st s nodes (n # ns) =
     (if n_Type n \<noteq> VulnerabilityType then build_findings ro k libs st s nodes ns
      else
        (let names = VulnerabilityNames libs n
         in case buildFinding ro k libs st s nodes n names of
              None \<Rightarrow> None
            | Some (Inl e) \<Rightarrow> Some (Inl e)
            | Some (Inr f) \<Rightarrow>
                map_option (\<lambda>r. bind_res r (\<lambda>(k', fs). Inr (k', f # fs)))
                  (build_findings ro (k + length names) libs st s nodes ns)))"

definition keeps :: "options \<Rightarrow> finding \<Rightarrow> bool" where
  "keeps opts f \<longleftrightarrow>
     (let want = to_upper (trim_space (opt_Vulnerability opts))
      in \<not> (want \<noteq> '''' \<and> \<not> contains (namesOf f) want)
       \<and> \<not> (opt_KEVOnly opts \<and> fd_KEV f = None)
       \<and> \<not> (fl_less (Fin 0) (opt_MinEPSS opts)
            \<and> (case fd_EPSS f of None \<Rightarrow> True | Some e \<Rightarrow> fl_less (ep_EPSS e) (opt_MinEPSS opts))))"

definition more_urgent :: "finding \<Rightarrow> finding \<Rightarrow> bool" where
  "more_urgent a b =
     (if (fd_KEV a \<noteq> None) \<noteq> (fd_KEV b \<noteq> None) then fd_KEV a \<noteq> None
      else if fl_neq (epssOf a) (epssOf b) then fl_less (epssOf b) (epssOf a)
      else if length (fd_Products a) \<noteq> length (fd_Products b) then length (fd_Products b) < length (fd_Products a)
      else str_less (fd_ID a) (fd_ID b))"

text \<open>The range over the nodes has number 0; the numbers of the others follow.\<close>

definition Build ::
  "range_order \<Rightarrow> prio_libs \<Rightarrow> 's storage \<Rightarrow> 's \<Rightarrow> options \<Rightarrow> finding list res option" where
  "Build ro libs st s opts =
     (case ctx ''failed to get all keys'' (st_GetAllKeys st s) of
        Inl e \<Rightarrow> Some (Inl e)
      | Inr ks \<Rightarrow>
          (case ctx ''failed to get nodes'' (st_GetNodes st s ks) of
             Inl e \<Rightarrow> Some (Inl e)
           | Inr nodes \<Rightarrow>
               (case build_findings ro 1 libs st s (map_of nodes) (map snd (go_range ro 0 nodes)) of
                  None \<Rightarrow> None
                | Some (Inl e) \<Rightarrow> Some (Inl e)
                | Some (Inr (k, findings)) \<Rightarrow>
                    map_option (\<lambda>r. bind_res r (\<lambda>merged.
                      Inr (stable_sort more_urgent (filter (keeps opts) merged))))
                      (mergeAliases ro k findings))))"

end
