(* ===== verification/Report_Walk.thy ===== *)
theory Report_Walk
  imports Report
begin

text \<open>
  The walk of the report from a vulnerability up to the products: a breadth-first search that meets every
  product and records a shortest path from it.
\<close>

section \<open>Distances\<close>

definition distance :: "('a \<times> 'a) set \<Rightarrow> 'a \<Rightarrow> 'a \<Rightarrow> nat" where
  "distance E v x = (LEAST n. (v, x) \<in> E ^^ n)"

lemma dist_path: "(v, x) \<in> E\<^sup>* \<Longrightarrow> (v, x) \<in> E ^^ distance E v x"
  unfolding distance_def by (metis LeastI rtrancl_imp_relpow)

lemma dist_le: "(v, x) \<in> E ^^ n \<Longrightarrow> distance E v x \<le> n"
  unfolding distance_def by (rule Least_le)

lemma dist_self [simp]: "distance E v v = 0"
  using dist_le [where n = 0 and E = E and v = v and x = v] by simp

lemma dist_step: "(v, x) \<in> E\<^sup>* \<Longrightarrow> (x, y) \<in> E \<Longrightarrow> distance E v y \<le> Suc (distance E v x)"
  by (rule dist_le) (meson dist_path relpow_Suc_I)

lemma dist_zero: "(v, x) \<in> E\<^sup>* \<Longrightarrow> distance E v x = 0 \<Longrightarrow> x = v"
  using dist_path by fastforce

lemma dist_pred:
  assumes "(v, x) \<in> E\<^sup>*" and "x \<noteq> v"
  shows "\<exists>y. (v, y) \<in> E\<^sup>* \<and> (y, x) \<in> E \<and> distance E v x = Suc (distance E v y)"
proof -
  obtain n where n: "distance E v x = Suc n" using dist_zero [OF assms(1)] assms(2) by (cases "distance E v x") auto
  have "(v, x) \<in> E ^^ Suc n" using dist_path [OF assms(1)] unfolding n .
  then obtain y where y: "(v, y) \<in> E ^^ n" "(y, x) \<in> E" by (rule relpow_Suc_E)
  then have r: "(v, y) \<in> E\<^sup>*" by (meson relpow_imp_rtrancl)
  have "distance E v y = n" using dist_le [OF y(1)] dist_step [OF r y(2)] n by simp
  with r y(2) n show ?thesis by auto
qed

text \<open>
  What is met first: when everything visited is done, up to \<open>Q\<close>, and no element of \<open>Q\<close> is nearer than \<open>c\<close>,
  then what is not visited is farther away than \<open>c\<close>.
\<close>

lemma dist_frontier:
  assumes "(v, x) \<in> E\<^sup>*" and "x \<notin> V" and "v \<in> V" and "\<And>a b. a \<in> V - Q \<Longrightarrow> (a, b) \<in> E \<Longrightarrow> b \<in> V"
    and "\<And>q. q \<in> Q \<Longrightarrow> d \<le> distance E v q"
  shows "Suc d \<le> distance E v x"
  using assms(1,2)
proof (induction "distance E v x" arbitrary: x rule: less_induct)
  case less
  have "x \<noteq> v" using less(3) assms(3) by auto
  obtain y where y: "(v, y) \<in> E\<^sup>*" "(y, x) \<in> E" "distance E v x = Suc (distance E v y)"
    using dist_pred [OF less(2) \<open>x \<noteq> v\<close>] by blast
  show ?case
  proof (cases "y \<in> V")
    case True
    then have "y \<in> Q" using assms(4) y(2) less(3) by blast
    then show ?thesis using assms(5) y(3) by simp
  next
    case False
    then show ?thesis using less(1) [OF _ y(1)] y(3) by simp
  qed
qed

section \<open>One turn of the walk\<close>

definition name_of :: "(id \<rightharpoonup> node) \<Rightarrow> id \<Rightarrow> string" where
  "name_of nodes i = (case nodes i of None \<Rightarrow> '''' | Some n \<Rightarrow> n_Name n)"

lemma fold_visit_parent:
  assumes "distinct ps" and "set ps \<subseteq> dom nodes"
  shows "fold (visit_parent nodes v c) ps w = w\<lparr>uw_visited := uw_visited w \<union> set ps,
     uw_next := (\<lambda>x. if x \<in> set ps - uw_visited w then Some c else uw_next w x),
     uw_queue := uw_queue w @ filter (\<lambda>p. p \<notin> uw_visited w) ps,
     uw_packages := uw_packages w @ (if c = v then map (name_of nodes) (filter (\<lambda>p. p \<notin> uw_visited w) ps) else [])\<rparr>"
  using assms
proof (induction ps arbitrary: w)
  case (Cons p ps)
  have p: "p \<notin> set ps" "distinct ps" "set ps \<subseteq> dom nodes" "p \<in> dom nodes" using Cons.prems by auto
  show ?case
  proof (cases "p \<in> uw_visited w")
    case True
    then have "visit_parent nodes v c p w = w" by (simp add: visit_parent_def)
    with True Cons.IH [OF p(2,3), of w] show ?thesis by (auto simp: insert_absorb fun_eq_iff)
  next
    case False
    from p(4) obtain n where n: "nodes p = Some n" by auto
    let ?w = "w\<lparr>uw_visited := insert p (uw_visited w), uw_next := (uw_next w)(p \<mapsto> c), uw_queue := uw_queue w @ [p],
      uw_packages := uw_packages w @ (if c = v then [name_of nodes p] else [])\<rparr>"
    have step: "visit_parent nodes v c p w = ?w"
      using False n by (simp add: visit_parent_def name_of_def)
    have f: "filter (\<lambda>q. q \<notin> insert p (uw_visited w)) ps = filter (\<lambda>q. q \<notin> uw_visited w) ps"
      using p(1) by (intro filter_cong) auto
    show ?thesis unfolding fold_simps step Cons.IH [OF p(2,3)] using False p(1) f
      by (auto simp: fun_eq_iff)
  qed
qed simp

text \<open>What the walk keeps. \<open>E\<close> are the edges to the parents.\<close>

definition up_inv :: "(id \<rightharpoonup> node) \<Rightarrow> id \<Rightarrow> up_walk \<Rightarrow> bool" where
  "up_inv nodes v w \<longleftrightarrow>
     (let E = edges nodes ParentsDirection; V = uw_visited w; Q = set (uw_queue w)
      in v \<in> V \<and> V \<subseteq> reach nodes ParentsDirection v \<and> distinct (uw_queue w) \<and> Q \<subseteq> V
       \<and> (\<forall>x \<in> V - {v}. \<exists>y \<in> V. uw_next w x = Some y \<and> (y, x) \<in> E \<and> distance E v x = Suc (distance E v y))
       \<and> (\<forall>a \<in> V - Q. E `` {a} \<subseteq> V)
       \<and> sorted (map (distance E v) (uw_queue w))
       \<and> (\<forall>q \<in> Q. distance E v q \<le> Suc (distance E v (hd (uw_queue w))))
       \<and> distinct (uw_products w)
       \<and> set (uw_products w) = {x \<in> V - Q - {v}. E `` {x} = {}}
       \<and> uw_packages w = (if v \<in> Q then [] else
            map (name_of nodes) (filter (\<lambda>p. p \<noteq> v) (case nodes v of None \<Rightarrow> [] | Some n \<Rightarrow> to_array (n_Parents n))))
       \<and> (v \<in> Q \<longrightarrow> uw_queue w = [v] \<and> V = {v}))"

lemma up_inv_start: "up_inv nodes v (start_walk v)"
  by (simp add: up_inv_def Let_def start_walk_def)

text \<open>The turn of the head of the queue.\<close>

lemma up_step_form:
  assumes "nodes c = Some n" and "n_Parents n \<subseteq> dom nodes"
  shows "up_step nodes v c w = w\<lparr>uw_visited := uw_visited w \<union> n_Parents n,
     uw_next := (\<lambda>x. if x \<in> n_Parents n - uw_visited w then Some c else uw_next w x),
     uw_queue := uw_queue w @ filter (\<lambda>p. p \<notin> uw_visited w) (to_array (n_Parents n)),
     uw_products := uw_products w @ (if c \<noteq> v \<and> n_Parents n = {} then [c] else []),
     uw_packages := uw_packages w @
       (if c = v then map (name_of nodes) (filter (\<lambda>p. p \<notin> uw_visited w) (to_array (n_Parents n))) else [])\<rparr>"
  using assms(2) by (simp add: up_step_def assms(1) fold_visit_parent)

lemma up_inv_step:
  assumes inv: "up_inv nodes v w" and q: "uw_queue w = c # queue" and ok: "edges_ok nodes" and v: "v \<in> dom nodes"
  shows "up_inv nodes v (up_step nodes v c (w\<lparr>uw_queue := queue\<rparr>))"
proof -
  let ?E = "edges nodes ParentsDirection" and ?V = "uw_visited w"
  let ?D = "distance ?E v"
  note i = inv [unfolded up_inv_def Let_def q list.sel]
  have vV: "v \<in> ?V" and sub: "?V \<subseteq> reach nodes ParentsDirection v" and dq: "distinct (c # queue)"
    and Q: "set (c # queue) \<subseteq> ?V"
    and nxt: "\<forall>x \<in> ?V - {v}. \<exists>y \<in> ?V. uw_next w x = Some y \<and> (y, x) \<in> ?E \<and> ?D x = Suc (?D y)"
    and closed: "\<forall>a \<in> ?V - set (c # queue). ?E `` {a} \<subseteq> ?V"
    and srt: "sorted (map ?D (c # queue))" and near: "\<forall>q \<in> set (c # queue). ?D q \<le> Suc (?D c)"
    and prods: "distinct (uw_products w)" "set (uw_products w) = {x \<in> ?V - set (c # queue) - {v}. ?E `` {x} = {}}"
    and pkgs: "uw_packages w = (if v \<in> set (c # queue) then [] else
            map (name_of nodes) (filter (\<lambda>p. p \<noteq> v) (case nodes v of None \<Rightarrow> [] | Some n \<Rightarrow> to_array (n_Parents n))))"
    and first: "v \<in> set (c # queue) \<longrightarrow> c # queue = [v] \<and> ?V = {v}"
    using i by - ((elim conjE, assumption)+)
  have cV: "c \<in> ?V" "c \<notin> set queue" and cr: "(v, c) \<in> ?E\<^sup>*" using Q dq sub by (auto simp: reach_def)
  obtain n where n: "nodes c = Some n"
  proof (cases "c = v")
    case False
    with nxt cV obtain y where "(y, c) \<in> ?E" by blast
    then show ?thesis using that ok unfolding edges_parents edges_ok_def by blast
  qed (use v that in auto)
  have Ec: "?E `` {c} = n_Parents n" using n by (auto simp: edges_parents)
  have pd: "n_Parents n \<subseteq> dom nodes" using ok n unfolding edges_ok_def by blast
  let ?new = "filter (\<lambda>p. p \<notin> ?V) (to_array (n_Parents n))"
  have new: "set ?new = n_Parents n - ?V" by auto
  let ?u = "up_step nodes v c (w\<lparr>uw_queue := queue\<rparr>)"
  have fields: "uw_visited ?u = ?V \<union> n_Parents n"
    "uw_next ?u = (\<lambda>x. if x \<in> n_Parents n - ?V then Some c else uw_next w x)"
    "uw_queue ?u = queue @ ?new"
    "uw_products ?u = uw_products w @ (if c \<noteq> v \<and> n_Parents n = {} then [c] else [])"
    "uw_packages ?u = uw_packages w @ (if c = v then map (name_of nodes) ?new else [])"
    unfolding up_step_form [OF n pd] by (simp_all add: fun_eq_iff)
  have Dnew: "?D p = Suc (?D c)" if "p \<in> n_Parents n - ?V" for p
  proof -
    have e: "(c, p) \<in> ?E" using that Ec by blast
    then have r: "(v, p) \<in> ?E\<^sup>*" using cr by simp
    have "Suc (?D c) \<le> ?D p"
    proof (rule dist_frontier [OF r _ vV, of "set (c # queue)"])
      show "?D c \<le> ?D q" if "q \<in> set (c # queue)" for q using srt that by auto
    qed (use that closed in blast)+
    then show ?thesis using dist_step [OF cr e] by simp
  qed
  have new_queue: "\<forall>q \<in> set (queue @ ?new). ?D c \<le> ?D q \<and> ?D q \<le> Suc (?D c)"
    using srt near Dnew unfolding set_append new by auto
  show ?thesis
    unfolding up_inv_def Let_def fields
  proof (intro conjI)
    show "v \<in> ?V \<union> n_Parents n" using vV by blast
    show "?V \<union> n_Parents n \<subseteq> reach nodes ParentsDirection v"
      using sub Ec reach_step [of c nodes ParentsDirection v] cV by blast
    show "distinct (queue @ ?new)" using dq Q by auto
    show "set (queue @ ?new) \<subseteq> ?V \<union> n_Parents n" using Q by auto
    show "\<forall>x \<in> ?V \<union> n_Parents n - {v}. \<exists>y \<in> ?V \<union> n_Parents n.
        (if x \<in> n_Parents n - ?V then Some c else uw_next w x) = Some y \<and> (y, x) \<in> ?E \<and> ?D x = Suc (?D y)"
    proof
      fix x assume x: "x \<in> ?V \<union> n_Parents n - {v}"
      show "\<exists>y \<in> ?V \<union> n_Parents n.
        (if x \<in> n_Parents n - ?V then Some c else uw_next w x) = Some y \<and> (y, x) \<in> ?E \<and> ?D x = Suc (?D y)"
      proof (cases "x \<in> ?V")
        case True
        then show ?thesis using nxt x by auto
      next
        case False
        then show ?thesis using x Dnew [of x] Ec cV(1) by auto
      qed
    qed
    show "\<forall>a \<in> ?V \<union> n_Parents n - set (queue @ ?new). ?E `` {a} \<subseteq> ?V \<union> n_Parents n"
    proof
      fix a assume "a \<in> ?V \<union> n_Parents n - set (queue @ ?new)"
      then have "a = c \<or> a \<in> ?V - set (c # queue)" by auto
      then show "?E `` {a} \<subseteq> ?V \<union> n_Parents n" using closed Ec by auto
    qed
    show "sorted (map ?D (queue @ ?new))"
    proof -
      have "sorted (map ?D queue)" using srt by simp
      moreover have "map ?D ?new = map (\<lambda>_. Suc (?D c)) ?new" using Dnew by (intro map_cong) auto
      moreover have "\<forall>q \<in> set queue. ?D q \<le> Suc (?D c)" using near by auto
      ultimately show ?thesis by (auto simp: sorted_append map_replicate_const)
    qed
    show "\<forall>q \<in> set (queue @ ?new). ?D q \<le> Suc (?D (hd (queue @ ?new)))"
    proof (cases "queue @ ?new")
      case (Cons a as)
      then have "?D c \<le> ?D a" using new_queue by (metis list.set_intros(1))
      then show ?thesis using new_queue Cons by fastforce
    qed simp
    show "distinct (uw_products w @ (if c \<noteq> v \<and> n_Parents n = {} then [c] else []))"
      using prods by auto
    show "set (uw_products w @ (if c \<noteq> v \<and> n_Parents n = {} then [c] else []))
        = {x \<in> ?V \<union> n_Parents n - set (queue @ ?new) - {v}. ?E `` {x} = {}}"
      using prods(2) Ec cV Q dq by auto
    show "uw_packages w @ (if c = v then map (name_of nodes) ?new else []) =
       (if v \<in> set (queue @ ?new) then [] else
            map (name_of nodes) (filter (\<lambda>p. p \<noteq> v) (case nodes v of None \<Rightarrow> [] | Some n \<Rightarrow> to_array (n_Parents n))))"
    proof (cases "c = v")
      case True
      with first have "queue = []" "?V = {v}" by auto
      with True pkgs n show ?thesis by auto
    next
      case False
      then have "v \<in> set (c # queue) \<longleftrightarrow> v \<in> set (queue @ ?new)" using vV by auto
      with False pkgs show ?thesis by simp
    qed
    show "v \<in> set (queue @ ?new) \<longrightarrow> queue @ ?new = [v] \<and> ?V \<union> n_Parents n = {v}"
      using first vV cV by auto
  qed
qed

section \<open>The whole walk\<close>

lemma up_walk_loop_inv:
  assumes "up_inv nodes v w" and "edges_ok nodes" and "v \<in> dom nodes"
  shows "up_inv nodes v (up_walk_loop nodes v w) \<and> uw_queue (up_walk_loop nodes v w) = []"
  using assms
proof (induction nodes v w rule: up_walk_loop.induct)
  case (1 nodes v w)
  show ?case
  proof (cases "uw_queue w")
    case Nil
    then show ?thesis using 1(2) by (subst (1 2) up_walk_loop.simps) simp
  next
    case (Cons c queue)
    from 1(1) [OF Cons up_inv_step [OF 1(2) Cons 1(3,4)] 1(3,4)] show ?thesis
      by (subst (1 2) up_walk_loop.simps) (simp add: Cons)
  qed
qed

text \<open>
  A root is a node that nothing depends on; the products of a vulnerability are the roots it reaches.
\<close>

definition is_root :: "(id \<rightharpoonup> node) \<Rightarrow> id \<Rightarrow> bool" where
  "is_root nodes x \<longleftrightarrow> (case nodes x of None \<Rightarrow> False | Some n \<Rightarrow> n_Parents n = {})"

definition reached_roots :: "(id \<rightharpoonup> node) \<Rightarrow> id \<Rightarrow> id set" where
  "reached_roots nodes v = {x \<in> reach nodes ParentsDirection v. is_root nodes x \<and> x \<noteq> v}"

text \<open>A path of dependencies from \<open>x\<close> to \<open>v\<close>, without \<open>v\<close>, such that none is shorter.\<close>

definition shortest_path :: "(id \<rightharpoonup> node) \<Rightarrow> id \<Rightarrow> id \<Rightarrow> id list \<Rightarrow> bool" where
  "shortest_path nodes x v ids \<longleftrightarrow> ids \<noteq> [] \<and> hd ids = x
     \<and> successively (\<lambda>a b. (a, b) \<in> edges nodes ChildrenDirection) (ids @ [v])
     \<and> list_all (\<lambda>m. (x, v) \<notin> edges nodes ChildrenDirection ^^ m) [0..<length ids]"

lemma path_from_next:
  assumes "\<And>x. x \<in> V - {v} \<Longrightarrow> \<exists>y \<in> V. nxt x = Some y \<and> (y, x) \<in> E \<and> d x = Suc (d y)"
    and "V \<subseteq> dom nodes" and "d v = (0 :: nat)" and "x \<in> V"
  shows "\<exists>ids. path_from nodes nxt v x acc = Some (Inr (acc @ map (name_of nodes) ids)) \<and> length ids = d x
    \<and> hd (ids @ [v]) = x \<and> successively (\<lambda>a b. (b, a) \<in> E) (ids @ [v])"
  using assms(4)
proof (induction "d x" arbitrary: x acc)
  case 0
  then have "x = v" using assms(1) [of x] by auto
  then show ?case using 0(1) by (intro exI [of _ "[]"]) (simp add: path_from.simps)
next
  case (Suc m)
  then have "x \<noteq> v" using assms(3) by auto
  then obtain y where y: "y \<in> V" "nxt x = Some y" "(y, x) \<in> E" "d x = Suc (d y)" using assms(1) Suc(3) by blast
  obtain n where n: "nodes x = Some n" using assms(2) Suc(3) by blast
  have "m = d y" using y(4) Suc(2) by simp
  from Suc(1) [OF this y(1), of "acc @ [n_Name n]"] obtain ids where
    ids: "path_from nodes nxt v y (acc @ [n_Name n]) = Some (Inr ((acc @ [n_Name n]) @ map (name_of nodes) ids))"
      "length ids = d y" "hd (ids @ [v]) = y" "successively (\<lambda>a b. (b, a) \<in> E) (ids @ [v])" by blast
  have "path_from nodes nxt v x acc = Some (Inr (acc @ map (name_of nodes) (x # ids)))"
    using ids(1) \<open>x \<noteq> v\<close> n y(2) by (subst path_from.simps) (simp add: name_of_def)
  moreover have "successively (\<lambda>a b. (b, a) \<in> E) ((x # ids) @ [v])"
    using ids(3,4) y(3) by (cases "ids @ [v]") auto
  ultimately show ?case using ids(2) y(4) by (intro exI [of _ "x # ids"]) simp
qed

lemma relpow_back: "(x, y) \<in> R ^^ m \<Longrightarrow> (y, x) \<in> (R\<inverse>) ^^ m" for R :: "('a \<times> 'a) set"
proof (induction m arbitrary: y)
  case (Suc m)
  then obtain z where "(x, z) \<in> R ^^ m" "(z, y) \<in> R" by (blast elim: relpow_Suc_E)
  with Suc.IH show ?case by (blast intro: relpow_Suc_I2)
qed simp

lemma up_walk_correct:
  assumes ok: "edges_ok nodes" and v: "nodes v = Some n" and w: "w = up_walk_loop nodes v (start_walk v)"
  shows "distinct (uw_products w)" and "set (uw_products w) = reached_roots nodes v"
    and "uw_packages w = map (name_of nodes) (to_array (n_Parents n))"
    and "x \<in> reached_roots nodes v \<Longrightarrow> \<exists>ids. path_from nodes (uw_next w) v x [] = Some (Inr (map (name_of nodes) ids))
      \<and> shortest_path nodes x v ids"
proof -
  let ?E = "edges nodes ParentsDirection" and ?V = "uw_visited w"
  have inv: "up_inv nodes v w" and q: "uw_queue w = []"
    using up_walk_loop_inv [OF up_inv_start ok] v unfolding w by blast+
  note i = inv [unfolded up_inv_def Let_def q list.set]
  have vV: "v \<in> ?V" and sub: "?V \<subseteq> reach nodes ParentsDirection v"
    and nxt: "\<forall>x \<in> ?V - {v}. \<exists>y \<in> ?V. uw_next w x = Some y \<and> (y, x) \<in> ?E \<and> distance ?E v x = Suc (distance ?E v y)"
    and closed: "\<forall>a \<in> ?V - {}. ?E `` {a} \<subseteq> ?V"
    and dp: "distinct (uw_products w)" and prods: "set (uw_products w) = {x \<in> ?V - {} - {v}. ?E `` {x} = {}}"
    and pkgs: "uw_packages w = (if v \<in> {} then [] else
            map (name_of nodes) (filter (\<lambda>p. p \<noteq> v) (case nodes v of None \<Rightarrow> [] | Some n \<Rightarrow> to_array (n_Parents n))))"
    using i by - ((elim conjE, assumption)+)
  show "distinct (uw_products w)" by fact
  have V: "?V = reach nodes ParentsDirection v"
    using sub closed closed_reach [OF vV, of nodes ParentsDirection] by blast
  have dom: "?V \<subseteq> dom nodes"
  proof
    fix x assume "x \<in> ?V"
    show "x \<in> dom nodes"
    proof (cases "x = v")
      case False
      with nxt \<open>x \<in> ?V\<close> obtain y where "(y, x) \<in> ?E" by blast
      then show ?thesis using ok unfolding edges_parents edges_ok_def by blast
    qed (use v in auto)
  qed
  have "is_root nodes x \<longleftrightarrow> ?E `` {x} = {}" if "x \<in> ?V" for x
    using that dom by (auto simp: is_root_def edges_parents split: option.split)
  then show prods': "set (uw_products w) = reached_roots nodes v"
    unfolding prods reached_roots_def V [symmetric] by auto
  have "v \<notin> n_Parents n" using ok v unfolding edges_ok_def by blast
  then have "filter (\<lambda>p. p \<noteq> v) (to_array (n_Parents n)) = to_array (n_Parents n)"
    by (auto simp: filter_id_conv)
  then show "uw_packages w = map (name_of nodes) (to_array (n_Parents n))" using pkgs v by simp
  assume x: "x \<in> reached_roots nodes v"
  then have xV: "x \<in> ?V" "x \<noteq> v" unfolding reached_roots_def V by blast+
  from path_from_next [of ?V v "uw_next w" ?E "distance ?E v" nodes x "[]"] nxt dom xV(1)
  obtain ids where ids: "path_from nodes (uw_next w) v x [] = Some (Inr (map (name_of nodes) ids))"
    "length ids = distance ?E v x" "hd (ids @ [v]) = x" "successively (\<lambda>a b. (b, a) \<in> ?E) (ids @ [v])" by auto
  have E: "?E = (edges nodes ChildrenDirection)\<inverse>" by (rule edges_ok_converse [OF ok])
  have "ids \<noteq> []" using ids(3) xV(2) by auto
  moreover have "(x, v) \<notin> edges nodes ChildrenDirection ^^ m" if "m < length ids" for m
  proof
    assume "(x, v) \<in> edges nodes ChildrenDirection ^^ m"
    then have "(v, x) \<in> ?E ^^ m" unfolding E by (rule relpow_back)
    then show False using dist_le that ids(2) by fastforce
  qed
  ultimately have "shortest_path nodes x v ids"
    using ids(3,4) unfolding shortest_path_def E by (auto simp: list_all_iff)
  with ids(1) show "\<exists>ids. path_from nodes (uw_next w) v x [] = Some (Inr (map (name_of nodes) ids))
      \<and> shortest_path nodes x v ids" by blast
qed

end
