(* ===== verification/Report_Props.thy ===== *)
theory Report_Props
  imports Report_Walk
begin

text \<open>
  What a finding and the report say of the graph: the specification of a finding, that \<open>buildFinding\<close>
  computes it on every back end that keeps the storage contract, and the properties of \<open>Build\<close>.
\<close>

section \<open>The specification of a finding\<close>

text \<open>What the custom data of a graph say of a list of names.\<close>

definition first_some :: "'a option list \<Rightarrow> 'a option" where
  "first_some xs = (case filter (\<lambda>x. x \<noteq> None) xs of [] \<Rightarrow> None | x # _ \<Rightarrow> x)"

definition cve_names :: "string list \<Rightarrow> string list" where
  "cve_names names = filter (\<lambda>nm. has_prefix nm ''CVE-'') names"

definition kev_data :: "prio_libs \<Rightarrow> gstate \<Rightarrow> string \<Rightarrow> kev_entry option" where
  "kev_data libs g nm = decoded (pl_entry libs) (g_custom g (KEVTag, nm) ''entry'')"

definition epss_data :: "prio_libs \<Rightarrow> gstate \<Rightarrow> string \<Rightarrow> epss_score option" where
  "epss_data libs g nm = decoded (pl_score libs) (g_custom g (EPSSTag, nm) ''score'')"

definition vex_data :: "prio_libs \<Rightarrow> gstate \<Rightarrow> string list \<Rightarrow> (string \<rightharpoonup> vex_statement)" where
  "vex_data libs g names =
     fold (\<lambda>nm vex. vex ++ (\<lambda>p. decoded (pl_statement libs) (g_custom g (VEXTag, nm) p))) names Map.empty"

text \<open>The product that a root is reported as.\<close>

definition reported :: "(id \<rightharpoonup> node) \<Rightarrow> (string \<rightharpoonup> vex_statement) \<Rightarrow> (id \<Rightarrow> id list) \<Rightarrow> id \<Rightarrow> product" where
  "reported nodes vex paths x = product_of vex (name_of nodes x) (map (name_of nodes) (paths x))"

text \<open>A score that none of the list exceeds, or nothing where the list has none.\<close>

definition greatest :: "epss_score option list \<Rightarrow> epss_score option \<Rightarrow> bool" where
  "greatest xs e \<longleftrightarrow>
     (case e of
        None \<Rightarrow> list_all (\<lambda>x. x = None) xs
      | Some b \<Rightarrow> Some b \<in> set xs
          \<and> list_all (\<lambda>x. case x of None \<Rightarrow> True | Some y \<Rightarrow> \<not> fl_less (ep_EPSS b) (ep_EPSS y)) xs)"

definition finding_of :: "prio_libs \<Rightarrow> gstate \<Rightarrow> id \<Rightarrow> node \<Rightarrow> string list \<Rightarrow> finding \<Rightarrow> bool" where
  "finding_of libs g v n names f \<longleftrightarrow>
     (\<exists>paths. list_all (\<lambda>x. shortest_path (g_nodes g) x v (paths x)) (to_array (reached_roots (g_nodes g) v))
       \<and> set (fd_Products f) = {p \<in> reported (g_nodes g) (vex_data libs g names) paths ` reached_roots (g_nodes g) v.
            \<not> suppresses (pr_VEX p)}
       \<and> set (fd_Suppressed f) = {p \<in> reported (g_nodes g) (vex_data libs g names) paths ` reached_roots (g_nodes g) v.
            suppresses (pr_VEX p)})
     \<and> sorted_wrt str_less (map pr_Name (fd_Products f)) \<and> sorted_wrt str_less (map pr_Name (fd_Suppressed f))
     \<and> fd_Packages f = sort_Strings (map (name_of (g_nodes g)) (to_array (n_Parents n)))
     \<and> fd_KEV f = first_some (map (kev_data libs g) (cve_names names))
     \<and> greatest (map (epss_data libs g) (cve_names names)) (fd_EPSS f)
     \<and> fd_ID f = n_Name n \<and> fd_Aliases f = fd_Aliases (described libs n)
     \<and> fd_Summary f = fd_Summary (described libs n) \<and> fd_Severity f = fd_Severity (described libs n)"

text \<open>The scores are compared one by one.\<close>

definition better :: "epss_score option \<Rightarrow> epss_score option \<Rightarrow> epss_score option" where
  "better x e =
     (case x of
        None \<Rightarrow> e
      | Some sc \<Rightarrow> (case e of None \<Rightarrow> Some sc | Some e' \<Rightarrow> if fl_less (ep_EPSS e') (ep_EPSS sc) then Some sc else e))"

definition best_score :: "prio_libs \<Rightarrow> gstate \<Rightarrow> string list \<Rightarrow> epss_score option \<Rightarrow> epss_score option" where
  "best_score libs g names e0 = fold better (map (epss_data libs g) (cve_names names)) e0"

lemma greatest_step: "greatest xs e \<Longrightarrow> greatest (xs @ [x]) (better x e)" (is "_ \<Longrightarrow> ?thesis")
proof (cases x)
  case None
  then show "greatest xs e \<Longrightarrow> ?thesis" by (auto simp: greatest_def better_def split: option.split)
next
  case (Some sc)
  assume g: "greatest xs e"
  show ?thesis
  proof (cases e)
    case None
    then have "\<forall>y \<in> set xs. y = None" using g by (simp add: greatest_def list_all_iff)
    then show ?thesis using Some None fl_less_irrefl by (auto simp: greatest_def better_def list_all_iff)
  next
    case (Some b)
    then have b: "Some b \<in> set xs" "\<And>y. Some y \<in> set xs \<Longrightarrow> \<not> fl_less (ep_EPSS b) (ep_EPSS y)"
      using g by (auto simp: greatest_def list_all_iff)
    show ?thesis
    proof (cases "fl_less (ep_EPSS b) (ep_EPSS sc)")
      case True
      have "\<not> fl_less (ep_EPSS sc) (ep_EPSS y)" if "Some y \<in> set xs" for y
        using b(2) [OF that] fl_less_trans [OF True] by blast
      then show ?thesis using True Some \<open>x = Some sc\<close> fl_less_irrefl
        by (auto simp: greatest_def better_def list_all_iff split: option.split)
    next
      case False
      then show ?thesis using b Some \<open>x = Some sc\<close>
        by (auto simp: greatest_def better_def list_all_iff split: option.split)
    qed
  qed
qed

lemma best_score_greatest: "greatest (map (epss_data libs g) (cve_names names)) (best_score libs g names None)"
proof -
  have "greatest (xs @ ys) (fold better ys e)" if "greatest xs e" for xs ys e
    using that by (induction ys arbitrary: xs e) (simp, use greatest_step in force)
  from this [of "[]" None] show ?thesis by (simp add: best_score_def greatest_def)
qed

lemma first_some_Cons: "first_some (x # xs) = (if x = None then first_some xs else x)"
  by (auto simp: first_some_def)

lemma cve_names_Cons: "cve_names (nm # nms) = (if has_prefix nm ''CVE-'' then nm # cve_names nms else cve_names nms)"
  by (simp add: cve_names_def)

section \<open>Reading custom data\<close>

context graph_store begin

lemma read_custom_ok:
  assumes "wf s" and "tag_ok tag"
  shows "\<exists>al. read_custom st s tag nm = Inr al \<and> distinct (keys_of al) \<and> map_of al = g_custom (abs s) (tag, nm)"
  using GetCustomData [OF assms, of nm] by (auto simp: read_custom_def)

lemma better_score_EPSS:
  "better_score sc f = f\<lparr>fd_EPSS := better sc (fd_EPSS f)\<rparr>"
  by (simp add: better_score_def better_def split: option.split)

lemma rank_finding_ok:
  assumes "wf s"
  shows "rank_finding libs st s names f = Inr (f\<lparr>
      fd_KEV := (if fd_KEV f = None then first_some (map (kev_data libs (abs s)) (cve_names names)) else fd_KEV f),
      fd_EPSS := best_score libs (abs s) names (fd_EPSS f)\<rparr>)"
proof (induction names arbitrary: f)
  case Nil
  then show ?case by (simp add: best_score_def cve_names_def first_some_def)
next
  case (Cons nm nms)
  show ?case
  proof (cases "has_prefix nm ''CVE-''")
    case False
    then show ?thesis by (simp add: Cons cve_names_Cons best_score_def)
  next
    case True
    obtain d1 where d1: "read_custom st s KEVTag nm = Inr d1" "map_of d1 = g_custom (abs s) (KEVTag, nm)"
      using read_custom_ok [OF assms tags_ok(1)] by blast
    obtain d2 where d2: "read_custom st s EPSSTag nm = Inr d2" "map_of d2 = g_custom (abs s) (EPSSTag, nm)"
      using read_custom_ok [OF assms tags_ok(2)] by blast
    have "best_score libs (abs s) (nm # nms) e = best_score libs (abs s) nms (better (epss_data libs (abs s) nm) e)" for e
      using True by (simp add: best_score_def cve_names_Cons)
    then show ?thesis
      using True d1 d2
      by (simp add: Cons cve_names_Cons first_some_Cons kev_data_def [symmetric] epss_data_def [symmetric] better_score_EPSS)
  qed
qed

lemma fold_add_statement:
  assumes "range_ok ro" and "distinct (keys_of al)"
  shows "fold (add_statement libs) (go_range ro k al) vex
    = vex ++ (\<lambda>p. decoded (pl_statement libs) (map_of al p))"
proof -
  have "fold (add_statement libs) ps vex = vex ++ (\<lambda>p. decoded (pl_statement libs) (map_of ps p))"
    if "distinct (keys_of ps)" for ps
    using that
  proof (induction ps arbitrary: vex)
    case (Cons p ps)
    then have "map_of ps (fst p) = None" by (simp add: map_of_eq_None_keys)
    with Cons show ?case
      by (cases p) (auto simp: fun_eq_iff add_statement_def map_add_def decoded_def split: sum.split option.split)
  qed (simp add: decoded_def fun_eq_iff map_add_def)
  moreover have "map_of (go_range ro k al) = map_of al" "distinct (keys_of (go_range ro k al))"
    using assms by (simp_all add: map_of_inject_set distinct_keys_go_range)
  ultimately show ?thesis by metis
qed

lemma vex_statements_ok:
  assumes "wf s" and "range_ok ro"
  shows "vex_statements ro k libs st s names vex
    = Inr (fold (\<lambda>nm vex. vex ++ (\<lambda>p. decoded (pl_statement libs) (g_custom (abs s) (VEXTag, nm) p))) names vex)"
proof (induction names arbitrary: k vex)
  case (Cons nm nms)
  obtain d where "read_custom st s VEXTag nm = Inr d" "distinct (keys_of d)" "map_of d = g_custom (abs s) (VEXTag, nm)"
    using read_custom_ok [OF assms(1) tags_ok(3)] by blast
  then show ?case by (simp add: Cons fold_add_statement [OF assms(2)])
qed simp

end

section \<open>Building a finding\<close>

lemma reported_name [simp]: "pr_Name (reported nodes vex paths x) = name_of nodes x"
  by (simp add: reported_def product_of_def)

lemma file_products_form:
  assumes "\<And>x. x \<in> set xs \<Longrightarrow> x \<in> dom nodes \<and> path_from nodes nxt v x [] = Some (Inr (map (name_of nodes) (paths x)))"
  shows "file_products nodes nxt v vex xs f = Some (Inr (f\<lparr>
     fd_Products := fd_Products f @ filter (\<lambda>p. \<not> suppresses (pr_VEX p)) (map (reported nodes vex paths) xs),
     fd_Suppressed := fd_Suppressed f @ filter (\<lambda>p. suppresses (pr_VEX p)) (map (reported nodes vex paths) xs)\<rparr>))"
  using assms
proof (induction xs arbitrary: f)
  case (Cons x xs)
  obtain n where n: "nodes x = Some n" using Cons.prems [of x] by auto
  have p: "product_of vex (n_Name n) (map (name_of nodes) (paths x)) = reported nodes vex paths x"
    using n by (simp add: reported_def name_of_def)
  have path: "path_from nodes nxt v x [] = Some (Inr (map (name_of nodes) (paths x)))" using Cons.prems [of x] by simp
  have IH: "file_products nodes nxt v vex xs f = Some (Inr (f\<lparr>
     fd_Products := fd_Products f @ filter (\<lambda>p. \<not> suppresses (pr_VEX p)) (map (reported nodes vex paths) xs),
     fd_Suppressed := fd_Suppressed f @ filter (\<lambda>p. suppresses (pr_VEX p)) (map (reported nodes vex paths) xs)\<rparr>))" for f
    using Cons by simp
  show ?case by (simp add: n path p IH Let_def)
qed simp

lemma names_inj: "names_ok g \<Longrightarrow> inj_on (name_of (g_nodes g)) (dom (g_nodes g))"
  by (rule inj_onI) (auto simp: name_of_def names_ok_def, metis option.inject)

lemma reached_roots_dom: "reached_roots nodes v \<subseteq> dom nodes"
  by (auto simp: reached_roots_def is_root_def split: option.splits)

text \<open>The products of one kind, sorted: strictly by name.\<close>

lemma sorted_reported:
  assumes "names_ok g" and "distinct xs" and "set xs = reached_roots (g_nodes g) v"
  shows "sorted_wrt str_less (map pr_Name (stable_sort product_less (filter P (map (reported (g_nodes g) vex paths) xs))))"
    and "set (stable_sort product_less (filter P (map (reported (g_nodes g) vex paths) xs)))
      = {p \<in> reported (g_nodes g) vex paths ` reached_roots (g_nodes g) v. P p}"
proof -
  have inj: "inj_on (name_of (g_nodes g)) (set xs)"
    using inj_on_subset [OF names_inj [OF assms(1)] reached_roots_dom [of "g_nodes g" v]] unfolding assms(3) .
  have "map pr_Name (filter P (map (reported (g_nodes g) vex paths) xs))
      = map (name_of (g_nodes g)) (filter (\<lambda>x. P (reported (g_nodes g) vex paths x)) xs)"
    by (simp add: filter_map comp_def)
  moreover have "distinct (map (name_of (g_nodes g)) (filter (\<lambda>x. P (reported (g_nodes g) vex paths x)) xs))"
    using assms(2) inj by (auto simp: distinct_map intro: inj_on_subset)
  ultimately show "sorted_wrt str_less (map pr_Name (stable_sort product_less (filter P (map (reported (g_nodes g) vex paths) xs))))"
    by (intro sorted_products) simp
  show "set (stable_sort product_less (filter P (map (reported (g_nodes g) vex paths) xs)))
      = {p \<in> reported (g_nodes g) vex paths ` reached_roots (g_nodes g) v. P p}"
    using assms(3) by auto
qed

lemma described_fields:
  "fd_ID (described libs n) = n_Name n" "fd_KEV (described libs n) = None" "fd_EPSS (described libs n) = None"
  "fd_Packages (described libs n) = []" "fd_Products (described libs n) = []" "fd_Suppressed (described libs n) = []"
  by (simp_all add: described_def Let_def split: sum.split)

context graph_store begin

lemma buildFinding_ok:
  assumes "wf s" and ok: "graph_ok (abs s)" and "range_ok ro" and n: "g_nodes (abs s) v = Some n"
  shows "\<exists>f. buildFinding ro k libs st s (g_nodes (abs s)) n names = Some (Inr f)
    \<and> finding_of libs (abs s) v n names f"
proof -
  let ?g = "abs s"
  let ?nodes = "g_nodes ?g" and ?vex = "vex_data libs ?g names"
  have names: "names_ok ?g" and edges: "edges_ok ?nodes" using ok by (simp_all add: graph_ok_def)
  have id: "n_ID n = v" using names n unfolding names_ok_def by blast
  define w where "w = up_walk_loop ?nodes v (start_walk v)"
  note walk = up_walk_correct [OF edges n w_def]
  obtain paths where paths: "\<And>x. x \<in> reached_roots ?nodes v \<Longrightarrow>
      path_from ?nodes (uw_next w) v x [] = Some (Inr (map (name_of ?nodes) (paths x)))
      \<and> shortest_path ?nodes x v (paths x)"
    using walk(4) by metis
  have filed: "file_products ?nodes (uw_next w) v ?vex (uw_products w) f = Some (Inr (f\<lparr>
     fd_Products := fd_Products f @ filter (\<lambda>p. \<not> suppresses (pr_VEX p)) (map (reported ?nodes ?vex paths) (uw_products w)),
     fd_Suppressed := fd_Suppressed f @ filter (\<lambda>p. suppresses (pr_VEX p)) (map (reported ?nodes ?vex paths) (uw_products w))\<rparr>))" for f
  proof (rule file_products_form)
    fix x assume "x \<in> set (uw_products w)"
    then have x: "x \<in> reached_roots ?nodes v" using walk(2) by simp
    show "x \<in> dom ?nodes \<and> path_from ?nodes (uw_next w) v x [] = Some (Inr (map (name_of ?nodes) (paths x)))"
      using paths [OF x] subsetD [OF reached_roots_dom x] by simp
  qed
  have vex: "vex_statements ro k libs st s names Map.empty = Inr ?vex"
    unfolding vex_statements_ok [OF assms(1,3)] vex_data_def by (rule refl)
  let ?f1 = "(described libs n)\<lparr>fd_KEV := first_some (map (kev_data libs ?g) (cve_names names)),
    fd_EPSS := best_score libs ?g names None\<rparr>"
  have rank: "rank_finding libs st s names (described libs n) = Inr ?f1"
    using rank_finding_ok [OF assms(1), of libs names "described libs n"] by (simp add: described_fields)
  let ?f = "?f1\<lparr>fd_Packages := sort_Strings (map (name_of ?nodes) (to_array (n_Parents n))),
    fd_Products := stable_sort product_less (filter (\<lambda>p. \<not> suppresses (pr_VEX p)) (map (reported ?nodes ?vex paths) (uw_products w))),
    fd_Suppressed := stable_sort product_less (filter (\<lambda>p. suppresses (pr_VEX p)) (map (reported ?nodes ?vex paths) (uw_products w)))\<rparr>"
  have "buildFinding ro k libs st s ?nodes n names = Some (Inr ?f)"
    unfolding buildFinding_def id rank vex sum.case w_def [symmetric] Let_def walk(3) filed option.case
    by (simp add: described_fields)
  moreover have "finding_of libs ?g v n names ?f"
    unfolding finding_of_def
  proof (intro conjI exI [of _ paths])
    show "list_all (\<lambda>x. shortest_path ?nodes x v (paths x)) (to_array (reached_roots ?nodes v))"
      using paths by (simp add: list_all_iff)
  qed (use sorted_reported [OF names walk(1,2)] best_score_greatest in \<open>simp_all add: described_fields\<close>)
  ultimately show ?thesis by blast
qed

end

section \<open>The order of urgency\<close>

lemma more_urgent_lex:
  assumes "\<not> is_NaN (epssOf a)" and "\<not> is_NaN (epssOf b)"
  shows "more_urgent a b \<longleftrightarrow>
    (let k = (\<lambda>f. if fd_KEV f = None then 1 else 0 :: nat);
         e = (\<lambda>a b. fl_less (epssOf b) (epssOf a));
         p = (\<lambda>a b. length (fd_Products b) < length (fd_Products a))
     in k a < k b \<or> \<not> k b < k a \<and> (e a b \<or> \<not> e b a \<and> (p a b \<or> \<not> p b a \<and> str_less (fd_ID a) (fd_ID b))))"
  using fl_less_total [OF assms] fl_less_irrefl fl_less_trans assms
  by (auto simp: more_urgent_def Let_def fl_neq_def)

lemma weak_order_more_urgent:
  assumes "\<And>f. f \<in> A \<Longrightarrow> \<not> is_NaN (epssOf f)"
  shows "weak_order_on A more_urgent"
proof -
  have k: "weak_order_on A (\<lambda>a b. (if fd_KEV a = None then 1 else 0 :: nat) < (if fd_KEV b = None then 1 else 0))"
    by (rule weak_order_nat)
  have p: "weak_order_on A (\<lambda>a b. length (fd_Products b) < length (fd_Products a))"
    unfolding weak_order_on_def by auto
  have i: "weak_order_on A (\<lambda>a b. str_less (fd_ID a) (fd_ID b))"
    by (rule weak_order_key [OF weak_order_str_less subset_UNIV])
  have e: "weak_order_on A (\<lambda>a b. fl_less (epssOf b) (epssOf a))"
    by (rule weak_order_float [OF assms])
  show ?thesis
    by (rule weak_order_cong [THEN iffD1, OF _ weak_order_lex [OF k weak_order_lex [OF e weak_order_lex [OF p i]]]])
       (simp add: more_urgent_lex [OF assms assms] Let_def)
qed

section \<open>The report\<close>

lemma finding_names:
  assumes "finding_of libs g v n (VulnerabilityNames libs n) f"
  shows "namesOf f = VulnerabilityNames libs n"
proof -
  have "fd_ID f = n_Name n" "fd_Aliases f = fd_Aliases (described libs n)" using assms by (simp_all add: finding_of_def)
  then show ?thesis
    by (simp add: namesOf_def VulnerabilityNames_def described_def Let_def split: sum.split)
qed

lemma finding_products:
  assumes "finding_of libs g v n names f"
  shows "pr_Name ` set (fd_Products f @ fd_Suppressed f) = name_of (g_nodes g) ` reached_roots (g_nodes g) v"
proof -
  obtain paths where "set (fd_Products f) = {p \<in> reported (g_nodes g) (vex_data libs g names) paths ` reached_roots (g_nodes g) v.
            \<not> suppresses (pr_VEX p)}"
    "set (fd_Suppressed f) = {p \<in> reported (g_nodes g) (vex_data libs g names) paths ` reached_roots (g_nodes g) v.
            suppresses (pr_VEX p)}"
    using assms by (auto simp: finding_of_def)
  then have "set (fd_Products f @ fd_Suppressed f)
      = reported (g_nodes g) (vex_data libs g names) paths ` reached_roots (g_nodes g) v" by auto
  then show ?thesis by (simp add: image_image)
qed

lemma finding_apart:
  assumes "names_ok g" and "finding_of libs g v n names f"
  shows "apart f"
proof -
  let ?N = "g_nodes g"
  obtain paths where p: "set (fd_Products f) = {p \<in> reported ?N (vex_data libs g names) paths ` reached_roots ?N v.
            \<not> suppresses (pr_VEX p)}"
    "set (fd_Suppressed f) = {p \<in> reported ?N (vex_data libs g names) paths ` reached_roots ?N v.
            suppresses (pr_VEX p)}"
    using assms(2) by (auto simp: finding_of_def)
  have inj: "inj_on (name_of ?N) (reached_roots ?N v)"
    by (rule inj_on_subset [OF names_inj [OF assms(1)] reached_roots_dom])
  show ?thesis
    unfolding apart_def p by (auto dest: inj_onD [OF inj])
qed

text \<open>
  A product of a finding is explained by a vulnerability with names of the finding: a root that it
  reaches, by a shortest path, and that no statement about it suppresses.
\<close>

definition explained :: "prio_libs \<Rightarrow> gstate \<Rightarrow> finding \<Rightarrow> product \<Rightarrow> bool" where
  "explained libs g f p \<longleftrightarrow>
     (\<exists>v n x ids. g_nodes g v = Some n \<and> n_Type n = VulnerabilityType
       \<and> set (VulnerabilityNames libs n) \<subseteq> set (namesOf f)
       \<and> x \<in> reached_roots (g_nodes g) v \<and> shortest_path (g_nodes g) x v ids
       \<and> p = product_of (vex_data libs g (VulnerabilityNames libs n)) (name_of (g_nodes g) x) (map (name_of (g_nodes g)) ids)
       \<and> \<not> suppresses (pr_VEX p))"

text \<open>A finding accounts for a vulnerability: it has its names, and every root that it reaches.\<close>

definition accounts_for :: "prio_libs \<Rightarrow> gstate \<Rightarrow> id \<Rightarrow> node \<Rightarrow> finding \<Rightarrow> bool" where
  "accounts_for libs g v n f \<longleftrightarrow> set (VulnerabilityNames libs n) \<subseteq> set (namesOf f)
     \<and> name_of (g_nodes g) ` reached_roots (g_nodes g) v \<subseteq> pr_Name ` set (fd_Products f @ fd_Suppressed f)"

lemma finding_explained:
  assumes f: "finding_of libs g v n (VulnerabilityNames libs n) f" and n: "g_nodes g v = Some n" "n_Type n = VulnerabilityType"
    and p: "p \<in> set (fd_Products f)" and sub: "set (namesOf f) \<subseteq> set (namesOf f')"
  shows "explained libs g f' p"
proof -
  let ?N = "g_nodes g" and ?vex = "vex_data libs g (VulnerabilityNames libs n)"
  obtain paths where paths: "list_all (\<lambda>x. shortest_path ?N x v (paths x)) (to_array (reached_roots ?N v))"
    "set (fd_Products f) = {p \<in> reported ?N ?vex paths ` reached_roots ?N v. \<not> suppresses (pr_VEX p)}"
    using f by (auto simp: finding_of_def)
  then obtain x where "x \<in> reached_roots ?N v" "p = reported ?N ?vex paths x" "\<not> suppresses (pr_VEX p)"
    using p by auto
  moreover from this(1) have "shortest_path ?N x v (paths x)" using paths(1) by (simp add: list_all_iff)
  ultimately show ?thesis
    using n sub finding_names [OF f] unfolding explained_def reported_def by metis
qed

text \<open>The EPSS scores that can be read are numbers.\<close>

definition scores_are_numbers :: "prio_libs \<Rightarrow> bool" where
  "scores_are_numbers libs \<longleftrightarrow> (\<forall>t sc. pl_score libs t = Inr sc \<longrightarrow> \<not> is_NaN (ep_EPSS sc))"

lemma finding_score:
  assumes "finding_of libs g v n names f" and "scores_are_numbers libs"
  shows "\<not> is_NaN (epssOf f)"
proof (cases "fd_EPSS f")
  case (Some e)
  have "greatest (map (epss_data libs g) (cve_names names)) (fd_EPSS f)" using assms(1) by (simp add: finding_of_def)
  then have "Some e \<in> set (map (epss_data libs g) (cve_names names))" by (simp add: Some greatest_def)
  then obtain nm where "epss_data libs g nm = Some e" by auto
  then have "\<not> is_NaN (ep_EPSS e)"
    using assms(2) by (auto simp: epss_data_def decoded_def scores_are_numbers_def split: option.splits sum.splits)
  then show ?thesis by (simp add: epssOf_def Some)
qed (simp add: epssOf_def)

context graph_store begin

lemma build_findings_ok:
  assumes "wf s" and "graph_ok (abs s)" and "range_ok ro"
    and "\<And>n. n \<in> set ns \<Longrightarrow> \<exists>v. g_nodes (abs s) v = Some n"
  shows "\<exists>k' fs. build_findings ro k libs st s (g_nodes (abs s)) ns = Some (Inr (k', fs))
    \<and> list_all2 (\<lambda>n f. \<exists>v. g_nodes (abs s) v = Some n \<and> finding_of libs (abs s) v n (VulnerabilityNames libs n) f)
        (filter (\<lambda>n. n_Type n = VulnerabilityType) ns) fs"
  using assms(4)
proof (induction ns arbitrary: k)
  case (Cons n ns)
  have IH: "\<exists>k' fs. build_findings ro k libs st s (g_nodes (abs s)) ns = Some (Inr (k', fs))
    \<and> list_all2 (\<lambda>n f. \<exists>v. g_nodes (abs s) v = Some n \<and> finding_of libs (abs s) v n (VulnerabilityNames libs n) f)
        (filter (\<lambda>n. n_Type n = VulnerabilityType) ns) fs" for k
    by (rule Cons.IH) (use Cons.prems in simp)
  show ?case
  proof (cases "n_Type n = VulnerabilityType")
    case False
    then show ?thesis using IH by simp
  next
    case True
    obtain v where v: "g_nodes (abs s) v = Some n" using Cons.prems by auto
    obtain f where f: "buildFinding ro k libs st s (g_nodes (abs s)) n (VulnerabilityNames libs n) = Some (Inr f)"
      "finding_of libs (abs s) v n (VulnerabilityNames libs n) f"
      using buildFinding_ok [OF assms(1-3) v] by blast
    obtain k' fs where "build_findings ro (k + length (VulnerabilityNames libs n)) libs st s (g_nodes (abs s)) ns = Some (Inr (k', fs))"
      "list_all2 (\<lambda>n f. \<exists>v. g_nodes (abs s) v = Some n \<and> finding_of libs (abs s) v n (VulnerabilityNames libs n) f)
        (filter (\<lambda>n. n_Type n = VulnerabilityType) ns) fs" using IH by blast
    with True v f show ?thesis by (auto simp: Let_def)
  qed
qed simp

text \<open>The findings before they are merged, and the report made of them.\<close>

lemma Build_ok:
  assumes "wf s" and ok: "graph_ok (abs s)" and "range_ok ro"
  obtains fs k merged where "mergeAliases ro k fs = Some (Inr merged)"
    and "\<And>opts. Build ro libs st s opts = Some (Inr (stable_sort more_urgent (filter (keeps opts) merged)))"
    and "\<And>v n. g_nodes (abs s) v = Some n \<Longrightarrow> n_Type n = VulnerabilityType \<Longrightarrow>
      \<exists>f \<in> set fs. finding_of libs (abs s) v n (VulnerabilityNames libs n) f"
    and "\<And>f. f \<in> set fs \<Longrightarrow> \<exists>v n. g_nodes (abs s) v = Some n \<and> n_Type n = VulnerabilityType
      \<and> finding_of libs (abs s) v n (VulnerabilityNames libs n) f"
proof -
  obtain ks where ks: "st_GetAllKeys st s = Inr ks" "set ks = dom (g_nodes (abs s))"
    using GetAllKeys [OF assms(1)] by blast
  obtain al where al: "st_GetNodes st s ks = Inr al" "distinct (keys_of al)" "map_of al = g_nodes (abs s) |` set ks"
    using GetNodes [OF assms(1), of ks] by blast
  have nodes: "map_of al = g_nodes (abs s)" using al(3) ks(2) by (auto simp: fun_eq_iff restrict_map_def)
  let ?ns = "map snd (go_range ro 0 al)"
  have ns: "n \<in> set ?ns \<longleftrightarrow> (\<exists>v. g_nodes (abs s) v = Some n)" for n
    using al(2) assms(3) unfolding nodes [symmetric] by (force simp: map_of_eq_Some_iff)
  obtain k fs where fs: "build_findings ro 1 libs st s (g_nodes (abs s)) ?ns = Some (Inr (k, fs))"
    "list_all2 (\<lambda>n f. \<exists>v. g_nodes (abs s) v = Some n \<and> finding_of libs (abs s) v n (VulnerabilityNames libs n) f)
        (filter (\<lambda>n. n_Type n = VulnerabilityType) ?ns) fs"
    using build_findings_ok [OF assms, of ?ns 1 libs] ns by blast
  obtain R merged where m: "mergeAliases ro k fs = Some (Inr merged)"
    using mergeAliases_merged [OF assms(3), of k fs] by metis
  show thesis
  proof (rule that [OF m])
    show "Build ro libs st s opts = Some (Inr (stable_sort more_urgent (filter (keeps opts) merged)))" for opts
      unfolding Build_def ks(1) al(1) ctx_simps sum.case nodes fs(1) option.case prod.case m by simp
    show "\<exists>f \<in> set fs. finding_of libs (abs s) v n (VulnerabilityNames libs n) f"
      if "g_nodes (abs s) v = Some n" "n_Type n = VulnerabilityType" for v n
    proof -
      have "n \<in> set (filter (\<lambda>n. n_Type n = VulnerabilityType) ?ns)" using that ns by auto
      from list_all2_left [OF fs(2) this] obtain f v' where "f \<in> set fs" "g_nodes (abs s) v' = Some n"
        "finding_of libs (abs s) v' n (VulnerabilityNames libs n) f" by blast
      moreover from this that(1) ok have "v' = v" unfolding graph_ok_def names_ok_def by blast
      ultimately show ?thesis by blast
    qed
    show "\<exists>v n. g_nodes (abs s) v = Some n \<and> n_Type n = VulnerabilityType
      \<and> finding_of libs (abs s) v n (VulnerabilityNames libs n) f" if "f \<in> set fs" for f
      using list_all2_right [OF fs(2) that] by auto
  qed
qed

end

context graph_store begin

lemma Build_accounts:
  assumes "wf s" and ok: "graph_ok (abs s)" and "range_ok ro"
  shows "\<exists>out. Build ro libs st s opts = Some (Inr out)
    \<and> list_all (\<lambda>f. keeps opts f \<and> apart f \<and> list_all (explained libs (abs s) f) (fd_Products f)) out
    \<and> (\<forall>v n. g_nodes (abs s) v = Some n \<longrightarrow> n_Type n = VulnerabilityType \<longrightarrow>
         (\<exists>f. accounts_for libs (abs s) v n f \<and> (f \<in> set out \<longleftrightarrow> keeps opts f)))"
proof -
  obtain fs k merged where b: "mergeAliases ro k fs = Some (Inr merged)"
    "Build ro libs st s opts = Some (Inr (stable_sort more_urgent (filter (keeps opts) merged)))"
    "\<And>v n. g_nodes (abs s) v = Some n \<Longrightarrow> n_Type n = VulnerabilityType \<Longrightarrow>
      \<exists>f \<in> set fs. finding_of libs (abs s) v n (VulnerabilityNames libs n) f"
    "\<And>f. f \<in> set fs \<Longrightarrow> \<exists>v n. g_nodes (abs s) v = Some n \<and> n_Type n = VulnerabilityType
      \<and> finding_of libs (abs s) v n (VulnerabilityNames libs n) f"
    using Build_ok [OF assms, of libs] by metis
  obtain R where R: "list_all2 (\<lambda>r. merged_from (block fs R r)) (firsts (map R [0..<length fs])) merged"
    using mergeAliases_merged [OF assms(3), of k fs] b(1) by (metis option.inject sum.inject(2))
  have names: "names_ok (abs s)" using ok by (simp add: graph_ok_def)
  have "list_all apart fs" using b(4) finding_apart [OF names] unfolding list_all_iff by blast
  then have "list_all apart merged" by (rule merged_apart [OF R])
  moreover have "explained libs (abs s) f p" if f: "f \<in> set merged" "p \<in> set (fd_Products f)" for f p
  proof -
    obtain r where r: "merged_from (block fs R r) f" using list_all2_right [OF R f(1)] by blast
    have "set (fd_Products f) \<subseteq> (\<Union>g \<in> set (block fs R r). set (fd_Products g))"
      using r unfolding merged_from_def by (elim conjE)
    then obtain g where g: "g \<in> set (block fs R r)" "p \<in> set (fd_Products g)" using f(2) by blast
    have "g \<in> set fs" using g(1) by (auto simp: set_block)
    then obtain v n where "g_nodes (abs s) v = Some n" "n_Type n = VulnerabilityType"
      "finding_of libs (abs s) v n (VulnerabilityNames libs n) g" using b(4) by blast
    then show ?thesis by (rule finding_explained [OF _ _ _ g(2) merged_member(1) [OF r g(1)], rotated 1])
  qed
  moreover have "\<exists>f. accounts_for libs (abs s) v n f \<and> f \<in> set merged"
    if n: "g_nodes (abs s) v = Some n" "n_Type n = VulnerabilityType" for v n
  proof -
    obtain g where g: "g \<in> set fs" "finding_of libs (abs s) v n (VulnerabilityNames libs n) g" using b(3) [OF n] by blast
    obtain r f where f: "f \<in> set merged" "g \<in> set (block fs R r)" "merged_from (block fs R r) f"
      using merged_covers [OF R g(1)] by blast
    note sub = merged_member [OF f(3,2)]
    have "pr_Name ` set (fd_Products g @ fd_Suppressed g) \<subseteq> pr_Name ` set (fd_Products f @ fd_Suppressed f)"
      using sub(3,4) by auto
    then have "accounts_for libs (abs s) v n f"
      using sub(1) unfolding accounts_for_def finding_names [OF g(2)] finding_products [OF g(2)] by blast
    with f(1) show ?thesis by blast
  qed
  ultimately show ?thesis unfolding b(2) by (fastforce simp: list_all_iff)
qed

lemma Build_filtered:
  assumes "wf s" and ok: "graph_ok (abs s)" and "range_ok ro" and "scores_are_numbers libs"
    and everything: "\<And>f. keeps every f"
  shows "\<exists>out. Build ro libs st s every = Some (Inr out)
    \<and> Build ro libs st s opts = Some (Inr (filter (keeps opts) out))
    \<and> sorted_wrt (\<lambda>a b. \<not> more_urgent b a) out"
proof -
  obtain fs k merged where b: "mergeAliases ro k fs = Some (Inr merged)"
    "\<And>opts. Build ro libs st s opts = Some (Inr (stable_sort more_urgent (filter (keeps opts) merged)))"
    "\<And>f. f \<in> set fs \<Longrightarrow> \<exists>v n. g_nodes (abs s) v = Some n \<and> n_Type n = VulnerabilityType
      \<and> finding_of libs (abs s) v n (VulnerabilityNames libs n) f"
    using Build_ok [OF assms(1-3), of libs] by metis
  obtain R where R: "list_all2 (\<lambda>r. merged_from (block fs R r)) (firsts (map R [0..<length fs])) merged"
    using mergeAliases_merged [OF assms(3), of k fs] b(1) by (metis option.inject sum.inject(2))
  have "\<not> is_NaN (epssOf f)" if f: "f \<in> set merged" for f
  proof -
    obtain r where r: "merged_from (block fs R r) f" using list_all2_right [OF R f(1)] by blast
    have "fd_EPSS f \<in> fd_EPSS ` set (block fs R r)" using r unfolding merged_from_def by (elim conjE)
    moreover have "set (block fs R r) \<subseteq> set fs" by (auto simp: set_block)
    ultimately obtain g where "g \<in> set fs" "fd_EPSS f = fd_EPSS g" by blast
    then show ?thesis using b(3) finding_score [OF _ assms(4)] unfolding epssOf_def by metis
  qed
  then have w: "weak_order_on (set merged) more_urgent" by (rule weak_order_more_urgent)
  have "filter (keeps every) merged = merged" using everything by (simp add: filter_id_conv)
  then show ?thesis unfolding b(2) using stable_sort_filter [OF w] sorted_stable_sort [OF w] by simp
qed

end

section \<open>Properties of the report\<close>

definition everything :: options where
  "everything = \<lparr>opt_Vulnerability = '''', opt_KEVOnly = False, opt_MinEPSS = Fin 0\<rparr>"






text \<open>
  C20. What one vulnerability is reported with: on a consistent graph in Redis, \<open>buildFinding\<close> for a stored
  node returns, and its finding lists exactly the roots that reach the node through dependencies, each with a
  shortest path, split by the VEX statements for the product or the package at the end of the path, sorted
  by name; the packages that contain it; the first KEV entry and the greatest EPSS score among its CVE names.
\<close>

theorem redis_buildFinding_exact:
  assumes "redis_wf b64 s" and "graph_ok (redis_abs s)" and "range_ok ro" and "g_nodes (redis_abs s) v = Some n"
  shows "\<exists>f. buildFinding ro k libs redis_storage s (g_nodes (redis_abs s)) n names = Some (Inr f)
    \<and> finding_of libs (redis_abs s) v n names f"
  by (rule rd.buildFinding_ok [OF assms])

theorem redis_buildFinding_exact_witness:
  "\<exists>(s :: (bitmap, bitmap node_aux + bitmap cache_aux) redis) v n f.
     buildFinding in_order 0 sample_prio redis_storage s (g_nodes (redis_abs s)) n [''CVE-1''] = Some (Inr f)
     \<and> finding_of sample_prio (redis_abs s) v n [''CVE-1''] f \<and> fd_ID f = ''GO-1''"
proof -
  let ?m = "\<lambda>p k. has_prefix k (butlast p)"
  let ?db = "empty_redis (tree_codec rev) ?m"
  have m: "prefix_patterns ?m" by (simp add: prefix_patterns_def butlast_append)
  note start = empty_redis_ok [OF tree_codec_ok [of rev] m]
  have room: "Suc (g_next (redis_abs ?db)) < 4294967296"
    by (simp add: empty_redis_def)
  obtain s :: "(bitmap, bitmap node_aux + bitmap cache_aux) redis" and n where s: "redis_wf rev s" "graph_ok (redis_abs s)" "n_Name n = ''GO-1''"
    "g_nodes (redis_abs s) (n_ID n) = Some (stored_node rev n)"
    using rd.AddNode_step [OF start(1,2) room, where ty = VulnerabilityType and meta = MNil and name = "''GO-1''"]
    by - (elim exE conjE, rule that; assumption)
  from redis_buildFinding_exact [OF s(1,2) range_ok_in_order s(4)]
  obtain f where "buildFinding in_order 0 sample_prio redis_storage s (g_nodes (redis_abs s)) (stored_node rev n) [''CVE-1''] = Some (Inr f)"
    "finding_of sample_prio (redis_abs s) (n_ID n) (stored_node rev n) [''CVE-1''] f" by blast
  moreover from this(2) have "fd_ID f = ''GO-1''" using s(3) by (simp add: finding_of_def stored_node_def)
  ultimately show ?thesis by blast
qed

end
