(* ===== verification/Float_Order.thy ===== *)
theory Float_Order
  imports Go_Float
begin

text \<open>
  The order of floating-point numbers, and which operations keep it: rounding is monotonic and exact on
  zero and one, as IEEE 754 has it, and nothing else is assumed of it.
\<close>

definition fl_le :: "float64 \<Rightarrow> float64 \<Rightarrow> bool" where
  "fl_le x y \<longleftrightarrow> fl_less x y \<or> x = y"

definition rounding_ok :: "rounding \<Rightarrow> bool" where
  "rounding_ok rnd \<longleftrightarrow> (\<forall>a. \<not> is_NaN (rnd a)) \<and> (\<forall>a b. a \<le> b \<longrightarrow> fl_le (rnd a) (rnd b))
     \<and> rnd 0 = Fin 0 \<and> rnd 1 = Fin 1"

lemma roundingD:
  assumes "rounding_ok rnd"
  shows "\<not> is_NaN (rnd a)" "rnd a \<noteq> NaN" "a \<le> b \<Longrightarrow> fl_le (rnd a) (rnd b)" "rnd 0 = Fin 0" "rnd 1 = Fin 1"
  using assms unfolding rounding_ok_def by (metis is_NaN.simps(1))+

lemma fl_le_refl [simp]: "fl_le x x"
  by (simp add: fl_le_def)

lemma fl_le_trans: "fl_le x y \<Longrightarrow> fl_le y z \<Longrightarrow> fl_le x z"
  unfolding fl_le_def using fl_less_trans by blast

lemma fl_le_simps [simp]:
  "fl_le (Fin a) (Fin b) \<longleftrightarrow> a \<le> b" "fl_le PInf x \<longleftrightarrow> x = PInf" "fl_le x NInf \<longleftrightarrow> x = NInf"
  "fl_le x PInf \<longleftrightarrow> \<not> is_NaN x" "fl_le NInf x \<longleftrightarrow> \<not> is_NaN x"
  "fl_le NaN x \<longleftrightarrow> x = NaN" "fl_le x NaN \<longleftrightarrow> x = NaN"
  by (auto simp: fl_le_def) (cases x; simp)+

lemma fl_le_not_less: "fl_le x y \<Longrightarrow> \<not> fl_less y x"
  unfolding fl_le_def using fl_less_irrefl fl_less_trans by blast

lemma fl_not_less_le: "\<not> is_NaN x \<Longrightarrow> \<not> is_NaN y \<Longrightarrow> \<not> fl_less y x \<Longrightarrow> fl_le x y"
  unfolding fl_le_def using fl_less_total by blast

lemma round_nonneg: "rounding_ok rnd \<Longrightarrow> 0 \<le> a \<Longrightarrow> fl_le (Fin 0) (rnd a)"
  using roundingD(3,4) by metis

lemma round_ge_one: "rounding_ok rnd \<Longrightarrow> 1 \<le> a \<Longrightarrow> fl_le (Fin 1) (rnd a)"
  using roundingD(3,5) by metis

text \<open>Sums.\<close>

lemma fl_add_mono:
  assumes "rounding_ok rnd" and "fl_le x y"
  shows "fl_le (fl_add rnd (Fin a) x) (fl_add rnd (Fin a) y)"
  using assms by (cases x; cases y) (simp_all add: roundingD)

lemma fl_add_mono_left:
  assumes "rounding_ok rnd" and "a \<le> b"
  shows "fl_le (fl_add rnd (Fin a) x) (fl_add rnd (Fin b) x)"
  using assms by (cases x) (simp_all add: roundingD)

lemma fl_add_NaN_iff: "rounding_ok rnd \<Longrightarrow> is_NaN (fl_add rnd (Fin a) x) \<longleftrightarrow> is_NaN x"
  by (cases x) (simp_all add: roundingD)

text \<open>Products with a negative number, and of numbers that are not negative.\<close>

lemma fl_mul_anti:
  assumes "rounding_ok rnd" and "0 < k" and "fl_le x y"
  shows "fl_le (fl_mul rnd (Fin (- k)) y) (fl_mul rnd (Fin (- k)) x)"
  using assms by (cases x; cases y) (simp_all add: roundingD inf_of_def)

lemma fl_mul_NaN_iff: "rounding_ok rnd \<Longrightarrow> 0 < k \<Longrightarrow> is_NaN (fl_mul rnd (Fin (- k)) x) \<longleftrightarrow> is_NaN x"
  by (cases x) (simp_all add: roundingD inf_of_def)

lemma fl_mul_mono:
  assumes "rounding_ok rnd" and "fl_le (Fin 0) q" and "fl_le (Fin 0) x" and "fl_le x y"
    and "\<not> is_NaN (fl_mul rnd q x)" and "\<not> is_NaN (fl_mul rnd q y)"
  shows "fl_le (fl_mul rnd q x) (fl_mul rnd q y)"
  using assms by (cases q; cases x; cases y) (auto simp: roundingD inf_of_def mult_left_mono split: if_splits)

text \<open>Quotients by numbers that are at least one.\<close>

lemma fl_div_anti:
  assumes "rounding_ok rnd" and "0 < w" and "fl_le (Fin 1) d" and "fl_le d e"
  shows "fl_le (fl_div rnd (Fin w) e) (fl_div rnd (Fin w) d)"
proof (cases d)
  case (Fin a)
  show ?thesis
  proof (cases e)
    case (Fin b)
    with \<open>d = Fin a\<close> assms have "1 \<le> a" "a \<le> b" by simp_all
    then have "w / b \<le> w / a" using assms(2) by (intro divide_left_mono) simp_all
    with \<open>d = Fin a\<close> \<open>e = Fin b\<close> \<open>1 \<le> a\<close> \<open>a \<le> b\<close> assms(1) show ?thesis by (simp add: roundingD)
  next
    case PInf
    with \<open>d = Fin a\<close> assms show ?thesis by (simp add: round_nonneg)
  qed (use assms \<open>d = Fin a\<close> in simp_all)
next
  case PInf
  with assms show ?thesis by (cases e) simp_all
qed (use assms in simp_all)

lemma fl_div_nonneg: "rounding_ok rnd \<Longrightarrow> 0 < w \<Longrightarrow> fl_le (Fin 1) d \<Longrightarrow> fl_le (Fin 0) (fl_div rnd (Fin w) d)"
  by (cases d) (simp_all add: round_nonneg)

end
