(* ===== verification/Weighted.thy ===== *)
theory Weighted
  imports Float_Order Cache_Props Ingest_Growth
begin

text \<open>
  The weighted ranking of packages, \<open>pkg/tools/weightedNACD\<close>: a sigmoid of the number of dependencies, and
  the risk. Floating-point rounding, \<open>math.Pow(math.E, x)\<close> and \<open>sort.Slice\<close>, which is not stable, are
  arguments of the model; the progress callback is left out.
\<close>

section \<open>The algorithms\<close>

record float_ops =
  fo_round :: rounding
  fo_exp :: "float64 \<Rightarrow> float64"

record weights_for_type =
  wt_weight :: float64
  wt_k :: float64
  wt_l :: float64

record value_and_type =
  vt_type :: string
  vt_value :: float64

text \<open>A type without weights reads as the zero weights.\<close>

definition weights_of :: "(string \<rightharpoonup> weights_for_type) \<Rightarrow> string \<Rightarrow> weights_for_type" where
  "weights_of m ty =
     (case m ty of None \<Rightarrow> \<lparr>wt_weight = float64.Fin 0, wt_k = float64.Fin 0, wt_l = float64.Fin 0\<rparr> | Some x \<Rightarrow> x)"

definition sigmoid_term :: "float_ops \<Rightarrow> weights_for_type \<Rightarrow> float64 \<Rightarrow> float64" where
  "sigmoid_term ops vals x =
     (let r = fo_round ops
      in fl_div r (wt_weight vals)
           (fl_add r (float64.Fin 1)
             (fo_exp ops (fl_mul r (fl_neg (wt_k vals)) (fl_add r x (fl_neg (fl_div r (wt_l vals) (float64.Fin 2))))))))"

definition sigmoidBasedAlgo :: "float_ops \<Rightarrow> value_and_type list \<Rightarrow> (string \<rightharpoonup> weights_for_type) \<Rightarrow> float64" where
  "sigmoidBasedAlgo ops values valsForType =
     (let r = fo_round ops;
          sum = fold (\<lambda>v acc. fl_add r acc (wt_weight (weights_of valsForType (vt_type v)))) values (float64.Fin 0);
          sum2 = fold (\<lambda>v acc. fl_add r acc (sigmoid_term ops (weights_of valsForType (vt_type v)) (vt_value v)))
                   values (float64.Fin 0)
      in fl_mul r (fl_div r (float64.Fin 1) sum) sum2)"

definition riskAlgo :: "float_ops \<Rightarrow> float64 \<Rightarrow> float64 \<Rightarrow> float64 \<Rightarrow> float64 \<Rightarrow> float64" where
  "riskAlgo ops weight1 criticality weight2 likelihood =
     fl_add (fo_round ops) (fl_mul (fo_round ops) weight1 criticality) (fl_mul (fo_round ops) weight2 likelihood)"

section \<open>The ranking\<close>

definition dependencies_type :: string where "dependencies_type = ''dependencies''"
definition scorecard_type :: string where "scorecard_type = ''scorecard''"

record pkg_and_value =
  pv_Id :: id
  pv_Risk :: float64
  pv_Criticality :: float64
  pv_Likelihood :: float64

record weights =
  we_Dependencies :: "weights_for_type option"
  we_Scorecard :: "weights_for_type option"
  we_CriticalityWeight :: float64
  we_LikelihoodWeight :: float64

definition weights_map :: "weights \<Rightarrow> (string \<rightharpoonup> weights_for_type)" where
  "weights_map w =
     (let m = (case we_Dependencies w of None \<Rightarrow> Map.empty | Some d \<Rightarrow> [dependencies_type \<mapsto> d])
      in case we_Scorecard w of None \<Rightarrow> m | Some sc \<Rightarrow> m(scorecard_type \<mapsto> sc))"

definition score_of :: "float_ops \<Rightarrow> weights \<Rightarrow> id \<Rightarrow> bitmap \<Rightarrow> pkg_and_value" where
  "score_of ops w i deps =
     (let forCriticality = [\<lparr>vt_type = dependencies_type, vt_value = float64.Fin (of_nat (length (to_array deps)))\<rparr>];
          forLikelihood = [];
          criticality = sigmoidBasedAlgo ops forCriticality (weights_map w);
          likelihood = sigmoidBasedAlgo ops forLikelihood (weights_map w);
          risk = riskAlgo ops (we_CriticalityWeight w) criticality (we_LikelihoodWeight w) likelihood
      in \<lparr>pv_Id = i, pv_Risk = risk, pv_Criticality = criticality, pv_Likelihood = likelihood\<rparr>)"

fun score_nodes ::
  "float_ops \<Rightarrow> 's storage \<Rightarrow> 's \<Rightarrow> weights \<Rightarrow> id list \<Rightarrow> pkg_and_value list \<Rightarrow> pkg_and_value list res" where
  "score_nodes ops st s w [] scores = Inr scores"
| "score_nodes ops st s w (i # ids) scores =
     bind_res (ctx ''error getting node'' (st_GetNode st s i)) (\<lambda>node.
       if n_Type node = ''library'' then
         bind_res (ctx ''error querying dependencies'' (QueryDependencies st s node)) (\<lambda>deps.
           score_nodes ops st s w ids (scores @ [score_of ops w i deps]))
       else score_nodes ops st s w ids scores)"

definition riskier :: "pkg_and_value \<Rightarrow> pkg_and_value \<Rightarrow> bool" where
  "riskier a b =
     (if is_NaN (pv_Risk a) \<and> \<not> is_NaN (pv_Risk b) then False
      else if \<not> is_NaN (pv_Risk a) \<and> is_NaN (pv_Risk b) then True
      else if is_NaN (pv_Risk a) \<and> is_NaN (pv_Risk b) then fl_less (pv_Criticality b) (pv_Criticality a)
      else fl_less (pv_Risk b) (pv_Risk a))"

type_synonym 'a sort_func = "('a \<Rightarrow> 'a \<Rightarrow> bool) \<Rightarrow> 'a list \<Rightarrow> 'a list"

text \<open>
  What \<open>sort.Slice\<close> promises: the elements in some order, and when the comparison is a strict weak order
  none before one that is less. Elements that compare equal may come in any order.
\<close>

definition sort_Slice_ok :: "'a sort_func \<Rightarrow> bool" where
  "sort_Slice_ok srt \<longleftrightarrow> (\<forall>lt xs. mset (srt lt xs) = mset xs
     \<and> (weak_order_on (set xs) lt \<longrightarrow> sorted_wrt (\<lambda>a b. \<not> lt b a) (srt lt xs)))"

lemma sort_SliceD:
  assumes "sort_Slice_ok srt"
  shows "mset (srt lt xs) = mset xs" "set (srt lt xs) = set xs"
    "weak_order_on (set xs) lt \<Longrightarrow> sorted_wrt (\<lambda>a b. \<not> lt b a) (srt lt xs)"
  using assms unfolding sort_Slice_ok_def by (metis set_mset_mset)+

lemma stable_sort_Slice: "sort_Slice_ok stable_sort"
  using sorted_stable_sort by (auto simp: sort_Slice_ok_def)

definition WeightedNACD ::
  "pkg_and_value sort_func \<Rightarrow> float_ops \<Rightarrow> 's storage \<Rightarrow> 's \<Rightarrow> weights \<Rightarrow> pkg_and_value list res" where
  "WeightedNACD sort_Slice ops st s w =
     bind_res (ctx ''error getting all leaderboard'' (st_GetAllKeys st s)) (\<lambda>ids.
     bind_res (score_nodes ops st s w ids []) (\<lambda>scores. Inr (sort_Slice riskier scores)))"

section \<open>The likelihood is never a number\<close>

lemma sigmoid_empty: "sigmoidBasedAlgo ops [] m = NaN"
  by (simp add: sigmoidBasedAlgo_def inf_of_def)

lemma score_of_NaN: "pv_Likelihood (score_of ops w i deps) = NaN" "pv_Risk (score_of ops w i deps) = NaN"
  by (simp_all add: score_of_def Let_def sigmoid_empty riskAlgo_def)

lemma score_nodes_NaN:
  "score_nodes ops st s w ids scores = Inr out \<Longrightarrow> \<forall>p \<in> set scores. pv_Likelihood p = NaN \<and> pv_Risk p = NaN \<Longrightarrow>
     \<forall>p \<in> set out. pv_Likelihood p = NaN \<and> pv_Risk p = NaN"
proof (induction ids arbitrary: scores)
  case (Cons i ids)
  then obtain node where node: "st_GetNode st s i = Inr node"
    "(if n_Type node = ''library'' then
         bind_res (ctx ''error querying dependencies'' (QueryDependencies st s node)) (\<lambda>deps.
           score_nodes ops st s w ids (scores @ [score_of ops w i deps]))
       else score_nodes ops st s w ids scores) = Inr out"
    by (auto simp: bind_res_Inr_iff)
  show ?case
  proof (cases "n_Type node = ''library''")
    case True
    then obtain deps where "score_nodes ops st s w ids (scores @ [score_of ops w i deps]) = Inr out"
      using node(2) by (auto simp: bind_res_Inr_iff)
    then show ?thesis by (rule Cons.IH) (use Cons.prems(2) score_of_NaN in auto)
  next
    case False
    then have "score_nodes ops st s w ids scores = Inr out" using node(2) by simp
    then show ?thesis by (rule Cons.IH [OF _ Cons.prems(2)])
  qed
qed simp

section \<open>The criticality grows with the dependencies\<close>

definition criticality :: "float_ops \<Rightarrow> weights \<Rightarrow> nat \<Rightarrow> float64" where
  "criticality ops w n =
     sigmoidBasedAlgo ops [\<lparr>vt_type = dependencies_type, vt_value = float64.Fin (of_nat n)\<rparr>] (weights_map w)"

text \<open>The exponential is monotonic and not negative.\<close>

definition float_laws :: "float_ops \<Rightarrow> bool" where
  "float_laws ops \<longleftrightarrow> rounding_ok (fo_round ops)
     \<and> (\<forall>x. \<not> is_NaN x \<longrightarrow> fl_le (float64.Fin 0) (fo_exp ops x))
     \<and> (\<forall>x y. \<not> is_NaN x \<longrightarrow> fl_le x y \<longrightarrow> fl_le (fo_exp ops x) (fo_exp ops y))"

text \<open>Weights for the dependencies with a positive weight, which is a floating-point number, and slope.\<close>

definition dependency_weights :: "float_ops \<Rightarrow> weights \<Rightarrow> bool" where
  "dependency_weights ops w \<longleftrightarrow> (\<exists>wt k l. we_Dependencies w = Some \<lparr>wt_weight = float64.Fin wt, wt_k = float64.Fin k, wt_l = float64.Fin l\<rparr>
     \<and> 0 < wt \<and> 0 < k \<and> fo_round ops wt = float64.Fin wt)"

lemma sigmoid_term_mono:
  assumes "float_laws ops" and "0 < wt" and "0 < k" and "a \<le> b"
  shows "fl_le (float64.Fin 0) (sigmoid_term ops \<lparr>wt_weight = float64.Fin wt, wt_k = float64.Fin k, wt_l = float64.Fin l\<rparr> (float64.Fin a))"
    and "fl_le (sigmoid_term ops \<lparr>wt_weight = float64.Fin wt, wt_k = float64.Fin k, wt_l = float64.Fin l\<rparr> (float64.Fin a))
      (sigmoid_term ops \<lparr>wt_weight = float64.Fin wt, wt_k = float64.Fin k, wt_l = float64.Fin l\<rparr> (float64.Fin b))"
proof -
  let ?r = "fo_round ops"
  note r = assms(1) [unfolded float_laws_def, THEN conjunct1]
  define h where "h = fl_neg (fl_div ?r (float64.Fin l) (float64.Fin 2))"
  define e where "e x = fl_mul ?r (float64.Fin (- k)) (fl_add ?r (float64.Fin x) h)" for x
  define d where "d x = fl_add ?r (float64.Fin 1) (fo_exp ops (e x))" for x
  have h: "\<not> is_NaN h" using roundingD(1) [OF r, of "l / 2"] unfolding h_def by (cases "?r (l / 2)") simp_all
  have e: "\<not> is_NaN (e x)" for x
    unfolding e_def fl_mul_NaN_iff [OF r assms(3)] fl_add_NaN_iff [OF r] by (rule h)
  have "fl_le (e b) (e a)"
    unfolding e_def by (intro fl_mul_anti [OF r assms(3)] fl_add_mono_left [OF r assms(4)])
  then have "fl_le (d b) (d a)"
    unfolding d_def using assms(1) e by (intro fl_add_mono [OF r]) (simp add: float_laws_def)
  moreover have d: "fl_le (float64.Fin 1) (d x)" for x
  proof -
    have "fl_le (float64.Fin 0) (fo_exp ops (e x))" using assms(1) e by (simp add: float_laws_def)
    from fl_add_mono [OF r this, of 1] show ?thesis unfolding d_def by (simp add: roundingD [OF r])
  qed
  ultimately have "fl_le (fl_div ?r (float64.Fin wt) (d a)) (fl_div ?r (float64.Fin wt) (d b))"
    by (intro fl_div_anti [OF r assms(2)])
  moreover have "fl_le (float64.Fin 0) (fl_div ?r (float64.Fin wt) (d a))" by (rule fl_div_nonneg [OF r assms(2) d])
  moreover have "sigmoid_term ops \<lparr>wt_weight = float64.Fin wt, wt_k = float64.Fin k, wt_l = float64.Fin l\<rparr> (float64.Fin x) = fl_div ?r (float64.Fin wt) (d x)" for x
    by (simp add: sigmoid_term_def Let_def d_def e_def h_def)
  ultimately show "fl_le (float64.Fin 0) (sigmoid_term ops \<lparr>wt_weight = float64.Fin wt, wt_k = float64.Fin k, wt_l = float64.Fin l\<rparr> (float64.Fin a))"
    and "fl_le (sigmoid_term ops \<lparr>wt_weight = float64.Fin wt, wt_k = float64.Fin k, wt_l = float64.Fin l\<rparr> (float64.Fin a))
      (sigmoid_term ops \<lparr>wt_weight = float64.Fin wt, wt_k = float64.Fin k, wt_l = float64.Fin l\<rparr> (float64.Fin b))" by simp_all
qed

lemma criticality_mono:
  assumes laws: "float_laws ops" and "dependency_weights ops w" and num: "\<not> (\<exists>n. is_NaN (criticality ops w n))"
    and "n \<le> m"
  shows "fl_le (criticality ops w n) (criticality ops w m)"
proof -
  obtain wt k l where w: "we_Dependencies w = Some \<lparr>wt_weight = float64.Fin wt, wt_k = float64.Fin k, wt_l = float64.Fin l\<rparr>"
    "0 < wt" "0 < k" "fo_round ops wt = float64.Fin wt" using assms(2) unfolding dependency_weights_def by blast
  let ?r = "fo_round ops" and ?vals = "\<lparr>wt_weight = float64.Fin wt, wt_k = float64.Fin k, wt_l = float64.Fin l\<rparr>"
  note r = laws [unfolded float_laws_def, THEN conjunct1]
  have "weights_of (weights_map w) dependencies_type = ?vals"
    using w(1) by (simp add: weights_of_def weights_map_def Let_def dependencies_type_def scorecard_type_def
        split: option.split)
  then have c: "criticality ops w x = fl_mul ?r (?r (1 / wt)) (fl_add ?r (float64.Fin 0) (sigmoid_term ops ?vals (float64.Fin (of_nat x))))" for x
    using w(2,4) by (simp add: criticality_def sigmoidBasedAlgo_def Let_def)
  have "(of_nat n :: rat) \<le> of_nat m" using assms(4) by simp
  note t = sigmoid_term_mono [OF laws w(2,3) this, of l]
  have "fl_le (float64.Fin 0) (fl_add ?r (float64.Fin 0) (sigmoid_term ops ?vals (float64.Fin (of_nat n))))"
    using fl_add_mono [OF r t(1), of 0] by (simp add: roundingD [OF r])
  moreover have "fl_le (float64.Fin 0) (?r (1 / wt))" using w(2) by (intro round_nonneg [OF r]) simp
  ultimately show ?thesis
    using num unfolding c by (intro fl_mul_mono [OF r] fl_add_mono [OF r t(2)]) blast+
qed

lemma score_of_fields: "pv_Id (score_of ops w i deps) = i"
  "pv_Criticality (score_of ops w i deps) = criticality ops w (card deps)"
  by (simp_all add: score_of_def Let_def criticality_def)

context graph_store begin

lemma score_nodes_ok:
  assumes "\<And>i n. i \<in> set ids \<Longrightarrow> g_nodes (abs s) i = Some n \<Longrightarrow>
      QueryDependencies st s n = Inr (reach (g_nodes (abs s)) ChildrenDirection i)"
    and "wf s" and "set ids \<subseteq> dom (g_nodes (abs s))"
  shows "score_nodes ops st s w ids scores = Inr (scores
    @ map (\<lambda>i. score_of ops w i (reach (g_nodes (abs s)) ChildrenDirection i))
        (filter (\<lambda>i. \<exists>n. g_nodes (abs s) i = Some n \<and> n_Type n = ''library'') ids))"
  using assms(1,3)
proof (induction ids arbitrary: scores)
  case (Cons i ids)
  obtain n where n: "g_nodes (abs s) i = Some n" using Cons.prems(2) by auto
  have q: "QueryDependencies st s n = Inr (reach (g_nodes (abs s)) ChildrenDirection i)"
    using Cons.prems(1) [OF _ n] by simp
  have IH: "score_nodes ops st s w ids scores = Inr (scores
    @ map (\<lambda>i. score_of ops w i (reach (g_nodes (abs s)) ChildrenDirection i))
        (filter (\<lambda>i. \<exists>n. g_nodes (abs s) i = Some n \<and> n_Type n = ''library'') ids))" for scores
    by (rule Cons.IH) (use Cons.prems in auto)
  show ?case by (simp add: GetNode_Some [OF assms(2) n] q IH n)
qed simp

lemma WeightedNACD_ok:
  assumes wf: "wf s" and srt: "sort_Slice_ok srt"
    and q: "\<And>i n. g_nodes (abs s) i = Some n \<Longrightarrow>
      QueryDependencies st s n = Inr (reach (g_nodes (abs s)) ChildrenDirection i)"
    and num: "\<not> (\<exists>n. is_NaN (criticality ops w n))"
  shows "\<exists>out. WeightedNACD srt ops st s w = Inr out \<and> distinct (map pv_Id out)
    \<and> set (map pv_Id out) = {i. \<exists>n. g_nodes (abs s) i = Some n \<and> n_Type n = ''library''}
    \<and> list_all (\<lambda>p. pv_Criticality p
         = criticality ops w (card (reach (g_nodes (abs s)) ChildrenDirection (pv_Id p)))) out
    \<and> sorted_wrt (\<lambda>a b. \<not> fl_less (pv_Criticality a) (pv_Criticality b)) out"
proof -
  obtain ids where ids: "st_GetAllKeys st s = Inr ids" "distinct ids" "set ids = dom (g_nodes (abs s))"
    using GetAllKeys [OF wf] by blast
  let ?libs = "filter (\<lambda>i. \<exists>n. g_nodes (abs s) i = Some n \<and> n_Type n = ''library'') ids"
  let ?scores = "map (\<lambda>i. score_of ops w i (reach (g_nodes (abs s)) ChildrenDirection i)) ?libs"
  note sorts = sort_SliceD [OF srt, where lt = riskier and xs = ?scores]
  have run: "WeightedNACD srt ops st s w = Inr (srt riskier ?scores)"
    using score_nodes_ok [OF q wf, of ids ops w "[]"] ids by (simp add: WeightedNACD_def)
  have "distinct (map pv_Id ?scores)" using ids(2) by (simp add: comp_def score_of_fields)
  moreover have "mset (map pv_Id (srt riskier ?scores)) = mset (map pv_Id ?scores)"
    using sorts(1) by (simp only: mset_map)
  ultimately have "distinct (map pv_Id (srt riskier ?scores))" using mset_eq_imp_distinct_iff by blast
  moreover have "set (map pv_Id (srt riskier ?scores))
      = {i. \<exists>n. g_nodes (abs s) i = Some n \<and> n_Type n = ''library''}"
    using ids(3) unfolding set_map sorts(2) by (auto simp: score_of_fields image_image)
  moreover have "list_all (\<lambda>p. pv_Criticality p
         = criticality ops w (card (reach (g_nodes (abs s)) ChildrenDirection (pv_Id p)))) (srt riskier ?scores)"
    unfolding list_all_iff sorts(2) by (auto simp: score_of_fields)
  moreover have "sorted_wrt (\<lambda>a b. \<not> fl_less (pv_Criticality a) (pv_Criticality b)) (srt riskier ?scores)"
  proof -
    have r: "riskier a b = fl_less (pv_Criticality b) (pv_Criticality a)" if "a \<in> set ?scores" "b \<in> set ?scores" for a b
      using that by (auto simp: riskier_def score_of_NaN)
    have "\<not> is_NaN (pv_Criticality a)" if "a \<in> set ?scores" for a
      using that num by (auto simp: score_of_fields)
    then have "weak_order_on (set ?scores) (\<lambda>a b. fl_less (pv_Criticality b) (pv_Criticality a))"
      by (rule weak_order_float)
    then have w: "weak_order_on (set ?scores) riskier" by (rule iffD2 [OF weak_order_cong, rotated]) (rule r)
    have "sorted_wrt (\<lambda>a b. \<not> riskier b a) (srt riskier ?scores)" by (rule sorts(3) [OF w])
    then show ?thesis by (rule sorted_wrt_mono_rel [rotated]) (use r sorts(2) in auto)
  qed
  ultimately show ?thesis using run by blast
qed

text \<open>While every node waits to be cached, and after \<open>Cache\<close>, the dependencies are those of the graph.\<close>

lemma fresh_or_cached:
  assumes wf: "wf s" and ok: "graph_ok (abs s)" and pend: "g_pending (abs s) = dom (g_nodes (abs s))"
    and ro: "range_ok ro" and sha: "no_collision sha (g_nodes (abs s))"
    and s': "s' = s \<or> Cache ro sha st s = Some (s', Inr ())"
  shows "wf s' \<and> g_nodes (abs s') = g_nodes (abs s) \<and> (\<forall>i n. g_nodes (abs s) i = Some n \<longrightarrow>
      QueryDependencies st s' n = Inr (reach (g_nodes (abs s)) ChildrenDirection i))"
proof (cases "s' = s")
  case True
  obtain ks where ks: "st_ToBeCached st s = Inr ks" "set ks = g_pending (abs s)" using ToBeCached [OF wf] by blast
  have "QueryDependencies st s n = Inr (reach (g_nodes (abs s)) ChildrenDirection i)"
    if n: "g_nodes (abs s) i = Some n" for i n
  proof -
    have "ks \<noteq> []" using ks(2) pend n by auto
    moreover have "QueryDependenciesNoCache (Some st) s (Some n) = Inr (reach (g_nodes (abs s)) ChildrenDirection i)"
      using walk_is_reach [OF wf ok GetNode_Some [OF wf n]] by blast
    ultimately show ?thesis by (simp add: QueryDependencies_def ks(1))
  qed
  with True wf show ?thesis by blast
next
  case False
  then have run: "Cache ro sha st s = Some (s', Inr ())" using s' by blast
  show ?thesis
  proof (cases "g_pending (abs s) = {}")
    case True
    then have "s' = s" using Cache_idle [OF wf True, of ro sha] run by simp
    with False show ?thesis by blast
  next
    case ne: False
    have sub: "g_pending (abs s) \<subseteq> dom (g_nodes (abs s))" using pend by simp
    from Cache_runs [OF wf ok ne sub ro sha] run have "wf s'" "g_nodes (abs s') = g_nodes (abs s)" by auto
    moreover have "QueryDependencies st s' n = Inr (reach (g_nodes (abs s)) ChildrenDirection i)"
      if "g_nodes (abs s) i = Some n" for i n
      using Cache_exact [OF wf ok pend ro sha that] run by auto
    ultimately show ?thesis by blast
  qed
qed

end

section \<open>Properties\<close>

text \<open>A toy instance: exact arithmetic and a step for the exponential.\<close>

definition sample_floats :: float_ops where
  "sample_floats = \<lparr>fo_round = float64.Fin, fo_exp = (\<lambda>x. if fl_less x (float64.Fin (- 1)) then float64.Fin 0 else float64.Fin 1)\<rparr>"

definition sample_weights :: weights where
  "sample_weights = \<lparr>we_Dependencies = Some \<lparr>wt_weight = float64.Fin 1, wt_k = float64.Fin 1, wt_l = float64.Fin 1\<rparr>, we_Scorecard = None,
     we_CriticalityWeight = float64.Fin 1, we_LikelihoodWeight = float64.Fin 0\<rparr>"

lemma sample_criticality: "\<not> (\<exists>n. is_NaN (criticality sample_floats sample_weights n))"
  by (simp add: criticality_def sample_weights_def sample_floats_def sigmoidBasedAlgo_def sigmoid_term_def weights_map_def
      weights_of_def dependencies_type_def)

text \<open>A graph in SQL with one library.\<close>

lemma lone_library:
  obtains s :: "(bitmap, bitmap node_aux + bitmap cache_aux) sqldb" and i
  where "build_run sql_storage (empty_sqldb (tree_codec rev) doc_like) (Suc 0) s"
    and "{i. \<exists>n. g_nodes (sql_abs s) i = Some n \<and> n_Type n = ''library''} = {i}"
proof -
  let ?db = "empty_sqldb (tree_codec rev) doc_like"
  note start = empty_sqldb_ok [OF tree_codec_ok [of rev]]
  have e: "g_names (sql_abs ?db) = Map.empty" "g_nodes (sql_abs ?db) = Map.empty" "g_next (sql_abs ?db) = 0"
    by (simp_all add: empty_sqldb_def kv_empty)
  have room: "Suc (g_next (sql_abs ?db)) < 4294967296" unfolding e(3) by simp
  obtain s and n where s: "AddNode sql_storage ?db ''library'' MNil ''pkg:a'' = (s, Inr n)" "graph_ok (sql_abs s)"
    "g_nodes (sql_abs s) (n_ID n) = Some (stored_node rev n)"
    "g_names (sql_abs s) = (g_names (sql_abs ?db))(''pkg:a'' \<mapsto> n_ID n)"
    "g_names (sql_abs ?db) ''pkg:a'' = None \<longrightarrow> n_Type n = ''library'' \<and> n_ID n \<notin> dom (g_nodes (sql_abs ?db))"
    using sq.AddNode_step [OF start room, where ty = "''library''" and meta = MNil and name = "''pkg:a''"]
    by - (elim exE conjE, rule that; assumption)
  have one: "i = n_ID n" if "g_nodes (sql_abs s) i = Some m" for i m
  proof -
    have "g_names (sql_abs s) (n_Name m) = Some i" using that s(2) unfolding graph_ok_def names_ok_def by blast
    then show ?thesis unfolding s(4) e(1) by (simp split: if_splits)
  qed
  have "n_Type (stored_node rev n) = ''library''" using s(5) e(1) by (simp add: stored_node_def)
  then have libs: "{i. \<exists>n. g_nodes (sql_abs s) i = Some n \<and> n_Type n = ''library''} = {n_ID n}"
    using s(3) one by blast
  have "build_run sql_storage ?db (Suc 0) s" by (rule build_run.add [OF build_run.start s(1)])
  with libs show thesis by (intro that)
qed

lemma sample_laws: "float_laws sample_floats" "dependency_weights sample_floats sample_weights"
proof -
  have "rounding_ok float64.Fin" by (simp add: rounding_ok_def)
  moreover have "fl_le (if fl_less x (float64.Fin (- 1)) then float64.Fin 0 else float64.Fin 1)
      (if fl_less y (float64.Fin (- 1)) then float64.Fin 0 else float64.Fin 1)" if "fl_le x y" for x y
    using that fl_less_trans unfolding fl_le_def by auto
  ultimately show "float_laws sample_floats" by (auto simp: float_laws_def sample_floats_def)
  show "dependency_weights sample_floats sample_weights"
    by (simp add: dependency_weights_def sample_weights_def sample_floats_def)
qed

lemma sample_criticalities:
  "criticality sample_floats sample_weights 1 \<noteq> criticality sample_floats sample_weights 2"
  by (simp add: criticality_def sample_weights_def sample_floats_def sigmoidBasedAlgo_def sigmoid_term_def weights_map_def
      weights_of_def dependencies_type_def)

text \<open>A graph in SQL with two libraries, of which the second depends on the first.\<close>

lemma two_libraries:
  obtains s :: "(bitmap, bitmap node_aux + bitmap cache_aux) sqldb" and a b
  where "build_run sql_storage (empty_sqldb (tree_codec rev) doc_like) 2 s" and "a \<noteq> b"
    and "{i. \<exists>n. g_nodes (sql_abs s) i = Some n \<and> n_Type n = ''library''} = {a, b}"
    and "edges (g_nodes (sql_abs s)) ChildrenDirection = {(b, a)}"
proof -
  let ?db = "empty_sqldb (tree_codec rev) doc_like :: (bitmap, bitmap node_aux + bitmap cache_aux) sqldb"
  note start = empty_sqldb_ok [OF tree_codec_ok [of rev]]
  have e: "g_names (sql_abs ?db) = Map.empty" "g_nodes (sql_abs ?db) = Map.empty" "g_next (sql_abs ?db) = 0"
    by (simp_all add: empty_sqldb_def kv_empty)
  have room: "Suc (g_next (sql_abs ?db)) < 4294967296" unfolding e(3) by simp
  obtain s1 :: "(bitmap, bitmap node_aux + bitmap cache_aux) sqldb" and x where
    s1: "AddNode sql_storage ?db ''library'' MNil ''pkg:a'' = (s1, Inr x)" "sql_wf rev s1" "graph_ok (sql_abs s1)"
    "g_nodes (sql_abs s1) (n_ID x) = Some (stored_node rev x)"
    "g_names (sql_abs s1) = (g_names (sql_abs ?db))(''pkg:a'' \<mapsto> n_ID x)"
    "edges (g_nodes (sql_abs s1)) ChildrenDirection = edges (g_nodes (sql_abs ?db)) ChildrenDirection"
    "g_next (sql_abs s1) = (if g_names (sql_abs ?db) ''pkg:a'' = None then Suc (g_next (sql_abs ?db)) else g_next (sql_abs ?db))"
    "g_names (sql_abs ?db) ''pkg:a'' = None \<longrightarrow> n_Type x = ''library'' \<and> n_ID x \<notin> dom (g_nodes (sql_abs ?db))"
    using sq.AddNode_step [OF start room, where ty = "''library''" and meta = MNil and name = "''pkg:a''"]
    by - (elim exE conjE, rule that; assumption)
  have none: "g_names (sql_abs s1) ''pkg:b'' = None" unfolding s1(5) e(1) by simp
  have room1: "Suc (g_next (sql_abs s1)) < 4294967296" unfolding s1(7) e by simp
  obtain s2 :: "(bitmap, bitmap node_aux + bitmap cache_aux) sqldb" and y where
    s2: "AddNode sql_storage s1 ''library'' MNil ''pkg:b'' = (s2, Inr y)" "sql_wf rev s2" "graph_ok (sql_abs s2)"
    "g_nodes (sql_abs s2) (n_ID y) = Some (stored_node rev y)"
    "g_names (sql_abs s2) = (g_names (sql_abs s1))(''pkg:b'' \<mapsto> n_ID y)"
    "g_nodes (sql_abs s1) \<subseteq>\<^sub>m g_nodes (sql_abs s2)"
    "edges (g_nodes (sql_abs s2)) ChildrenDirection = edges (g_nodes (sql_abs s1)) ChildrenDirection"
    "g_names (sql_abs s1) ''pkg:b'' = None \<longrightarrow> n_Type y = ''library'' \<and> n_ID y \<notin> dom (g_nodes (sql_abs s1))"
    using sq.AddNode_step [OF s1(2,3) room1, where ty = "''library''" and meta = MNil and name = "''pkg:b''"]
    by - (elim exE conjE, rule that; assumption)
  have ne: "n_ID y \<noteq> n_ID x" using s2(8) none s1(4) by (metis domI)
  have xy: "g_nodes (sql_abs s2) (n_ID x) = Some (stored_node rev x)"
    using s2(6) s1(4) unfolding map_le_def by (metis domI)
  have ids: "n_ID (stored_node rev x) = n_ID x" "n_ID (stored_node rev y) = n_ID y"
    "n_ID (stored_node rev y) \<noteq> n_ID (stored_node rev x)"
    "g_nodes (sql_abs s2) (n_ID (stored_node rev y)) = Some (stored_node rev (stored_node rev y))"
    "g_nodes (sql_abs s2) (n_ID (stored_node rev x)) = Some (stored_node rev (stored_node rev x))"
    unfolding sq.norm_simps sq.norm_stored [OF s2(2) s2(4)] sq.norm_stored [OF s2(2) xy]
    by (rule refl, rule refl, rule ne, rule s2(4), rule xy)
  obtain s3 x' y' where s3: "SetDependency (Some sql_storage) s2 (Some (stored_node rev y)) (Some (stored_node rev x)) = ((s3, Some y', Some x'), Inr ())"
    "sql_wf rev s3" "graph_ok (sql_abs s3)"
    "edges (g_nodes (sql_abs s3)) ChildrenDirection = insert (n_ID y, n_ID x) (edges (g_nodes (sql_abs s2)) ChildrenDirection)"
    "keeps_nodes (g_nodes (sql_abs s2)) (g_nodes (sql_abs s3))" "dom (g_nodes (sql_abs s3)) = dom (g_nodes (sql_abs s2))"
    "g_names (sql_abs s3) = g_names (sql_abs s2)"
    using sq.link_step [OF s2(2,3) ids(3) ids(4,5)] unfolding ids(1,2)
    by - (elim exE conjE, rule that; assumption)
  have "build_run sql_storage ?db (Suc (Suc 0)) s2"
    by (rule build_run.add [OF build_run.add [OF build_run.start s1(1)] s2(1)])
  then have "build_run sql_storage ?db (Suc (Suc 0)) s3"
    using sq.GetNode_Some [OF s2(2) s2(4)] sq.GetNode_Some [OF s2(2) xy] s3(1) by (rule build_run.link)
  then have run: "build_run sql_storage ?db 2 s3" by (simp add: numeral_2_eq_2)
  have two: "i = n_ID x \<or> i = n_ID y" if "g_nodes (sql_abs s3) i = Some m" for i m
  proof -
    have "g_names (sql_abs s3) (n_Name m) = Some i" using that s3(3) unfolding graph_ok_def names_ok_def by blast
    then show ?thesis unfolding s3(7) s2(5) s1(5) e(1) by (auto split: if_splits)
  qed
  have "n_Type x = ''library''" "n_Type y = ''library''" using s1(8) s2(8) none unfolding e(1) by blast+
  then have ty: "n_Type (stored_node rev x) = ''library''" "n_Type (stored_node rev y) = ''library''"
    by (simp_all only: sq.norm_simps)
  obtain mx where "g_nodes (sql_abs s3) (n_ID x) = Some mx" "same_node (stored_node rev x) mx"
    using s3(5) xy unfolding keeps_nodes_def by blast
  then have mx: "g_nodes (sql_abs s3) (n_ID x) = Some mx" "n_Type mx = ''library''"
    using ty(1) by (simp_all only: same_node_def)
  obtain my where "g_nodes (sql_abs s3) (n_ID y) = Some my" "same_node (stored_node rev y) my"
    using s3(5) s2(4) unfolding keeps_nodes_def by blast
  then have my: "g_nodes (sql_abs s3) (n_ID y) = Some my" "n_Type my = ''library''"
    using ty(2) by (simp_all only: same_node_def)
  have "{i. \<exists>n. g_nodes (sql_abs s3) i = Some n \<and> n_Type n = ''library''} = {n_ID x, n_ID y}"
    using two mx my by blast
  moreover have "edges (g_nodes (sql_abs s3)) ChildrenDirection = {(n_ID y, n_ID x)}"
    unfolding s3(4) s2(7) s1(6) e(2) by (simp add: edges_def)
  ultimately show thesis by (rule that [OF run ne [symmetric]])
qed

text \<open>
  C37. The likelihood is the sigmoid average of no values, which is an infinity times zero: whatever the
  storage and the weights, every likelihood and every risk that \<open>WeightedNACD\<close> returns is NaN, so the
  likelihood weight and the criticality weight have no effect on the ranking.
\<close>

theorem weighted_risk_NaN:
  assumes "WeightedNACD srt ops st s w = Inr out" and "\<And>lt xs. mset (srt lt xs) = mset xs"
  shows "list_all (\<lambda>p. is_NaN (pv_Likelihood p) \<and> is_NaN (pv_Risk p)) out"
proof -
  obtain ids scores where "score_nodes ops st s w ids [] = Inr scores" "out = srt riskier scores"
    using assms(1) by (auto simp: WeightedNACD_def bind_res_Inr_iff)
  moreover have "set (srt riskier scores) = set scores" by (metis assms(2) set_mset_mset)
  ultimately show ?thesis using score_nodes_NaN [of ops st s w ids "[]" scores] by (simp add: list_all_iff)
qed

theorem weighted_risk_NaN_witness:
  "\<exists>(s :: (bitmap, bitmap node_aux + bitmap cache_aux) sqldb) out.
     WeightedNACD stable_sort sample_floats sql_storage s sample_weights = Inr out
     \<and> out \<noteq> [] \<and> list_all (\<lambda>p. is_NaN (pv_Likelihood p) \<and> is_NaN (pv_Risk p)) out"
proof (rule lone_library)
  fix s :: "(bitmap, bitmap node_aux + bitmap cache_aux) sqldb" and i
  assume s: "build_run sql_storage (empty_sqldb (tree_codec rev) doc_like) (Suc 0) s"
    "{i. \<exists>n. g_nodes (sql_abs s) i = Some n \<and> n_Type n = ''library''} = {i}"
  have wf: "sql_wf rev s" "graph_ok (sql_abs s)" "g_pending (sql_abs s) = dom (g_nodes (sql_abs s))"
    using sq.build_run_ok [OF s(1) empty_sqldb_ok [OF tree_codec_ok]] by (simp_all add: empty_sqldb_def kv_empty)
  have q: "QueryDependencies sql_storage s n = Inr (reach (g_nodes (sql_abs s)) ChildrenDirection i)"
    if "g_nodes (sql_abs s) i = Some n" for i n
    using sq.fresh_or_cached [OF wf range_ok_in_order no_collision_id] that by blast
  from sq.WeightedNACD_ok [OF wf(1) stable_sort_Slice q sample_criticality] obtain out
    where out: "WeightedNACD stable_sort sample_floats sql_storage s sample_weights = Inr out" "set (map pv_Id out) = {i}"
    unfolding s(2) by blast
  then have "out \<noteq> []" by auto
  with out(1) weighted_risk_NaN [OF out(1)] show ?thesis by auto
qed

text \<open>
  C36. What the ranking is: on every graph built in SQL, before and after its nodes are cached,
  \<open>WeightedNACD\<close> returns one entry per library node and nothing else, its criticality is the sigmoid of
  the number of nodes that the library depends on (itself included), and no library comes after one with
  fewer dependencies, unless their criticalities are the same number. Rounding and the exponential are
  monotonic, the dependencies have a positive weight and slope, and the criticalities are numbers;
  \<open>sort.Slice\<close> may put libraries of one criticality in any order.
\<close>

theorem sql_WeightedNACD_ranks:
  assumes "build_run sql_storage (empty_sqldb cd doc_like) k s" and "codec_ok b64 cd" and "k < 4294967295"
    and "range_ok ro" and "no_collision sha (g_nodes (sql_abs s))"
    and "s' = s \<or> Cache ro sha sql_storage s = Some (s', Inr ())"
    and "sort_Slice_ok srt" and "float_laws ops" and "dependency_weights ops w"
    and "\<not> (\<exists>n. is_NaN (criticality ops w n))"
  shows "\<exists>out. WeightedNACD srt ops sql_storage s' w = Inr out
    \<and> distinct (map pv_Id out)
    \<and> set (map pv_Id out) = {i. \<exists>n. g_nodes (sql_abs s) i = Some n \<and> n_Type n = ''library''}
    \<and> list_all (\<lambda>p. pv_Criticality p
         = criticality ops w (card (reach (g_nodes (sql_abs s)) ChildrenDirection (pv_Id p)))) out
    \<and> sorted_wrt (\<lambda>a b. card (reach (g_nodes (sql_abs s)) ChildrenDirection (pv_Id b))
           \<le> card (reach (g_nodes (sql_abs s)) ChildrenDirection (pv_Id a))
         \<or> pv_Criticality a = pv_Criticality b) out"
proof -
  have wf: "sql_wf b64 s" and ok: "graph_ok (sql_abs s)" and pend: "g_pending (sql_abs s) = dom (g_nodes (sql_abs s))"
    using sq.build_run_ok [OF assms(1) empty_sqldb_ok [OF assms(2)]] assms(3)
    by (simp_all add: empty_sqldb_def kv_empty)
  have s': "sql_wf b64 s'" "g_nodes (sql_abs s') = g_nodes (sql_abs s)"
    "\<And>i n. g_nodes (sql_abs s) i = Some n \<Longrightarrow>
      QueryDependencies sql_storage s' n = Inr (reach (g_nodes (sql_abs s)) ChildrenDirection i)"
    using sq.fresh_or_cached [OF wf ok pend assms(4,5,6)] by blast+
  let ?count = "\<lambda>p. card (reach (g_nodes (sql_abs s)) ChildrenDirection (pv_Id p))"
  obtain out where out: "WeightedNACD srt ops sql_storage s' w = Inr out" "distinct (map pv_Id out)"
    "set (map pv_Id out) = {i. \<exists>n. g_nodes (sql_abs s) i = Some n \<and> n_Type n = ''library''}"
    "list_all (\<lambda>p. pv_Criticality p = criticality ops w (?count p)) out"
    "sorted_wrt (\<lambda>a b. \<not> fl_less (pv_Criticality a) (pv_Criticality b)) out"
    using sq.WeightedNACD_ok [OF s'(1) assms(7) _ assms(10)] s'(3) unfolding s'(2) by blast
  have "sorted_wrt (\<lambda>a b. ?count b \<le> ?count a \<or> pv_Criticality a = pv_Criticality b) out"
  proof (rule sorted_wrt_mono_rel [OF _ out(5)])
    fix a b assume ab: "a \<in> set out" "b \<in> set out" "\<not> fl_less (pv_Criticality a) (pv_Criticality b)"
    show "?count b \<le> ?count a \<or> pv_Criticality a = pv_Criticality b"
    proof (cases "?count b \<le> ?count a")
      case False
      then have "fl_le (pv_Criticality a) (pv_Criticality b)"
        using criticality_mono [OF assms(8-10), of "?count a" "?count b"] out(4) ab(1,2) by (simp add: list_all_iff)
      with ab(3) show ?thesis by (simp add: fl_le_def)
    qed simp
  qed
  with out show ?thesis by blast
qed

theorem sql_WeightedNACD_ranks_witness:
  "\<exists>(s :: (bitmap, bitmap node_aux + bitmap cache_aux) sqldb) s' out a b.
     edges (g_nodes (sql_abs s)) ChildrenDirection = {(b, a)} \<and> Cache in_order (\<lambda>t. t) sql_storage s = Some (s', Inr ())
     \<and> WeightedNACD stable_sort sample_floats sql_storage s' sample_weights = Inr out \<and> map pv_Id out = [b, a]"
proof (rule two_libraries)
  fix s :: "(bitmap, bitmap node_aux + bitmap cache_aux) sqldb" and a b
  assume s: "build_run sql_storage (empty_sqldb (tree_codec rev) doc_like) 2 s" "a \<noteq> b"
    "{i. \<exists>n. g_nodes (sql_abs s) i = Some n \<and> n_Type n = ''library''} = {a, b}"
    "edges (g_nodes (sql_abs s)) ChildrenDirection = {(b, a)}"
  have wf: "sql_wf rev s" "graph_ok (sql_abs s)" "g_pending (sql_abs s) = dom (g_nodes (sql_abs s))"
    using sq.build_run_ok [OF s(1) empty_sqldb_ok [OF tree_codec_ok]] by (simp_all add: empty_sqldb_def kv_empty)
  have "a \<in> g_pending (sql_abs s)" using s(3) unfolding wf(3) by blast
  then obtain s' where s': "Cache in_order (\<lambda>t. t) sql_storage s = Some (s', Inr ())"
    using sq.Cache_runs [OF wf(1,2) _ _ range_ok_in_order no_collision_id] wf(3) by blast
  let ?reach = "reach (g_nodes (sql_abs s)) ChildrenDirection"
  have "?reach a = {a}" "?reach b = {a, b}"
    using s(2) unfolding reach_def s(4) by (auto elim: rtranclE converse_rtranclE)
  then have c: "card (?reach a) = 1" "card (?reach b) = 2" using s(2) by simp_all
  obtain out where out: "WeightedNACD stable_sort sample_floats sql_storage s' sample_weights = Inr out"
    "distinct (map pv_Id out)" "set (map pv_Id out) = {a, b}"
    "list_all (\<lambda>p. pv_Criticality p = criticality sample_floats sample_weights (card (?reach (pv_Id p)))) out"
    "sorted_wrt (\<lambda>p q. card (?reach (pv_Id q)) \<le> card (?reach (pv_Id p)) \<or> pv_Criticality p = pv_Criticality q) out"
    using sql_WeightedNACD_ranks [OF s(1) tree_codec_ok _ range_ok_in_order no_collision_id disjI2 [OF s']
        stable_sort_Slice sample_laws sample_criticality] unfolding s(3) by auto
  have "length out = 2" using distinct_card [OF out(2)] out(3) s(2) by simp
  then obtain p q where pq: "out = [p, q]" by (auto simp: numeral_2_eq_2 length_Suc_conv)
  have "pv_Id p = b \<and> pv_Id q = a"
  proof (rule ccontr)
    assume "\<not> (pv_Id p = b \<and> pv_Id q = a)"
    then have "pv_Id p = a" "pv_Id q = b" using out(2,3) s(2) unfolding pq by auto
    then show False using out(4,5) c sample_criticalities unfolding pq by simp
  qed
  then have "map pv_Id out = [b, a]" unfolding pq by simp
  with s(4) s' out(1) show ?thesis by (intro exI conjI)
qed

end
