(* ===== verification/Query_Lang.thy ===== *)
theory Query_Lang
  imports Cache_Props
begin

text \<open>
  The query language, \<open>pkg/graph/parser.go\<close>: the expression trees, the collection of the packages they
  name, the evaluation over closures that were fetched before, and \<open>ParseAndExecute\<close>. The parser is
  built by a library from struct tags, so it is an argument of the model: a function from scripts to
  trees. A pointer that the code compares with nil is an \<open>option\<close>.
\<close>

section \<open>Expressions\<close>

record query =
  qy_QueryType :: string
  qy_NodeType :: string
  qy_NodeName :: "string option"

text \<open>Left, operator and right; a term is a query or a bracketed expression.\<close>

datatype expression = Expression "qterm option" "string option" "expression option"
and qterm = Term "query option" "expression option"

definition q_dependencies :: string where "q_dependencies = ''dependencies''"
definition q_dependents :: string where "q_dependents = ''dependents''"
definition op_or :: string where "op_or = ''or''"
definition op_and :: string where "op_and = ''and''"
definition op_xor :: string where "op_xor = ''xor''"

lemmas query_words = q_dependencies_def q_dependents_def op_or_def op_and_def op_xor_def

type_synonym purlData = "string \<times> string"

section \<open>Collecting packages\<close>

text \<open>The name of a query, or the default.\<close>

definition query_name :: "string \<Rightarrow> query \<Rightarrow> string" where
  "query_name defaultNodeName q =
     (case qy_NodeName q of Some nm \<Rightarrow> nm | None \<Rightarrow> defaultNodeName)"

text \<open>The two lists that the code extends through pointers are passed on and returned.\<close>

definition collect_query :: "string \<Rightarrow> query \<Rightarrow> purlData list \<times> purlData list \<Rightarrow> purlData list \<times> purlData list" where
  "collect_query defaultNodeName q acc =
     (if qy_QueryType q = q_dependencies then
        (fst acc @ [(query_name defaultNodeName q, qy_NodeType q)], snd acc)
      else if qy_QueryType q = q_dependents then
        (fst acc, snd acc @ [(query_name defaultNodeName q, qy_NodeType q)])
      else acc)"

fun collectPackagesFromExpression ::
    "string \<Rightarrow> expression \<Rightarrow> purlData list \<times> purlData list \<Rightarrow> purlData list \<times> purlData list"
  and collectPackagesFromTerm ::
    "string \<Rightarrow> qterm \<Rightarrow> purlData list \<times> purlData list \<Rightarrow> purlData list \<times> purlData list" where
  "collectPackagesFromExpression d (Expression l op r) acc =
     (let acc1 = (case l of None \<Rightarrow> acc | Some t \<Rightarrow> collectPackagesFromTerm d t acc)
      in (case r of None \<Rightarrow> acc1 | Some e \<Rightarrow> collectPackagesFromExpression d e acc1))"
| "collectPackagesFromTerm d (Term q e) acc =
     (let acc1 = (case q of None \<Rightarrow> acc | Some x \<Rightarrow> collect_query d x acc)
      in (case e of None \<Rightarrow> acc1 | Some x \<Rightarrow> collectPackagesFromExpression d x acc1))"

definition collectPackages :: "expression \<Rightarrow> string \<Rightarrow> purlData list \<times> purlData list" where
  "collectPackages e d = collectPackagesFromExpression d e ([], [])"

section \<open>Evaluation\<close>

text \<open>Every method of a nil bitmap, and every method given one, panics.\<close>

definition nil_panic :: "'a res" where
  "nil_panic = Inl (Panic ''nil pointer dereference'')"

definition bitmap_op :: "string \<Rightarrow> bitmap option \<Rightarrow> bitmap option \<Rightarrow> bitmap option res" where
  "bitmap_op op bm bm2 =
     (if op = op_or \<or> op = op_and \<or> op = op_xor then
        (case (bm, bm2) of
           (Some a, Some b) \<Rightarrow>
             Inr (Some (if op = op_or then a \<union> b
                        else if op = op_and then a \<inter> b
                        else (a - b) \<union> (b - a)))
         | _ \<Rightarrow> nil_panic)
      else Inl (Err ''unknown operator''))"

text \<open>The nodes of the wanted type among those of a closure.\<close>

definition of_type :: "(id \<rightharpoonup> node) \<Rightarrow> string \<Rightarrow> bitmap \<Rightarrow> bitmap" where
  "of_type nodes ty b = {i \<in> b. \<exists>n. nodes i = Some n \<and> n_Type n = ty}"

text \<open>A missing name reads as the identifier 0, and a missing bitmap is nil.\<close>

definition iterate_query ::
  "(id \<rightharpoonup> bitmap) \<Rightarrow> (id \<rightharpoonup> bitmap) \<Rightarrow> (string \<rightharpoonup> id) \<Rightarrow> (id \<rightharpoonup> node) \<Rightarrow> string \<Rightarrow> query \<Rightarrow> bitmap res" where
  "iterate_query deps dents names nodes d q =
     (let i = (case names (query_name d q) of None \<Rightarrow> 0 | Some i \<Rightarrow> i)
      in if qy_QueryType q = q_dependencies then
           (case deps i of None \<Rightarrow> nil_panic | Some b \<Rightarrow> Inr (of_type nodes (qy_NodeType q) b))
         else if qy_QueryType q = q_dependents then
           (case dents i of None \<Rightarrow> nil_panic | Some b \<Rightarrow> Inr (of_type nodes (qy_NodeType q) b))
         else Inl (Err ''unknown query''))"

text \<open>A bracketed expression is evaluated, and its value is dropped.\<close>

fun iterateExpression ::
    "(id \<rightharpoonup> bitmap) \<Rightarrow> (id \<rightharpoonup> bitmap) \<Rightarrow> (string \<rightharpoonup> id) \<Rightarrow> (id \<rightharpoonup> node) \<Rightarrow> string
      \<Rightarrow> expression \<Rightarrow> bitmap option res"
  and iterateTerm ::
    "(id \<rightharpoonup> bitmap) \<Rightarrow> (id \<rightharpoonup> bitmap) \<Rightarrow> (string \<rightharpoonup> id) \<Rightarrow> (id \<rightharpoonup> node) \<Rightarrow> string
      \<Rightarrow> qterm \<Rightarrow> bitmap option res" where
  "iterateExpression deps dents names nodes d (Expression l op r) =
     bind_res (case l of None \<Rightarrow> Inr None | Some t \<Rightarrow> iterateTerm deps dents names nodes d t) (\<lambda>bm.
       (case op of
          None \<Rightarrow> Inr bm
        | Some o1 \<Rightarrow>
            bind_res (case r of None \<Rightarrow> Inr None
                      | Some e \<Rightarrow> iterateExpression deps dents names nodes d e) (\<lambda>bm2.
              bitmap_op o1 bm bm2)))"
| "iterateTerm deps dents names nodes d (Term q e) =
     bind_res (case q of None \<Rightarrow> Inr {} | Some x \<Rightarrow> iterate_query deps dents names nodes d x) (\<lambda>bm.
       (case e of
          None \<Rightarrow> Inr (Some bm)
        | Some x \<Rightarrow> bind_res (iterateExpression deps dents names nodes d x) (\<lambda>_. Inr (Some bm))))"

section \<open>ParseAndExecute\<close>

fun name_index :: "(id \<times> node option) list \<Rightarrow> (string \<rightharpoonup> id) \<Rightarrow> (string \<rightharpoonup> id) res" where
  "name_index [] names = Inr names"
| "name_index ((i, n) # rest) names =
     (case n of
        None \<Rightarrow> Inl (Err ''node is nil is because the node was not found in the cache'')
      | Some m \<Rightarrow> name_index rest (names(n_Name m \<mapsto> n_ID m)))"

text \<open>\<open>nodes[id]\<close> of a missing identifier is nil, like a nil entry.\<close>

definition node_at :: "(id \<times> node option) list \<Rightarrow> id \<Rightarrow> node option" where
  "node_at nodes i = (case map_of nodes i of None \<Rightarrow> None | Some n \<Rightarrow> n)"

definition resolve ::
  "string \<Rightarrow> (string \<rightharpoonup> id) \<Rightarrow> (id \<times> node option) list \<Rightarrow> purlData list \<Rightarrow> node option list res" where
  "resolve msg names nodes ps =
     map_res (\<lambda>p. case names (fst p) of None \<Rightarrow> Inl (Err msg) | Some i \<Rightarrow> Inr (node_at nodes i)) ps"

definition ParseAndExecute ::
  "range_order \<Rightarrow> (string \<Rightarrow> expression res) \<Rightarrow> string \<Rightarrow> 's storage option \<Rightarrow> 's \<Rightarrow> string
    \<Rightarrow> (id \<times> node option) list \<Rightarrow> (id \<rightharpoonup> node_cache) \<Rightarrow> bool \<Rightarrow> bitmap res" where
  "ParseAndExecute ro parse script storage s defaultNodeName nodes caches isCached =
     bind_res (name_index (go_range ro 0 nodes) Map.empty) (\<lambda>nameToIDs.
     bind_res (ctx ''Failed to parse expression'' (parse script)) (\<lambda>e.
     let (dependenciesToQuery, dependentsToQuery) = collectPackages e defaultNodeName
     in bind_res (resolve ''dependency not found'' nameToIDs nodes dependenciesToQuery) (\<lambda>nodeDependencies.
     bind_res (resolve ''dependent not found'' nameToIDs nodes dependentsToQuery) (\<lambda>nodeDependents.
     bind_res (ctx ''failed to get dependencies from batch query''
       (BatchQueryDependencies storage s nodeDependencies caches isCached)) (\<lambda>dependenciesForID.
     bind_res (ctx ''failed to get dependents from batch query''
       (BatchQueryDependents storage s nodeDependents caches isCached)) (\<lambda>dependentsForID.
     bind_res (ctx ''failed to iterate expression''
       (iterateExpression dependenciesForID dependentsForID nameToIDs (node_at nodes) defaultNodeName e)) (\<lambda>bm.
     Inr (case bm of None \<Rightarrow> {} | Some b \<Rightarrow> b))))))))"

section \<open>What a script means\<close>

text \<open>
  The reference: operators are set operations and associate to the right. \<open>flat_with P\<close> says that an
  expression has no brackets, that every operator has its operands, and that \<open>P\<close> holds of the queries.
\<close>

definition set_op :: "string \<Rightarrow> bitmap \<Rightarrow> bitmap \<Rightarrow> bitmap" where
  "set_op op a b = (if op = op_or then a \<union> b else if op = op_and then a \<inter> b else (a - b) \<union> (b - a))"

fun denote :: "(query \<Rightarrow> bitmap) \<Rightarrow> expression \<Rightarrow> bitmap" where
  "denote sem (Expression (Some (Term (Some q) None)) (Some op) (Some r)) = set_op op (sem q) (denote sem r)"
| "denote sem (Expression (Some (Term (Some q) None)) None None) = sem q"
| "denote sem e = {}"

fun flat_with :: "(query \<Rightarrow> bool) \<Rightarrow> expression \<Rightarrow> bool" where
  "flat_with P (Expression (Some (Term (Some q) None)) (Some op) (Some r)) =
     (P q \<and> op \<in> {op_or, op_and, op_xor} \<and> flat_with P r)"
| "flat_with P (Expression (Some (Term (Some q) None)) None None) = P q"
| "flat_with P e = False"

fun queries :: "expression \<Rightarrow> query list" where
  "queries (Expression (Some (Term (Some q) None)) (Some op) (Some r)) = q # queries r"
| "queries (Expression (Some (Term (Some q) None)) None None) = [q]"
| "queries e = []"

definition query_dir :: "query \<Rightarrow> direction" where
  "query_dir q = (if qy_QueryType q = q_dependencies then ChildrenDirection else ParentsDirection)"

definition query_meaning :: "gstate \<Rightarrow> string \<Rightarrow> query \<Rightarrow> bitmap" where
  "query_meaning g d q =
     of_type (g_nodes g) (qy_NodeType q) (reach (g_nodes g) (query_dir q) (the (g_names g (query_name d q))))"

definition query_known :: "gstate \<Rightarrow> string \<Rightarrow> query \<Rightarrow> bool" where
  "query_known g d q \<longleftrightarrow> qy_QueryType q \<in> {q_dependencies, q_dependents}
     \<and> g_names g (query_name d q) \<noteq> None"

lemma flat_with_queries: "flat_with P e \<longleftrightarrow> flat_with (\<lambda>_. True) e \<and> (\<forall>q \<in> set (queries e). P q)"
  by (induction P e rule: flat_with.induct) auto

lemma flat_withI: "flat_with (\<lambda>_. True) e \<Longrightarrow> (\<forall>q \<in> set (queries e). P q) \<Longrightarrow> flat_with P e"
  using flat_with_queries [of P e] by blast

lemma flat_withD: "flat_with P e \<Longrightarrow> flat_with (\<lambda>_. True) e \<and> (\<forall>q \<in> set (queries e). P q)"
  using flat_with_queries [of P e] by blast

lemma bitmap_op_set_op:
  "op \<in> {op_or, op_and, op_xor} \<Longrightarrow> bitmap_op op (Some a) (Some b) = Inr (Some (set_op op a b))"
  by (auto simp: bitmap_op_def set_op_def)

lemma iterate_flat:
  "flat_with (\<lambda>q. iterate_query deps dents names nodes d q = Inr (sem q)) e \<Longrightarrow>
     iterateExpression deps dents names nodes d e = Inr (Some (denote sem e))"
  by (induction "\<lambda>q. iterate_query deps dents names nodes d q = Inr (sem q)" e rule: flat_with.induct)
     (auto simp: bitmap_op_set_op)

text \<open>The packages collected from a flat expression.\<close>

definition wanted :: "string \<Rightarrow> string \<Rightarrow> query list \<Rightarrow> purlData list" where
  "wanted word d qs = map (\<lambda>q. (query_name d q, qy_NodeType q)) (filter (\<lambda>q. qy_QueryType q = word) qs)"

lemma wanted_Cons: "wanted word d (q # qs) =
    (if qy_QueryType q = word then [(query_name d q, qy_NodeType q)] else []) @ wanted word d qs"
  by (simp add: wanted_def)

lemma collect_flat:
  "flat_with P e \<Longrightarrow> collectPackagesFromExpression d e acc =
     (fst acc @ wanted q_dependencies d (queries e), snd acc @ wanted q_dependents d (queries e))"
proof (induction P e arbitrary: acc rule: flat_with.induct)
  case (1 P q op r)
  then show ?case by (simp add: collect_query_def wanted_Cons query_words)
next
  case (2 P q)
  then show ?case by (simp add: collect_query_def wanted_Cons wanted_def query_words)
qed auto

text \<open>The index of names, when every node is there.\<close>

lemma name_index_ok:
  assumes "\<forall>p \<in> set xs. \<exists>n. snd p = Some n \<and> g (n_Name n) = Some (n_ID n)"
  shows "name_index xs m = Inr (\<lambda>x. if \<exists>p \<in> set xs. \<exists>n. snd p = Some n \<and> n_Name n = x then g x else m x)"
  using assms
proof (induction xs arbitrary: m)
  case (Cons p xs)
  then obtain n where n: "snd p = Some n" "g (n_Name n) = Some (n_ID n)" by auto
  have "name_index xs (m(n_Name n \<mapsto> n_ID n)) = Inr (\<lambda>x. if \<exists>p \<in> set xs. \<exists>n. snd p = Some n \<and> n_Name n = x
      then g x else (m(n_Name n \<mapsto> n_ID n)) x)"
    using Cons by simp
  then show ?case using n by (cases p) (auto simp: fun_eq_iff)
qed simp

section \<open>Scripts on a storage\<close>

text \<open>What the cached closures must be for the fast path to agree with the walk.\<close>

definition caches_exact :: "gstate \<Rightarrow> (id \<rightharpoonup> node_cache) \<Rightarrow> bool" where
  "caches_exact g caches \<longleftrightarrow> (\<forall>i \<in> dom (g_nodes g).
     \<exists>c. caches i = Some c \<and> c_AllChildren c = reach (g_nodes g) ChildrenDirection i
       \<and> c_AllParents c = reach (g_nodes g) ParentsDirection i)"

lemma caches_exactD:
  "caches_exact g caches \<Longrightarrow> g_nodes g i = Some n \<Longrightarrow>
     \<exists>c. caches i = Some c \<and> c_AllChildren c = reach (g_nodes g) ChildrenDirection i
       \<and> c_AllParents c = reach (g_nodes g) ParentsDirection i"
  unfolding caches_exact_def by blast

lemma resolve_ok:
  assumes "\<forall>p \<in> set ps. names (fst p) \<noteq> None"
  shows "resolve msg names nodes ps = Inr (map (\<lambda>p. node_at nodes (the (names (fst p)))) ps)"
  unfolding resolve_def by (rule map_res_Inr) (use assms in auto)

lemma iterate_query_ok:
  assumes "qy_QueryType q \<in> {q_dependencies, q_dependents}" and "names (query_name d q) = Some i"
    and "qy_QueryType q = q_dependencies \<Longrightarrow> deps i = Some b"
    and "qy_QueryType q = q_dependents \<Longrightarrow> dents i = Some b"
  shows "iterate_query deps dents names nodes d q = Inr (of_type nodes (qy_NodeType q) b)"
  using assms by (auto simp: iterate_query_def query_words)

context graph_store
begin

lemma walk_stored:
  assumes "wf s" and "graph_ok (abs s)" and "g_nodes (abs s) i = Some n"
  shows "QueryDependenciesNoCache (Some st) s (Some n) = Inr (reach (g_nodes (abs s)) ChildrenDirection i)"
    and "QueryDependentsNoCache (Some st) s (Some n) = Inr (reach (g_nodes (abs s)) ParentsDirection i)"
    and "n_ID n = i"
  using walk_is_reach [OF assms(1,2)] stored_nodes [OF assms] by blast+

lemma batch_dependencies:
  assumes wf: "wf s" and ok: "graph_ok (abs s)" and caches: "isCached \<longrightarrow> caches_exact (abs s) caches"
    and ns: "\<forall>x \<in> set ns. \<exists>i. x = g_nodes (abs s) i \<and> i \<in> dom (g_nodes (abs s))"
  shows "BatchQueryDependencies_loop (Some st) s caches isCached ns result =
    Inr (\<lambda>j. if j \<in> dom (g_nodes (abs s)) \<and> g_nodes (abs s) j \<in> set ns
             then Some (reach (g_nodes (abs s)) ChildrenDirection j) else result j)"
  using ns
proof (induction ns arbitrary: result)
  case (Cons x ns)
  then obtain i n where n: "x = Some n" "g_nodes (abs s) i = Some n" by auto
  note w = walk_stored [OF wf ok n(2)]
  have same: "g_nodes (abs s) j = Some n \<longleftrightarrow> j = i" for j
    using walk_stored(3) [OF wf ok, of j n] w(3) n(2) by auto
  have IH: "BatchQueryDependencies_loop (Some st) s caches isCached ns r =
    Inr (\<lambda>j. if j \<in> dom (g_nodes (abs s)) \<and> g_nodes (abs s) j \<in> set ns
             then Some (reach (g_nodes (abs s)) ChildrenDirection j) else r j)" for r
    using Cons by simp
  have step: "BatchQueryDependencies_loop (Some st) s caches isCached (x # ns) result
      = BatchQueryDependencies_loop (Some st) s caches isCached ns
          (result(i \<mapsto> reach (g_nodes (abs s)) ChildrenDirection i))"
    using caches n w by (cases isCached) (auto dest!: caches_exactD [OF _ n(2)])
  show ?case unfolding step IH using n same by (auto simp: fun_eq_iff)
qed simp

lemma batch_dependents:
  assumes wf: "wf s" and ok: "graph_ok (abs s)" and caches: "isCached \<longrightarrow> caches_exact (abs s) caches"
    and ns: "\<forall>x \<in> set ns. \<exists>i. x = g_nodes (abs s) i \<and> i \<in> dom (g_nodes (abs s))"
  shows "BatchQueryDependents_loop (Some st) s caches isCached ns result =
    Inr (\<lambda>j. if j \<in> dom (g_nodes (abs s)) \<and> g_nodes (abs s) j \<in> set ns
             then Some (reach (g_nodes (abs s)) ParentsDirection j) else result j)"
  using ns
proof (induction ns arbitrary: result)
  case (Cons x ns)
  then obtain i n where n: "x = Some n" "g_nodes (abs s) i = Some n" by auto
  note w = walk_stored [OF wf ok n(2)]
  have same: "g_nodes (abs s) j = Some n \<longleftrightarrow> j = i" for j
    using walk_stored(3) [OF wf ok, of j n] w(3) n(2) by auto
  have IH: "BatchQueryDependents_loop (Some st) s caches isCached ns r =
    Inr (\<lambda>j. if j \<in> dom (g_nodes (abs s)) \<and> g_nodes (abs s) j \<in> set ns
             then Some (reach (g_nodes (abs s)) ParentsDirection j) else r j)" for r
    using Cons by simp
  have step: "BatchQueryDependents_loop (Some st) s caches isCached (x # ns) result
      = BatchQueryDependents_loop (Some st) s caches isCached ns
          (result(i \<mapsto> reach (g_nodes (abs s)) ParentsDirection i))"
    using caches n w by (cases isCached) (auto dest!: caches_exactD [OF _ n(2)])
  show ?case unfolding step IH using n same by (auto simp: fun_eq_iff)
qed simp

lemma all_nodes_read:
  assumes wf: "wf s" and ok: "graph_ok (abs s)" and ro: "range_ok ro"
    and ks: "st_GetAllKeys st s = Inr ks" and al: "st_GetNodes st s ks = Inr al"
  shows "name_index (go_range ro k (map (\<lambda>(i, n). (i, Some n)) al)) Map.empty = Inr (g_names (abs s))"
    and "node_at (map (\<lambda>(i, n). (i, Some n)) al) = g_nodes (abs s)"
proof -
  let ?xs = "map (\<lambda>(i, n). (i, Some n)) al"
  have "set ks = dom (g_nodes (abs s))" using GetAllKeys [OF wf] ks by auto
  moreover have "distinct (keys_of al)" "map_of al = g_nodes (abs s) |` set ks"
    using GetNodes [OF wf, of ks] al by auto
  ultimately have m: "distinct (keys_of al)" "map_of al = g_nodes (abs s)"
    by (auto simp: fun_eq_iff restrict_map_def domIff)
  have mem: "(i, n) \<in> set al \<longleftrightarrow> g_nodes (abs s) i = Some n" for i n
    using m map_of_eq_Some_iff [of al i n] by simp
  have set_xs: "set (go_range ro k ?xs) = (\<lambda>(i, n). (i, Some n)) ` set al" using ro by simp
  have names: "names_ok (abs s)" using ok by (simp add: graph_ok_def)
  have "\<forall>p \<in> set (go_range ro k ?xs). \<exists>n. snd p = Some n \<and> g_names (abs s) (n_Name n) = Some (n_ID n)"
    unfolding set_xs using names mem unfolding names_ok_def by fastforce
  note idx = name_index_ok [OF this, of Map.empty]
  have "(\<exists>p \<in> set (go_range ro k ?xs). \<exists>n. snd p = Some n \<and> n_Name n = x) \<longleftrightarrow> g_names (abs s) x \<noteq> None" for x
  proof
    show "g_names (abs s) x \<noteq> None"
      if "\<exists>p \<in> set (go_range ro k ?xs). \<exists>n. snd p = Some n \<and> n_Name n = x"
      using that names mem unfolding set_xs names_ok_def by fastforce
    assume "g_names (abs s) x \<noteq> None"
    then obtain i n where "g_nodes (abs s) i = Some n" "n_Name n = x"
      using names unfolding names_ok_def by blast
    then show "\<exists>p \<in> set (go_range ro k ?xs). \<exists>n. snd p = Some n \<and> n_Name n = x"
      unfolding set_xs using mem by (intro bexI [of _ "(i, Some n)"]) force+
  qed
  then show "name_index (go_range ro k ?xs) Map.empty = Inr (g_names (abs s))"
    unfolding idx by (simp add: fun_eq_iff)
  have "map_of ?xs i = map_option Some (map_of al i)" for i by (induction al) auto
  then show "node_at ?xs = g_nodes (abs s)"
    unfolding m(2) by (auto simp: node_at_def fun_eq_iff split: option.splits)
qed

lemma ParseAndExecute_ok:
  assumes wf: "wf s" and ok: "graph_ok (abs s)" and ro: "range_ok ro"
    and ks: "st_GetAllKeys st s = Inr ks" and al: "st_GetNodes st s ks = Inr al"
    and caches: "isCached \<longrightarrow> caches_exact (abs s) caches"
    and parse: "parse script = Inr e" and known: "flat_with (query_known (abs s) d) e"
  shows "ParseAndExecute ro parse script (Some st) s d (map (\<lambda>(i, n). (i, Some n)) al) caches isCached
    = Inr (denote (query_meaning (abs s) d) e)"
proof -
  let ?N = "g_nodes (abs s)" and ?names = "g_names (abs s)" and ?xs = "map (\<lambda>(i, n). (i, Some n)) al"
  note read = all_nodes_read [OF wf ok ro ks al]
  have flat: "flat_with (\<lambda>_. True) e" and qs: "\<forall>q \<in> set (queries e). query_known (abs s) d q"
    using flat_withD [OF known] by blast+
  have node: "i \<in> dom ?N" if "?names x = Some i" for x i
    using that ok unfolding graph_ok_def names_ok_def by blast
  let ?at = "\<lambda>p. ?N (the (?names (fst p)))"
  let ?deps = "wanted q_dependencies d (queries e)" and ?dents = "wanted q_dependents d (queries e)"
  have named: "\<forall>p \<in> set (wanted w d (queries e)). ?names (fst p) \<noteq> None" for w
    using qs by (auto simp: wanted_def query_known_def)
  have stored: "\<forall>x \<in> set (map ?at (wanted w d (queries e))). \<exists>i. x = ?N i \<and> i \<in> dom ?N" for w
    using named [of w] node by fastforce
  define D where "D dir w = (\<lambda>j. if j \<in> dom ?N \<and> ?N j \<in> set (map ?at (wanted w d (queries e)))
      then Some (reach ?N dir j) else Map.empty j)" for dir w
  have deps: "BatchQueryDependencies (Some st) s (map ?at ?deps) caches isCached
      = Inr (D ChildrenDirection q_dependencies)"
    unfolding BatchQueryDependencies_def D_def by (rule batch_dependencies [OF wf ok caches stored])
  have dents: "BatchQueryDependents (Some st) s (map ?at ?dents) caches isCached
      = Inr (D ParentsDirection q_dependents)"
    unfolding BatchQueryDependents_def D_def by (rule batch_dependents [OF wf ok caches stored])
  have "iterate_query (D ChildrenDirection q_dependencies) (D ParentsDirection q_dependents) ?names ?N d q
      = Inr (query_meaning (abs s) d q)" if q: "q \<in> set (queries e)" for q
  proof -
    from qs q obtain i where i: "qy_QueryType q \<in> {q_dependencies, q_dependents}"
      "?names (query_name d q) = Some i" unfolding query_known_def by blast
    have mem: "?N i \<in> set (map ?at (wanted (qy_QueryType q) d (queries e)))"
      using q i(2) by (auto simp: wanted_def intro!: image_eqI [of _ _ q])
    then have val: "D dir (qy_QueryType q) i = Some (reach ?N dir i)" for dir
      using node [OF i(2)] by (simp only: D_def if_True simp_thms)
    have "iterate_query (D ChildrenDirection q_dependencies) (D ParentsDirection q_dependents) ?names ?N d q
        = Inr (of_type ?N (qy_NodeType q) (reach ?N (query_dir q) i))"
      by (rule iterate_query_ok, rule i(1), rule i(2))
         (use val in \<open>simp_all add: query_dir_def query_words\<close>)
    then show ?thesis using i(2) by (simp add: query_meaning_def)
  qed
  then have "flat_with (\<lambda>q. iterate_query (D ChildrenDirection q_dependencies) (D ParentsDirection q_dependents)
      ?names ?N d q = Inr (query_meaning (abs s) d q)) e"
    by (intro flat_withI [OF flat] ballI) blast
  then have run: "iterateExpression (D ChildrenDirection q_dependencies) (D ParentsDirection q_dependents)
      ?names ?N d e = Inr (Some (denote (query_meaning (abs s) d) e))"
    by (rule iterate_flat)
  have resolved: "resolve m ?names ?xs (wanted w d (queries e)) = Inr (map ?at (wanted w d (queries e)))" for m w
    using resolve_ok [OF named] read(2) by simp
  have collected: "collectPackages e d = (?deps, ?dents)"
    using collect_flat [OF flat, of d "([], [])"] by (simp add: collectPackages_def)
  show ?thesis
    unfolding ParseAndExecute_def read parse
    by (simp only: collected bind_res_simps ctx_simps prod.case Let_def resolved deps dents run option.case)
qed

end

section \<open>Properties\<close>

text \<open>
  C11. A script without brackets means what it says: over all nodes of a consistent graph in memory,
  \<open>ParseAndExecute\<close> returns the set operations, associated to the right, of the closures along the
  edges, restricted to the wanted types; and it returns the same from the caches as from the walk.
\<close>

theorem mock_ParseAndExecute_meaning:
  assumes "mock_wf s" and "graph_ok (mock_abs s)" and "range_ok ro"
    and "st_GetAllKeys mock_storage s = Inr ks" and "st_GetNodes mock_storage s ks = Inr al"
    and "isCached \<longrightarrow> caches_exact (mock_abs s) caches"
    and "parse script = Inr e" and "flat_with (query_known (mock_abs s) d) e"
  shows "ParseAndExecute ro parse script (Some mock_storage) s d (map (\<lambda>(i, n). (i, Some n)) al) caches isCached
    = Inr (denote (query_meaning (mock_abs s) d) e)"
  by (rule ms.ParseAndExecute_ok [where parse = parse and script = script, OF assms])

lemma of_type_small: "b \<subseteq> {1, 2, 3} \<Longrightarrow> of_type small_nodes ''library'' b = b"
  by (auto simp: of_type_def small_nodes_def)

text \<open>The script \<open>dependencies library a xor dependents library\<close>, with default name \<open>a\<close>.\<close>

definition sample_parse :: "string \<Rightarrow> expression res" where
  "sample_parse script = Inr (Expression
     (Some (Term (Some \<lparr>qy_QueryType = q_dependencies, qy_NodeType = ''library'', qy_NodeName = Some ''a''\<rparr>) None))
     (Some op_xor)
     (Some (Expression
       (Some (Term (Some \<lparr>qy_QueryType = q_dependents, qy_NodeType = ''library'', qy_NodeName = None\<rparr>) None))
       None None)))"

theorem mock_ParseAndExecute_meaning_witness:
  "\<exists>al. ParseAndExecute in_order sample_parse ''s'' (Some mock_storage) (small_mock []) ''a''
    (map (\<lambda>(i, n). (i, Some n)) al) Map.empty False = Inr {2}"
proof -
  let ?s = "small_mock []"
  note s = small_mock_wf [of "[]"] small_mock_ok [of "[]"]
  obtain ks where ks: "st_GetAllKeys mock_storage ?s = Inr ks" using ms.GetAllKeys [OF s(1)] by blast
  obtain al where al: "st_GetNodes mock_storage ?s ks = Inr al" using ms.GetNodes [OF s(1)] by blast
  obtain e where e: "sample_parse ''s'' = Inr e" by (simp add: sample_parse_def)
  have names: "m_nameToID ?s ''a'' = Some 1" by (simp add: small_mock_def)
  have known: "flat_with (query_known (mock_abs ?s) ''a'') e"
    using e names by (auto simp: sample_parse_def query_known_def query_name_def)
  have "denote (query_meaning (mock_abs ?s) ''a'') e = {2}"
    using e names by (auto simp: sample_parse_def query_meaning_def query_name_def query_dir_def query_words
        set_op_def small_reach of_type_small)
  then show ?thesis
    using mock_ParseAndExecute_meaning [where parse = sample_parse and script = "''s''" and caches = Map.empty
        and isCached = False, OF s range_ok_in_order ks al _ e known] by auto
qed

text \<open>
  C32. Brackets drop their contents: when a script evaluates, the same expression in brackets evaluates to
  the empty set, whatever the storage holds.
\<close>

theorem brackets_dropped:
  assumes "parse script = Inr e" and "parse bracketed = Inr (Expression (Some (Term None (Some e))) None None)"
    and "ParseAndExecute ro parse script storage s d nodes caches isCached = Inr b"
  shows "ParseAndExecute ro parse bracketed storage s d nodes caches isCached = Inr {}"
proof -
  have "collectPackages (Expression (Some (Term None (Some e))) None None) d = collectPackages e d"
    by (simp add: collectPackages_def)
  moreover obtain x1 x2 where "collectPackages e d = (x1, x2)" by fastforce
  ultimately show ?thesis
    using assms by (auto simp: ParseAndExecute_def bind_res_Inr_iff)
qed

theorem brackets_dropped_witness:
  "\<exists>al parse. ParseAndExecute in_order parse ''s'' (Some mock_storage) (small_mock []) ''a''
      (map (\<lambda>(i, n). (i, Some n)) al) Map.empty False = Inr {2}
    \<and> ParseAndExecute in_order parse ''(s)'' (Some mock_storage) (small_mock []) ''a''
      (map (\<lambda>(i, n). (i, Some n)) al) Map.empty False = Inr {}"
proof -
  let ?s = "small_mock []"
  note s = small_mock_wf [of "[]"] small_mock_ok [of "[]"]
  obtain ks where ks: "st_GetAllKeys mock_storage ?s = Inr ks" using ms.GetAllKeys [OF s(1)] by blast
  obtain al where al: "st_GetNodes mock_storage ?s ks = Inr al" using ms.GetNodes [OF s(1)] by blast
  obtain e where e: "sample_parse ''s'' = Inr e" by (simp add: sample_parse_def)
  let ?p = "\<lambda>t. if t = ''s'' then Inr e else Inr (Expression (Some (Term None (Some e))) None None)"
  have names: "m_nameToID ?s ''a'' = Some 1" by (simp add: small_mock_def)
  have known: "flat_with (query_known (mock_abs ?s) ''a'') e"
    using e names by (auto simp: sample_parse_def query_known_def query_name_def)
  have "denote (query_meaning (mock_abs ?s) ''a'') e = {2}"
    using e names by (auto simp: sample_parse_def query_meaning_def query_name_def query_dir_def query_words
        set_op_def small_reach of_type_small)
  then have run: "ParseAndExecute in_order ?p ''s'' (Some mock_storage) ?s ''a''
      (map (\<lambda>(i, n). (i, Some n)) al) Map.empty False = Inr {2}"
    using ms.ParseAndExecute_ok [OF s range_ok_in_order ks al _ _ known, of False Map.empty ?p "''s''"] by simp
  have "ParseAndExecute in_order ?p ''(s)'' (Some mock_storage) ?s ''a''
      (map (\<lambda>(i, n). (i, Some n)) al) Map.empty False = Inr {}"
    by (rule brackets_dropped [OF _ _ run, of e]) simp_all
  with run show ?thesis by blast
qed

end
