(* ===== verification/Sbom.thy ===== *)
theory Sbom
  imports Ingest_Growth Purl
begin

text \<open>
  SBOM ingestion, \<open>pkg/tools/ingest/sbom.go\<close>: the nodes of a document are added by name, and its
  relationships become dependency edges, in the direction that each kind of relationship means. The
  reader of SBOM files (protobom) is an argument of the model.
\<close>

section \<open>Documents\<close>

text \<open>The relationship kinds that the source names; the other ones carry their number.\<close>

datatype edge_type =
    Edge_contains | Edge_dependsOn | Edge_prerequisite | Edge_staticLink | Edge_dynamicLink
  | Edge_contained_by | Edge_dependencyOf | Edge_prerequisiteFor | Edge_buildDependency
  | Edge_devDependency | Edge_runtimeDependency | Edge_testDependency | Edge_optionalDependency
  | Edge_optionalComponent | Edge_providedDependency | Edge_other int

datatype edgeDirection = notADependency | fromDependsOnTo | toDependsOnFrom

text \<open>A node with what its accessors return; \<open>sn_Value\<close> is the node as it is stored as metadata.\<close>

record sbom_node =
  sn_Id :: string
  sn_Purl :: string
  sn_Name :: string
  sn_Version :: string
  sn_Value :: metadata

record sbom_edge =
  se_Type :: edge_type
  se_From :: string
  se_To :: "string list"

record node_list =
  nl_Nodes :: "sbom_node list"
  nl_Edges :: "sbom_edge list"

fun dependencyDirection :: "edge_type \<Rightarrow> edgeDirection" where
  "dependencyDirection Edge_contains = fromDependsOnTo"
| "dependencyDirection Edge_dependsOn = fromDependsOnTo"
| "dependencyDirection Edge_prerequisite = fromDependsOnTo"
| "dependencyDirection Edge_staticLink = fromDependsOnTo"
| "dependencyDirection Edge_dynamicLink = fromDependsOnTo"
| "dependencyDirection Edge_contained_by = toDependsOnFrom"
| "dependencyDirection Edge_dependencyOf = toDependsOnFrom"
| "dependencyDirection Edge_prerequisiteFor = toDependsOnFrom"
| "dependencyDirection Edge_buildDependency = toDependsOnFrom"
| "dependencyDirection Edge_devDependency = toDependsOnFrom"
| "dependencyDirection Edge_runtimeDependency = toDependsOnFrom"
| "dependencyDirection Edge_testDependency = toDependsOnFrom"
| "dependencyDirection Edge_optionalDependency = toDependsOnFrom"
| "dependencyDirection Edge_optionalComponent = toDependsOnFrom"
| "dependencyDirection Edge_providedDependency = toDependsOnFrom"
| "dependencyDirection (Edge_other t) = notADependency"

section \<open>Ingestion\<close>

definition sbom_purl :: "sbom_node \<Rightarrow> string" where
  "sbom_purl n =
     (if sn_Purl n = '''' then ''pkg:'' @ sn_Name n @ ''@'' @ sn_Version n else sn_Purl n)"

text \<open>
  The loop over the nodes. An error that wraps \<open>ErrNodeAlreadyExists\<close> is passed over, and the node
  that comes with an error is nil.
\<close>

fun add_sbom_nodes ::
  "'s storage \<Rightarrow> 's \<Rightarrow> (string \<rightharpoonup> id) \<Rightarrow> sbom_node list \<Rightarrow> 's \<times> (string \<rightharpoonup> id) res" where
  "add_sbom_nodes st s nameToId [] = (s, Inr nameToId)"
| "add_sbom_nodes st s nameToId (n # ns) =
     (case AddNode st s ''library'' (sn_Value n) (sbom_purl n) of
        (s1, Inr graphNode) \<Rightarrow> add_sbom_nodes st s1 (nameToId(sn_Id n \<mapsto> n_ID graphNode)) ns
      | (s1, Inl e) \<Rightarrow>
          if errors_is e ErrNodeAlreadyExists then (s1, Inl (Panic ''nil pointer dereference''))
          else (s1, Inl (wrap ''failed to add node'' e)))"

text \<open>One edge of the graph: both nodes are read, then linked.\<close>

definition link_ids :: "'s storage \<Rightarrow> 's \<Rightarrow> id \<Rightarrow> id \<Rightarrow> 's \<times> unit res" where
  "link_ids st s dependentID dependencyID =
     bind_st (ctx_st ''failed to get node'' (s, st_GetNode st s dependentID)) (\<lambda>s1 dependent.
     bind_st (ctx_st ''failed to get node'' (s1, st_GetNode st s1 dependencyID)) (\<lambda>s2 dependency.
       let r = SetDependency (Some st) s2 (Some dependent) (Some dependency)
       in ctx_st ''failed to add edge'' (fst (fst r), snd r)))"

fun link_targets ::
  "'s storage \<Rightarrow> (string \<rightharpoonup> id) \<Rightarrow> edgeDirection \<Rightarrow> id \<Rightarrow> 's \<Rightarrow> string list \<Rightarrow> 's \<times> unit res" where
  "link_targets st nameToId direction fromID s [] = (s, Inr ())"
| "link_targets st nameToId direction fromID s (to # tos) =
     (case nameToId to of
        None \<Rightarrow> link_targets st nameToId direction fromID s tos
      | Some toID \<Rightarrow>
          if fromID = toID then link_targets st nameToId direction fromID s tos
          else
            bind_st (if direction = toDependsOnFrom then link_ids st s toID fromID else link_ids st s fromID toID)
              (\<lambda>s1 _. link_targets st nameToId direction fromID s1 tos))"

fun link_edges :: "'s storage \<Rightarrow> (string \<rightharpoonup> id) \<Rightarrow> 's \<Rightarrow> sbom_edge list \<Rightarrow> 's \<times> unit res" where
  "link_edges st nameToId s [] = (s, Inr ())"
| "link_edges st nameToId s (e # es) =
     (let direction = dependencyDirection (se_Type e)
      in if direction = notADependency then link_edges st nameToId s es
         else
           (case nameToId (se_From e) of
              None \<Rightarrow> link_edges st nameToId s es
            | Some fromID \<Rightarrow>
                bind_st (link_targets st nameToId direction fromID s (se_To e)) (\<lambda>s1 _.
                  link_edges st nameToId s1 es)))"

text \<open>\<open>parse\<close> is the reader: the node list of the document, which may be nil.\<close>

definition SBOM :: "(string \<Rightarrow> node_list option res) \<Rightarrow> 's storage \<Rightarrow> 's \<Rightarrow> string \<Rightarrow> 's \<times> unit res" where
  "SBOM parse st s data =
     (if length data = 0 then (s, Inl (Err ''data is empty''))
      else
        (case ctx ''failed to parse SBOM file'' (parse data) of
           Inl e \<Rightarrow> (s, Inl e)
         | Inr None \<Rightarrow> (s, Inr ())
         | Inr (Some nodeList) \<Rightarrow>
             bind_st (add_sbom_nodes st s Map.empty (nl_Nodes nodeList)) (\<lambda>s1 nameToId.
               link_edges st nameToId s1 (nl_Edges nodeList))))"

section \<open>What a document means\<close>

text \<open>
  The identifier that an element of the document has in a graph with the names \<open>names\<close>: that of the
  last node with this element identifier.
\<close>

definition element_id :: "sbom_node list \<Rightarrow> (string \<rightharpoonup> id) \<Rightarrow> string \<rightharpoonup> id" where
  "element_id ns names x =
     (case map_of (rev (map (\<lambda>n. (sn_Id n, sbom_purl n)) ns)) x of None \<Rightarrow> None | Some p \<Rightarrow> names p)"

text \<open>
  How the kinds of relationship read (SPDX and protobom): in \<open>A contains B\<close>, \<open>A dependsOn B\<close> or a link to
  \<open>B\<close> it is \<open>A\<close> that depends on \<open>B\<close>; in the kinds that say what \<open>A\<close> is for \<open>B\<close>, such as \<open>A dependencyOf B\<close>
  or \<open>A runtimeDependency B\<close>, it is \<open>B\<close> that depends on \<open>A\<close>. No other kind is a dependency.
\<close>

definition needs_kinds :: "edge_type set" where
  "needs_kinds = {Edge_dependsOn, Edge_contains, Edge_prerequisite, Edge_dynamicLink, Edge_staticLink}"

definition needed_by_kinds :: "edge_type set" where
  "needed_by_kinds = {Edge_dependencyOf, Edge_contained_by, Edge_prerequisiteFor}
     \<union> {Edge_buildDependency, Edge_devDependency, Edge_optionalDependency, Edge_providedDependency,
        Edge_runtimeDependency, Edge_testDependency, Edge_optionalComponent}"

text \<open>The dependencies that a list of relationships states, as (dependent, dependency).\<close>

definition stated :: "(string \<rightharpoonup> id) \<Rightarrow> sbom_edge list \<Rightarrow> (id \<times> id) set" where
  "stated m es = {(a, b). a \<noteq> b \<and> (\<exists>e \<in> set es. \<exists>to \<in> set (se_To e).
     se_Type e \<in> needs_kinds \<and> m (se_From e) = Some a \<and> m to = Some b
     \<or> se_Type e \<in> needed_by_kinds \<and> m to = Some a \<and> m (se_From e) = Some b)}"

lemma dependencyDirection_kinds:
  "dependencyDirection t = fromDependsOnTo \<longleftrightarrow> t \<in> needs_kinds"
  "dependencyDirection t = toDependsOnFrom \<longleftrightarrow> t \<in> needed_by_kinds"
  "dependencyDirection t = notADependency \<longleftrightarrow> t \<notin> needs_kinds \<union> needed_by_kinds"
  by (cases t; simp add: needs_kinds_def needed_by_kinds_def)+

lemma stated_Cons: "stated m (e # es) = stated m [e] \<union> stated m es"
  by (auto simp: stated_def)

lemma stated_none: "dependencyDirection (se_Type e) = notADependency \<or> m (se_From e) = None \<Longrightarrow> stated m [e] = {}"
  by (auto simp: stated_def dependencyDirection_kinds)

lemma stated_step:
  assumes "dependencyDirection (se_Type e) \<noteq> notADependency" and "m (se_From e) = Some f"
  shows "stated m [e\<lparr>se_To := to # tos\<rparr>] = (case m to of None \<Rightarrow> {}
      | Some t \<Rightarrow> if f = t then {} else {if dependencyDirection (se_Type e) = toDependsOnFrom then (t, f) else (f, t)})
    \<union> stated m [e\<lparr>se_To := tos\<rparr>]"
proof -
  have "needs_kinds \<inter> needed_by_kinds = {}" by (simp add: needs_kinds_def needed_by_kinds_def)
  then show ?thesis
    using assms by (auto simp: stated_def dependencyDirection_kinds split: option.split)
qed

context graph_store
begin

lemma add_sbom_nodes_ok:
  assumes "wf s" and "graph_ok (abs s)" and "g_next (abs s) + length ns < 4294967296"
  shows "\<exists>s' m'. add_sbom_nodes st s m ns = (s', Inr m') \<and> wf s' \<and> grown (abs s) (abs s')
    \<and> m' = m ++ element_id ns (g_names (abs s'))
    \<and> dom (g_names (abs s')) = dom (g_names (abs s)) \<union> sbom_purl ` set ns
    \<and> edges (g_nodes (abs s')) ChildrenDirection = edges (g_nodes (abs s)) ChildrenDirection"
  using assms
proof (induction ns arbitrary: s m)
  case Nil
  then show ?case by (auto simp: grown_refl element_id_def map_add_def)
next
  case (Cons n ns)
  have "Suc (g_next (abs s)) < 4294967296" using Cons.prems(3) by simp
  from AddNode_grown [OF Cons.prems(1,2) this, of "''library''" "sn_Value n" "sbom_purl n"]
  obtain s1 x where s1: "AddNode st s ''library'' (sn_Value n) (sbom_purl n) = (s1, Inr x)" "wf s1"
    "grown (abs s) (abs s1)" "g_names (abs s1) (sbom_purl n) = Some (n_ID x)"
    "dom (g_names (abs s1)) = insert (sbom_purl n) (dom (g_names (abs s)))"
    "edges (g_nodes (abs s1)) ChildrenDirection = edges (g_nodes (abs s)) ChildrenDirection"
    "g_next (abs s1) \<le> Suc (g_next (abs s))"
    by - (elim exE conjE, rule that; assumption)
  have "graph_ok (abs s1)" using s1(3) by (simp add: grown_def)
  moreover have "g_next (abs s1) + length ns < 4294967296" using s1(7) Cons.prems(3) by simp
  ultimately obtain s2 m2 where s2: "add_sbom_nodes st s1 (m(sn_Id n \<mapsto> n_ID x)) ns = (s2, Inr m2)" "wf s2"
    "grown (abs s1) (abs s2)" "m2 = m(sn_Id n \<mapsto> n_ID x) ++ element_id ns (g_names (abs s2))"
    "dom (g_names (abs s2)) = dom (g_names (abs s1)) \<union> sbom_purl ` set ns"
    "edges (g_nodes (abs s2)) ChildrenDirection = edges (g_nodes (abs s1)) ChildrenDirection"
    using Cons.IH [OF s1(2)] by blast
  have name: "g_names (abs s2) (sbom_purl n) = Some (n_ID x)" using grown_name [OF s2(3) s1(4)] .
  have later: "g_names (abs s2) (sbom_purl k) \<noteq> None" if "k \<in> set ns" for k
    using s2(5) that by auto
  have "element_id (n # ns) (g_names (abs s2)) y
      = (case element_id ns (g_names (abs s2)) y of None \<Rightarrow> if y = sn_Id n then Some (n_ID x) else None | Some i \<Rightarrow> Some i)" for y
  proof -
    have "g_names (abs s2) p \<noteq> None" if "map_of (rev (map (\<lambda>n. (sn_Id n, sbom_purl n)) ns)) y = Some p" for p
      using map_of_SomeD [OF that] later by auto
    then show ?thesis using name by (auto simp: element_id_def map_add_def split: option.splits)
  qed
  then have "m2 = m ++ element_id (n # ns) (g_names (abs s2))"
    unfolding s2(4) by (auto simp: fun_eq_iff map_add_def split: option.splits)
  moreover have "add_sbom_nodes st s m (n # ns) = (s2, Inr m2)" using s1(1) s2(1) by simp
  moreover have "dom (g_names (abs s2)) = dom (g_names (abs s)) \<union> sbom_purl ` set (n # ns)"
    unfolding s2(5) s1(5) by auto
  ultimately show ?case using s2(2,6) s1(6) grown_trans [OF s1(3) s2(3)] by auto
qed

lemma link_ids_ok:
  assumes wf: "wf s" and ok: "graph_ok (abs s)" and "a \<noteq> b"
    and "a \<in> dom (g_nodes (abs s))" and "b \<in> dom (g_nodes (abs s))"
  shows "\<exists>s'. link_ids st s a b = (s', Inr ()) \<and> wf s' \<and> grown (abs s) (abs s')
    \<and> dom (g_nodes (abs s')) = dom (g_nodes (abs s)) \<and> g_names (abs s') = g_names (abs s)
    \<and> edges (g_nodes (abs s')) ChildrenDirection = insert (a, b) (edges (g_nodes (abs s)) ChildrenDirection)"
proof -
  obtain x y where x: "g_nodes (abs s) a = Some x" and y: "g_nodes (abs s) b = Some y" using assms(4,5) by blast
  have id: "n_ID x = a" "n_ID y = b" using stored_nodes [OF wf ok] x y by blast+
  have "n_ID x \<noteq> n_ID y" using id assms(3) by simp
  moreover have "g_nodes (abs s) (n_ID x) = Some (norm x)" "g_nodes (abs s) (n_ID y) = Some (norm y)"
    using norm_stored [OF wf x] norm_stored [OF wf y] x y id by simp_all
  ultimately obtain s' x' y' where s': "SetDependency (Some st) s (Some x) (Some y) = ((s', Some x', Some y'), Inr ())"
    "wf s'" "graph_ok (abs s')"
    "edges (g_nodes (abs s')) ChildrenDirection = insert (n_ID x, n_ID y) (edges (g_nodes (abs s)) ChildrenDirection)"
    "keeps_nodes (g_nodes (abs s)) (g_nodes (abs s'))" "dom (g_nodes (abs s')) = dom (g_nodes (abs s))"
    "g_names (abs s') = g_names (abs s)"
    using link_step [OF wf ok] by blast
  have "link_ids st s a b = (s', Inr ())"
    by (simp add: link_ids_def GetNode_Some [OF wf x] GetNode_Some [OF wf y] s'(1))
  then show ?thesis using s'(2-7) id by (auto simp: grown_def)
qed

lemma link_targets_ok:
  assumes "wf s" and "graph_ok (abs s)" and "ran m \<subseteq> dom (g_nodes (abs s))"
    and "dependencyDirection (se_Type e) \<noteq> notADependency" and "m (se_From e) = Some f"
  shows "\<exists>s'. link_targets st m (dependencyDirection (se_Type e)) f s tos = (s', Inr ()) \<and> wf s'
    \<and> linked_as (stated m [e\<lparr>se_To := tos\<rparr>]) (abs s) (abs s')"
  using assms
proof (induction tos arbitrary: s)
  case Nil
  then show ?case by (simp add: linked_as_refl stated_def)
next
  case (Cons to tos)
  let ?d = "dependencyDirection (se_Type e)"
  note f = Cons.prems(5)
  show ?case
  proof (cases "m to = None \<or> m to = Some f")
    case True
    then have "stated m [e\<lparr>se_To := to # tos\<rparr>] = stated m [e\<lparr>se_To := tos\<rparr>]"
      unfolding stated_step [where m = m, OF Cons.prems(4) f] by auto
    moreover have "link_targets st m ?d f s (to # tos) = link_targets st m ?d f s tos"
      using True by (auto split: option.split)
    ultimately show ?thesis using Cons.IH [OF Cons.prems] by simp
  next
    case False
    then obtain t where t: "m to = Some t" "f \<noteq> t" by auto
    define p where "p = (if ?d = toDependsOnFrom then (t, f) else (f, t))"
    have "fst p \<noteq> snd p" "fst p \<in> dom (g_nodes (abs s))" "snd p \<in> dom (g_nodes (abs s))"
      using t f Cons.prems(3) unfolding p_def ran_def by auto
    from link_ids_ok [OF Cons.prems(1,2) this]
    obtain s1 where s1: "link_ids st s (fst p) (snd p) = (s1, Inr ())" "wf s1" "linked_as {p} (abs s) (abs s1)"
      by (auto simp: linked_as_def)
    have "ran m \<subseteq> dom (g_nodes (abs s1))" using Cons.prems(3) linked_asD(2) [OF s1(3)] by simp
    from Cons.IH [OF s1(2) linked_asD(1) [OF s1(3)] this Cons.prems(4,5)]
    obtain s2 where s2: "link_targets st m ?d f s1 tos = (s2, Inr ())" "wf s2"
      "linked_as (stated m [e\<lparr>se_To := tos\<rparr>]) (abs s1) (abs s2)" by blast
    have "stated m [e\<lparr>se_To := to # tos\<rparr>] = {p} \<union> stated m [e\<lparr>se_To := tos\<rparr>]"
      using t unfolding stated_step [where m = m, OF Cons.prems(4) f] p_def by simp
    moreover have "link_targets st m ?d f s (to # tos) = (s2, Inr ())"
      using t s1(1) s2(1) unfolding p_def by (simp split: if_splits)
    ultimately show ?thesis using linked_as_trans [OF s1(3) s2(3)] s2(2) by simp
  qed
qed

lemma link_edges_ok:
  assumes "wf s" and "graph_ok (abs s)" and "ran m \<subseteq> dom (g_nodes (abs s))"
  shows "\<exists>s'. link_edges st m s es = (s', Inr ()) \<and> wf s' \<and> linked_as (stated m es) (abs s) (abs s')"
  using assms
proof (induction es arbitrary: s)
  case Nil
  then show ?case by (simp add: linked_as_refl stated_def)
next
  case (Cons e es)
  let ?d = "dependencyDirection (se_Type e)"
  show ?case
  proof (cases "?d = notADependency \<or> m (se_From e) = None")
    case True
    then have "link_edges st m s (e # es) = link_edges st m s es" by (auto simp: Let_def)
    then show ?thesis unfolding stated_Cons [of m e es] stated_none [of e m, OF True] using Cons by simp
  next
    case False
    then obtain f where f: "?d \<noteq> notADependency" "m (se_From e) = Some f" by auto
    obtain s1 where s1: "link_targets st m ?d f s (se_To e) = (s1, Inr ())" "wf s1"
      "linked_as (stated m [e]) (abs s) (abs s1)"
      using link_targets_ok [OF Cons.prems f, of "se_To e"] by auto
    have "ran m \<subseteq> dom (g_nodes (abs s1))" using Cons.prems(3) linked_asD(2) [OF s1(3)] by simp
    from Cons.IH [OF s1(2) linked_asD(1) [OF s1(3)] this]
    obtain s2 where s2: "link_edges st m s1 es = (s2, Inr ())" "wf s2"
      "linked_as (stated m es) (abs s1) (abs s2)" by blast
    have "link_edges st m s (e # es) = (s2, Inr ())" using f s1(1) s2(1) by (simp add: Let_def)
    then show ?thesis unfolding stated_Cons [of m e es] using linked_as_trans [OF s1(3) s2(3)] s2(2) by blast
  qed
qed

lemma SBOM_ok:
  assumes wf: "wf s" and ok: "graph_ok (abs s)" and "data \<noteq> ''''" and "parse data = Inr (Some doc)"
    and "g_next (abs s) + length (nl_Nodes doc) < 4294967296"
  shows "\<exists>s'. SBOM parse st s data = (s', Inr ()) \<and> wf s' \<and> grown (abs s) (abs s')
    \<and> dom (g_names (abs s')) = dom (g_names (abs s)) \<union> sbom_purl ` set (nl_Nodes doc)
    \<and> edges (g_nodes (abs s')) ChildrenDirection = edges (g_nodes (abs s)) ChildrenDirection
       \<union> stated (element_id (nl_Nodes doc) (g_names (abs s'))) (nl_Edges doc)"
proof -
  obtain s1 m where s1: "add_sbom_nodes st s Map.empty (nl_Nodes doc) = (s1, Inr m)" "wf s1"
    "grown (abs s) (abs s1)" "m = element_id (nl_Nodes doc) (g_names (abs s1))"
    "dom (g_names (abs s1)) = dom (g_names (abs s)) \<union> sbom_purl ` set (nl_Nodes doc)"
    "edges (g_nodes (abs s1)) ChildrenDirection = edges (g_nodes (abs s)) ChildrenDirection"
    using add_sbom_nodes_ok [OF wf ok assms(5), of Map.empty] by auto
  have ok1: "graph_ok (abs s1)" using s1(3) by (simp add: grown_def)
  have "i \<in> dom (g_nodes (abs s1))" if "m x = Some i" for x i
    using that ok1 unfolding s1(4) element_id_def graph_ok_def names_ok_def
    by (fastforce split: option.splits)
  then have "ran m \<subseteq> dom (g_nodes (abs s1))" unfolding ran_def by blast
  from link_edges_ok [OF s1(2) ok1 this, of "nl_Edges doc"]
  obtain s2 where s2: "link_edges st m s1 (nl_Edges doc) = (s2, Inr ())" "wf s2"
    "linked_as (stated m (nl_Edges doc)) (abs s1) (abs s2)" by blast
  have "SBOM parse st s data = (s2, Inr ())" using assms(3,4) s1(1) s2(1) by (simp add: SBOM_def)
  then show ?thesis using s2(2,3) s1(3-6) grown_trans [OF s1(3)] by (simp add: linked_as_def)
qed

end

section \<open>Properties\<close>

text \<open>
  C15. Ingesting an SBOM: on a consistent graph in Redis with room for the nodes of the document, \<open>SBOM\<close>
  succeeds, keeps every node, name and edge, adds exactly the names of the document's nodes, and adds
  exactly the dependencies that its relationships state: from source to target for the kinds of
  \<open>needs_kinds\<close>, from target to source for those of \<open>needed_by_kinds\<close>. A relationship of another kind, that
  ends outside the document or that joins two elements of one name adds nothing.
\<close>

theorem redis_SBOM_edges:
  assumes "redis_wf b64 s" and "graph_ok (redis_abs s)" and "data \<noteq> ''''" and "parse data = Inr (Some doc)"
    and "g_next (redis_abs s) + length (nl_Nodes doc) < 4294967296"
  shows "\<exists>s'. SBOM parse redis_storage s data = (s', Inr ()) \<and> redis_wf b64 s' \<and> grown (redis_abs s) (redis_abs s')
    \<and> dom (g_names (redis_abs s')) = dom (g_names (redis_abs s)) \<union> sbom_purl ` set (nl_Nodes doc)
    \<and> edges (g_nodes (redis_abs s')) ChildrenDirection = edges (g_nodes (redis_abs s)) ChildrenDirection
       \<union> stated (element_id (nl_Nodes doc) (g_names (redis_abs s'))) (nl_Edges doc)"
  by (rule rd.SBOM_ok [where parse = parse, OF assms(1-3) _ assms(5)]) (rule assms(4))

definition sample_doc :: node_list where
  "sample_doc = \<lparr>nl_Nodes =
     [\<lparr>sn_Id = ''1'', sn_Purl = ''pkg:npm/a'', sn_Name = ''a'', sn_Version = '''', sn_Value = MNil\<rparr>,
      \<lparr>sn_Id = ''2'', sn_Purl = '''', sn_Name = ''b'', sn_Version = ''1'', sn_Value = MNil\<rparr>],
     nl_Edges = [\<lparr>se_Type = Edge_runtimeDependency, se_From = ''1'', se_To = [''2'', ''3'']\<rparr>,
      \<lparr>se_Type = Edge_other 7, se_From = ''1'', se_To = [''2'']\<rparr>]\<rparr>"

lemma sample_doc_stated:
  assumes "names ''pkg:npm/a'' = Some a" and "names ''pkg:b@1'' = Some b" and "a \<noteq> b"
  shows "stated (element_id (nl_Nodes sample_doc) names) (nl_Edges sample_doc) = {(b, a)}"
  using assms by (auto simp: stated_def needs_kinds_def needed_by_kinds_def element_id_def sample_doc_def sbom_purl_def)

lemma sample_doc_names: "sbom_purl ` set (nl_Nodes sample_doc) = {''pkg:npm/a'', ''pkg:b@1''}"
  by (simp add: sample_doc_def sbom_purl_def)

lemma sample_doc_graph:
  assumes "graph_ok g" and "dom (g_names g) = {} \<union> sbom_purl ` set (nl_Nodes sample_doc)"
  shows "\<exists>a b. g_names g ''pkg:npm/a'' = Some a \<and> g_names g ''pkg:b@1'' = Some b
    \<and> stated (element_id (nl_Nodes sample_doc) (g_names g)) (nl_Edges sample_doc) = {(b, a)}"
proof -
  obtain a b where ab: "g_names g ''pkg:npm/a'' = Some a" "g_names g ''pkg:b@1'' = Some b"
    using assms(2) unfolding sample_doc_names by (metis Un_iff domD insertCI)
  have "a \<noteq> b" by (rule graph_ok_names_differ [OF assms(1) ab]) simp
  with ab sample_doc_stated [OF ab] show ?thesis by blast
qed

theorem redis_SBOM_edges_witness:
  "\<exists>(s :: (bitmap, bitmap node_aux + bitmap cache_aux) redis) s' a b. edges (g_nodes (redis_abs s)) ChildrenDirection = {}
     \<and> SBOM (\<lambda>_. Inr (Some sample_doc)) redis_storage s ''json'' = (s', Inr ())
     \<and> g_names (redis_abs s') ''pkg:npm/a'' = Some a \<and> g_names (redis_abs s') ''pkg:b@1'' = Some b
     \<and> edges (g_nodes (redis_abs s')) ChildrenDirection = {(b, a)}"
proof -
  let ?m = "\<lambda>p k. has_prefix k (butlast p)"
  define db where "db = (empty_redis (tree_codec rev) ?m :: (bitmap, bitmap node_aux + bitmap cache_aux) redis)"
  have m: "prefix_patterns ?m" by (simp add: prefix_patterns_def butlast_append)
  note start = empty_redis_ok [OF tree_codec_ok [of rev] m, folded db_def]
  have e: "g_names (redis_abs db) = Map.empty" "g_nodes (redis_abs db) = Map.empty" "g_next (redis_abs db) = 0"
    by (simp_all add: db_def empty_redis_def kv_empty)
  have room: "g_next (redis_abs db) + length (nl_Nodes sample_doc) < 4294967296"
    unfolding e(3) by (simp add: sample_doc_def)
  obtain s' where s': "SBOM (\<lambda>_. Inr (Some sample_doc)) redis_storage db ''json'' = (s', Inr ())"
    "grown (redis_abs db) (redis_abs s')"
    "dom (g_names (redis_abs s')) = dom (g_names (redis_abs db)) \<union> sbom_purl ` set (nl_Nodes sample_doc)"
    "edges (g_nodes (redis_abs s')) ChildrenDirection = edges (g_nodes (redis_abs db)) ChildrenDirection
       \<union> stated (element_id (nl_Nodes sample_doc) (g_names (redis_abs s'))) (nl_Edges sample_doc)"
    using redis_SBOM_edges [where data = "''json''" and parse = "\<lambda>_. Inr (Some sample_doc)", OF start list.distinct(2) refl room]
    by - (elim exE conjE, rule that; assumption)
  have none: "edges (g_nodes (redis_abs db)) ChildrenDirection = {}" unfolding e(2) by (simp add: edges_def)
  have "graph_ok (redis_abs s')" using s'(2) by (simp only: grown_def)
  moreover have "dom (g_names (redis_abs s')) = {} \<union> sbom_purl ` set (nl_Nodes sample_doc)"
    unfolding s'(3) e(1) by simp
  ultimately obtain a b where ab: "g_names (redis_abs s') ''pkg:npm/a'' = Some a" "g_names (redis_abs s') ''pkg:b@1'' = Some b"
    "stated (element_id (nl_Nodes sample_doc) (g_names (redis_abs s'))) (nl_Edges sample_doc) = {(b, a)}"
    using sample_doc_graph by blast
  have "edges (g_nodes (redis_abs s')) ChildrenDirection = {(b, a)}"
    unfolding s'(4) none ab(3) by (rule Un_empty_left)
  with none s'(1) ab(1,2) show ?thesis by blast
qed

end
