(* ===== verification/Scorecard.thy ===== *)
theory Scorecard
  imports Ingest_Growth Vuln_Ingest
begin

text \<open>
  OpenSSF scorecards, \<open>pkg/tools/ingest/scorecard.go\<close>: results are filed under package names, and every
  library whose name and version match gets an edge to the node of the result. Decoding JSON and purls
  are arguments of the model; scores are floating point numbers that the code only carries along.
\<close>

section \<open>Results\<close>

record repo =
  rp_Name :: string
  rp_Commit :: string

record scorecard_info =
  sc_Version :: string
  sc_Commit :: string

record check =
  ck_Name :: string
  ck_Score :: int
  ck_Reason :: string

record 'f scorecard_data =
  sd_Date :: string
  sd_Repo :: repo
  sd_Scorecard :: scorecard_info
  sd_Score :: 'f
  sd_Checks :: "check list"
  sd_PURL :: string

record 'f scorecard_result =
  sr_PURL :: string
  sr_Success :: bool
  sr_Scorecard :: "'f scorecard_data"
  sr_Error :: string
  sr_GitHubURL :: string

text \<open>\<open>sl_metadata\<close> is a result as the metadata of a node.\<close>

record 'f scorecard_libs =
  sl_purl :: "string \<Rightarrow> package_url res"
  sl_Unmarshal :: "string \<Rightarrow> 'f scorecard_result list res"
  sl_metadata :: "'f scorecard_result \<Rightarrow> metadata"

definition getScorecardNodeName :: "string \<Rightarrow> string" where
  "getScorecardNodeName name = ''scorecard:'' @ name"

section \<open>Ingestion\<close>

text \<open>The map from names to the successful results filed under them.\<close>

fun file_results ::
  "(string \<Rightarrow> package_url res) \<Rightarrow> 'f scorecard_result list \<Rightarrow> (string \<rightharpoonup> 'f scorecard_result list)
    \<Rightarrow> (string \<rightharpoonup> 'f scorecard_result list)" where
  "file_results purl [] acc = acc"
| "file_results purl (r # rs) acc =
     (if \<not> sr_Success r then file_results purl rs acc
      else
        (case purl (sr_PURL r) of
           Inl e \<Rightarrow> file_results purl rs acc
         | Inr u \<Rightarrow>
             if pu_Name u = '''' then file_results purl rs acc
             else file_results purl rs
               (acc(pu_Name u \<mapsto> (case acc (pu_Name u) of None \<Rightarrow> [] | Some l \<Rightarrow> l) @ [r]))))"

text \<open>The loop over the results of a name, for one library node, which it changes.\<close>

fun link_results ::
  "'f scorecard_libs \<Rightarrow> 's storage \<Rightarrow> string \<Rightarrow> 's \<Rightarrow> node \<Rightarrow> 'f scorecard_result list \<Rightarrow> 's \<times> unit res" where
  "link_results libs st version s n [] = (s, Inr ())"
| "link_results libs st version s n (r # rs) =
     (if \<not> sr_Success r then link_results libs st version s n rs
      else
        (case PURLToPackage (sl_purl libs) (sr_PURL r) of
           Inl e \<Rightarrow> link_results libs st version s n rs
         | Inr info \<Rightarrow>
             if pi_Version info = version then
               bind_st (ctx_st ''failed to add Scorecard node to storage''
                 (AddNode st s ScorecardType (sl_metadata libs r) (getScorecardNodeName (sr_PURL r)))) (\<lambda>s1 scorecardNode.
                 (case SetDependency (Some st) s1 (Some n) (Some scorecardNode) of
                    ((s2, n', _), Inr _) \<Rightarrow> link_results libs st version s2 (case n' of None \<Rightarrow> n | Some m \<Rightarrow> m) rs
                  | ((s2, _, _), Inl e) \<Rightarrow> (s2, Inl (wrap ''failed to add dependency edge to Scorecard node'' e))))
             else link_results libs st version s n rs))"

fun link_libraries ::
  "'f scorecard_libs \<Rightarrow> 's storage \<Rightarrow> (string \<rightharpoonup> 'f scorecard_result list) \<Rightarrow> 's \<Rightarrow> node list \<Rightarrow> 's \<times> unit res" where
  "link_libraries libs st filed s [] = (s, Inr ())"
| "link_libraries libs st filed s (n # ns) =
     (if n_Type n = LibraryType \<and> has_prefix (n_Name n) pkg_prefix then
        (case PURLToPackage (sl_purl libs) (n_Name n) of
           Inl e \<Rightarrow> link_libraries libs st filed s ns
         | Inr info \<Rightarrow>
             (case filed (pi_Name info) of
                None \<Rightarrow> link_libraries libs st filed s ns
              | Some rs \<Rightarrow>
                  bind_st (link_results libs st (pi_Version info) s n rs) (\<lambda>s1 _.
                    link_libraries libs st filed s1 ns)))
      else link_libraries libs st filed s ns)"

definition Scorecards ::
  "range_order \<Rightarrow> 'f scorecard_libs \<Rightarrow> 's storage \<Rightarrow> 's \<Rightarrow> string \<Rightarrow> 's \<times> unit res" where
  "Scorecards ro libs st s data =
     (if length data = 0 then (s, Inl (Err ''data is empty''))
      else
        (case ctx ''failed to decode Scorecard data'' (sl_Unmarshal libs data) of
           Inl e \<Rightarrow> (s, Inl e)
         | Inr results \<Rightarrow>
             (case st_GetAllKeys st s of
                Inl e \<Rightarrow> (s, Inl e)
              | Inr ks \<Rightarrow>
                  (case ctx ''failed to get nodes from storage'' (st_GetNodes st s ks) of
                     Inl e \<Rightarrow> (s, Inl e)
                   | Inr nodes \<Rightarrow>
                       link_libraries libs st (file_results (sl_purl libs) results Map.empty) s
                         (map snd (go_range ro 0 nodes))))))"

section \<open>What matches\<close>

text \<open>The names of the score cards of a library: those of a list of results that have its version.\<close>

definition matching :: "'f scorecard_libs \<Rightarrow> string \<Rightarrow> 'f scorecard_result list \<Rightarrow> string set" where
  "matching libs version rs = {getScorecardNodeName (sr_PURL r) | r. r \<in> set rs \<and> sr_Success r
     \<and> (\<exists>info. PURLToPackage (sl_purl libs) (sr_PURL r) = Inr info \<and> pi_Version info = version)}"

text \<open>The cards that the code links: filed under the bare name of the package, and of its version.\<close>

definition filed_cards :: "'f scorecard_libs \<Rightarrow> 'f scorecard_result list \<Rightarrow> package_info \<Rightarrow> string set" where
  "filed_cards libs results info = {getScorecardNodeName (sr_PURL r) | r. r \<in> set results \<and> sr_Success r
     \<and> (\<exists>u. sl_purl libs (sr_PURL r) = Inr u \<and> pu_Name u \<noteq> '''' \<and> pu_Name u = pi_Name info)
     \<and> (\<exists>i. PURLToPackage (sl_purl libs) (sr_PURL r) = Inr i \<and> pi_Version i = pi_Version info)}"




lemma matching_Nil [simp]: "matching libs v [] = {}"
  by (simp add: matching_def)

lemma matching_Cons:
  "matching libs v (r # rs) = (if sr_Success r
     \<and> (\<exists>info. PURLToPackage (sl_purl libs) (sr_PURL r) = Inr info \<and> pi_Version info = v)
     then insert (getScorecardNodeName (sr_PURL r)) (matching libs v rs) else matching libs v rs)"
  by (auto simp: matching_def)

lemma file_results_mem:
  "(\<exists>l. file_results purl rs acc x = Some l \<and> r \<in> set l) \<longleftrightarrow> (\<exists>l. acc x = Some l \<and> r \<in> set l)
     \<or> (r \<in> set rs \<and> sr_Success r \<and> (\<exists>u. purl (sr_PURL r) = Inr u \<and> pu_Name u \<noteq> '''' \<and> pu_Name u = x))"
proof (induction rs arbitrary: acc)
  case (Cons q rs)
  show ?case
  proof (cases "\<not> sr_Success q \<or> (\<exists>e. purl (sr_PURL q) = Inl e) \<or> (\<exists>u. purl (sr_PURL q) = Inr u \<and> pu_Name u = '''')")
    case True
    then have "file_results purl (q # rs) acc = file_results purl rs acc" by (auto split: sum.split)
    then show ?thesis using Cons.IH [of acc] True by auto
  next
    case False
    then obtain u where u: "purl (sr_PURL q) = Inr u" "pu_Name u \<noteq> ''''" "sr_Success q" by (cases "purl (sr_PURL q)") auto
    let ?acc = "acc(pu_Name u \<mapsto> (case acc (pu_Name u) of None \<Rightarrow> [] | Some l \<Rightarrow> l) @ [q])"
    have run: "file_results purl (q # rs) acc = file_results purl rs ?acc" using u by simp
    show ?thesis unfolding run Cons.IH [of ?acc] using u by (auto split: option.splits)
  qed
qed simp

lemma cards_filed:
  "(case file_results (sl_purl libs) results Map.empty (pi_Name info) of None \<Rightarrow> {}
     | Some rs \<Rightarrow> matching libs (pi_Version info) rs) = filed_cards libs results info"
proof -
  let ?f = "file_results (sl_purl libs) results Map.empty (pi_Name info)"
  have "(\<exists>l. ?f = Some l \<and> r \<in> set l) \<longleftrightarrow> r \<in> set results \<and> sr_Success r
     \<and> (\<exists>u. sl_purl libs (sr_PURL r) = Inr u \<and> pu_Name u \<noteq> '''' \<and> pu_Name u = pi_Name info)" for r
    using file_results_mem [of "sl_purl libs" results Map.empty] by simp
  then show ?thesis by (cases ?f) (force simp: filed_cards_def matching_def)+
qed

lemma card_name_apart: "has_prefix x pkg_prefix \<Longrightarrow> x \<noteq> getScorecardNodeName y"
  by (auto simp: pkg_prefix_def getScorecardNodeName_def has_prefix_def)

text \<open>The cards that the loop links to a node.\<close>

definition node_cards ::
  "'f scorecard_libs \<Rightarrow> (string \<rightharpoonup> 'f scorecard_result list) \<Rightarrow> node \<Rightarrow> string set" where
  "node_cards libs filed n =
     (if n_Type n = LibraryType \<and> has_prefix (n_Name n) pkg_prefix then
        (case PURLToPackage (sl_purl libs) (n_Name n) of
           Inl e \<Rightarrow> {}
         | Inr info \<Rightarrow>
             (case filed (pi_Name info) of None \<Rightarrow> {} | Some rs \<Rightarrow> matching libs (pi_Version info) rs))
      else {})"

lemma node_cards_names: "x \<in> node_cards libs filed n \<Longrightarrow> \<exists>y. x = getScorecardNodeName y"
  by (auto simp: node_cards_def matching_def split: if_splits sum.splits option.splits)

context graph_store
begin

lemma link_results_ok:
  assumes "wf s" and "graph_ok (abs s)" and "room_for S (abs s)" and "finite S"
    and "getScorecardNodeName ` sr_PURL ` set rs \<subseteq> S"
    and "g_nodes (abs s) (n_ID n) = Some (norm n)" and "has_prefix (n_Name n) pkg_prefix"
  shows "\<exists>s'. link_results libs st v s n rs = (s', Inr ()) \<and> wf s' \<and> room_for S (abs s')
    \<and> attached ({n_ID n} \<times> matching libs v rs) (abs s) (abs s')"
  using assms
proof (induction rs arbitrary: s n)
  case Nil
  then show ?case by (simp add: attached_refl)
next
  case (Cons r rs)
  let ?x = "getScorecardNodeName (sr_PURL r)"
  have rest: "getScorecardNodeName ` sr_PURL ` set rs \<subseteq> S" using Cons.prems(5) by simp
  show ?case
  proof (cases "sr_Success r \<and> (\<exists>info. PURLToPackage (sl_purl libs) (sr_PURL r) = Inr info \<and> pi_Version info = v)")
    case False
    then have "link_results libs st v s n (r # rs) = link_results libs st v s n rs"
      by (cases "PURLToPackage (sl_purl libs) (sr_PURL r)") auto
    moreover have "matching libs v (r # rs) = matching libs v rs" unfolding matching_Cons if_not_P [OF False] ..
    ultimately show ?thesis using Cons.IH [OF Cons.prems(1-4) rest Cons.prems(6,7)] by (simp only:)
  next
    case True
    then obtain info where info: "sr_Success r" "PURLToPackage (sl_purl libs) (sr_PURL r) = Inr info" "pi_Version info = v"
      by blast
    have x: "?x \<in> S" using Cons.prems(5) by simp
    obtain s1 y s2 n' y' where s2: "AddNode st s ScorecardType (sl_metadata libs r) ?x = (s1, Inr y)"
      "SetDependency (Some st) s1 (Some n) (Some y) = ((s2, Some n', Some y'), Inr ())" "wf s2"
      "attached {(n_ID n, ?x)} (abs s) (abs s2)" "room_for S (abs s2)"
      "g_nodes (abs s2) (n_ID n) = Some (norm n')" "n_ID n' = n_ID n" "n_Name n' = n_Name n"
      using attach_step [where ty = ScorecardType and meta = "sl_metadata libs r",
        OF Cons.prems(1-4) x Cons.prems(6) card_name_apart [OF Cons.prems(7)]]
      by - (elim exE conjE, rule that; assumption)
    have "g_nodes (abs s2) (n_ID n') = Some (norm n')" "has_prefix (n_Name n') pkg_prefix"
      using s2(6-8) Cons.prems(7) by simp_all
    from Cons.IH [OF s2(3) attachedD(2) [OF s2(4)] s2(5) Cons.prems(4) rest this]
    obtain s3 where s3: "link_results libs st v s2 n' rs = (s3, Inr ())" "wf s3" "room_for S (abs s3)"
      "attached ({n_ID n} \<times> matching libs v rs) (abs s2) (abs s3)"
      unfolding s2(7) by blast
    have "link_results libs st v s n (r # rs) = (s3, Inr ())" using info s2(1,2) s3(1) by simp
    moreover have "{(n_ID n, ?x)} \<union> {n_ID n} \<times> matching libs v rs = {n_ID n} \<times> matching libs v (r # rs)"
      using True by (auto simp: matching_Cons)
    ultimately show ?thesis using attached_trans [OF s2(4) s3(4)] s3(2,3) by auto
  qed
qed

text \<open>The copies of the libraries still to come stay current: only their own turn changes them.\<close>

lemma attached_keeps_library:
  assumes a: "attached ({i} \<times> node_cards libs filed n) (abs s) (abs s')" and ok: "graph_ok (abs s)"
    and k: "g_nodes (abs s) (n_ID k) = Some (norm k)" "has_prefix (n_Name k) pkg_prefix" "n_ID k \<noteq> i"
  shows "g_nodes (abs s') (n_ID k) = Some (norm k)"
proof -
  have "g_names (abs s) (n_Name k) = Some (n_ID k)"
    using ok k(1) norm_simps(2) unfolding graph_ok_def names_ok_def by metis
  then have name: "g_names (abs s') (n_Name k) = Some (n_ID k)" by (rule grown_name [OF attachedD(1) [OF a]])
  have "g_names (abs s') x \<noteq> Some (n_ID k)" if "x \<in> node_cards libs filed n" for x
  proof
    assume x: "g_names (abs s') x = Some (n_ID k)"
    have "n_Name k \<noteq> x" using node_cards_names [OF that] card_name_apart [OF k(2)] by blast
    from graph_ok_names_differ [OF attachedD(2) [OF a] name x this] show False by simp
  qed
  then show ?thesis using a k(1,3) unfolding attached_def by (auto simp: dom_def)
qed

lemma link_libraries_ok:
  assumes "wf s" and "graph_ok (abs s)" and "room_for S (abs s)" and "finite S"
    and "\<forall>x l. filed x = Some l \<longrightarrow> getScorecardNodeName ` sr_PURL ` set l \<subseteq> S"
    and "distinct (map n_ID ns)"
    and "\<forall>n \<in> set ns. has_prefix (n_Name n) pkg_prefix \<longrightarrow> g_nodes (abs s) (n_ID n) = Some (norm n)"
  shows "\<exists>s'. link_libraries libs st filed s ns = (s', Inr ()) \<and> wf s'
    \<and> attached (\<Union>n \<in> set ns. {n_ID n} \<times> node_cards libs filed n) (abs s) (abs s')"
  using assms
proof (induction ns arbitrary: s)
  case Nil
  then show ?case by (simp add: attached_refl)
next
  case (Cons n ns)
  have one: "\<exists>s1. link_libraries libs st filed s (n # ns) = link_libraries libs st filed s1 ns
    \<and> wf s1 \<and> room_for S (abs s1) \<and> attached ({n_ID n} \<times> node_cards libs filed n) (abs s) (abs s1)"
  proof (cases "\<exists>info rs. n_Type n = LibraryType \<and> has_prefix (n_Name n) pkg_prefix
      \<and> PURLToPackage (sl_purl libs) (n_Name n) = Inr info \<and> filed (pi_Name info) = Some rs")
    case False
    then have "link_libraries libs st filed s (n # ns) = link_libraries libs st filed s ns"
      by (cases "PURLToPackage (sl_purl libs) (n_Name n)") (auto split: option.split)
    moreover have "node_cards libs filed n = {}"
      using False by (auto simp: node_cards_def split: sum.split option.split)
    ultimately show ?thesis using Cons.prems(1-3) attached_refl by auto
  next
    case True
    then obtain info rs where n: "n_Type n = LibraryType" "has_prefix (n_Name n) pkg_prefix"
      "PURLToPackage (sl_purl libs) (n_Name n) = Inr info" "filed (pi_Name info) = Some rs" by blast
    have cur: "g_nodes (abs s) (n_ID n) = Some (norm n)" using Cons.prems(7) n(2) by simp
    obtain s1 where "link_results libs st (pi_Version info) s n rs = (s1, Inr ())" "wf s1" "room_for S (abs s1)"
      "attached ({n_ID n} \<times> matching libs (pi_Version info) rs) (abs s) (abs s1)"
      using link_results_ok [OF Cons.prems(1-4) Cons.prems(5) [rule_format, OF n(4)] cur n(2), of libs "pi_Version info"]
      by blast
    moreover have "node_cards libs filed n = matching libs (pi_Version info) rs"
      using n by (simp add: node_cards_def)
    ultimately show ?thesis using n by (intro exI [of _ s1]) simp
  qed
  then obtain s1 where s1: "link_libraries libs st filed s (n # ns) = link_libraries libs st filed s1 ns"
    "wf s1" "room_for S (abs s1)" "attached ({n_ID n} \<times> node_cards libs filed n) (abs s) (abs s1)" by blast
  have cur: "\<forall>k \<in> set ns. has_prefix (n_Name k) pkg_prefix \<longrightarrow> g_nodes (abs s1) (n_ID k) = Some (norm k)"
  proof (intro ballI impI)
    fix k assume k: "k \<in> set ns" "has_prefix (n_Name k) pkg_prefix"
    have "n_ID k \<in> n_ID ` set ns" using k(1) by (rule imageI)
    then have "n_ID k \<noteq> n_ID n" using Cons.prems(6) by auto
    moreover have "g_nodes (abs s) (n_ID k) = Some (norm k)" using k Cons.prems(7) by simp
    ultimately show "g_nodes (abs s1) (n_ID k) = Some (norm k)"
      using attached_keeps_library [OF s1(4) Cons.prems(2) _ k(2)] by blast
  qed
  have "distinct (map n_ID ns)" using Cons.prems(6) by simp
  from Cons.IH [OF s1(2) attachedD(2) [OF s1(4)] s1(3) Cons.prems(4) Cons.prems(5) this cur]
  obtain s2 where s2: "link_libraries libs st filed s1 ns = (s2, Inr ())" "wf s2"
    "attached (\<Union>n \<in> set ns. {n_ID n} \<times> node_cards libs filed n) (abs s1) (abs s2)" by blast
  show ?case using attached_trans [OF s1(4) s2(3)] s1(1) s2(1,2) by simp
qed

lemma Scorecards_ok:
  assumes wf: "wf s" and ok: "graph_ok (abs s)" and ro: "range_ok ro"
    and data: "data \<noteq> ''''" "sl_Unmarshal libs data = Inr results"
    and room: "g_next (abs s) + length results < 4294967295"
  shows "\<exists>s'. Scorecards ro libs st s data = (s', Inr ()) \<and> wf s'
    \<and> attached {(i, x). \<exists>info. library_of (sl_purl libs) (g_nodes (abs s)) i info
         \<and> x \<in> filed_cards libs results info} (abs s) (abs s')"
proof -
  let ?filed = "file_results (sl_purl libs) results Map.empty"
  let ?S = "getScorecardNodeName ` sr_PURL ` set results"
  obtain ks al where read: "st_GetAllKeys st s = Inr ks" "st_GetNodes st s ks = Inr al"
    "distinct (keys_of al)" "map_of al = g_nodes (abs s)" using read_all [OF wf] by blast
  let ?ns = "map snd (go_range ro 0 al)"
  note dist = read_all_nodes(1) [OF wf ok ro read(3,4), of 0]
  note ns = read_all_nodes(2) [OF wf ok ro read(3,4), of _ 0]
  have cur: "\<forall>n \<in> set ?ns. has_prefix (n_Name n) pkg_prefix \<longrightarrow> g_nodes (abs s) (n_ID n) = Some (norm n)"
  proof (intro ballI impI)
    fix n assume "n \<in> set ?ns"
    then have "g_nodes (abs s) (n_ID n) = Some n" by (simp only: ns)
    with norm_stored [OF wf this] show "g_nodes (abs s) (n_ID n) = Some (norm n)" by simp
  qed
  have "r \<in> set results" if "?filed x = Some l" "r \<in> set l" for x l r
    using file_results_mem [of "sl_purl libs" results Map.empty x r] that by auto
  then have S: "\<forall>x l. ?filed x = Some l \<longrightarrow> getScorecardNodeName ` sr_PURL ` set l \<subseteq> ?S" by blast
  have "?S = set (map (\<lambda>r. getScorecardNodeName (sr_PURL r)) results)" by (simp add: image_image)
  then have "card ?S \<le> length results" using card_length length_map by metis
  moreover have "card (?S - dom (g_names (abs s))) \<le> card ?S" by (simp add: card_mono)
  ultimately have "room_for ?S (abs s)" using room unfolding room_for_def by linarith
  from link_libraries_ok [where libs = libs, OF wf ok this _ S dist cur]
  obtain s' where s': "link_libraries libs st ?filed s ?ns = (s', Inr ())" "wf s'"
    "attached (\<Union>n \<in> set ?ns. {n_ID n} \<times> node_cards libs ?filed n) (abs s) (abs s')"
    by - (drule meta_mp, simp, elim exE conjE, rule that; assumption)
  have cards: "node_cards libs ?filed n = {x. \<exists>info. n_Type n = LibraryType \<and> has_prefix (n_Name n) pkg_prefix
      \<and> PURLToPackage (sl_purl libs) (n_Name n) = Inr info \<and> x \<in> filed_cards libs results info}" for n
    by (auto simp: node_cards_def cards_filed split: sum.split)
  have "(\<Union>n \<in> set ?ns. {n_ID n} \<times> node_cards libs ?filed n)
      = {(i, x). \<exists>info. library_of (sl_purl libs) (g_nodes (abs s)) i info \<and> x \<in> filed_cards libs results info}"
  proof (rule set_eqI)
    fix p :: "id \<times> string"
    obtain i x where p: "p = (i, x)" by fastforce
    have id: "g_nodes (abs s) i = Some n \<longleftrightarrow> n \<in> set ?ns \<and> n_ID n = i" for n
      unfolding ns using stored_nodes [OF wf ok] by blast
    show "p \<in> (\<Union>n \<in> set ?ns. {n_ID n} \<times> node_cards libs ?filed n) \<longleftrightarrow> p \<in> {(i, x). \<exists>info.
        library_of (sl_purl libs) (g_nodes (abs s)) i info \<and> x \<in> filed_cards libs results info}"
      unfolding cards library_of_def p UN_iff mem_Sigma_iff mem_Collect_eq prod.case singleton_iff id by blast
  qed
  with s'(3) have "attached {(i, x). \<exists>info. library_of (sl_purl libs) (g_nodes (abs s)) i info
      \<and> x \<in> filed_cards libs results info} (abs s) (abs s')" by (simp only:)
  moreover have "Scorecards ro libs st s data = (s', Inr ())"
    using data s'(1) by (simp add: Scorecards_def read(1,2))
  ultimately show ?thesis using s'(2) by blast
qed

end

section \<open>Properties\<close>


definition sample_result :: "unit scorecard_result" where
  "sample_result = \<lparr>sr_PURL = ''pkg:npm/a@1'', sr_Success = True,
     sr_Scorecard = \<lparr>sd_Date = '''', sd_Repo = \<lparr>rp_Name = '''', rp_Commit = ''''\<rparr>,
       sd_Scorecard = \<lparr>sc_Version = '''', sc_Commit = ''''\<rparr>, sd_Score = (), sd_Checks = [], sd_PURL = ''''\<rparr>,
     sr_Error = '''', sr_GitHubURL = ''''\<rparr>"

definition sample_card_libs :: "string \<Rightarrow> unit scorecard_libs" where
  "sample_card_libs ns = \<lparr>sl_purl = (\<lambda>_. Inr \<lparr>pu_Type = ''npm'', pu_Namespace = ns, pu_Name = ''a'', pu_Version = ''1''\<rparr>),
     sl_Unmarshal = (\<lambda>_. Inr [sample_result]), sl_metadata = (\<lambda>_. MOther ''card'')\<rparr>"





text \<open>
  C35. A result is filed under the bare name of its package, but looked up under the name with its
  namespace: for a package URL with a namespace (Debian and Alpine apart), the result of the very
  package URL that names a library is not filed under that library's name, so it is never linked.
\<close>

theorem namespaced_result_unfiled:
  assumes "purl (sr_PURL r) = Inr u" and "pu_Namespace u \<noteq> ''''"
    and "getPURLEcosystem u \<noteq> ''Debian''" and "getPURLEcosystem u \<noteq> ''Alpine''"
    and "PURLToPackage purl (sr_PURL r) = Inr info"
  shows "file_results purl [r] Map.empty (pi_Name info) = None"
proof -
  have "length (pi_Name info) > length (pu_Name u)"
    using assms by (auto simp: PURLToPackage_def Let_def split: if_splits)
  then have "pi_Name info \<noteq> pu_Name u" by auto
  with assms(1) show ?thesis by simp
qed

theorem namespaced_result_unfiled_witness:
  "file_results (sl_purl (sample_card_libs ''@org'')) [sample_result] Map.empty ''@org/a'' = None"
  using namespaced_result_unfiled [of "sl_purl (sample_card_libs ''@org'')" sample_result
      "\<lparr>pu_Type = ''npm'', pu_Namespace = ''@org'', pu_Name = ''a'', pu_Version = ''1''\<rparr>"
      "\<lparr>pi_Name = ''@org/a'', pi_Version = ''1'', pi_Ecosystem = ''npm'', pi_Commit = ''''\<rparr>"]
  by (simp add: sample_card_libs_def PURLToPackage_def getPURLEcosystem_def purlEcosystems_def)

end
