(* ===== verification/Go_Heap.thy ===== *)
theory Go_Heap
  imports Go_Sort
begin

text \<open>
  Go's \<open>container/heap\<close> on a slice, with the comparison as an argument, and the interface of a queue
  that gives back its least element.
\<close>

section \<open>The operations\<close>

definition swap :: "'a list \<Rightarrow> nat \<Rightarrow> nat \<Rightarrow> 'a list" where
  "swap xs i j = xs[i := xs ! j, j := xs ! i]"

fun heap_up :: "('a \<Rightarrow> 'a \<Rightarrow> bool) \<Rightarrow> 'a list \<Rightarrow> nat \<Rightarrow> 'a list" where
  "heap_up lt xs j =
     (if j = 0 then xs
      else
        (let i = (j - 1) div 2
         in if \<not> lt (xs ! j) (xs ! i) then xs else heap_up lt (swap xs i j) i))"

declare heap_up.simps [simp del]

function heap_down :: "('a \<Rightarrow> 'a \<Rightarrow> bool) \<Rightarrow> 'a list \<Rightarrow> nat \<Rightarrow> nat \<Rightarrow> 'a list" where
  "heap_down lt xs i n =
     (if n \<le> 2 * i + 1 then xs
      else
        (let j = (if 2 * i + 2 < n \<and> lt (xs ! (2 * i + 2)) (xs ! (2 * i + 1)) then 2 * i + 2 else 2 * i + 1)
         in if \<not> lt (xs ! j) (xs ! i) then xs else heap_down lt (swap xs i j) j n))"
  by pat_completeness auto
termination heap_down
  by (relation "measure (\<lambda>(lt, xs, i, n). n - i)") (auto simp: Let_def split: if_splits)

declare heap_down.simps [simp del]

definition heap_Push :: "('a \<Rightarrow> 'a \<Rightarrow> bool) \<Rightarrow> 'a \<Rightarrow> 'a list \<Rightarrow> 'a list" where
  "heap_Push lt x h = heap_up lt (h @ [x]) (length h)"

text \<open>\<open>Pop\<close> on an empty slice panics in Go; its callers test the length.\<close>

definition heap_Pop :: "('a \<Rightarrow> 'a \<Rightarrow> bool) \<Rightarrow> 'a list \<Rightarrow> 'a \<times> 'a list" where
  "heap_Pop lt h =
     (let n = length h - 1; h1 = heap_down lt (swap h 0 n) 0 n in (h1 ! n, take n h1))"

section \<open>A queue that gives back its least element\<close>

locale min_queue =
  fixes lt :: "'a \<Rightarrow> 'a \<Rightarrow> bool"
    and inv :: "'q \<Rightarrow> bool"
    and elems :: "'q \<Rightarrow> 'a multiset"
    and push :: "'a \<Rightarrow> 'q \<Rightarrow> 'q"
    and pop :: "'q \<Rightarrow> 'a \<times> 'q"
  assumes push: "inv q \<Longrightarrow> inv (push x q) \<and> elems (push x q) = add_mset x (elems q)"
    and pop: "inv q \<Longrightarrow> elems q \<noteq> {#} \<Longrightarrow> pop q = (x, q') \<Longrightarrow>
      inv q' \<and> elems q = add_mset x (elems q') \<and> (\<forall>y \<in># elems q. \<not> lt y x)"
begin

text \<open>Pushing a list and popping everything sorts it.\<close>

fun drain :: "nat \<Rightarrow> 'q \<Rightarrow> 'a list" where
  "drain 0 q = []"
| "drain (Suc n) q = (let (x, q') = pop q in x # drain n q')"

lemma push_all: "inv q \<Longrightarrow> inv (fold push xs q) \<and> elems (fold push xs q) = elems q + mset xs"
proof (induction xs arbitrary: q)
  case (Cons x xs)
  from Cons.IH [of "push x q"] push [OF Cons.prems] show ?case by simp
qed simp

lemma drain_sorted:
  assumes "inv q" and "size (elems q) = n"
  shows "mset (drain n q) = elems q \<and> sorted_wrt (\<lambda>a b. \<not> lt b a) (drain n q)"
  using assms
proof (induction n arbitrary: q)
  case (Suc n)
  obtain x q' where p: "pop q = (x, q')" by fastforce
  have ne: "elems q \<noteq> {#}" using Suc.prems(2) by auto
  have q': "inv q'" "elems q = add_mset x (elems q')" "\<forall>y \<in># elems q. \<not> lt y x"
    using pop [OF Suc.prems(1) ne p] by blast+
  have "size (elems q') = n" using q'(2) Suc.prems(2) by simp
  from Suc.IH [OF q'(1) this] have IH: "mset (drain n q') = elems q'" "sorted_wrt (\<lambda>a b. \<not> lt b a) (drain n q')"
    by blast+
  have "\<not> lt y x" if "y \<in> set (drain n q')" for y
  proof -
    have "y \<in># elems q'" using that IH(1) by (metis set_mset_mset)
    then show ?thesis using q'(2,3) by simp
  qed
  with IH q'(2) show ?case by (simp add: p)
qed simp

end

section \<open>The heap is such a queue\<close>

lemma length_swap [simp]: "length (swap xs i j) = length xs"
  by (simp add: swap_def)

lemma mset_swap' [simp]: "i < length xs \<Longrightarrow> j < length xs \<Longrightarrow> mset (swap xs i j) = mset xs"
  unfolding swap_def by (rule mset_swap)

lemma nth_swap: "i < length xs \<Longrightarrow> j < length xs \<Longrightarrow> k < length xs \<Longrightarrow>
    swap xs i j ! k = (if k = j then xs ! i else if k = i then xs ! j else xs ! k)"
  by (simp add: swap_def nth_list_update)

definition parent_of :: "nat \<Rightarrow> nat" where
  "parent_of j = (j - 1) div 2"

lemma parent_less: "0 < j \<Longrightarrow> parent_of j < j"
  by (simp add: parent_of_def)

lemma parent_iff: "0 < k \<Longrightarrow> parent_of k = i \<longleftrightarrow> k = 2 * i + 1 \<or> k = 2 * i + 2"
  by (auto simp: parent_of_def)

text \<open>The first \<open>n\<close> elements are in heap order, but for \<open>k\<close> and its parent where \<open>P k\<close>.\<close>

definition heap_but :: "('a \<Rightarrow> 'a \<Rightarrow> bool) \<Rightarrow> (nat \<Rightarrow> bool) \<Rightarrow> nat \<Rightarrow> 'a list \<Rightarrow> bool" where
  "heap_but lt P n xs \<longleftrightarrow> (\<forall>k < n. 0 < k \<longrightarrow> \<not> P k \<longrightarrow> \<not> lt (xs ! k) (xs ! parent_of k))"

definition is_heap :: "('a \<Rightarrow> 'a \<Rightarrow> bool) \<Rightarrow> 'a list \<Rightarrow> bool" where
  "is_heap lt xs \<longleftrightarrow> heap_but lt (\<lambda>_. False) (length xs) xs"

lemma heap_least:
  assumes w: "weak_order_on UNIV lt" and h: "heap_but lt (\<lambda>_. False) n xs"
  shows "k < n \<Longrightarrow> \<not> lt (xs ! k) (xs ! 0)"
proof (induction k rule: less_induct)
  case (less k)
  show ?case
  proof (cases "k = 0")
    case True
    then show ?thesis using w unfolding weak_order_on_def by blast
  next
    case False
    then have "\<not> lt (xs ! parent_of k) (xs ! 0)" using less parent_less [of k] by simp
    moreover have "\<not> lt (xs ! k) (xs ! parent_of k)" using h less(2) False unfolding heap_but_def by blast
    ultimately show ?thesis using w unfolding weak_order_on_def by blast
  qed
qed

lemma weak_asym: "weak_order_on UNIV lt \<Longrightarrow> lt x y \<Longrightarrow> \<not> lt y x"
  unfolding weak_order_on_def by blast

lemma weak_trans: "weak_order_on UNIV lt \<Longrightarrow> \<not> lt y x \<Longrightarrow> \<not> lt z y \<Longrightarrow> \<not> lt z x"
  unfolding weak_order_on_def by blast

lemma heap_butD: "heap_but lt P n xs \<Longrightarrow> k < n \<Longrightarrow> 0 < k \<Longrightarrow> \<not> P k \<Longrightarrow> \<not> lt (xs ! k) (xs ! parent_of k)"
  unfolding heap_but_def by blast

lemma heap_up_ok:
  assumes w: "weak_order_on UNIV lt"
  shows "j < length xs \<Longrightarrow> heap_but lt (\<lambda>k. k = j) (length xs) xs \<Longrightarrow>
     (\<And>k. k < length xs \<Longrightarrow> 0 < k \<Longrightarrow> 0 < j \<Longrightarrow> parent_of k = j \<Longrightarrow> \<not> lt (xs ! k) (xs ! parent_of j)) \<Longrightarrow>
     is_heap lt (heap_up lt xs j) \<and> mset (heap_up lt xs j) = mset xs"
proof (induction j arbitrary: xs rule: less_induct)
  case (less j)
  note h = heap_butD [OF less.prems(2)]
  show ?case
  proof (cases "j = 0 \<or> \<not> lt (xs ! j) (xs ! parent_of j)")
    case True
    then have "heap_up lt xs j = xs" by (subst heap_up.simps) (auto simp: parent_of_def Let_def)
    moreover have "is_heap lt xs" unfolding is_heap_def heap_but_def
    proof (intro allI impI)
      fix k assume k: "k < length xs" "0 < k"
      show "\<not> lt (xs ! k) (xs ! parent_of k)" using True k h [OF k] by (cases "k = j") auto
    qed
    ultimately show ?thesis by simp
  next
    case False
    let ?i = "parent_of j" and ?ys = "swap xs (parent_of j) j"
    have i: "?i < j" "?i < length xs" using False parent_less [of j] less.prems(1) by simp_all
    have lt: "lt (xs ! j) (xs ! ?i)" using False by blast
    note nth = nth_swap [OF i(2) less.prems(1)]
    have run: "heap_up lt xs j = heap_up lt ?ys ?i" using False by (subst heap_up.simps) (simp add: parent_of_def Let_def)
    have "is_heap lt (heap_up lt ?ys ?i) \<and> mset (heap_up lt ?ys ?i) = mset ?ys"
    proof (rule less.IH [OF i(1)])
      show "?i < length ?ys" using i by simp
      show "heap_but lt (\<lambda>k. k = ?i) (length ?ys) ?ys" unfolding heap_but_def
      proof (intro allI impI)
        fix k assume "k < length ?ys" "0 < k" "k \<noteq> ?i"
        then have k: "k < length xs" "0 < k" "k \<noteq> ?i" by simp_all
        have p: "parent_of k < length xs" using parent_less [OF k(2)] k(1) by simp
        consider "k = j" | "k \<noteq> j" "parent_of k = j" | "k \<noteq> j" "parent_of k = ?i" | "k \<noteq> j" "parent_of k \<noteq> j" "parent_of k \<noteq> ?i"
          by blast
        then show "\<not> lt (?ys ! k) (?ys ! parent_of k)"
        proof cases
          case 1
          then show ?thesis using weak_asym [OF w lt] i by (simp add: nth [OF less.prems(1)] nth [OF i(2)])
        next
          case 2
          then show ?thesis using less.prems(3) [OF k(1,2)] False
            by (simp add: nth [OF k(1)] nth [OF less.prems(1)] k(3))
        next
          case 3
          then show ?thesis using weak_trans [OF w weak_asym [OF w lt]] h [OF k(1,2)] i
            by (simp add: nth [OF k(1)] nth [OF i(2)] k(3))
        next
          case 4
          then show ?thesis using h [OF k(1,2)] by (simp add: nth [OF k(1)] nth [OF p] k(3))
        qed
      qed
      fix k assume "k < length ?ys" and k0: "0 < k" "0 < ?i" "parent_of k = ?i"
      then have k: "k < length xs" "k \<noteq> ?i" using parent_less [OF k0(1)] by auto
      have pp: "parent_of ?i < ?i" "parent_of ?i < length xs" using parent_less [OF k0(2)] i by simp_all
      have up: "\<not> lt (xs ! ?i) (xs ! parent_of ?i)" using h [OF i(2) k0(2)] i by simp
      show "\<not> lt (?ys ! k) (?ys ! parent_of ?i)"
      proof (cases "k = j")
        case True
        then show ?thesis using up pp i by (simp add: nth [OF less.prems(1)] nth [OF pp(2)])
      next
        case False
        then have "\<not> lt (xs ! k) (xs ! ?i)" using h [OF k(1) k0(1)] k0(3) by simp
        then show ?thesis using weak_trans [OF w up] pp i False k(2) by (simp add: nth [OF k(1)] nth [OF pp(2)])
      qed
    qed
    then show ?thesis using i less.prems(1) by (simp add: run)
  qed
qed

lemma heap_down_ok:
  assumes w: "weak_order_on UNIV lt"
  shows "n \<le> length xs \<Longrightarrow> i < n \<or> n = 0 \<Longrightarrow> heap_but lt (\<lambda>k. parent_of k = i) n xs \<Longrightarrow>
     (\<And>k. k < n \<Longrightarrow> 0 < k \<Longrightarrow> 0 < i \<Longrightarrow> parent_of k = i \<Longrightarrow> \<not> lt (xs ! k) (xs ! parent_of i)) \<Longrightarrow>
     heap_but lt (\<lambda>_. False) n (heap_down lt xs i n) \<and> mset (heap_down lt xs i n) = mset xs
       \<and> (\<forall>k \<ge> n. heap_down lt xs i n ! k = xs ! k) \<and> length (heap_down lt xs i n) = length xs"
proof (induction "n - i" arbitrary: xs i rule: less_induct)
  case less
  note h = heap_butD [OF less.prems(3)]
  define j where "j = (if 2 * i + 2 < n \<and> lt (xs ! (2 * i + 2)) (xs ! (2 * i + 1)) then 2 * i + 2 else 2 * i + 1)"
  have irrefl: "\<not> lt x x" for x using weak_asym [OF w] by blast
  have least: "\<not> lt (xs ! k) (xs ! j)" if k: "k < n" "0 < k" "parent_of k = i" for k
  proof -
    consider "k = 2 * i + 1" | "k = 2 * i + 2" using parent_iff [OF k(2), of i] k(3) by blast
    then show ?thesis
    proof cases
      case 1
      then show ?thesis using weak_asym [OF w] irrefl by (simp add: j_def)
    next
      case 2
      then show ?thesis using k(1) irrefl by (simp add: j_def)
    qed
  qed
  show ?case
  proof (cases "n \<le> 2 * i + 1 \<or> \<not> lt (xs ! j) (xs ! i)")
    case True
    then have run: "heap_down lt xs i n = xs"
      unfolding heap_down.simps [of lt xs i n] Let_def j_def [symmetric] by auto
    have "heap_but lt (\<lambda>_. False) n xs" unfolding heap_but_def
    proof (intro allI impI)
      fix k assume k: "k < n" "0 < k"
      show "\<not> lt (xs ! k) (xs ! parent_of k)"
      proof (cases "parent_of k = i")
        case False
        then show ?thesis using h [OF k] by simp
      next
        case c: True
        then have "k = 2 * i + 1 \<or> k = 2 * i + 2" using parent_iff [OF k(2)] by simp
        then have ge: "\<not> lt (xs ! j) (xs ! i)" using True k(1) by auto
        show ?thesis using weak_trans [OF w ge least [OF k c]] c by simp
      qed
    qed
    with run show ?thesis by simp
  next
    case False
    then have j: "j < n" "0 < j" "parent_of j = i" "i < j" and lt: "lt (xs ! j) (xs ! i)"
      by (auto simp: j_def parent_of_def)
    let ?ys = "swap xs i j"
    have il: "i < length xs" "j < length xs" using j less.prems(1) by simp_all
    note nth = nth_swap [OF il]
    have run: "heap_down lt xs i n = heap_down lt ?ys j n"
      using False unfolding heap_down.simps [of lt xs i n] Let_def j_def [symmetric] by auto
    have "heap_but lt (\<lambda>_. False) n (heap_down lt ?ys j n) \<and> mset (heap_down lt ?ys j n) = mset ?ys
       \<and> (\<forall>k \<ge> n. heap_down lt ?ys j n ! k = ?ys ! k) \<and> length (heap_down lt ?ys j n) = length ?ys"
    proof (rule less.hyps)
      show "n - j < n - i" "n \<le> length ?ys" "j < n \<or> n = 0" using j less.prems(1) by simp_all
      show "heap_but lt (\<lambda>k. parent_of k = j) n ?ys" unfolding heap_but_def
      proof (intro allI impI)
        fix k assume k: "k < n" "0 < k" "parent_of k \<noteq> j"
        have kl: "k < length xs" "parent_of k < length xs" "parent_of k < k" using k less.prems(1) parent_less [OF k(2)] by simp_all
        consider "k = j" | "k = i" | "k \<noteq> j" "k \<noteq> i" "parent_of k = i" | "k \<noteq> j" "k \<noteq> i" "parent_of k \<noteq> i" by blast
        then show "\<not> lt (?ys ! k) (?ys ! parent_of k)"
        proof cases
          case 1
          then show ?thesis using weak_asym [OF w lt] j by (simp add: nth [OF il(1)] nth [OF il(2)])
        next
          case 2
          then have p: "parent_of i < length xs" "parent_of i < i" "0 < i" using kl k(2) by simp_all
          show ?thesis using less.prems(4) [OF j(1,2) p(3) j(3)] p j(4) unfolding 2 by (simp add: nth [OF il(1)] nth [OF p(1)])
        next
          case 3
          then show ?thesis using least [OF k(1,2)] j by (simp add: nth [OF kl(1)] nth [OF il(1)])
        next
          case 4
          then show ?thesis using h [OF k(1,2)] k(3) by (simp add: nth [OF kl(1)] nth [OF kl(2)])
        qed
      qed
      fix k assume k: "k < n" "0 < k" "0 < j" "parent_of k = j"
      have "j < k" using parent_less [OF k(2)] k(4) by simp
      moreover have "\<not> lt (xs ! k) (xs ! j)" using h [OF k(1,2)] k(4) j by simp
      ultimately show "\<not> lt (?ys ! k) (?ys ! parent_of j)"
        using j k(1) less.prems(1) by (simp add: nth [OF il(1)] nth [of k])
    qed
    moreover have "\<forall>k \<ge> n. ?ys ! k = xs ! k" using j by (auto simp: swap_def)
    ultimately show ?thesis using il by (simp add: run)
  qed
qed

lemma heap_Push_ok:
  assumes "weak_order_on UNIV lt" and "is_heap lt h"
  shows "is_heap lt (heap_Push lt x h) \<and> mset (heap_Push lt x h) = add_mset x (mset h)"
proof -
  have "heap_but lt (\<lambda>k. k = length h) (length (h @ [x])) (h @ [x])"
    unfolding heap_but_def
  proof (intro allI impI)
    fix k assume "k < length (h @ [x])" "0 < k" "k \<noteq> length h"
    then have k: "k < length h" "0 < k" "parent_of k < length h" using parent_less [of k] by auto
    then show "\<not> lt ((h @ [x]) ! k) ((h @ [x]) ! parent_of k)"
      using assms(2) unfolding is_heap_def by (simp add: nth_append heap_butD)
  qed
  moreover have "\<not> lt ((h @ [x]) ! k) ((h @ [x]) ! parent_of (length h))"
    if "k < length (h @ [x])" "0 < k" "parent_of k = length h" for k
    using that parent_less [of k] by simp
  ultimately show ?thesis using heap_up_ok [OF assms(1), of "length h" "h @ [x]"] by (simp add: heap_Push_def)
qed

lemma heap_Pop_ok:
  assumes w: "weak_order_on UNIV lt" and h: "is_heap lt h" and ne: "h \<noteq> []" and p: "heap_Pop lt h = (x, h')"
  shows "is_heap lt h' \<and> mset h = add_mset x (mset h') \<and> (\<forall>y \<in> set h. \<not> lt y x)"
proof -
  obtain n where n: "length h = Suc n" using ne by (cases h) auto
  let ?ys = "swap h 0 n" and ?zs = "heap_down lt (swap h 0 n) 0 n"
  have len: "0 < length h" "n < length h" using n by auto
  note nth = nth_swap [OF len]
  have hb: "heap_but lt (\<lambda>k. parent_of k = 0) n ?ys"
    unfolding heap_but_def
  proof (intro allI impI)
    fix k assume k: "k < n" "0 < k" "parent_of k \<noteq> 0"
    have kl: "k < length h" "parent_of k < length h" "parent_of k < k" using k len parent_less [OF k(2)] by simp_all
    show "\<not> lt (?ys ! k) (?ys ! parent_of k)"
      using heap_butD [OF h [unfolded is_heap_def] kl(1) k(2)] k kl by (simp add: nth [OF kl(1)] nth [OF kl(2)])
  qed
  have z: "heap_but lt (\<lambda>_. False) n ?zs" "mset ?zs = mset ?ys" "\<forall>k \<ge> n. ?zs ! k = ?ys ! k" "length ?zs = length ?ys"
    using heap_down_ok [OF w _ _ hb] len by auto
  have last: "?zs ! n = h ! 0" using z(3) len by (simp add: nth)
  have x: "x = h ! 0" and h': "h' = take n ?zs"
    using p last by (simp_all add: heap_Pop_def Let_def n)
  have "is_heap lt h'"
    unfolding is_heap_def heap_but_def
  proof (intro allI impI)
    fix k assume "k < length h'" "0 < k"
    then have k: "k < n" "0 < k" "parent_of k < n" using parent_less [of k] by (simp_all add: h')
    then show "\<not> lt (h' ! k) (h' ! parent_of k)" using heap_butD [OF z(1) k(1,2)] by (simp add: h')
  qed
  moreover have "mset h = add_mset x (mset h')"
  proof -
    have "length ?zs = Suc n" using z(4) n by simp
    then have "?zs = h' @ [?zs ! n]" unfolding h' using take_Suc_conv_app_nth [of n ?zs] by simp
    from arg_cong [OF this, of mset] have "mset ?zs = add_mset (?zs ! n) (mset h')" by simp
    then show ?thesis using z(2) len x last by simp
  qed
  moreover have "\<not> lt y x" if "y \<in> set h" for y
    using that heap_least [OF w h [unfolded is_heap_def]] unfolding x by (metis in_set_conv_nth)
  ultimately show ?thesis by blast
qed

end
