(* ===== verification/Service.thy ===== *)
theory Service
  imports Report_Props Query_Lang Sbom Scorecard Go_Heap
begin

text \<open>
  The API service, \<open>api/v1\<close>: every handler of \<open>service.go\<close> and \<open>report.go\<close> over the state of the service,
  which is the back end and the cached index of libraries. A request is a value of its fields; transport,
  headers and status codes are left out. Handlers run one at a time here; the goroutines of
  \<open>CustomLeaderboard\<close> are a schedule.
\<close>

section \<open>The service\<close>

record 's service =
  sv_storage :: "'s storage"
  sv_state :: 's
  sv_concurrency :: int
  sv_libraries :: "library_index option"

definition NewService :: "'s storage \<Rightarrow> 's \<Rightarrow> int \<Rightarrow> 's service" where
  "NewService st s concurrency =
     \<lparr>sv_storage = st, sv_state = s, sv_concurrency = concurrency, sv_libraries = None\<rparr>"

definition invalidateLibraries :: "'s service \<Rightarrow> 's service" where
  "invalidateLibraries sv = sv\<lparr>sv_libraries := None\<rparr>"

text \<open>What the service calls outside the sources.\<close>

record ('v, 'f) service_libs =
  li_Marshal :: "metadata \<Rightarrow> string res"
  li_parse :: "string \<Rightarrow> expression res"
  li_sha :: "string \<Rightarrow> string"
  li_sbom :: "string \<Rightarrow> node_list option res"
  li_osv :: "'v osv_libs"
  li_scorecard :: "'f scorecard_libs"
  li_prio :: prio_libs

section \<open>Nodes\<close>

record service_node =
  nd_Id :: id
  nd_Name :: string
  nd_Type :: string
  nd_Metadata :: string
  nd_Dependencies :: "id list"
  nd_Dependents :: "id list"

definition NodeToServiceNode :: "(metadata \<Rightarrow> string res) \<Rightarrow> node \<Rightarrow> service_node res" where
  "NodeToServiceNode marshal n =
     bind_res (marshal (n_Metadata n)) (\<lambda>data.
       Inr \<lparr>nd_Id = n_ID n, nd_Name = n_Name n, nd_Type = n_Type n, nd_Metadata = data,
            nd_Dependencies = to_array (n_Children n), nd_Dependents = to_array (n_Parents n)\<rparr>)"

definition GetNode_handler :: "('v, 'f) service_libs \<Rightarrow> 's service \<Rightarrow> id \<Rightarrow> service_node res" where
  "GetNode_handler libs sv i =
     bind_res (ctx ''failed to get node by id'' (st_GetNode (sv_storage sv) (sv_state sv) i)) (\<lambda>n.
       ctx ''failed to convert node to service node'' (NodeToServiceNode (li_Marshal libs) n))"

definition GetNodeByName_handler :: "('v, 'f) service_libs \<Rightarrow> 's service \<Rightarrow> string \<Rightarrow> service_node res" where
  "GetNodeByName_handler libs sv name =
     bind_res (ctx ''failed to get node by name'' (st_NameToID (sv_storage sv) (sv_state sv) name)) (\<lambda>i.
     bind_res (ctx ''failed to get node by id'' (st_GetNode (sv_storage sv) (sv_state sv) i)) (\<lambda>n.
       ctx ''failed to convert node to service node'' (NodeToServiceNode (li_Marshal libs) n)))"

definition service_nodes :: "('v, 'f) service_libs \<Rightarrow> node list \<Rightarrow> service_node list res" where
  "service_nodes libs ns =
     map_res (\<lambda>n. ctx ''failed to convert node to service node'' (NodeToServiceNode (li_Marshal libs) n)) ns"

definition GetNodesByGlob_handler :: "('v, 'f) service_libs \<Rightarrow> 's service \<Rightarrow> string \<Rightarrow> service_node list res" where
  "GetNodesByGlob_handler libs sv pattern =
     bind_res (ctx ''failed to get nodes by glob'' (st_GetNodesByGlob (sv_storage sv) (sv_state sv) pattern))
       (service_nodes libs)"

text \<open>The node of the request is a pointer.\<close>

definition AddNode_handler ::
  "('v, 'f) service_libs \<Rightarrow> 's service \<Rightarrow> service_node option \<Rightarrow> 's service \<times> service_node res" where
  "AddNode_handler libs sv req =
     (case req of
        None \<Rightarrow> (sv, Inl (Panic ''nil pointer dereference''))
      | Some n \<Rightarrow>
          (let r = AddNode (sv_storage sv) (sv_state sv) (nd_Type n) (MBytes (nd_Metadata n)) (nd_Name n);
               sv1 = invalidateLibraries (sv\<lparr>sv_state := fst r\<rparr>)
           in (sv1, bind_res (ctx ''failed to add node'' (snd r)) (\<lambda>resultNode.
                ctx ''failed to convert node to service node'' (NodeToServiceNode (li_Marshal libs) resultNode)))))"

definition SetDependency_handler :: "'s service \<Rightarrow> id \<Rightarrow> id \<Rightarrow> 's service \<times> unit res" where
  "SetDependency_handler sv nodeId dependencyID =
     (case st_GetNode (sv_storage sv) (sv_state sv) nodeId of
        Inl e \<Rightarrow> (sv, Inl e)
      | Inr fromNode \<Rightarrow>
          (case st_GetNode (sv_storage sv) (sv_state sv) dependencyID of
             Inl e \<Rightarrow> (sv, Inl e)
           | Inr toNode \<Rightarrow>
               (let r = SetDependency (Some (sv_storage sv)) (sv_state sv) (Some fromNode) (Some toNode)
                in (sv\<lparr>sv_state := fst (fst r)\<rparr>, snd r))))"

section \<open>The cache\<close>

definition Cache_handler ::
  "('v, 'f) service_libs \<Rightarrow> range_order \<Rightarrow> 's service \<Rightarrow> ('s service \<times> unit res) option" where
  "Cache_handler libs ro sv =
     map_option (\<lambda>r. (sv\<lparr>sv_state := fst r\<rparr>, ctx ''failed to cache'' (snd r)))
       (Cache ro (li_sha libs) (sv_storage sv) (sv_state sv))"

definition Clear_handler :: "'s service \<Rightarrow> 's service \<times> unit res" where
  "Clear_handler sv =
     (let r = st_RemoveAllCaches (sv_storage sv) (sv_state sv)
      in (sv\<lparr>sv_state := fst r\<rparr>, ctx ''failed to clear'' (snd r)))"

section \<open>Queries\<close>

definition AllKeys_handler :: "('v, 'f) service_libs \<Rightarrow> range_order \<Rightarrow> 's service \<Rightarrow> service_node list res" where
  "AllKeys_handler libs ro sv =
     bind_res (ctx ''failed to get all keys'' (st_GetAllKeys (sv_storage sv) (sv_state sv))) (\<lambda>ks.
     bind_res (ctx ''failed to get nodes by keys'' (st_GetNodes (sv_storage sv) (sv_state sv) ks)) (\<lambda>nodes.
       service_nodes libs (map snd (go_range ro 0 nodes))))"

text \<open>The evaluation of the script has range statements of its own, in the order \<open>pro\<close>.\<close>

definition evaluate ::
  "('v, 'f) service_libs \<Rightarrow> range_order \<Rightarrow> 's service \<Rightarrow> string \<Rightarrow> string \<Rightarrow> (id \<times> node) list \<Rightarrow> (id \<times> node_cache) list
    \<Rightarrow> id list \<Rightarrow> bitmap res" where
  "evaluate libs pro sv script name nodes caches cacheStack =
     ParseAndExecute pro (li_parse libs) script (Some (sv_storage sv)) (sv_state sv) name
       (map (\<lambda>(i, n). (i, Some n)) nodes) (map_of caches) (length cacheStack = 0)"

definition Query_handler ::
  "('v, 'f) service_libs \<Rightarrow> range_order \<Rightarrow> range_order \<Rightarrow> 's service \<Rightarrow> string option \<Rightarrow> service_node list res" where
  "Query_handler libs ro pro sv req =
     (case req of
        None \<Rightarrow> Inl (Err ''request is nil'')
      | Some script \<Rightarrow>
          (let st = sv_storage sv; s = sv_state sv
           in bind_res (ctx ''failed to get all keys'' (st_GetAllKeys st s)) (\<lambda>ks.
              bind_res (ctx ''failed to get nodes by keys'' (st_GetNodes st s ks)) (\<lambda>nodes.
              bind_res (ctx ''failed to get caches by keys'' (st_GetCaches st s ks)) (\<lambda>caches.
              bind_res (ctx ''failed to get to be cached nodes'' (st_ToBeCached st s)) (\<lambda>cacheStack.
              bind_res (ctx ''failed to parse and execute script''
                (evaluate libs pro sv script '''' nodes caches cacheStack)) (\<lambda>result.
              bind_res (ctx ''failed to get nodes by ids'' (st_GetNodes st s (to_array result))) (\<lambda>outputNodes.
                service_nodes libs (map snd (go_range ro 0 outputNodes))))))))))"

section \<open>The leaderboard\<close>

record leader_query =
  lq_Node :: node
  lq_Output :: "id list"

definition queryHeap_Less :: "leader_query \<Rightarrow> leader_query \<Rightarrow> bool" where
  "queryHeap_Less a b \<longleftrightarrow> length (lq_Output a) < length (lq_Output b)"

lemma queryHeap_order: "weak_order_on A queryHeap_Less"
  unfolding queryHeap_Less_def [abs_def] by simp

interpretation qh: min_queue queryHeap_Less "is_heap queryHeap_Less" mset
  "heap_Push queryHeap_Less" "heap_Pop queryHeap_Less"
proof unfold_locales
  fix h :: "leader_query list" and x
  assume "is_heap queryHeap_Less h"
  then show "is_heap queryHeap_Less (heap_Push queryHeap_Less x h)
      \<and> mset (heap_Push queryHeap_Less x h) = add_mset x (mset h)"
    by (rule heap_Push_ok [OF queryHeap_order])
next
  fix h h' :: "leader_query list" and x
  assume "is_heap queryHeap_Less h" "mset h \<noteq> {#}" "heap_Pop queryHeap_Less h = (x, h')"
  then show "is_heap queryHeap_Less h' \<and> mset h = add_mset x (mset h') \<and> (\<forall>y \<in># mset h. \<not> queryHeap_Less y x)"
    using heap_Pop_ok [OF queryHeap_order, of h x h'] unfolding set_mset_mset mset_zero_iff by blast
qed

text \<open>
  A schedule of the goroutines: the order in which they deliver their result or error, and how many have
  done so when the handler looks for an error. At most \<open>c\<close> of them run at a time, and the handler looks
  after it has started the last one.
\<close>

record schedule =
  sc_order :: "nat list"
  sc_seen :: nat

definition schedule_ok :: "nat \<Rightarrow> nat \<Rightarrow> schedule \<Rightarrow> bool" where
  "schedule_ok c n sc \<longleftrightarrow> mset (sc_order sc) = mset [0..<n] \<and> n - c \<le> sc_seen sc \<and> sc_seen sc \<le> n
     \<and> list_all (\<lambda>p. sc_order sc ! p < p + c) [0..<n]"

fun delivered :: "leader_query res list \<Rightarrow> leader_query list" where
  "delivered [] = []"
| "delivered (Inl e # rs) = delivered rs"
| "delivered (Inr q # rs) = q # delivered rs"

text \<open>Popping the heap fills the answer from its end.\<close>

fun pop_queries ::
  "(metadata \<Rightarrow> string res) \<Rightarrow> nat \<Rightarrow> leader_query list \<Rightarrow> (service_node \<times> id list) list \<Rightarrow> (service_node \<times> id list) list res" where
  "pop_queries marshal 0 h acc = Inr acc"
| "pop_queries marshal (Suc n) h acc =
     (let (q, h') = heap_Pop queryHeap_Less h
      in bind_res (NodeToServiceNode marshal (lq_Node q)) (\<lambda>sn. pop_queries marshal n h' ((sn, lq_Output q) # acc)))"

definition goroutine ::
  "('v, 'f) service_libs \<Rightarrow> range_order \<Rightarrow> 's service \<Rightarrow> string \<Rightarrow> (id \<times> node) list \<Rightarrow> (id \<times> node_cache) list
    \<Rightarrow> id list \<Rightarrow> node \<Rightarrow> leader_query res" where
  "goroutine libs pro sv script nodes caches cacheStack n =
     bind_res (evaluate libs pro sv script (n_Name n) nodes caches cacheStack) (\<lambda>b.
       Inr \<lparr>lq_Node = n, lq_Output = to_array b\<rparr>)"

text \<open>
  With the results of the goroutines, in the order of their nodes: a panic in one ends the process; with
  no slot for a goroutine the handler blocks for ever (\<open>None\<close>).
\<close>

definition collect_leaders ::
  "(metadata \<Rightarrow> string res) \<Rightarrow> int \<Rightarrow> schedule \<Rightarrow> leader_query res list \<Rightarrow> (service_node \<times> id list) list res option" where
  "collect_leaders marshal concurrency sc results =
     (if concurrency < 0 then Some (Inl (Panic ''makechan: size out of range''))
      else if concurrency = 0 \<and> 0 < length results then None
      else
        (case first_error (filter (\<lambda>r. case r of Inl e \<Rightarrow> is_panic e | Inr x \<Rightarrow> False) results) of
           Some e \<Rightarrow> Some (Inl e)
         | None \<Rightarrow>
             (let arrived = map (\<lambda>j. results ! j) (sc_order sc)
              in case first_error (take (sc_seen sc) arrived) of
                   Some e \<Rightarrow> Some (Inl e)
                 | None \<Rightarrow>
                     (let h = fold (heap_Push queryHeap_Less) (delivered arrived) []
                      in Some (pop_queries marshal (length h) h [])))))"

definition CustomLeaderboard_handler ::
  "('v, 'f) service_libs \<Rightarrow> range_order \<Rightarrow> (nat \<Rightarrow> range_order) \<Rightarrow> schedule \<Rightarrow> 's service \<Rightarrow> string
    \<Rightarrow> (service_node \<times> id list) list res option" where
  "CustomLeaderboard_handler libs ro pros sc sv script =
     (let st = sv_storage sv; s = sv_state sv
      in case ctx ''failed to get uncached nodes'' (st_ToBeCached st s) of
           Inl e \<Rightarrow> Some (Inl e)
         | Inr uncachedNodes \<Rightarrow>
             if length uncachedNodes \<noteq> 0 then Some (Inl (Err ''cannot use sorted leaderboards without caching''))
             else
               (case bind_res (ctx ''failed to Query keys'' (st_GetAllKeys st s)) (\<lambda>ks.
                     bind_res (ctx ''failed to batch Query nodes from keys'' (st_GetNodes st s ks)) (\<lambda>nodes.
                     bind_res (ctx ''failed to batch Query caches from keys'' (st_GetCaches st s ks)) (\<lambda>caches.
                     bind_res (st_ToBeCached st s) (\<lambda>cacheStack. Inr (nodes, caches, cacheStack))))) of
                  Inl e \<Rightarrow> Some (Inl e)
                | Inr (nodes, caches, cacheStack) \<Rightarrow>
                    (let ns = filter (\<lambda>n. n_Name n \<noteq> '''') (map snd (go_range ro 0 nodes));
                         results = map (\<lambda>(j, n). goroutine libs (pros j) sv script nodes caches cacheStack n) (enumerate 0 ns)
                     in collect_leaders (li_Marshal libs) (sv_concurrency sv) sc results)))"

section \<open>Ingestion\<close>

definition Check_handler :: "string res" where
  "Check_handler = Inr ''ok''"

definition IngestSBOM_handler :: "('v, 'f) service_libs \<Rightarrow> 's service \<Rightarrow> string \<Rightarrow> 's service \<times> unit res" where
  "IngestSBOM_handler libs sv data =
     (let r = SBOM (li_sbom libs) (sv_storage sv) (sv_state sv) data
      in (invalidateLibraries (sv\<lparr>sv_state := fst r\<rparr>), ctx ''failed to ingest sbom'' (snd r)))"

definition IngestVulnerability_handler ::
  "('v, 'f) service_libs \<Rightarrow> range_order \<Rightarrow> 's service \<Rightarrow> string \<Rightarrow> 's service \<times> unit res" where
  "IngestVulnerability_handler libs ro sv data =
     (case (case sv_libraries sv of
              Some idx \<Rightarrow> Inr idx
            | None \<Rightarrow> ctx ''failed to index libraries''
                (BuildLibraryIndex ro (ol_purl (li_osv libs)) (sv_storage sv) (sv_state sv))) of
        Inl e \<Rightarrow> (sv, Inl e)
      | Inr idx \<Rightarrow>
          (let r = VulnerabilitiesWithIndex (li_osv libs) (sv_storage sv) (sv_state sv) data idx
           in (sv\<lparr>sv_libraries := Some idx, sv_state := fst r\<rparr>, ctx ''failed to ingest vulnerability'' (snd r))))"

definition IngestScorecard_handler ::
  "('v, 'f) service_libs \<Rightarrow> range_order \<Rightarrow> 's service \<Rightarrow> string \<Rightarrow> 's service \<times> unit res" where
  "IngestScorecard_handler libs ro sv data =
     (let r = Scorecards ro (li_scorecard libs) (sv_storage sv) (sv_state sv) data
      in (sv\<lparr>sv_state := fst r\<rparr>, ctx ''failed to ingest scorecard'' (snd r)))"

definition counted :: "string \<Rightarrow> 's service \<Rightarrow> 's \<times> nat \<times> unit res \<Rightarrow> 's service \<times> nat res" where
  "counted msg sv r = (sv\<lparr>sv_state := fst r\<rparr>, bind_res (ctx msg (snd (snd r))) (\<lambda>_. Inr (fst (snd r))))"

definition IngestKEV_handler :: "('v, 'f) service_libs \<Rightarrow> 's service \<Rightarrow> string \<Rightarrow> 's service \<times> nat res" where
  "IngestKEV_handler libs sv data =
     counted ''failed to ingest the KEV catalog'' sv (KEV (li_prio libs) (sv_storage sv) (sv_state sv) data)"

definition IngestEPSS_handler ::
  "('v, 'f) service_libs \<Rightarrow> range_order \<Rightarrow> 's service \<Rightarrow> string \<Rightarrow> 's service \<times> nat res" where
  "IngestEPSS_handler libs ro sv data =
     counted ''failed to ingest EPSS scores'' sv (EPSS ro (li_prio libs) (sv_storage sv) (sv_state sv) data)"

definition IngestVEX_handler :: "('v, 'f) service_libs \<Rightarrow> 's service \<Rightarrow> string \<Rightarrow> 's service \<times> nat res" where
  "IngestVEX_handler libs sv data =
     counted ''failed to ingest the VEX document'' sv (VEX (li_prio libs) (sv_storage sv) (sv_state sv) data)"

section \<open>The report\<close>

record kev_message =
  km_CveId :: string
  km_VendorProject :: string
  km_Product :: string
  km_VulnerabilityName :: string
  km_DateAdded :: string
  km_ShortDescription :: string
  km_RequiredAction :: string
  km_DueDate :: string
  km_KnownRansomwareCampaignUse :: string

record product_impact =
  im_Name :: string
  im_Path :: "string list"
  im_Vex :: "vex_statement option"

record finding_message =
  fm_Id :: string
  fm_Aliases :: "string list"
  fm_Summary :: string
  fm_Severity :: string
  fm_Kev :: "kev_message option"
  fm_Epss :: "(float64 \<times> float64 \<times> string) option"
  fm_Packages :: "string list"
  fm_Products :: "product_impact list"
  fm_Suppressed :: "product_impact list"

definition productsToProto :: "product list \<Rightarrow> product_impact list" where
  "productsToProto ps =
     map (\<lambda>p. \<lparr>im_Name = pr_Name p, im_Path = pr_Path p,
               im_Vex = (case pr_VEX p of None \<Rightarrow> None
                         | Some v \<Rightarrow> Some \<lparr>vs_Status = vs_Status v, vs_Justification = vs_Justification v,
                             vs_ImpactStatement = vs_ImpactStatement v, vs_ActionStatement = vs_ActionStatement v,
                             vs_Timestamp = vs_Timestamp v\<rparr>)\<rparr>) ps"

definition findingToProto :: "finding \<Rightarrow> finding_message" where
  "findingToProto f =
     \<lparr>fm_Id = fd_ID f, fm_Aliases = fd_Aliases f, fm_Summary = fd_Summary f, fm_Severity = fd_Severity f,
      fm_Kev = (case fd_KEV f of None \<Rightarrow> None
                | Some k \<Rightarrow> Some \<lparr>km_CveId = ke_CVEID k, km_VendorProject = ke_VendorProject k,
                    km_Product = ke_Product k, km_VulnerabilityName = ke_VulnerabilityName k,
                    km_DateAdded = ke_DateAdded k, km_ShortDescription = ke_ShortDescription k,
                    km_RequiredAction = ke_RequiredAction k, km_DueDate = ke_DueDate k,
                    km_KnownRansomwareCampaignUse = ke_KnownRansomwareCampaignUse k\<rparr>),
      fm_Epss = (case fd_EPSS f of None \<Rightarrow> None | Some e \<Rightarrow> Some (ep_EPSS e, ep_Percentile e, ep_Date e)),
      fm_Packages = fd_Packages f, fm_Products = productsToProto (fd_Products f),
      fm_Suppressed = productsToProto (fd_Suppressed f)\<rparr>"

definition Report_handler ::
  "('v, 'f) service_libs \<Rightarrow> range_order \<Rightarrow> 's service \<Rightarrow> options \<Rightarrow> finding_message list res option" where
  "Report_handler libs ro sv opts =
     map_option (\<lambda>r. bind_res (ctx ''failed to build the report'' r) (\<lambda>fs. Inr (map findingToProto fs)))
       (Build ro (li_prio libs) (sv_storage sv) (sv_state sv) opts)"

end
