(* ===== verification/Store_Steps.thy ===== *)
theory Store_Steps
  imports Service
begin

text \<open>
  Every ingester changes a storage by a sequence of three kinds of calls: it adds a node, links two nodes
  of which it has current copies, or writes custom data. What all sequences keep is proved once, by rule
  induction; that an ingester makes such a sequence holds for every input, also when it stops with an
  error.
\<close>

section \<open>Sequences of calls\<close>

text \<open>\<open>T\<close> are the types that nodes are added with. There is room for the identifier of a new node.\<close>

inductive store_steps ::
  "'s storage \<Rightarrow> ('s \<Rightarrow> gstate) \<Rightarrow> (node \<Rightarrow> node) \<Rightarrow> string set \<Rightarrow> 's \<Rightarrow> 's \<Rightarrow> bool"
  for st ab nf T s0 where
  start: "store_steps st ab nf T s0 s0"
| add: "store_steps st ab nf T s0 s \<Longrightarrow> ty \<in> T \<Longrightarrow> Suc (g_next (ab s)) < 4294967296 \<Longrightarrow>
    AddNode st s ty meta name = (s', r) \<Longrightarrow> store_steps st ab nf T s0 s'"
| link: "store_steps st ab nf T s0 s \<Longrightarrow> n_ID x \<noteq> n_ID y \<Longrightarrow>
    g_nodes (ab s) (n_ID x) = Some (nf x) \<Longrightarrow> g_nodes (ab s) (n_ID y) = Some (nf y) \<Longrightarrow>
    SetDependency (Some st) s (Some x) (Some y) = ((s', x', y'), r) \<Longrightarrow> store_steps st ab nf T s0 s'"
| custom: "store_steps st ab nf T s0 s \<Longrightarrow> tag_ok tag \<Longrightarrow>
    st_AddOrUpdateCustomData st s tag k dk v = (s', r) \<Longrightarrow> store_steps st ab nf T s0 s'"

lemma store_steps_trans:
  assumes "store_steps st ab nf T s1 s2" and "store_steps st ab nf T s0 s1"
  shows "store_steps st ab nf T s0 s2"
  using assms
proof (induction rule: store_steps.induct)
  case (add s ty meta name s' r)
  then show ?case by (blast intro: store_steps.add)
next
  case (link s x y s' x' y' r)
  then show ?case by (blast intro: store_steps.link)
next
  case (custom s tag k dk v s' r)
  then show ?case by (blast intro: store_steps.custom)
qed

text \<open>No library is added, and none is lost.\<close>

definition same_libraries :: "(id \<rightharpoonup> node) \<Rightarrow> (id \<rightharpoonup> node) \<Rightarrow> bool" where
  "same_libraries f g \<longleftrightarrow> keeps_nodes f g \<and> (\<forall>i n. g i = Some n \<longrightarrow> n_Type n = LibraryType \<longrightarrow> i \<in> dom f)"

lemma same_libraries_trans: "same_libraries f g \<Longrightarrow> same_libraries g h \<Longrightarrow> same_libraries f h"
proof -
  assume 1: "same_libraries f g" and 2: "same_libraries g h"
  have "i \<in> dom f" if "h i = Some n" "n_Type n = LibraryType" for i n
  proof -
    have "i \<in> dom g" using 2 that unfolding same_libraries_def by blast
    then obtain m where m: "g i = Some m" by blast
    then have "same_node m n" using 2 that(1) keeps_nodesD [of g h] unfolding same_libraries_def by fastforce
    then have "n_Type m = LibraryType" using that(2) by (simp add: same_node_def)
    with m 1 show ?thesis unfolding same_libraries_def by blast
  qed
  with 1 2 keeps_nodes_trans show ?thesis unfolding same_libraries_def by blast
qed

lemma same_libraries_of:
  assumes "same_libraries f g"
  shows "library_of purl g i info \<longleftrightarrow> library_of purl f i info"
proof
  assume "library_of purl g i info"
  then obtain n where n: "g i = Some n" "n_Type n = LibraryType" "has_prefix (n_Name n) pkg_prefix"
    "PURLToPackage purl (n_Name n) = Inr info" unfolding library_of_def by blast
  then have "i \<in> dom f" using assms unfolding same_libraries_def by blast
  then obtain m where m: "f i = Some m" by blast
  then have "same_node m n" using assms n(1) keeps_nodesD [of f g] unfolding same_libraries_def by fastforce
  with m n show "library_of purl f i info" unfolding library_of_def by (auto simp: same_node_def)
next
  assume "library_of purl f i info"
  then obtain m where m: "f i = Some m" "n_Type m = LibraryType" "has_prefix (n_Name m) pkg_prefix"
    "PURLToPackage purl (n_Name m) = Inr info" unfolding library_of_def by blast
  then obtain n where "g i = Some n" "same_node m n"
    using assms keeps_nodesD [of f g] unfolding same_libraries_def by blast
  with m show "library_of purl g i info" unfolding library_of_def by (auto simp: same_node_def)
qed

text \<open>Every node waits for the cache or has an entry in it, and nothing else does.\<close>

definition covered :: "gstate \<Rightarrow> bool" where
  "covered g \<longleftrightarrow> g_pending g \<subseteq> dom (g_nodes g) \<and> dom (g_caches g) \<subseteq> dom (g_nodes g)
     \<and> dom (g_nodes g) \<subseteq> g_pending g \<union> dom (g_caches g)"

context graph_store
begin

text \<open>One call at a time.\<close>

lemma add_keeps:
  assumes wf: "wf s" and ok: "graph_ok (abs s)" and room: "Suc (g_next (abs s)) < 4294967296"
    and run: "AddNode st s ty meta name = (s', r)"
  shows "wf s' \<and> graph_ok (abs s') \<and> keeps_nodes (g_nodes (abs s)) (g_nodes (abs s'))
    \<and> (ty \<noteq> LibraryType \<longrightarrow> same_libraries (g_nodes (abs s)) (g_nodes (abs s')))
    \<and> (covered (abs s) \<longrightarrow> covered (abs s'))"
proof (cases "g_names (abs s) name")
  case (Some i)
  have "s' = s" using AddNode_known [OF wf ok Some, of ty meta] run by auto
  then show ?thesis using wf ok by (auto simp: same_libraries_def)
next
  case None
  obtain i where s': "i = of_nat (Suc (g_next (abs s)))" "wf s'"
    "abs s' = (abs s)\<lparr>g_nodes := (g_nodes (abs s))(i \<mapsto> norm (new_node ty meta name i)),
       g_names := (g_names (abs s))(name \<mapsto> i),
       g_caches := (g_caches (abs s))(i \<mapsto> NewNodeCache i {} {}),
       g_pending := insert i (g_pending (abs s)), g_next := Suc (g_next (abs s))\<rparr>"
    using AddNode_new [OF wf None room, of ty meta] run by auto
  have fresh: "g_nodes (abs s) i = None" unfolding s'(1) by (rule graph_ok_fresh [OF ok room])
  then have "g_nodes (abs s) \<subseteq>\<^sub>m g_nodes (abs s')" unfolding s'(3) by (auto simp: map_le_def)
  note keeps = keeps_nodes_le [OF this]
  moreover have "graph_ok (abs s')" using AddNode_graph_ok [OF wf ok room, of ty meta name] run by auto
  moreover have "same_libraries (g_nodes (abs s)) (g_nodes (abs s'))" if "ty \<noteq> LibraryType"
    using keeps that unfolding same_libraries_def s'(3) by (auto simp: norm_simps new_node_def split: if_splits)
  moreover have "covered (abs s')" if "covered (abs s)" using that unfolding covered_def s'(3) by auto
  ultimately show ?thesis using s'(2) by blast
qed

lemma link_keeps:
  assumes wf: "wf s" and ok: "graph_ok (abs s)" and ne: "n_ID x \<noteq> n_ID y"
    and x: "g_nodes (abs s) (n_ID x) = Some (norm x)" and y: "g_nodes (abs s) (n_ID y) = Some (norm y)"
    and run: "SetDependency (Some st) s (Some x) (Some y) = ((s', x', y'), r)"
  shows "wf s' \<and> graph_ok (abs s') \<and> same_libraries (g_nodes (abs s)) (g_nodes (abs s'))
    \<and> g_names (abs s') = g_names (abs s) \<and> g_next (abs s') = g_next (abs s)
    \<and> (covered (abs s) \<longrightarrow> covered (abs s'))"
proof -
  have s': "wf s'" "graph_ok (abs s')" "keeps_nodes (g_nodes (abs s)) (g_nodes (abs s'))"
    "dom (g_nodes (abs s')) = dom (g_nodes (abs s))"
    "g_names (abs s') = g_names (abs s)" "g_next (abs s') = g_next (abs s)"
    using link_step [OF wf ok ne x y] run by auto
  moreover have "g_caches (abs s') = g_caches (abs s)"
    "g_pending (abs s') = insert (n_ID y) (insert (n_ID x) (g_pending (abs s)))"
    using SetDependency_writes [OF wf ne] run by auto
  then have "covered (abs s')" if "covered (abs s)" using that x y unfolding covered_def s'(4) by auto
  ultimately show ?thesis unfolding same_libraries_def by blast
qed

lemma store_steps_ok:
  assumes "store_steps st abs norm T s0 s" and "wf s0" and "graph_ok (abs s0)"
  shows "wf s \<and> graph_ok (abs s) \<and> keeps_nodes (g_nodes (abs s0)) (g_nodes (abs s))
    \<and> (LibraryType \<notin> T \<longrightarrow> same_libraries (g_nodes (abs s0)) (g_nodes (abs s)))
    \<and> (covered (abs s0) \<longrightarrow> covered (abs s))"
  using assms
proof (induction rule: store_steps.induct)
  case start
  then show ?case by (auto simp: same_libraries_def)
next
  case (add s ty meta name s' r)
  note s = add.IH [OF add.prems]
  from s add_keeps [OF _ _ add.hyps(3,4)] show ?case
    using add.hyps(2) keeps_nodes_trans same_libraries_trans by blast
next
  case (link s x y s' x' y' r)
  note s = link.IH [OF link.prems]
  from s link_keeps [OF _ _ link.hyps(2-5)] show ?case
    using same_libraries_trans keeps_nodes_trans unfolding same_libraries_def by blast
next
  case (custom s tag k dk v s' r)
  note s = custom.IH [OF custom.prems]
  then have wf: "wf s" by blast
  have s': "wf s'" "abs s' = customised [((tag, k), (dk, v))] (abs s)"
    using AddCustom_write [OF wf custom.hyps(2), of k dk v] custom.hyps(3) by auto
  have "graph_ok (abs s')" using s unfolding s'(2) by (simp add: graph_ok_def names_ok_def ids_ok_def)
  moreover have "covered (abs s') = covered (abs s)" unfolding s'(2) by (simp add: covered_def)
  moreover have "g_nodes (abs s') = g_nodes (abs s)" unfolding s'(2) by simp
  ultimately show ?case using s s'(1) by simp
qed

end

end
