(* ===== verification/Ingest_Runs.thy ===== *)
theory Ingest_Runs
  imports Store_Steps
begin

text \<open>
  Each ingester takes a sequence of calls on the storage, whatever its input, also when it stops with an
  error half way. With the invariants of such sequences: the graph stays consistent, no node is lost, and
  only SBOMs add libraries.
\<close>

text \<open>The number of nodes of the document, if there is one.\<close>

definition sbom_size :: "(string \<Rightarrow> node_list option res) \<Rightarrow> string \<Rightarrow> nat" where
  "sbom_size parse data = (case parse data of Inr (Some doc) \<Rightarrow> length (nl_Nodes doc) | _ \<Rightarrow> 0)"

definition card_count :: "(string \<Rightarrow> 'f scorecard_result list res) \<Rightarrow> string \<Rightarrow> nat" where
  "card_count unmarshal data = (case unmarshal data of Inr results \<Rightarrow> length results | Inl e \<Rightarrow> 0)"

context graph_store
begin

lemma read_current:
  assumes "wf s" and "graph_ok (abs s)" and "st_GetNode st s a = Inr x"
  shows "g_nodes (abs s) (n_ID x) = Some (norm x)" and "n_ID x = a"
proof -
  have x: "g_nodes (abs s) a = Some x" using read_node [OF assms(1,3)] .
  then show "n_ID x = a" using stored_nodes [OF assms(1,2)] by blast
  with x norm_stored [OF assms(1) x] show "g_nodes (abs s) (n_ID x) = Some (norm x)" by simp
qed

lemma link_any:
  assumes wf: "wf s" and ok: "graph_ok (abs s)"
    and x: "g_nodes (abs s) (n_ID x) = Some (norm x)" and y: "g_nodes (abs s) (n_ID y) = Some (norm y)"
    and run: "SetDependency (Some st) s (Some x) (Some y) = ((s', x', y'), r)"
  shows "store_steps st abs norm T s s' \<and> wf s' \<and> graph_ok (abs s')
    \<and> g_names (abs s') = g_names (abs s) \<and> g_next (abs s') = g_next (abs s)"
proof (cases "n_ID x = n_ID y")
  case True
  then have "s' = s" using run by (simp add: SetDependency_def)
  then show ?thesis using wf ok store_steps.start by simp
next
  case False
  note store_steps.link [where ab = abs and nf = norm, OF store_steps.start False x y run]
  then have "store_steps st abs norm T s s'" .
  with link_keeps [OF wf ok False x y run] show ?thesis by blast
qed

text \<open>A call of \<open>AddNode\<close>, with the room that is left.\<close>

lemma add_any:
  assumes wf: "wf s" and ok: "graph_ok (abs s)" and room: "Suc (g_next (abs s)) < 4294967296" and ty: "ty \<in> T"
  shows "\<exists>s' n. AddNode st s ty meta name = (s', Inr n) \<and> store_steps st abs norm T s s' \<and> wf s' \<and> graph_ok (abs s')
    \<and> g_nodes (abs s') (n_ID n) = Some (norm n) \<and> g_names (abs s') name \<noteq> None
    \<and> g_next (abs s') \<le> Suc (g_next (abs s)) \<and> (g_names (abs s) name \<noteq> None \<longrightarrow> g_next (abs s') = g_next (abs s))"
proof -
  obtain s' n where s': "AddNode st s ty meta name = (s', Inr n)" "wf s'" "grown (abs s) (abs s')"
    "g_names (abs s') name = Some (n_ID n)" "g_next (abs s') \<le> Suc (g_next (abs s))"
    "g_names (abs s) name \<noteq> None \<longrightarrow> g_next (abs s') = g_next (abs s)" "g_nodes (abs s') (n_ID n) = Some (norm n)"
    using AddNode_grown [OF wf ok room, of ty meta name] by - (elim exE conjE, rule that; assumption)
  moreover note store_steps.add [where ab = abs and nf = norm and T = T, OF store_steps.start ty room s'(1)]
  ultimately show ?thesis by (auto simp: grown_def)
qed

section \<open>SBOMs\<close>

lemma add_sbom_nodes_any:
  assumes "wf s" and "graph_ok (abs s)" and "g_next (abs s) + length ns < 4294967296"
  shows "\<exists>s' m'. add_sbom_nodes st s m ns = (s', Inr m') \<and> store_steps st abs norm {LibraryType} s s'
    \<and> wf s' \<and> graph_ok (abs s')"
  using assms
proof (induction ns arbitrary: s m)
  case Nil
  then show ?case using store_steps.start by auto
next
  case (Cons n ns)
  have lib: "''library'' \<in> {LibraryType}" by (simp add: LibraryType_def)
  have "Suc (g_next (abs s)) < 4294967296" using Cons.prems(3) by simp
  from add_any [OF Cons.prems(1,2) this lib, of "sn_Value n" "sbom_purl n"]
  obtain s1 x where s1: "AddNode st s ''library'' (sn_Value n) (sbom_purl n) = (s1, Inr x)"
    "store_steps st abs norm {LibraryType} s s1" "wf s1" "graph_ok (abs s1)" "g_next (abs s1) \<le> Suc (g_next (abs s))"
    by blast
  have "g_next (abs s1) + length ns < 4294967296" using s1(5) Cons.prems(3) by simp
  from Cons.IH [OF s1(3,4) this, of "m(sn_Id n \<mapsto> n_ID x)"]
  obtain s2 m2 where s2: "add_sbom_nodes st s1 (m(sn_Id n \<mapsto> n_ID x)) ns = (s2, Inr m2)"
    "store_steps st abs norm {LibraryType} s1 s2" "wf s2" "graph_ok (abs s2)" by blast
  have "add_sbom_nodes st s m (n # ns) = (s2, Inr m2)" using s1(1) s2(1) by simp
  with store_steps_trans [OF s2(2) s1(2)] s2(3,4) show ?case by blast
qed

lemma link_ids_any:
  assumes wf: "wf s" and ok: "graph_ok (abs s)" and run: "link_ids st s a b = (s', r)"
  shows "store_steps st abs norm T s s' \<and> wf s' \<and> graph_ok (abs s')"
proof (cases "\<exists>x y. st_GetNode st s a = Inr x \<and> st_GetNode st s b = Inr y")
  case False
  then have "s' = s" using run
    by (auto simp: link_ids_def bind_st_def ctx_st_def ctx_def split: sum.splits)
  then show ?thesis using wf ok store_steps.start by simp
next
  case True
  then obtain x y where xy: "st_GetNode st s a = Inr x" "st_GetNode st s b = Inr y" by blast
  obtain s1 x' y' q where s1: "SetDependency (Some st) s (Some x) (Some y) = ((s1, x', y'), q)" by (metis surj_pair)
  then have "s' = s1" using run xy by (auto simp: link_ids_def Let_def ctx_st_def split: sum.splits)
  then show ?thesis
    using link_any [OF wf ok read_current(1) [OF wf ok xy(1)] read_current(1) [OF wf ok xy(2)] s1] by simp
qed


lemma bind_steps:
  assumes p: "store_steps st abs norm T s (fst p)" and wf: "wf s" and ok: "graph_ok (abs s)"
    and f: "\<And>s1 x. p = (s1, Inr x) \<Longrightarrow> wf s1 \<Longrightarrow> graph_ok (abs s1) \<Longrightarrow> store_steps st abs norm T s1 (fst (f s1 x))"
  shows "store_steps st abs norm T s (fst (bind_st p f))"
proof (cases "snd p")
  case (Inl e)
  then show ?thesis using p by (simp add: bind_st_def)
next
  case (Inr x)
  have "wf (fst p)" "graph_ok (abs (fst p))" using store_steps_ok [OF p wf ok] by blast+
  from f [OF _ this, of x] Inr have "store_steps st abs norm T (fst p) (fst (f (fst p) x))" by (cases p) simp
  from store_steps_trans [OF this p] Inr show ?thesis by (simp add: bind_st_def)
qed

lemma link_targets_any:
  assumes "wf s" and "graph_ok (abs s)"
  shows "store_steps st abs norm T s (fst (link_targets st m d f s tos))"
  using assms
proof (induction tos arbitrary: s)
  case Nil
  then show ?case using store_steps.start by simp
next
  case (Cons to tos)
  have ids: "store_steps st abs norm T s (fst (if d = toDependsOnFrom then link_ids st s t f else link_ids st s f t))" for t
    using link_ids_any [OF Cons.prems prod.collapse [symmetric], of T] by simp
  have go: "store_steps st abs norm T s (fst (bind_st
      (if d = toDependsOnFrom then link_ids st s t f else link_ids st s f t) (\<lambda>s1 _. link_targets st m d f s1 tos)))" for t
    by (rule bind_steps [OF ids Cons.prems]) (rule Cons.IH)
  show ?case using Cons.IH [OF Cons.prems] go by (cases "m to") (auto simp del: fun_upd_apply)
qed

lemma link_edges_any:
  assumes "wf s" and "graph_ok (abs s)"
  shows "store_steps st abs norm T s (fst (link_edges st m s es))"
  using assms
proof (induction es arbitrary: s)
  case Nil
  then show ?case using store_steps.start by simp
next
  case (Cons e es)
  have go: "store_steps st abs norm T s (fst (bind_st
      (link_targets st m d f s tos) (\<lambda>s1 _. link_edges st m s1 es)))" for d f tos
    by (rule bind_steps [OF link_targets_any [OF Cons.prems] Cons.prems]) (rule Cons.IH)
  show ?case using Cons.IH [OF Cons.prems] go by (cases "m (se_From e)") (simp_all add: Let_def)
qed

lemma SBOM_steps:
  assumes wf: "wf s" and ok: "graph_ok (abs s)" and room: "g_next (abs s) + sbom_size parse data < 4294967296"
  shows "store_steps st abs norm {LibraryType} s (fst (SBOM parse st s data))"
proof (cases "\<exists>doc. data \<noteq> '''' \<and> parse data = Inr (Some doc)")
  case False
  then have "fst (SBOM parse st s data) = s"
    by (cases "parse data") (auto simp: SBOM_def split: option.split)
  then show ?thesis using store_steps.start by simp
next
  case True
  then obtain doc where doc: "data \<noteq> ''''" "parse data = Inr (Some doc)" by blast
  have "g_next (abs s) + length (nl_Nodes doc) < 4294967296" using room doc(2) by (simp add: sbom_size_def)
  from add_sbom_nodes_any [OF wf ok this, of Map.empty]
  have "store_steps st abs norm {LibraryType} s (fst (add_sbom_nodes st s Map.empty (nl_Nodes doc)))" by auto
  from bind_steps [OF this wf ok link_edges_any]
  show ?thesis using doc by (simp add: SBOM_def)
qed

section \<open>OSV records\<close>

lemma link_candidate_any:
  assumes wf: "wf s" and ok: "graph_ok (abs s)" and room: "vuln_room (abs s) (vu_ID vuln)"
  shows "store_steps st abs norm {VulnerabilityType} s (fst (link_candidate st s vuln d i))
    \<and> vuln_room (abs (fst (link_candidate st s vuln d i))) (vu_ID vuln)"
proof -
  let ?vid = "vu_ID vuln"
  have r: "Suc (g_next (abs s)) < 4294967296" using room by (auto simp: vuln_room_def split: if_splits)
  obtain s1 v where s1: "AddNode st s VulnerabilityType (MBytes d) ?vid = (s1, Inr v)"
    "store_steps st abs norm {VulnerabilityType} s s1" "wf s1" "graph_ok (abs s1)"
    "g_nodes (abs s1) (n_ID v) = Some (norm v)" "g_names (abs s1) ?vid \<noteq> None"
    "g_next (abs s1) \<le> Suc (g_next (abs s))" "g_names (abs s) ?vid \<noteq> None \<longrightarrow> g_next (abs s1) = g_next (abs s)"
    using add_any [OF wf ok r, of VulnerabilityType "{VulnerabilityType}" "MBytes d" ?vid]
    by - (drule meta_mp, simp, elim exE conjE, rule that; assumption)
  have room1: "vuln_room (abs s1) ?vid"
    using room s1(6-8) by (cases "g_names (abs s) ?vid") (auto simp: vuln_room_def)
  show ?thesis
  proof (cases "st_GetNode st s1 i")
    case (Inl e)
    then show ?thesis using s1(1,2) room1 by (simp add: link_candidate_def)
  next
    case (Inr n)
    obtain s2 x' y' q where s2: "SetDependency (Some st) s1 (Some n) (Some v) = ((s2, x', y'), q)" by (metis surj_pair)
    then have run: "fst (link_candidate st s vuln d i) = s2" using s1(1) Inr by (simp add: link_candidate_def Let_def)
    have "store_steps st abs norm {VulnerabilityType} s1 s2" "g_names (abs s2) = g_names (abs s1)" "g_next (abs s2) = g_next (abs s1)"
      using link_any [OF s1(3,4) read_current(1) [OF s1(3,4) Inr] s1(5) s2] by blast+
    moreover from this(2,3) have "vuln_room (abs s2) ?vid = vuln_room (abs s1) ?vid" unfolding vuln_room_def by (simp only:)
    ultimately show ?thesis using store_steps_trans [OF _ s1(2)] room1 unfolding run by blast
  qed
qed


lemma link_candidates_any:
  assumes "wf s" and "graph_ok (abs s)" and "vuln_room (abs s) (vu_ID vuln)"
  shows "store_steps st abs norm {VulnerabilityType} s (fst (link_candidates sv st vuln d s seen cs))
    \<and> vuln_room (abs (fst (link_candidates sv st vuln d s seen cs))) (vu_ID vuln)"
  using assms
proof (induction cs arbitrary: s seen)
  case Nil
  then show ?case using store_steps.start by simp
next
  case (Cons c cs)
  show ?case
  proof (cases "fst c \<in> seen \<or> \<not> isPackageAffected sv vuln (snd c)")
    case True
    then show ?thesis using Cons by simp
  next
    case False
    note one = link_candidate_any [OF Cons.prems, of d "fst c"]
    let ?p = "link_candidate st s vuln d (fst c)"
    let ?f = "\<lambda>s1 _. link_candidates sv st vuln d s1 (insert (fst c) seen) cs"
    have run: "link_candidates sv st vuln d s seen (c # cs) = bind_st ?p ?f" using False by simp
    have "store_steps st abs norm {VulnerabilityType} s (fst (bind_st ?p ?f))"
      by (rule bind_steps [OF conjunct1 [OF one] Cons.prems(1,2)]) (use one Cons.IH in auto)
    moreover have "vuln_room (abs (fst (bind_st ?p ?f))) (vu_ID vuln)"
    proof (cases "snd ?p")
      case (Inl e)
      then show ?thesis using one by (simp add: bind_st_def)
    next
      case (Inr u)
      have "wf (fst ?p)" "graph_ok (abs (fst ?p))" using store_steps_ok [OF conjunct1 [OF one] Cons.prems(1,2)] by blast+
      then show ?thesis using Cons.IH [OF _ _ conjunct2 [OF one]] Inr by (simp add: bind_st_def)
    qed
    ultimately show ?thesis unfolding run by blast
  qed
qed

lemma link_affected_any:
  assumes "wf s" and "graph_ok (abs s)" and "vuln_room (abs s) (vu_ID vuln)"
  shows "store_steps st abs norm {VulnerabilityType} s (fst (link_affected sv st vuln d idx s seen as))"
  using assms
proof (induction as arbitrary: s seen)
  case Nil
  then show ?case using store_steps.start by simp
next
  case (Cons a as)
  note one = link_candidates_any [OF Cons.prems, of sv d seen "idx (op_Name (af_Package a))"]
  show ?case unfolding link_affected.simps
    by (rule bind_steps [OF conjunct1 [OF one] Cons.prems(1,2)]) (use one Cons.IH in auto)
qed

lemma VulnerabilitiesWithIndex_steps:
  assumes wf: "wf s" and ok: "graph_ok (abs s)" and room: "Suc (Suc (g_next (abs s))) < 4294967296"
  shows "store_steps st abs norm {VulnerabilityType} s (fst (VulnerabilitiesWithIndex libs st s data idx))"
proof -
  have "vuln_room (abs s) vid" for vid using room by (simp add: vuln_room_def)
  note link = link_affected_any [OF wf ok this]
  show ?thesis
    using link store_steps.start by (auto simp: VulnerabilitiesWithIndex_def split: sum.split)
qed

section \<open>Scorecards\<close>

lemma attach_any:
  assumes wf: "wf s" and ok: "graph_ok (abs s)" and room: "Suc (g_next (abs s)) < 4294967296" and ty: "ty \<in> T"
    and x: "g_nodes (abs s) (n_ID x) = Some (norm x)" and add: "AddNode st s ty meta name = (s1, Inr y)"
    and dep: "SetDependency (Some st) s1 (Some x) (Some y) = ((s2, x', y'), r)"
  shows "store_steps st abs norm T s s2"
proof -
  have s1: "store_steps st abs norm T s s1" "wf s1" "graph_ok (abs s1)" "g_nodes (abs s1) (n_ID y) = Some (norm y)"
    using add_any [OF wf ok room ty, of meta name] add by auto
  have "g_nodes (abs s) \<subseteq>\<^sub>m g_nodes (abs s1)" using AddNode_step [OF wf ok room, of ty meta name] add by auto
  then have "g_nodes (abs s1) (n_ID x) = Some (norm x)" using x by (metis domI map_le_def)
  from link_any [OF s1(2,3) this s1(4) dep] store_steps_trans [OF _ s1(1)] show ?thesis by blast
qed

lemma link_results_any:
  assumes "wf s" and "graph_ok (abs s)" and "room_for S (abs s)" and "finite S"
    and "getScorecardNodeName ` sr_PURL ` set rs \<subseteq> S"
    and "g_nodes (abs s) (n_ID n) = Some (norm n)" and "has_prefix (n_Name n) pkg_prefix"
  shows "store_steps st abs norm {ScorecardType} s (fst (link_results libs st v s n rs))"
  using assms
proof (induction rs arbitrary: s n)
  case Nil
  then show ?case using store_steps.start by simp
next
  case (Cons r rs)
  let ?x = "getScorecardNodeName (sr_PURL r)"
  have rest: "getScorecardNodeName ` sr_PURL ` set rs \<subseteq> S" and x: "?x \<in> S" using Cons.prems(5) by simp_all
  show ?case
  proof (cases "sr_Success r \<and> (\<exists>info. PURLToPackage (sl_purl libs) (sr_PURL r) = Inr info \<and> pi_Version info = v)")
    case False
    then have "link_results libs st v s n (r # rs) = link_results libs st v s n rs"
      by (cases "PURLToPackage (sl_purl libs) (sr_PURL r)") auto
    then show ?thesis using Cons.IH [OF Cons.prems(1-4) rest Cons.prems(6,7)] by (simp only:)
  next
    case True
    then obtain info where info: "sr_Success r" "PURLToPackage (sl_purl libs) (sr_PURL r) = Inr info" "pi_Version info = v"
      by blast
    obtain s1 y s2 n' y' where s2: "AddNode st s ScorecardType (sl_metadata libs r) ?x = (s1, Inr y)"
      "SetDependency (Some st) s1 (Some n) (Some y) = ((s2, Some n', Some y'), Inr ())" "wf s2"
      "attached {(n_ID n, ?x)} (abs s) (abs s2)" "room_for S (abs s2)"
      "g_nodes (abs s2) (n_ID n) = Some (norm n')" "n_ID n' = n_ID n" "n_Name n' = n_Name n"
      using attach_step [where ty = ScorecardType and meta = "sl_metadata libs r",
        OF Cons.prems(1-4) x Cons.prems(6) card_name_apart [OF Cons.prems(7)]]
      by - (elim exE conjE, rule that; assumption)
    have steps: "store_steps st abs norm {ScorecardType} s s2"
      by (rule attach_any [OF Cons.prems(1,2) room_for_next [OF Cons.prems(3)] _ Cons.prems(6) s2(1,2)]) simp
    have "g_nodes (abs s2) (n_ID n') = Some (norm n')" "has_prefix (n_Name n') pkg_prefix"
      using s2(6-8) Cons.prems(7) by simp_all
    from Cons.IH [OF s2(3) attachedD(2) [OF s2(4)] s2(5) Cons.prems(4) rest this]
    show ?thesis
      using info s2(1,2) store_steps_trans [OF _ steps] by simp
  qed
qed


lemma link_libraries_any:
  assumes "wf s" and "graph_ok (abs s)" and "room_for S (abs s)" and "finite S"
    and "\<forall>x l. filed x = Some l \<longrightarrow> getScorecardNodeName ` sr_PURL ` set l \<subseteq> S"
    and "distinct (map n_ID ns)"
    and "\<forall>n \<in> set ns. has_prefix (n_Name n) pkg_prefix \<longrightarrow> g_nodes (abs s) (n_ID n) = Some (norm n)"
  shows "store_steps st abs norm {ScorecardType} s (fst (link_libraries libs st filed s ns))"
  using assms
proof (induction ns arbitrary: s)
  case Nil
  then show ?case using store_steps.start by simp
next
  case (Cons n ns)
  have rest: "distinct (map n_ID ns)" using Cons.prems(6) by simp
  show ?case
  proof (cases "\<exists>info rs. n_Type n = LibraryType \<and> has_prefix (n_Name n) pkg_prefix
      \<and> PURLToPackage (sl_purl libs) (n_Name n) = Inr info \<and> filed (pi_Name info) = Some rs")
    case False
    then have "link_libraries libs st filed s (n # ns) = link_libraries libs st filed s ns"
      by (cases "PURLToPackage (sl_purl libs) (n_Name n)") (auto split: option.split)
    then show ?thesis using Cons.IH [OF Cons.prems(1-5) rest] Cons.prems(7) by simp
  next
    case True
    then obtain info rs where n: "n_Type n = LibraryType" "has_prefix (n_Name n) pkg_prefix"
      "PURLToPackage (sl_purl libs) (n_Name n) = Inr info" "filed (pi_Name info) = Some rs" by blast
    have cur: "g_nodes (abs s) (n_ID n) = Some (norm n)" using Cons.prems(7) n(2) by simp
    note side = Cons.prems(1-4) Cons.prems(5) [rule_format, OF n(4)] cur n(2)
    obtain s1 where s1: "link_results libs st (pi_Version info) s n rs = (s1, Inr ())" "wf s1" "room_for S (abs s1)"
      "attached ({n_ID n} \<times> matching libs (pi_Version info) rs) (abs s) (abs s1)"
      using link_results_ok [OF side, of libs "pi_Version info"] by blast
    have steps: "store_steps st abs norm {ScorecardType} s s1"
      using link_results_any [OF side, of libs "pi_Version info"] s1(1) by simp
    have cards: "attached ({n_ID n} \<times> node_cards libs filed n) (abs s) (abs s1)"
      using s1(4) n by (simp add: node_cards_def)
    have cur1: "\<forall>k \<in> set ns. has_prefix (n_Name k) pkg_prefix \<longrightarrow> g_nodes (abs s1) (n_ID k) = Some (norm k)"
    proof (intro ballI impI)
      fix k assume k: "k \<in> set ns" "has_prefix (n_Name k) pkg_prefix"
      have "n_ID k \<in> n_ID ` set ns" using k(1) by (rule imageI)
      then have "n_ID k \<noteq> n_ID n" using Cons.prems(6) by auto
      moreover have "g_nodes (abs s) (n_ID k) = Some (norm k)" using k Cons.prems(7) by simp
      ultimately show "g_nodes (abs s1) (n_ID k) = Some (norm k)"
        using attached_keeps_library [OF cards Cons.prems(2) _ k(2)] by blast
    qed
    have "store_steps st abs norm {ScorecardType} s1 (fst (link_libraries libs st filed s1 ns))"
      by (rule Cons.IH [OF s1(2) attachedD(2) [OF cards] s1(3) Cons.prems(4,5) rest cur1])
    from store_steps_trans [OF this steps] show ?thesis using n s1(1) by simp
  qed
qed

lemma Scorecards_steps:
  assumes wf: "wf s" and ok: "graph_ok (abs s)" and ro: "range_ok ro"
    and room: "Suc (g_next (abs s) + card_count (sl_Unmarshal libs) data) < 4294967296"
  shows "store_steps st abs norm {ScorecardType} s (fst (Scorecards ro libs st s data))"
proof (cases "\<exists>results. data \<noteq> '''' \<and> sl_Unmarshal libs data = Inr results")
  case False
  then have "fst (Scorecards ro libs st s data) = s" by (cases "sl_Unmarshal libs data") (auto simp: Scorecards_def)
  then show ?thesis using store_steps.start by simp
next
  case True
  then obtain results where data: "data \<noteq> ''''" "sl_Unmarshal libs data = Inr results" by blast
  let ?filed = "file_results (sl_purl libs) results Map.empty"
  let ?S = "getScorecardNodeName ` sr_PURL ` set results"
  obtain ks al where read: "st_GetAllKeys st s = Inr ks" "st_GetNodes st s ks = Inr al"
    "distinct (keys_of al)" "map_of al = g_nodes (abs s)" using read_all [OF wf] by blast
  let ?ns = "map snd (go_range ro 0 al)"
  note ns = read_all_nodes [OF wf ok ro read(3,4), where k = 0]
  have cur: "\<forall>n \<in> set ?ns. has_prefix (n_Name n) pkg_prefix \<longrightarrow> g_nodes (abs s) (n_ID n) = Some (norm n)"
  proof (intro ballI impI)
    fix n assume "n \<in> set ?ns"
    then have "g_nodes (abs s) (n_ID n) = Some n" by (simp only: ns(2))
    then show "g_nodes (abs s) (n_ID n) = Some (norm n)" using norm_stored [OF wf] by simp
  qed
  have "card (?S - dom (g_names (abs s))) \<le> card ?S" by (rule card_mono) auto
  also have "\<dots> \<le> length results" by (meson card_image_le card_length finite_imageI finite_set le_trans)
  finally have "room_for ?S (abs s)" using room data(2) by (simp add: room_for_def card_count_def)
  moreover have "\<forall>x l. ?filed x = Some l \<longrightarrow> getScorecardNodeName ` sr_PURL ` set l \<subseteq> ?S"
    using file_results_mem [of "sl_purl libs" results Map.empty] by fastforce
  ultimately have "store_steps st abs norm {ScorecardType} s (fst (link_libraries libs st ?filed s ?ns))"
    using link_libraries_any [OF wf ok _ _ _ ns(1) cur] by blast
  then show ?thesis using data read(1,2) by (simp add: Scorecards_def)
qed


section \<open>Custom data\<close>

lemma refl_steps [simp]: "store_steps st abs norm T s s"
  by (rule store_steps.start)

lemma custom_any: "tag_ok tag \<Longrightarrow> store_steps st abs norm T s (fst (st_AddOrUpdateCustomData st s tag k dk v))"
  using store_steps.custom [OF store_steps.start, of tag st s k dk v _ _ abs norm T] by (metis prod.collapse)

lemma custom_more:
  assumes "st_AddOrUpdateCustomData st s tag k dk v = (s1, r)" and "tag_ok tag" and "store_steps st abs norm T s1 s2"
  shows "store_steps st abs norm T s s2"
  using custom_any [OF assms(2), where T = T and s = s and k = k and dk = dk and v = v] store_steps_trans [OF assms(3)] assms(1) by simp

lemma store_entries_steps: "store_steps st abs norm T s (fst (store_entries libs st s n es))"
proof (induction es arbitrary: s n)
  case (Cons e es)
  let ?cve = "to_upper (trim_space (ke_CVEID e))"
  show ?case
  proof (cases "?cve = '''' \<or> (\<exists>x. pl_entry_text libs e = Inl x)")
    case True
    then show ?thesis using Cons by (auto simp: Let_def split: sum.split)
  next
    case False
    then obtain v where v: "pl_entry_text libs e = Inr v" by (cases "pl_entry_text libs e") auto
    obtain s1 r where s1: "st_AddOrUpdateCustomData st s KEVTag ?cve ''entry'' v = (s1, r)" by fastforce
    from custom_more [OF s1 tags_ok(1)] Cons show ?thesis
      using False v s1 by (cases r) (auto simp: Let_def)
  qed
qed simp

lemma KEV_steps: "store_steps st abs norm T s (fst (KEV libs st s data))"
  using store_entries_steps by (auto simp: KEV_def split: sum.split)

lemma store_scores_steps: "store_steps st abs norm T s (fst (store_scores libs st known date a b c s n rows))"
proof (induction rows arbitrary: s n)
  case (Cons row rows)
  show ?case
  proof (cases "\<exists>rec x y. row = Inr rec \<and> \<not> length rec \<le> max a (max b c) \<and> to_upper (trim_space (rec ! a)) \<in> known
      \<and> pl_ParseFloat libs (trim_space (rec ! b)) = Inr x \<and> pl_ParseFloat libs (trim_space (rec ! c)) = Inr y")
    case False
    then have "fst (store_scores libs st known date a b c s n (row # rows)) = s
        \<or> store_scores libs st known date a b c s n (row # rows) = store_scores libs st known date a b c s n rows"
      by (cases row) (auto simp: Let_def split: sum.split)
    then show ?thesis using Cons [of s n] by (elim disjE) simp_all
  next
    case True
    then obtain rec x y where row: "row = Inr rec" "\<not> length rec \<le> max a (max b c)" "to_upper (trim_space (rec ! a)) \<in> known"
      "pl_ParseFloat libs (trim_space (rec ! b)) = Inr x" "pl_ParseFloat libs (trim_space (rec ! c)) = Inr y" by blast
    obtain s1 r where s1: "st_AddOrUpdateCustomData st s EPSSTag (to_upper (trim_space (rec ! a))) ''score''
        (pl_score_text libs \<lparr>ep_EPSS = x, ep_Percentile = y, ep_Date = date\<rparr>) = (s1, r)" by fastforce
    from custom_more [OF s1 tags_ok(2)] Cons show ?thesis
      using row s1 by (cases r) (auto simp: Let_def)
  qed
qed simp

lemma EPSS_steps: "store_steps st abs norm T s (fst (EPSS ro libs st s data))"
  using store_scores_steps store_steps.start
  by (auto simp: EPSS_def Let_def split: sum.split option.split prod.split list.split)

lemma store_names_steps: "store_steps st abs norm T s (fst (store_names st p v s nms))"
proof (induction nms arbitrary: s)
  case (Cons x xs)
  obtain s1 r where s1: "st_AddOrUpdateCustomData st s VEXTag (to_upper (trim_space x)) p v = (s1, r)" by fastforce
  from custom_more [OF s1 tags_ok(3)] Cons show ?case
    using s1 by (cases r) auto
qed simp

lemma store_products_steps: "store_steps st abs norm T s (fst (store_products st nms v s n ps))"
proof (induction ps arbitrary: s n)
  case (Cons p ps)
  obtain s1 r where s1: "store_names st (vp_ID p) v s nms = (s1, r)" by fastforce
  then have "store_steps st abs norm T s s1" using store_names_steps [of T s "vp_ID p" v nms] by simp
  from store_steps_trans [OF _ this] this Cons show ?case
    using s1 by (cases r) auto
qed simp

lemma store_statements_steps: "store_steps st abs norm T s (fst (store_statements libs st ts s n es))"
proof (induction es arbitrary: s n)
  case (Cons e es)
  obtain s1 k r where s1: "store_products st (ve_Name e # ve_Aliases e)
      (pl_statement_text libs (statement_of ts e)) s n (ve_Products e) = (s1, k, r)" by (metis surj_pair)
  then have "store_steps st abs norm T s s1" by (metis fst_conv store_products_steps)
  from store_steps_trans [OF _ this] this Cons show ?case
    using s1 by (cases r) auto
qed simp

lemma VEX_steps: "store_steps st abs norm T s (fst (VEX libs st s data))"
  using store_statements_steps by (auto simp: VEX_def split: sum.split)

end

end
