(* ===== verification/Leaderboard.thy ===== *)
theory Leaderboard
  imports Service
begin

text \<open>
  What the leaderboard of the service answers: every named node with the set that the script denotes for
  it, largest first, whatever the schedule of the goroutines, when none of them fails; and what a schedule
  does to an error of one of them.
\<close>

section \<open>Collecting the results\<close>

lemma first_error_Inr [simp]: "first_error (map Inr qs) = None"
  by (induction qs) auto

lemma first_error_take [simp]: "first_error (take n (map Inr qs)) = None"
  by (simp add: take_map)

lemma filter_panics_Inr [simp]:
  "filter (\<lambda>r. case r of Inl e \<Rightarrow> is_panic e | Inr x \<Rightarrow> False) (map Inr qs) = []"
  by (induction qs) auto

lemma delivered_Inr [simp]: "delivered (map Inr qs) = qs"
  by (induction qs) auto

lemma schedule_arrived:
  assumes "schedule_ok c (length qs) sc"
  shows "\<exists>ps. map (\<lambda>j. map Inr qs ! j) (sc_order sc) = map Inr ps \<and> mset ps = mset qs"
proof -
  have m: "mset (sc_order sc) = mset [0..<length qs]" using assms by (simp add: schedule_ok_def)
  then have "set (sc_order sc) = {0..<length qs}" by (metis set_mset_mset set_upt)
  then have "map (\<lambda>j. map Inr qs ! j) (sc_order sc) = map Inr (map (\<lambda>j. qs ! j) (sc_order sc))" by simp
  moreover have "mset (map (\<lambda>j. qs ! j) (sc_order sc)) = mset (map (\<lambda>j. qs ! j) [0..<length qs])"
    unfolding mset_map m ..
  ultimately show ?thesis by (metis map_nth)
qed

lemma pop_queries_drain:
  "(\<And>q. q \<in> set (qh.drain n h) \<Longrightarrow> NodeToServiceNode marshal (lq_Node q) = Inr (f q)) \<Longrightarrow>
     pop_queries marshal n h acc = Inr (rev (map (\<lambda>q. (f q, lq_Output q)) (qh.drain n h)) @ acc)"
  by (induction n arbitrary: h acc) (auto split: prod.split)

lemma collect_leaders_ok:
  assumes "0 < c" and "schedule_ok (nat c) (length qs) sc"
    and conv: "\<And>q. q \<in> set qs \<Longrightarrow> NodeToServiceNode marshal (lq_Node q) = Inr (f q)"
  shows "\<exists>out. collect_leaders marshal c sc (map Inr qs) = Some (Inr (map (\<lambda>q. (f q, lq_Output q)) out))
    \<and> mset out = mset qs \<and> sorted_wrt (\<lambda>a b. length (lq_Output b) \<le> length (lq_Output a)) out"
proof -
  obtain ps where ps: "map (\<lambda>j. map Inr qs ! j :: leader_query res) (sc_order sc) = map Inr ps" "mset ps = mset qs"
    using schedule_arrived [OF assms(2)] by blast
  let ?h = "fold (heap_Push queryHeap_Less) ps []"
  have h: "is_heap queryHeap_Less ?h" "mset ?h = mset qs"
    using qh.push_all [of "[]" ps] ps(2) by (simp_all add: is_heap_def heap_but_def)
  have len: "length ?h = length qs" using h(2) by (metis size_mset)
  have d: "mset (qh.drain (length ?h) ?h) = mset qs"
    "sorted_wrt (\<lambda>a b. \<not> queryHeap_Less b a) (qh.drain (length ?h) ?h)"
    using qh.drain_sorted [OF h(1) size_mset] unfolding h(2) by blast+
  have "set (qh.drain (length ?h) ?h) = set qs" using d(1) by (metis set_mset_mset)
  then have "pop_queries marshal (length ?h) ?h [] = Inr (rev (map (\<lambda>q. (f q, lq_Output q)) (qh.drain (length ?h) ?h)))"
    using pop_queries_drain [of "length ?h" ?h marshal f "[]"] conv by simp
  then have "collect_leaders marshal c sc (map Inr qs)
      = Some (Inr (map (\<lambda>q. (f q, lq_Output q)) (rev (qh.drain (length ?h) ?h))))"
    using assms(1) by (simp add: collect_leaders_def ps(1) Let_def rev_map)
  moreover have "sorted_wrt (\<lambda>a b. length (lq_Output b) \<le> length (lq_Output a)) (rev (qh.drain (length ?h) ?h))"
    using d(2) by (simp add: sorted_wrt_rev queryHeap_Less_def not_less)
  ultimately show ?thesis using d(1) by (intro exI [of _ "rev (qh.drain (length ?h) ?h)"]) simp
qed

section \<open>The leaderboard on a storage\<close>

definition ranked :: "(query \<Rightarrow> bitmap) \<Rightarrow> expression \<Rightarrow> node \<Rightarrow> leader_query" where
  "ranked sem e n = \<lparr>lq_Node = n, lq_Output = to_array (denote sem e)\<rparr>"

definition named_nodes :: "(id \<rightharpoonup> node) \<Rightarrow> id set" where
  "named_nodes nodes = {i. \<exists>n. nodes i = Some n \<and> n_Name n \<noteq> ''''}"

lemma NodeToServiceNode_Inr:
  "NodeToServiceNode marshal n = Inr sn \<longleftrightarrow> (\<exists>d. marshal (n_Metadata n) = Inr d \<and> sn =
     \<lparr>nd_Id = n_ID n, nd_Name = n_Name n, nd_Type = n_Type n, nd_Metadata = d,
      nd_Dependencies = to_array (n_Children n), nd_Dependents = to_array (n_Parents n)\<rparr>)"
  by (auto simp: NodeToServiceNode_def bind_res_Inr_iff)

lemma collect_ranked:
  assumes "0 < c" and "schedule_ok (nat c) (length ns) sc" and g: "\<And>n. lq_Node (g n) = n"
    and conv: "\<And>n. n \<in> set ns \<Longrightarrow> NodeToServiceNode marshal n = Inr (f n)"
  shows "\<exists>ms. collect_leaders marshal c sc (map Inr (map g ns)) = Some (Inr (map (\<lambda>n. (f n, lq_Output (g n))) ms))
    \<and> mset ms = mset ns \<and> sorted_wrt (\<lambda>a b. length (lq_Output (g b)) \<le> length (lq_Output (g a))) ms"
proof -
  have node: "NodeToServiceNode marshal (lq_Node q) = Inr (f (lq_Node q))" if "q \<in> set (map g ns)" for q
    using that conv g by auto
  obtain out where out: "collect_leaders marshal c sc (map Inr (map g ns))
      = Some (Inr (map (\<lambda>q. (f (lq_Node q), lq_Output q)) out))"
    "mset out = mset (map g ns)" "sorted_wrt (\<lambda>a b. length (lq_Output b) \<le> length (lq_Output a)) out"
    using collect_leaders_ok [OF assms(1), of "map g ns" sc marshal "\<lambda>q. f (lq_Node q)"] node assms(2)
    unfolding length_map by blast
  have "set out = g ` set ns" using out(2) by (metis set_map set_mset_mset)
  then have "map (\<lambda>q. g (lq_Node q)) out = out" using g by (intro map_idI) auto
  then have "out = map g (map lq_Node out)" unfolding list.map_comp comp_def by (rule sym)
  then obtain ms where ms: "ms = map lq_Node out" "out = map g ms" by blast
  have "mset ms = mset (map lq_Node (map g ns))" unfolding ms(1) using out(2) by (simp only: mset_map)
  also have "map lq_Node (map g ns) = ns" by (simp add: g comp_def)
  finally have "mset ms = mset ns" .
  moreover have "sorted_wrt (\<lambda>a b. length (lq_Output (g b)) \<le> length (lq_Output (g a))) ms"
    using out(3) unfolding ms(2) sorted_wrt_map .
  moreover have "Some (Inr (map (\<lambda>q. (f (lq_Node q), lq_Output q)) out)) = Some (Inr (map (\<lambda>n. (f n, lq_Output (g n))) ms))"
    unfolding ms(2) list.map_comp comp_def g ..
  ultimately show ?thesis unfolding out(1) by (intro exI [of _ ms]) blast
qed

context graph_store
begin

lemma leader_nodes:
  assumes wf: "wf s" and ok: "graph_ok (abs s)" and ro: "range_ok ro"
    and al: "distinct (keys_of al)" "map_of al = g_nodes (abs s)"
    and ns: "ns = filter (\<lambda>n. n_Name n \<noteq> '''') (map snd (go_range ro k al))"
  shows "distinct (map n_ID ns)" and "length ns = card (named_nodes (g_nodes (abs s)))"
    and "n \<in> set ns \<longleftrightarrow> g_nodes (abs s) (n_ID n) = Some n \<and> n_Name n \<noteq> ''''"
proof -
  note read = read_all_nodes [OF wf ok ro al, where k = k]
  show d: "distinct (map n_ID ns)" unfolding ns by (rule distinct_map_filter [OF read(1)])
  show m: "n \<in> set ns \<longleftrightarrow> g_nodes (abs s) (n_ID n) = Some n \<and> n_Name n \<noteq> ''''" for n
    unfolding ns using read(2) [of n] by auto
  have "n_ID ` set ns = named_nodes (g_nodes (abs s))"
    unfolding named_nodes_def using m stored_nodes [OF wf ok] by (force simp: image_iff)
  moreover have "length ns = card (n_ID ` set ns)" using d by (metis distinct_card length_map set_map)
  ultimately show "length ns = card (named_nodes (g_nodes (abs s)))" by simp
qed

lemma evaluate_ok:
  assumes wf: "wf (sv_state sv)" and ok: "graph_ok (abs (sv_state sv))" and ro: "range_ok ro" and sv: "sv_storage sv = st"
    and ks: "st_GetAllKeys st (sv_state sv) = Inr ks" and al: "st_GetNodes st (sv_state sv) ks = Inr al"
    and cl: "st_GetCaches st (sv_state sv) ks = Inr cl"
    and caches: "stack = [] \<Longrightarrow> caches_exact (abs (sv_state sv)) (g_caches (abs (sv_state sv)))"
    and parse: "li_parse libs script = Inr e" and known: "flat_with (query_known (abs (sv_state sv)) d) e"
  shows "evaluate libs ro sv script d al cl stack = Inr (denote (query_meaning (abs (sv_state sv)) d) e)"
proof -
  let ?g = "abs (sv_state sv)"
  have "set ks = dom (g_nodes ?g)" using GetAllKeys [OF wf] ks by auto
  moreover have "map_of cl = g_caches ?g |` set ks" using GetCaches [OF wf, of ks] cl by auto
  ultimately have "length stack = 0 \<longrightarrow> caches_exact ?g (map_of cl)"
    using caches unfolding caches_exact_def by (simp add: restrict_map_def)
  note ParseAndExecute_ok [where parse = "li_parse libs" and script = script, OF wf ok ro ks al this parse known]
  then show ?thesis unfolding evaluate_def sv .
qed

lemma CustomLeaderboard_ok:
  assumes wf: "wf (sv_state sv)" and ok: "graph_ok (abs (sv_state sv))" and sv: "sv_storage sv = st"
    and idle: "g_pending (abs (sv_state sv)) = {}"
    and caches: "caches_exact (abs (sv_state sv)) (g_caches (abs (sv_state sv)))"
    and ro: "range_ok ro" and pros: "\<And>j. range_ok (pros j)" and c: "0 < sv_concurrency sv"
    and sc: "schedule_ok (nat (sv_concurrency sv)) (card (named_nodes (g_nodes (abs (sv_state sv))))) sc"
    and parse: "li_parse libs script = Inr e"
    and known: "\<And>i n. g_nodes (abs (sv_state sv)) i = Some n \<Longrightarrow> n_Name n \<noteq> '''' \<Longrightarrow>
      flat_with (query_known (abs (sv_state sv)) (n_Name n)) e"
    and conv: "\<And>i n. g_nodes (abs (sv_state sv)) i = Some n \<Longrightarrow> NodeToServiceNode (li_Marshal libs) n = Inr (f n)"
  shows "\<exists>ns. CustomLeaderboard_handler libs ro pros sc sv script
      = Some (Inr (map (\<lambda>n. (f n, to_array (denote (query_meaning (abs (sv_state sv)) (n_Name n)) e))) ns))
    \<and> distinct ns
    \<and> (\<forall>n. n \<in> set ns \<longleftrightarrow> g_nodes (abs (sv_state sv)) (n_ID n) = Some n \<and> n_Name n \<noteq> '''')
    \<and> sorted_wrt (\<lambda>a b. length (to_array (denote (query_meaning (abs (sv_state sv)) (n_Name b)) e))
        \<le> length (to_array (denote (query_meaning (abs (sv_state sv)) (n_Name a)) e))) ns"
proof -
  let ?s = "sv_state sv" and ?g = "abs (sv_state sv)"
  let ?q = "\<lambda>n. ranked (query_meaning ?g (n_Name n)) e n"
  obtain ks al where al: "st_GetAllKeys st ?s = Inr ks" "st_GetNodes st ?s ks = Inr al"
    "distinct (keys_of al)" "map_of al = g_nodes ?g"
    using read_all [OF wf] by blast
  obtain cl where cl: "st_GetCaches st ?s ks = Inr cl" using GetCaches [OF wf] by blast
  have stack: "st_ToBeCached st ?s = Inr []" using ToBeCached [OF wf] idle by auto
  define ns where "ns = filter (\<lambda>n. n_Name n \<noteq> '''') (map snd (go_range ro 0 al))"
  note ns = leader_nodes [OF wf ok ro al(3,4) ns_def]
  have run: "goroutine libs (pros j) sv script al cl [] n = Inr (?q n)" if "n \<in> set ns" for j n
  proof -
    have "g_nodes ?g (n_ID n) = Some n" "n_Name n \<noteq> ''''" using that ns(3) [of n] by blast+
    note evaluate_ok [OF wf ok pros sv al(1,2) cl caches parse known [OF this], of j "[]"]
    then show ?thesis by (simp add: goroutine_def ranked_def)
  qed
  have "map (\<lambda>(j, n). goroutine libs (pros j) sv script al cl [] n) (enumerate 0 ns)
      = map (\<lambda>p. Inr (?q (snd p))) (enumerate 0 ns)"
    by (rule map_cong [OF refl]) (use run in \<open>auto simp: in_set_enumerate_eq\<close>)
  also have "\<dots> = map Inr (map ?q (map snd (enumerate 0 ns)))" unfolding list.map_comp comp_def ..
  finally have results: "map (\<lambda>(j, n). goroutine libs (pros j) sv script al cl [] n) (enumerate 0 ns)
      = map Inr (map ?q ns)" by simp
  have handler: "CustomLeaderboard_handler libs ro pros sc sv script
      = collect_leaders (li_Marshal libs) (sv_concurrency sv) sc (map Inr (map ?q ns))"
    by (simp add: CustomLeaderboard_handler_def sv stack al(1,2) cl results ns_def [symmetric] Let_def del: map_map filter_map)
  have "schedule_ok (nat (sv_concurrency sv)) (length ns) sc" using sc ns(2) by simp
  from collect_ranked [OF c this _ conv, of ?q] ns(3)
  obtain ms where ms: "CustomLeaderboard_handler libs ro pros sc sv script
      = Some (Inr (map (\<lambda>n. (f n, lq_Output (?q n))) ms))" "mset ms = mset ns"
    "sorted_wrt (\<lambda>a b. length (lq_Output (?q b)) \<le> length (lq_Output (?q a))) ms"
    unfolding handler by (auto simp: ranked_def)
  have "distinct ms" using ns(1) ms(2) unfolding distinct_map by (metis mset_eq_imp_distinct_iff)
  moreover have "set ms = set ns" using ms(2) by (metis set_mset_mset)
  ultimately show ?thesis using ms(1,3) ns(3) by (intro exI [of _ ms]) (simp add: ranked_def)
qed

end

section \<open>Properties\<close>

text \<open>
  C12. The leaderboard over a graph in memory whose caches are exact and whose cache stack is empty: whatever
  the order of range statements and the schedule of at least one goroutine at a time, the handler
  answers with every node that has a name, once, each with the set that the script, which has no
  brackets, denotes with that node as the default, and with the largest sets first.
\<close>

theorem mock_CustomLeaderboard_ranks:
  assumes "mock_wf (sv_state sv)" and "graph_ok (mock_abs (sv_state sv))" and "sv_storage sv = mock_storage"
    and "g_pending (mock_abs (sv_state sv)) = {}"
    and "caches_exact (mock_abs (sv_state sv)) (g_caches (mock_abs (sv_state sv)))"
    and "range_ok ro" and "\<And>j. range_ok (pros j)" and "0 < sv_concurrency sv"
    and "schedule_ok (nat (sv_concurrency sv)) (card (named_nodes (g_nodes (mock_abs (sv_state sv))))) sc"
    and "li_parse libs script = Inr e"
    and "\<And>i n. g_nodes (mock_abs (sv_state sv)) i = Some n \<Longrightarrow> n_Name n \<noteq> '''' \<Longrightarrow>
      flat_with (query_known (mock_abs (sv_state sv)) (n_Name n)) e"
    and "\<And>i n. g_nodes (mock_abs (sv_state sv)) i = Some n \<Longrightarrow> NodeToServiceNode (li_Marshal libs) n = Inr (f n)"
  shows "\<exists>ns. CustomLeaderboard_handler libs ro pros sc sv script
      = Some (Inr (map (\<lambda>n. (f n, to_array (denote (query_meaning (mock_abs (sv_state sv)) (n_Name n)) e))) ns))
    \<and> distinct ns
    \<and> (\<forall>n. n \<in> set ns \<longleftrightarrow> g_nodes (mock_abs (sv_state sv)) (n_ID n) = Some n \<and> n_Name n \<noteq> '''')
    \<and> sorted_wrt (\<lambda>a b. length (to_array (denote (query_meaning (mock_abs (sv_state sv)) (n_Name b)) e))
        \<le> length (to_array (denote (query_meaning (mock_abs (sv_state sv)) (n_Name a)) e))) ns"
  by (rule ms.CustomLeaderboard_ok [OF assms(1,2,3,4,5,6,7,8,9,10,11,12)])

text \<open>The script \<open>dependencies library\<close>, with the default name, and a cached graph of three nodes.\<close>

definition sample_board_libs :: "(unit, unit) service_libs \<Rightarrow> (unit, unit) service_libs" where
  "sample_board_libs libs = libs\<lparr>li_Marshal := (\<lambda>_. Inr ''null''),
     li_parse := (\<lambda>_. Inr (Expression
       (Some (Term (Some \<lparr>qy_QueryType = q_dependencies, qy_NodeType = ''library'', qy_NodeName = None\<rparr>) None))
       None None))\<rparr>"

definition cached_mock :: mock where
  "cached_mock = (small_mock [])\<lparr>m_cache := Some (map (\<lambda>i. (i, NewNodeCache i
     (reach small_nodes ParentsDirection i) (reach small_nodes ChildrenDirection i))) [1, 2, 3])\<rparr>"

lemma cached_mock_ok:
  "mock_wf cached_mock" "graph_ok (mock_abs cached_mock)" "g_nodes (mock_abs cached_mock) = small_nodes"
  "g_pending (mock_abs cached_mock) = {}" "caches_exact (mock_abs cached_mock) (g_caches (mock_abs cached_mock))"
proof -
  show "mock_wf cached_mock" using small_mock_wf [of "[]"] by (simp add: mock_wf_def cached_mock_def cache_entries_def)
  show "graph_ok (mock_abs cached_mock)"
    using small_mock_ok [of "[]"] by (simp add: cached_mock_def graph_ok_def names_ok_def ids_ok_def)
  show "g_nodes (mock_abs cached_mock) = small_nodes" "g_pending (mock_abs cached_mock) = {}"
    by (simp_all add: cached_mock_def small_mock_def small_nodes_def NewMockStorage_def fun_eq_iff)
  then show "caches_exact (mock_abs cached_mock) (g_caches (mock_abs cached_mock))"
    unfolding caches_exact_def by (simp add: small_nodes_dom) (simp add: cached_mock_def cache_entries_def)
qed

lemma small_three: "reach small_nodes ChildrenDirection 3 = {3}"
proof -
  have "b = 3" if "(3, b) \<in> (edges small_nodes ChildrenDirection)\<^sup>*" for b
    using that by (induction rule: rtrancl_induct) (auto simp: small_edges)
  then show ?thesis unfolding reach_def by auto
qed

theorem mock_CustomLeaderboard_ranks_witness:
  "\<forall>libs. \<exists>sn rest. CustomLeaderboard_handler (sample_board_libs libs) in_order (\<lambda>_. in_order)
     \<lparr>sc_order = [2, 0, 1], sc_seen = 1\<rparr> (NewService mock_storage cached_mock 3) ''s''
     = Some (Inr ((sn, [1, 2]) # rest)) \<and> nd_Name sn = ''a'' \<and> length rest = 2"
proof
  fix libs :: "(unit, unit) service_libs"
  let ?sv = "NewService mock_storage cached_mock 3" and ?libs = "sample_board_libs libs"
  let ?sc = "\<lparr>sc_order = [2, 0, 1], sc_seen = 1\<rparr>"
  let ?g = "mock_abs cached_mock"
  define f where "f n = \<lparr>nd_Id = n_ID n, nd_Name = n_Name n, nd_Type = n_Type n, nd_Metadata = ''null'',
      nd_Dependencies = to_array (n_Children n), nd_Dependents = to_array (n_Parents n)\<rparr>" for n :: node
  obtain e where e: "li_parse ?libs ''s'' = Inr e" by (simp add: sample_board_libs_def)
  define out where "out n = to_array (denote (query_meaning ?g (n_Name n)) e)" for n :: node
  note g = cached_mock_ok
  have g3: "map_of (m_nodes cached_mock) = small_nodes" using g(3) by simp
  have sv: "sv_state ?sv = cached_mock" "sv_storage ?sv = mock_storage" "sv_concurrency ?sv = 3" by (simp_all add: NewService_def)
  have names: "m_nameToID cached_mock = [''a'' \<mapsto> 1, ''b'' \<mapsto> 2, ''c'' \<mapsto> 3]"
    by (simp add: cached_mock_def small_mock_def NewMockStorage_def)
  have nodes: "n \<in> {sample 1 {2} {} ''a'', sample 2 {} {1} ''b'', sample 3 {} {} ''c''}"
    if "small_nodes i = Some n" for i n
    using that by (auto simp: small_nodes_def split: if_splits)
  have "named_nodes small_nodes = {1, 2, 3}" by (auto simp: named_nodes_def small_nodes_def)
  then have "card (named_nodes (g_nodes ?g)) = 3" unfolding g(3) by simp
  then have sc: "schedule_ok (nat 3) (card (named_nodes (g_nodes ?g))) ?sc"
    by (simp only:) (simp add: schedule_ok_def upt_rec)
  have known: "flat_with (query_known ?g (n_Name n)) e" if "g_nodes ?g i = Some n" for i n
    using e nodes [of i n] that unfolding g(3) by (auto simp: sample_board_libs_def query_known_def query_name_def names)
  have conv: "NodeToServiceNode (li_Marshal ?libs) n = Inr (f n)" for n
    by (simp add: NodeToServiceNode_def sample_board_libs_def f_def)
  have "denote (query_meaning ?g d) e = of_type small_nodes ''library'' (reach small_nodes ChildrenDirection (the (g_names ?g d)))" for d
    using e by (auto simp: sample_board_libs_def query_meaning_def query_name_def query_dir_def g3)
  then have val: "out (sample 1 {2} {} ''a'') = [1, 2]" "out (sample 2 {} {1} ''b'') = [2]" "out (sample 3 {} {} ''c'') = [3]"
    by (simp_all add: out_def names small_reach small_three of_type_small to_array_def)
  obtain ns where ns: "CustomLeaderboard_handler ?libs in_order (\<lambda>_. in_order) ?sc ?sv ''s'' = Some (Inr (map (\<lambda>n. (f n, out n)) ns))"
    "distinct ns" "\<forall>n. n \<in> set ns \<longleftrightarrow> g_nodes ?g (n_ID n) = Some n \<and> n_Name n \<noteq> ''''"
    "sorted_wrt (\<lambda>a b. length (out b) \<le> length (out a)) ns"
    using mock_CustomLeaderboard_ranks [of ?sv in_order "\<lambda>_. in_order" ?sc ?libs "''s''" e f] g sc known conv e
    unfolding sv out_def [symmetric] by auto
  let ?abc = "{sample 1 {2} {} ''a'', sample 2 {} {1} ''b'', sample 3 {} {} ''c''}"
  have abc: "set ns = ?abc" using ns(3) nodes unfolding g(3) by (auto simp: small_nodes_def)
  show "\<exists>sn rest. CustomLeaderboard_handler ?libs in_order (\<lambda>_. in_order) ?sc ?sv ''s''
     = Some (Inr ((sn, [1, 2]) # rest)) \<and> nd_Name sn = ''a'' \<and> length rest = 2"
  proof (cases ns)
    case (Cons n ns')
    have "sample 1 {2} {} ''a'' \<in> set ns" "n \<in> ?abc" using abc Cons by auto
    then have "n = sample 1 {2} {} ''a''" using ns(4) val unfolding Cons by auto
    moreover have "length ns = 3" using distinct_card [OF ns(2)] unfolding abc by (simp add: sample_def)
    ultimately show ?thesis using ns(1) val(1) unfolding Cons by (simp add: f_def)
  qed (use abc in simp)
qed

text \<open>
  C33. The error of a goroutine can get lost: the handler looks for an error without waiting for the
  goroutines. When the last one fails, there is a schedule under which the handler returns the error, and
  one under which it answers as if that node were not there.
\<close>

theorem leaderboard_races:
  assumes "0 < c" and "\<not> is_panic e"
  shows "\<exists>early late without. schedule_ok (nat c) (Suc (length qs)) early
    \<and> schedule_ok (nat c) (Suc (length qs)) late \<and> schedule_ok (nat c) (length qs) without
    \<and> collect_leaders marshal c early (map Inr qs @ [Inl e]) = Some (Inl e)
    \<and> collect_leaders marshal c late (map Inr qs @ [Inl e]) = collect_leaders marshal c without (map Inr qs)"
proof -
  let ?n = "length qs" and ?rs = "map Inr qs @ [Inl e] :: leader_query res list"
  define sc where "sc k seen = \<lparr>sc_order = [0..<k], sc_seen = seen\<rparr>" for k seen
  have ok: "schedule_ok (nat c) k (sc k seen)" if "k - nat c \<le> seen" "seen \<le> k" for k seen
    using that assms(1) by (simp add: schedule_ok_def sc_def list_all_iff)
  have whole: "map (\<lambda>j. xs ! j) (sc_order (sc (length xs) seen)) = xs" for xs :: "leader_query res list" and seen
    by (simp add: sc_def map_nth)
  have rs: "length ?rs = Suc ?n" "take ?n ?rs = map Inr qs" by simp_all
  have err: "first_error ?rs = Some e" "delivered ?rs = qs" by (induction qs) auto
  have panics: "filter (\<lambda>r. case r of Inl e \<Rightarrow> is_panic e | Inr x \<Rightarrow> False) ?rs = []" using assms(2) by simp
  have seen: "sc_seen (sc k m) = m" for k m by (simp add: sc_def)
  have "collect_leaders marshal c (sc (Suc ?n) (Suc ?n)) ?rs = Some (Inl e)"
    using assms(1) whole [of ?rs "Suc ?n"] panics err(1) unfolding rs(1) collect_leaders_def by (simp add: seen)
  moreover have "collect_leaders marshal c (sc (Suc ?n) ?n) ?rs = collect_leaders marshal c (sc ?n ?n) (map Inr qs)"
    using assms(1) whole [of ?rs ?n] whole [of "map Inr qs" ?n] panics err(2)
    unfolding rs(1) length_map collect_leaders_def by (simp add: seen)
  moreover have "Suc ?n - nat c \<le> ?n" using assms(1) by simp
  ultimately show ?thesis
    using ok [of "Suc ?n" "Suc ?n"] ok [of "Suc ?n" ?n] ok [of ?n ?n] by (metis diff_le_self le_SucI order_refl)
qed

theorem leaderboard_races_witness:
  "\<exists>early late sn. schedule_ok 4 2 early \<and> schedule_ok 4 2 late
    \<and> collect_leaders (\<lambda>_. Inr ''null'') 4 early
        [Inr \<lparr>lq_Node = sample 1 {} {} ''a'', lq_Output = [1]\<rparr>, Inl (Err ''dependency not found'')]
        = Some (Inl (Err ''dependency not found''))
    \<and> collect_leaders (\<lambda>_. Inr ''null'') 4 late
        [Inr \<lparr>lq_Node = sample 1 {} {} ''a'', lq_Output = [1]\<rparr>, Inl (Err ''dependency not found'')]
        = Some (Inr [(sn, [1])])"
proof -
  let ?q = "\<lparr>lq_Node = sample 1 {} {} ''a'', lq_Output = [1]\<rparr>" and ?e = "Err ''dependency not found''"
  let ?sn = "\<lparr>nd_Id = 1, nd_Name = ''a'', nd_Type = ''library'', nd_Metadata = ''null'',
     nd_Dependencies = to_array {}, nd_Dependents = to_array {}\<rparr>"
  obtain early late without where s: "schedule_ok (nat 4) 2 early" "schedule_ok (nat 4) 2 late"
    "schedule_ok (nat 4) 1 without"
    "collect_leaders (\<lambda>_. Inr ''null'') 4 early [Inr ?q, Inl ?e] = Some (Inl ?e)"
    "collect_leaders (\<lambda>_. Inr ''null'') 4 late [Inr ?q, Inl ?e] = collect_leaders (\<lambda>_. Inr ''null'') 4 without [Inr ?q]"
    using leaderboard_races [of 4 ?e "[?q]" "\<lambda>_. Inr ''null''"] by (auto simp: numeral_2_eq_2)
  have "NodeToServiceNode (\<lambda>_. Inr ''null'') (lq_Node q) = Inr ?sn" if "q \<in> set [?q]" for q
    using that by (simp add: NodeToServiceNode_def sample_def)
  then have "collect_leaders (\<lambda>_. Inr ''null'') 4 without [Inr ?q] = Some (Inr [(?sn, [1])])"
    using collect_leaders_ok [of 4 "[?q]" without "\<lambda>_. Inr ''null''" "\<lambda>_. ?sn"] s(3) by fastforce
  then show ?thesis using s by auto
qed

end
