(* ===== verification/Service_Runs.thy ===== *)
theory Service_Runs
  imports Ingest_Runs Leaderboard
begin

text \<open>
  The service over time: a relation with one rule per request that changes its state, and what holds after
  every sequence of requests. Reading requests change nothing and have no rule. The requests are served
  one after the other.
\<close>

section \<open>Sequences of requests\<close>

text \<open>
  A request that can add nodes comes when there is room for their identifiers; a build of the cache comes
  when the hash does not collide on groups of nodes of the graph.
\<close>

inductive served :: "('s \<Rightarrow> gstate) \<Rightarrow> ('v, 'f) service_libs \<Rightarrow> 's service \<Rightarrow> 's service \<Rightarrow> bool"
  for ab libs sv0 where
  start: "served ab libs sv0 sv0"
| add_node: "served ab libs sv0 sv \<Longrightarrow> Suc (g_next (ab (sv_state sv))) < 4294967296 \<Longrightarrow>
    AddNode_handler libs sv req = (sv', r) \<Longrightarrow> served ab libs sv0 sv'"
| set_dependency: "served ab libs sv0 sv \<Longrightarrow> SetDependency_handler sv a b = (sv', r) \<Longrightarrow> served ab libs sv0 sv'"
| ingest_sbom: "served ab libs sv0 sv \<Longrightarrow> g_next (ab (sv_state sv)) + sbom_size (li_sbom libs) data < 4294967296 \<Longrightarrow>
    IngestSBOM_handler libs sv data = (sv', r) \<Longrightarrow> served ab libs sv0 sv'"
| ingest_vulnerability: "served ab libs sv0 sv \<Longrightarrow> range_ok ro \<Longrightarrow> Suc (Suc (g_next (ab (sv_state sv)))) < 4294967296 \<Longrightarrow>
    IngestVulnerability_handler libs ro sv data = (sv', r) \<Longrightarrow> served ab libs sv0 sv'"
| ingest_scorecard: "served ab libs sv0 sv \<Longrightarrow> range_ok ro \<Longrightarrow>
    Suc (g_next (ab (sv_state sv)) + card_count (sl_Unmarshal (li_scorecard libs)) data) < 4294967296 \<Longrightarrow>
    IngestScorecard_handler libs ro sv data = (sv', r) \<Longrightarrow> served ab libs sv0 sv'"
| ingest_kev: "served ab libs sv0 sv \<Longrightarrow> IngestKEV_handler libs sv data = (sv', k) \<Longrightarrow> served ab libs sv0 sv'"
| ingest_epss: "served ab libs sv0 sv \<Longrightarrow> IngestEPSS_handler libs ro sv data = (sv', k) \<Longrightarrow> served ab libs sv0 sv'"
| ingest_vex: "served ab libs sv0 sv \<Longrightarrow> IngestVEX_handler libs sv data = (sv', k) \<Longrightarrow> served ab libs sv0 sv'"
| build_cache: "served ab libs sv0 sv \<Longrightarrow> range_ok ro \<Longrightarrow> no_collision (li_sha libs) (g_nodes (ab (sv_state sv))) \<Longrightarrow>
    Cache_handler libs ro sv = Some (sv', r) \<Longrightarrow> served ab libs sv0 sv'"
| clear: "served ab libs sv0 sv \<Longrightarrow> Clear_handler sv = (sv', r) \<Longrightarrow> served ab libs sv0 sv'"

text \<open>The state is consistent, and the cached index, if there is one, lists exactly the libraries.\<close>

definition service_ok ::
  "'s storage \<Rightarrow> ('s \<Rightarrow> bool) \<Rightarrow> ('s \<Rightarrow> gstate) \<Rightarrow> (string \<Rightarrow> package_url res) \<Rightarrow> 's service \<Rightarrow> bool" where
  "service_ok st good ab purl sv \<longleftrightarrow> sv_storage sv = st \<and> good (sv_state sv) \<and> graph_ok (ab (sv_state sv))
     \<and> (\<forall>idx. sv_libraries sv = Some idx \<longrightarrow> index_fresh purl (g_nodes (ab (sv_state sv))) idx)"

lemma service_okD:
  assumes "service_ok st good ab purl sv"
  shows "sv_storage sv = st" "good (sv_state sv)" "graph_ok (ab (sv_state sv))"
    "sv_libraries sv = Some idx \<Longrightarrow> index_fresh purl (g_nodes (ab (sv_state sv))) idx"
  using assms unfolding service_ok_def by blast+

lemma index_fresh_same:
  "index_fresh purl f idx \<Longrightarrow> same_libraries f g \<Longrightarrow> index_fresh purl g idx"
  unfolding index_fresh_def using same_libraries_of by metis

context graph_store
begin

lemma service_ok_steps:
  assumes sv: "service_ok st wf abs purl sv" and steps: "store_steps st abs norm T (sv_state sv) s'"
    and T: "LibraryType \<notin> T"
  shows "service_ok st wf abs purl (sv\<lparr>sv_state := s'\<rparr>)"
proof -
  note s = service_okD [OF sv]
  have "wf s'" "graph_ok (abs s')" "same_libraries (g_nodes (abs (sv_state sv))) (g_nodes (abs s'))"
    using store_steps_ok [OF steps s(2,3)] T by blast+
  then show ?thesis using s index_fresh_same unfolding service_ok_def by auto
qed

lemma service_ok_fresh:
  assumes sv: "service_ok st wf abs purl sv" and steps: "store_steps st abs norm T (sv_state sv) s'"
  shows "service_ok st wf abs purl (invalidateLibraries (sv\<lparr>sv_state := s'\<rparr>))"
  using service_okD [OF sv] store_steps_ok [OF steps] unfolding service_ok_def invalidateLibraries_def by simp

lemma AddNode_handler_steps:
  assumes sv: "sv_storage sv = st" and room: "Suc (g_next (abs (sv_state sv))) < 4294967296"
    and run: "AddNode_handler libs sv req = (sv', r)"
  shows "\<exists>T s'. store_steps st abs norm T (sv_state sv) s'
    \<and> (sv' = sv \<and> s' = sv_state sv \<or> sv' = invalidateLibraries (sv\<lparr>sv_state := s'\<rparr>))"
proof (cases req)
  case None
  then have "sv' = sv" using run by (simp add: AddNode_handler_def)
  then show ?thesis using refl_steps by blast
next
  case (Some n)
  obtain s' q where s': "AddNode st (sv_state sv) (nd_Type n) (MBytes (nd_Metadata n)) (nd_Name n) = (s', q)" by fastforce
  note store_steps.add [where ab = abs and nf = norm and T = "{nd_Type n}", OF store_steps.start singletonI room s']
  moreover have "sv' = invalidateLibraries (sv\<lparr>sv_state := s'\<rparr>)"
    using run s' sv by (simp add: AddNode_handler_def Some Let_def)
  ultimately show ?thesis by blast
qed

lemma SetDependency_handler_steps:
  assumes sv: "service_ok st wf abs purl sv" and run: "SetDependency_handler sv a b = (sv', r)"
  shows "\<exists>s'. store_steps st abs norm {} (sv_state sv) s' \<and> sv' = sv\<lparr>sv_state := s'\<rparr>"
proof (cases "\<exists>x y. st_GetNode st (sv_state sv) a = Inr x \<and> st_GetNode st (sv_state sv) b = Inr y")
  case False
  then have "sv' = sv" using run service_okD(1) [OF sv] by (auto simp: SetDependency_handler_def split: sum.splits)
  then show ?thesis by (intro exI [of _ "sv_state sv"]) simp
next
  case True
  then obtain x y where xy: "st_GetNode st (sv_state sv) a = Inr x" "st_GetNode st (sv_state sv) b = Inr y" by blast
  note s = service_okD [OF sv]
  obtain s1 x' y' q where s1: "SetDependency (Some st) (sv_state sv) (Some x) (Some y) = ((s1, x', y'), q)" by (metis surj_pair)
  have "store_steps st abs norm {} (sv_state sv) s1"
    using link_any [OF s(2,3) read_current(1) [OF s(2,3) xy(1)] read_current(1) [OF s(2,3) xy(2)] s1] by blast
  moreover have "sv' = sv\<lparr>sv_state := s1\<rparr>" using run xy s1 s(1) by (simp add: SetDependency_handler_def Let_def)
  ultimately show ?thesis by blast
qed

text \<open>A build of the cache touches the cache entries and the cache stack only, however it ends.\<close>

lemma Cache_outcome:
  "Cache ro sha st s = Some (s', r) \<Longrightarrow> s' = s
     \<or> (\<exists>cs. bind_st (ctx_st ''error saving caches'' (st_SaveCaches st s cs)) (\<lambda>s1 _. st_ClearCacheStack st s1) = (s', r))"
  by (auto simp: Cache_def split: sum.splits option.splits if_splits)


lemma Cache_keeps:
  assumes wf: "wf s" and run: "Cache ro sha st s = Some (s', r)"
  shows "wf s' \<and> (\<exists>c p. abs s' = (abs s)\<lparr>g_caches := c, g_pending := p\<rparr>)"
proof -
  have start: "abs s = (abs s)\<lparr>g_caches := g_caches (abs s), g_pending := g_pending (abs s)\<rparr>" by simp
  consider "s' = s" | cs where "bind_st (ctx_st ''error saving caches'' (st_SaveCaches st s cs)) (\<lambda>s1 _. st_ClearCacheStack st s1) = (s', r)"
    using Cache_outcome [OF run] by blast
  then show ?thesis
  proof cases
    case 1
    with start wf show ?thesis by metis
  next
    case 2
    obtain s1 where s1: "st_SaveCaches st s cs = (s1, Inr ())" "wf s1"
      "abs s1 = (abs s)\<lparr>g_caches := g_caches (abs s) ++ map_of (rev (map (\<lambda>c. (c_ID c, c)) cs))\<rparr>"
      using SaveCaches [OF wf] by blast
    obtain s2 where s2: "st_ClearCacheStack st s1 = (s2, Inr ())" "wf s2" "abs s2 = (abs s1)\<lparr>g_pending := {}\<rparr>"
      using ClearCacheStack [OF s1(2)] by blast
    have s': "s' = s2" using 2 s1(1) s2(1) by simp
    have "abs s' = (abs s)\<lparr>g_caches := g_caches (abs s) ++ map_of (rev (map (\<lambda>c. (c_ID c, c)) cs)), g_pending := {}\<rparr>"
      unfolding s' s2(3) s1(3) by simp
    then show ?thesis using s2(2) s' by blast
  qed
qed

lemma Cache_handler_keeps:
  assumes sv: "service_ok st wf abs purl sv" and run: "Cache_handler libs ro sv = Some (sv', r)"
  shows "service_ok st wf abs purl sv'"
proof -
  note s = service_okD [OF sv]
  obtain s' q where s': "Cache ro (li_sha libs) st (sv_state sv) = Some (s', q)" "sv' = sv\<lparr>sv_state := s'\<rparr>"
    using run s(1) by (auto simp: Cache_handler_def)
  obtain c p where c: "wf s'" "abs s' = (abs (sv_state sv))\<lparr>g_caches := c, g_pending := p\<rparr>"
    using Cache_keeps [OF s(2) s'(1)] by blast
  show ?thesis using s c(1) unfolding service_ok_def s'(2) by (simp add: c(2) graph_ok_def names_ok_def ids_ok_def)
qed

lemma Clear_handler_keeps:
  assumes sv: "service_ok st wf abs purl sv" and run: "Clear_handler sv = (sv', r)"
  shows "service_ok st wf abs purl sv'"
proof -
  note s = service_okD [OF sv]
  obtain s' p where s': "st_RemoveAllCaches st (sv_state sv) = (s', Inr ())" "wf s'"
    "abs s' = (abs (sv_state sv))\<lparr>g_caches := Map.empty, g_pending := p\<rparr>"
    using RemoveAllCaches [OF s(2)] by blast
  have "sv' = sv\<lparr>sv_state := s'\<rparr>" using run s(1) s'(1) by (simp add: Clear_handler_def Let_def)
  then show ?thesis using s s'(2) unfolding service_ok_def by (simp add: s'(3) graph_ok_def names_ok_def ids_ok_def)
qed

lemma IngestVulnerability_index:
  assumes sv: "service_ok st wf abs (ol_purl (li_osv libs)) sv" and ro: "range_ok ro"
  shows "\<exists>idx. index_fresh (ol_purl (li_osv libs)) (g_nodes (abs (sv_state sv))) idx
    \<and> IngestVulnerability_handler libs ro sv data =
      (let r = VulnerabilitiesWithIndex (li_osv libs) st (sv_state sv) data idx
       in (sv\<lparr>sv_libraries := Some idx, sv_state := fst r\<rparr>, ctx ''failed to ingest vulnerability'' (snd r)))"
proof (cases "sv_libraries sv")
  case None
  note s = service_okD [OF sv]
  obtain idx where "BuildLibraryIndex ro (ol_purl (li_osv libs)) st (sv_state sv) = Inr idx"
    "index_fresh (ol_purl (li_osv libs)) (g_nodes (abs (sv_state sv))) idx"
    using BuildLibraryIndex_ok [OF s(2,3) ro] by blast
  with None s(1) show ?thesis by (auto simp: IngestVulnerability_handler_def)
next
  case (Some idx)
  with service_okD [OF sv] show ?thesis by (auto simp: IngestVulnerability_handler_def)
qed

lemma IngestVulnerability_ok:
  assumes sv: "service_ok st wf abs (ol_purl (li_osv libs)) sv" and ro: "range_ok ro"
    and room: "vuln_room (abs (sv_state sv)) (vu_ID vuln)"
    and data: "data \<noteq> ''''" "ol_Unmarshal (li_osv libs) data = Inr vuln" "ol_Marshal (li_osv libs) vuln = Inr d"
    and other: "\<forall>i info. library_of (ol_purl (li_osv libs)) (g_nodes (abs (sv_state sv))) i info
      \<longrightarrow> g_names (abs (sv_state sv)) (vu_ID vuln) \<noteq> Some i"
  shows "\<exists>sv'. IngestVulnerability_handler libs ro sv data = (sv', Inr ())
    \<and> linked (abs (sv_state sv)) (vu_ID vuln)
        {i. \<exists>info. library_of (ol_purl (li_osv libs)) (g_nodes (abs (sv_state sv))) i info
           \<and> isPackageAffected (ol_semver (li_osv libs)) vuln info} (abs (sv_state sv'))"
proof -
  obtain idx where idx: "index_fresh (ol_purl (li_osv libs)) (g_nodes (abs (sv_state sv))) idx"
    "IngestVulnerability_handler libs ro sv data =
      (let r = VulnerabilitiesWithIndex (li_osv libs) st (sv_state sv) data idx
       in (sv\<lparr>sv_libraries := Some idx, sv_state := fst r\<rparr>, ctx ''failed to ingest vulnerability'' (snd r)))"
    using IngestVulnerability_index [OF sv ro, of data] by blast
  from VulnerabilitiesWithIndex_ok [OF service_okD(2,3) [OF sv] room idx(1) data other]
  show ?thesis unfolding idx(2) by (auto simp: Let_def)
qed

lemma IngestVulnerability_keeps:
  assumes sv: "service_ok st wf abs (ol_purl (li_osv libs)) sv" and ro: "range_ok ro"
    and room: "Suc (Suc (g_next (abs (sv_state sv)))) < 4294967296"
    and run: "IngestVulnerability_handler libs ro sv data = (sv', r)"
  shows "service_ok st wf abs (ol_purl (li_osv libs)) sv'"
proof -
  note s = service_okD [OF sv]
  obtain idx where idx: "index_fresh (ol_purl (li_osv libs)) (g_nodes (abs (sv_state sv))) idx"
    "sv' = (sv\<lparr>sv_libraries := Some idx\<rparr>)\<lparr>sv_state := fst (VulnerabilitiesWithIndex (li_osv libs) st (sv_state sv) data idx)\<rparr>"
    using IngestVulnerability_index [OF sv ro, of data] run by (auto simp: Let_def)
  have "service_ok st wf abs (ol_purl (li_osv libs)) (sv\<lparr>sv_libraries := Some idx\<rparr>)"
    using s idx(1) unfolding service_ok_def by simp
  then show ?thesis unfolding idx(2)
    by (rule service_ok_steps [where T = "{VulnerabilityType}"])
      (use VulnerabilitiesWithIndex_steps [OF s(2,3) room] in \<open>simp_all add: VulnerabilityType_def LibraryType_def\<close>)
qed


lemma served_ok:
  assumes "served abs libs sv0 sv" and "service_ok st wf abs (ol_purl (li_osv libs)) sv0"
  shows "service_ok st wf abs (ol_purl (li_osv libs)) sv"
  using assms
proof (induction rule: served.induct)
  case start
  then show ?case .
next
  case (add_node sv req sv' r)
  note sv = add_node.IH [OF add_node.prems]
  from AddNode_handler_steps [OF service_okD(1) [OF sv] add_node.hyps(2,3)] service_ok_fresh [OF sv] sv
  show ?case by auto
next
  case (set_dependency sv a b sv' r)
  note sv = set_dependency.IH [OF set_dependency.prems]
  from SetDependency_handler_steps [OF sv set_dependency.hyps(2)] service_ok_steps [OF sv, of "{}"]
  show ?case by auto
next
  case (ingest_sbom sv data sv' r)
  note sv = ingest_sbom.IH [OF ingest_sbom.prems]
  note s = service_okD [OF sv]
  have "sv' = invalidateLibraries (sv\<lparr>sv_state := fst (SBOM (li_sbom libs) st (sv_state sv) data)\<rparr>)"
    using ingest_sbom.hyps(3) s(1) by (simp add: IngestSBOM_handler_def Let_def)
  then show ?case using service_ok_fresh [OF sv SBOM_steps [OF s(2,3) ingest_sbom.hyps(2)]] by simp
next
  case (ingest_vulnerability sv ro data sv' r)
  from IngestVulnerability_keeps [OF ingest_vulnerability.IH [OF ingest_vulnerability.prems] ingest_vulnerability.hyps(2-4)]
  show ?case .
next
  case (ingest_scorecard sv ro data sv' r)
  note sv = ingest_scorecard.IH [OF ingest_scorecard.prems]
  note s = service_okD [OF sv]
  have "sv' = sv\<lparr>sv_state := fst (Scorecards ro (li_scorecard libs) st (sv_state sv) data)\<rparr>"
    using ingest_scorecard.hyps(4) s(1) by (simp add: IngestScorecard_handler_def Let_def)
  then show ?case
    using service_ok_steps [OF sv Scorecards_steps [OF s(2,3) ingest_scorecard.hyps(2,3)]]
    by (simp add: ScorecardType_def LibraryType_def)
next
  case (ingest_kev sv data sv' k)
  note sv = ingest_kev.IH [OF ingest_kev.prems]
  have "sv' = sv\<lparr>sv_state := fst (KEV (li_prio libs) st (sv_state sv) data)\<rparr>"
    using ingest_kev.hyps(2) service_okD(1) [OF sv] by (simp add: IngestKEV_handler_def counted_def)
  then show ?case using service_ok_steps [OF sv KEV_steps [where T = "{}"]] by simp
next
  case (ingest_epss sv ro data sv' k)
  note sv = ingest_epss.IH [OF ingest_epss.prems]
  have "sv' = sv\<lparr>sv_state := fst (EPSS ro (li_prio libs) st (sv_state sv) data)\<rparr>"
    using ingest_epss.hyps(2) service_okD(1) [OF sv] by (simp add: IngestEPSS_handler_def counted_def)
  then show ?case using service_ok_steps [OF sv EPSS_steps [where T = "{}"]] by simp
next
  case (ingest_vex sv data sv' k)
  note sv = ingest_vex.IH [OF ingest_vex.prems]
  have "sv' = sv\<lparr>sv_state := fst (VEX (li_prio libs) st (sv_state sv) data)\<rparr>"
    using ingest_vex.hyps(2) service_okD(1) [OF sv] by (simp add: IngestVEX_handler_def counted_def)
  then show ?case using service_ok_steps [OF sv VEX_steps [where T = "{}"]] by simp
next
  case (build_cache sv ro sv' r)
  from Cache_handler_keeps [OF build_cache.IH [OF build_cache.prems] build_cache.hyps(4)] show ?case .
next
  case (clear sv sv' r)
  from Clear_handler_keeps [OF clear.IH [OF clear.prems] clear.hyps(2)] show ?case .
qed


text \<open>What the ingesting requests do to the state.\<close>

lemma ingest_state:
  assumes sv: "service_ok st wf abs (ol_purl (li_osv libs)) sv"
  shows "g_next (abs (sv_state sv)) + sbom_size (li_sbom libs) data < 4294967296 \<Longrightarrow>
      IngestSBOM_handler libs sv data = (sv', r) \<Longrightarrow> store_steps st abs norm {LibraryType} (sv_state sv) (sv_state sv')"
    and "range_ok ro \<Longrightarrow> Suc (Suc (g_next (abs (sv_state sv)))) < 4294967296 \<Longrightarrow>
      IngestVulnerability_handler libs ro sv data = (sv', r) \<Longrightarrow> store_steps st abs norm {VulnerabilityType} (sv_state sv) (sv_state sv')"
    and "range_ok ro \<Longrightarrow> Suc (g_next (abs (sv_state sv)) + card_count (sl_Unmarshal (li_scorecard libs)) data) < 4294967296 \<Longrightarrow>
      IngestScorecard_handler libs ro sv data = (sv', r) \<Longrightarrow> store_steps st abs norm {ScorecardType} (sv_state sv) (sv_state sv')"
    and "IngestKEV_handler libs sv data = (sv', k) \<Longrightarrow> store_steps st abs norm {} (sv_state sv) (sv_state sv')"
    and "IngestEPSS_handler libs ro sv data = (sv', k) \<Longrightarrow> store_steps st abs norm {} (sv_state sv) (sv_state sv')"
    and "IngestVEX_handler libs sv data = (sv', k) \<Longrightarrow> store_steps st abs norm {} (sv_state sv) (sv_state sv')"
proof -
  note s = service_okD [OF sv]
  show "store_steps st abs norm {LibraryType} (sv_state sv) (sv_state sv')"
    if "g_next (abs (sv_state sv)) + sbom_size (li_sbom libs) data < 4294967296" "IngestSBOM_handler libs sv data = (sv', r)"
    using that(2) SBOM_steps [OF s(2,3) that(1)] s(1) by (auto simp: IngestSBOM_handler_def invalidateLibraries_def Let_def)
  show "store_steps st abs norm {VulnerabilityType} (sv_state sv) (sv_state sv')"
    if "range_ok ro" "Suc (Suc (g_next (abs (sv_state sv)))) < 4294967296" "IngestVulnerability_handler libs ro sv data = (sv', r)"
    using that(3) VulnerabilitiesWithIndex_steps [OF s(2,3) that(2)] IngestVulnerability_index [OF sv that(1), of data]
    by (auto simp: Let_def)
  show "store_steps st abs norm {ScorecardType} (sv_state sv) (sv_state sv')"
    if "range_ok ro" "Suc (g_next (abs (sv_state sv)) + card_count (sl_Unmarshal (li_scorecard libs)) data) < 4294967296"
      "IngestScorecard_handler libs ro sv data = (sv', r)"
    using that(3) Scorecards_steps [OF s(2,3) that(1,2)] s(1) by (auto simp: IngestScorecard_handler_def Let_def)
  show "store_steps st abs norm {} (sv_state sv) (sv_state sv')" if "IngestKEV_handler libs sv data = (sv', k)"
    using that KEV_steps s(1) by (auto simp: IngestKEV_handler_def counted_def)
  show "store_steps st abs norm {} (sv_state sv) (sv_state sv')" if "IngestEPSS_handler libs ro sv data = (sv', k)"
    using that EPSS_steps s(1) by (auto simp: IngestEPSS_handler_def counted_def)
  show "store_steps st abs norm {} (sv_state sv) (sv_state sv')" if "IngestVEX_handler libs sv data = (sv', k)"
    using that VEX_steps s(1) by (auto simp: IngestVEX_handler_def counted_def)
qed

lemma covered_steps:
  "service_ok st wf abs purl sv \<Longrightarrow> store_steps st abs norm T (sv_state sv) s' \<Longrightarrow> covered (abs (sv_state sv)) \<Longrightarrow> covered (abs s')"
  using store_steps_ok service_okD(2,3) by metis

text \<open>A build of the cache on a covered graph leaves nothing waiting and an entry for every node.\<close>

lemma Cache_handler_covered:
  assumes sv: "service_ok st wf abs purl sv" and cov: "covered (abs (sv_state sv))"
    and ro: "range_ok ro" and sha: "no_collision (li_sha libs) (g_nodes (abs (sv_state sv)))"
    and run: "Cache_handler libs ro sv = Some (sv', r)"
  shows "covered (abs (sv_state sv')) \<and> r = Inr () \<and> g_pending (abs (sv_state sv')) = {}"
proof (cases "g_pending (abs (sv_state sv)) = {}")
  case True
  have "sv' = sv \<and> r = Inr ()" using run Cache_idle [OF service_okD(2) [OF sv] True] service_okD(1) [OF sv] by (simp add: Cache_handler_def)
  then show ?thesis using cov True by simp
next
  case False
  have "g_pending (abs (sv_state sv)) \<subseteq> dom (g_nodes (abs (sv_state sv)))" using cov by (simp add: covered_def)
  from Cache_runs [OF service_okD(2,3) [OF sv] False this ro sha]
  obtain s' where s': "Cache ro (li_sha libs) st (sv_state sv) = Some (s', Inr ())"
    "abs s' = (abs (sv_state sv))\<lparr>g_caches := (\<lambda>i. if i \<in> dom (g_nodes (abs (sv_state sv)))
          then Some (cache_entry (g_nodes (abs (sv_state sv))) (g_pending (abs (sv_state sv))) i) else g_caches (abs (sv_state sv)) i),
        g_pending := {}\<rparr>" by blast
  have "sv' = sv\<lparr>sv_state := s'\<rparr> \<and> r = Inr ()" using run s'(1) service_okD(1) [OF sv] by (simp add: Cache_handler_def)
  moreover have "dom (g_caches (abs s')) \<subseteq> dom (g_nodes (abs (sv_state sv))) \<union> dom (g_caches (abs (sv_state sv)))"
    "dom (g_nodes (abs (sv_state sv))) \<subseteq> dom (g_caches (abs s'))" unfolding s'(2) by (auto split: if_splits)
  then have "covered (abs s')" using cov unfolding covered_def by (simp add: s'(2)) blast
  ultimately show ?thesis by (simp add: s'(2))
qed

end

context recaching_store
begin

text \<open>Dropping the caches leaves every node waiting.\<close>

lemma Clear_handler_pending:
  assumes sv: "service_ok st wf abs purl sv" and cov: "covered (abs (sv_state sv))" and run: "Clear_handler sv = (sv', r)"
  shows "r = Inr () \<and> g_nodes (abs (sv_state sv')) = g_nodes (abs (sv_state sv))
    \<and> g_pending (abs (sv_state sv')) = dom (g_nodes (abs (sv_state sv))) \<and> covered (abs (sv_state sv'))"
proof -
  note s = service_okD [OF sv]
  obtain s' p where s': "st_RemoveAllCaches st (sv_state sv) = (s', Inr ())"
    "abs s' = (abs (sv_state sv))\<lparr>g_caches := Map.empty, g_pending := p\<rparr>"
    using RemoveAllCaches [OF s(2)] by blast
  have "g_pending (abs s') = dom (g_nodes (abs (sv_state sv)))"
    using RemoveAllCaches_stack [OF s(2)] cov unfolding s'(1) fst_conv covered_def by blast
  moreover have "sv' = sv\<lparr>sv_state := s'\<rparr> \<and> r = Inr ()" using run s(1) s'(1) by (simp add: Clear_handler_def Let_def)
  moreover have "g_nodes (abs s') = g_nodes (abs (sv_state sv))" "g_caches (abs s') = Map.empty" unfolding s'(2) by simp_all
  ultimately show ?thesis by (auto simp: covered_def)
qed

lemma served_covered:
  assumes "served abs libs sv0 sv" and "service_ok st wf abs (ol_purl (li_osv libs)) sv0" and "covered (abs (sv_state sv0))"
  shows "covered (abs (sv_state sv))"
  using assms
proof (induction rule: served.induct)
  case (add_node sv req sv' r)
  note sv = served_ok [OF add_node.hyps(1) add_node.prems(1)]
  from AddNode_handler_steps [OF service_okD(1) [OF sv] add_node.hyps(2,3)]
  obtain T where "store_steps st abs norm T (sv_state sv) (sv_state sv')" by (auto simp: invalidateLibraries_def)
  from covered_steps [OF sv this add_node.IH [OF add_node.prems]] show ?case .
next
  case (set_dependency sv a b sv' r)
  note sv = served_ok [OF set_dependency.hyps(1) set_dependency.prems(1)]
  from SetDependency_handler_steps [OF sv set_dependency.hyps(2)]
  have "store_steps st abs norm {} (sv_state sv) (sv_state sv')" by auto
  from covered_steps [OF sv this set_dependency.IH [OF set_dependency.prems]] show ?case .
next
  case (ingest_sbom sv data sv' r)
  note sv = served_ok [OF ingest_sbom.hyps(1) ingest_sbom.prems(1)]
  from covered_steps [OF sv ingest_state(1) [OF sv ingest_sbom.hyps(2,3)] ingest_sbom.IH [OF ingest_sbom.prems]] show ?case .
next
  case (ingest_vulnerability sv ro data sv' r)
  note sv = served_ok [OF ingest_vulnerability.hyps(1) ingest_vulnerability.prems(1)]
  from covered_steps [OF sv ingest_state(2) [OF sv ingest_vulnerability.hyps(2-4)] ingest_vulnerability.IH [OF ingest_vulnerability.prems]]
  show ?case .
next
  case (ingest_scorecard sv ro data sv' r)
  note sv = served_ok [OF ingest_scorecard.hyps(1) ingest_scorecard.prems(1)]
  from covered_steps [OF sv ingest_state(3) [OF sv ingest_scorecard.hyps(2-4)] ingest_scorecard.IH [OF ingest_scorecard.prems]]
  show ?case .
next
  case (ingest_kev sv data sv' k)
  note sv = served_ok [OF ingest_kev.hyps(1) ingest_kev.prems(1)]
  from covered_steps [OF sv ingest_state(4) [OF sv ingest_kev.hyps(2)] ingest_kev.IH [OF ingest_kev.prems]] show ?case .
next
  case (ingest_epss sv ro data sv' k)
  note sv = served_ok [OF ingest_epss.hyps(1) ingest_epss.prems(1)]
  from covered_steps [OF sv ingest_state(5) [OF sv ingest_epss.hyps(2)] ingest_epss.IH [OF ingest_epss.prems]] show ?case .
next
  case (ingest_vex sv data sv' k)
  note sv = served_ok [OF ingest_vex.hyps(1) ingest_vex.prems(1)]
  from covered_steps [OF sv ingest_state(6) [OF sv ingest_vex.hyps(2)] ingest_vex.IH [OF ingest_vex.prems]] show ?case .
next
  case (build_cache sv ro sv' r)
  note sv = served_ok [OF build_cache.hyps(1) build_cache.prems(1)]
  from Cache_handler_covered [OF sv build_cache.IH [OF build_cache.prems] build_cache.hyps(2-4)] show ?case by blast
next
  case (clear sv sv' r)
  note sv = served_ok [OF clear.hyps(1) clear.prems(1)]
  from Clear_handler_pending [OF sv clear.IH [OF clear.prems] clear.hyps(2)] show ?case by blast
qed


lemma recached_exact:
  assumes sv: "service_ok st wf abs purl sv" and pend: "g_pending (abs (sv_state sv)) = dom (g_nodes (abs (sv_state sv)))"
    and ro: "range_ok ro" and sha: "no_collision (li_sha libs) (g_nodes (abs (sv_state sv)))"
  shows "\<exists>s'. Cache_handler libs ro sv = Some (sv\<lparr>sv_state := s'\<rparr>, Inr ()) \<and> wf s' \<and> graph_ok (abs s')
    \<and> g_nodes (abs s') = g_nodes (abs (sv_state sv)) \<and> g_names (abs s') = g_names (abs (sv_state sv))
    \<and> g_pending (abs s') = {} \<and> caches_exact (abs s') (g_caches (abs s'))"
proof (cases "g_pending (abs (sv_state sv)) = {}")
  case True
  then have "caches_exact (abs (sv_state sv)) (g_caches (abs (sv_state sv)))" using pend by (simp add: caches_exact_def)
  then show ?thesis
    using True service_okD [OF sv] Cache_idle [OF service_okD(2) [OF sv] True]
    by (intro exI [of _ "sv_state sv"]) (simp add: Cache_handler_def)
next
  case False
  let ?g = "abs (sv_state sv)"
  note s = service_okD [OF sv]
  obtain s' where s': "Cache ro (li_sha libs) st (sv_state sv) = Some (s', Inr ())" "wf s'"
    "abs s' = ?g\<lparr>g_caches := (\<lambda>i. if i \<in> dom (g_nodes ?g)
          then Some (cache_entry (g_nodes ?g) (g_pending ?g) i) else g_caches ?g i), g_pending := {}\<rparr>"
    using Cache_runs [OF s(2,3) False _ ro sha] pend by auto
  have "insert i (closure_or_comp (g_nodes ?g) dir (g_pending ?g) i) = reach (g_nodes ?g) dir i"
    if "i \<in> dom (g_nodes ?g)" for i dir
  proof -
    have "i \<in> connected_to (g_nodes ?g) (g_pending ?g)" using that pend by (auto simp: connected_to_def)
    then show ?thesis by (simp add: closure_or_comp_def insert_absorb)
  qed
  then have "caches_exact (abs s') (g_caches (abs s'))"
    unfolding caches_exact_def s'(3) by (simp add: cache_entry_def)
  moreover have "graph_ok (abs s')" using s(3) unfolding s'(3) by (simp add: graph_ok_def names_ok_def ids_ok_def)
  moreover have "Cache_handler libs ro sv = Some (sv\<lparr>sv_state := s'\<rparr>, Inr ())" using s'(1) s(1) by (simp add: Cache_handler_def)
  ultimately show ?thesis using s'(2) by (intro exI [of _ s']) (simp add: s'(3))
qed


lemma leaderboard_recovers:
  assumes sv: "service_ok st wf abs purl sv" and cov: "covered (abs (sv_state sv))"
    and run: "Clear_handler sv = (sv1, r)" and sha: "no_collision (li_sha libs) (g_nodes (abs (sv_state sv)))"
    and ro: "range_ok ro" "range_ok ro'" and pros: "\<And>j. range_ok (pros j)" and c: "0 < sv_concurrency sv"
    and sc: "schedule_ok (nat (sv_concurrency sv)) (card (named_nodes (g_nodes (abs (sv_state sv))))) sc"
    and parse: "li_parse libs script = Inr e"
    and known: "\<And>i n. g_nodes (abs (sv_state sv)) i = Some n \<Longrightarrow> n_Name n \<noteq> '''' \<Longrightarrow>
      flat_with (query_known (abs (sv_state sv)) (n_Name n)) e"
    and conv: "\<And>i n. g_nodes (abs (sv_state sv)) i = Some n \<Longrightarrow> NodeToServiceNode (li_Marshal libs) n = Inr (f n)"
  shows "r = Inr () \<and> (\<exists>sv2 ns. Cache_handler libs ro sv1 = Some (sv2, Inr ())
    \<and> CustomLeaderboard_handler libs ro' pros sc sv2 script
      = Some (Inr (map (\<lambda>n. (f n, to_array (denote (query_meaning (abs (sv_state sv)) (n_Name n)) e))) ns))
    \<and> distinct ns
    \<and> (\<forall>n. n \<in> set ns \<longleftrightarrow> g_nodes (abs (sv_state sv)) (n_ID n) = Some n \<and> n_Name n \<noteq> '''')
    \<and> sorted_wrt (\<lambda>a b. length (to_array (denote (query_meaning (abs (sv_state sv)) (n_Name b)) e))
        \<le> length (to_array (denote (query_meaning (abs (sv_state sv)) (n_Name a)) e))) ns)"
    (is "_ \<and> (\<exists>sv2 ns. _ \<and> ?P sv2 ns)")
proof -
  let ?g = "abs (sv_state sv)"
  note cleared = Clear_handler_pending [OF sv cov run]
  have sv1: "service_ok st wf abs purl sv1" by (rule Clear_handler_keeps [OF sv run])
  have names: "g_names (abs (sv_state sv1)) = g_names ?g" "sv_concurrency sv1 = sv_concurrency sv"
    using run service_okD(1) [OF sv] RemoveAllCaches [OF service_okD(2) [OF sv]] by (auto simp: Clear_handler_def Let_def)
  have nodes: "g_nodes (abs (sv_state sv1)) = g_nodes ?g" using cleared by blast
  have pend: "g_pending (abs (sv_state sv1)) = dom (g_nodes (abs (sv_state sv1)))" using cleared by simp
  obtain s2 where s2: "Cache_handler libs ro sv1 = Some (sv1\<lparr>sv_state := s2\<rparr>, Inr ())" "wf s2" "graph_ok (abs s2)"
    "g_nodes (abs s2) = g_nodes ?g" "g_names (abs s2) = g_names ?g" "g_pending (abs s2) = {}"
    "caches_exact (abs s2) (g_caches (abs s2))"
    using recached_exact [OF sv1 pend ro(1), of libs] sha unfolding nodes names by blast
  let ?sv2 = "sv1\<lparr>sv_state := s2\<rparr>"
  have state: "sv_state ?sv2 = s2" "sv_storage ?sv2 = st" "sv_concurrency ?sv2 = sv_concurrency sv"
    using service_okD(1) [OF sv1] names(2) by simp_all
  have same: "query_meaning (abs s2) d = query_meaning ?g d" "query_known (abs s2) d = query_known ?g d" for d
    unfolding query_meaning_def query_known_def s2(4,5) by blast+
  note board = CustomLeaderboard_ok [of ?sv2 ro' pros sc libs script e f, unfolded state same s2(4)]
  have "\<exists>ns. ?P ?sv2 ns"
    by (rule board [OF s2(2,3) refl s2(6,7) ro(2) pros c sc parse]) (erule (1) known, erule conv)
  with s2(1) cleared show ?thesis by blast
qed

end


section \<open>A service with one library\<close>

definition request_node :: "string \<Rightarrow> string \<Rightarrow> service_node" where
  "request_node ty nm = \<lparr>nd_Id = 0, nd_Name = nm, nd_Type = ty, nd_Metadata = '''', nd_Dependencies = [], nd_Dependents = []\<rparr>"

context graph_store
begin

lemma first_request:
  assumes sv: "sv_storage sv = st" "wf (sv_state sv)" and g: "g_nodes (abs (sv_state sv)) = Map.empty"
    "g_names (abs (sv_state sv)) = Map.empty" "g_next (abs (sv_state sv)) = 0"
  shows "\<exists>sv1 n. served abs libs sv sv1 \<and> g_nodes (abs (sv_state sv1)) = [1 \<mapsto> n]
    \<and> g_names (abs (sv_state sv1)) = [nm \<mapsto> 1] \<and> g_next (abs (sv_state sv1)) = 1 \<and> sv_concurrency sv1 = sv_concurrency sv
    \<and> n_ID n = 1 \<and> n_Name n = nm \<and> n_Type n = ty \<and> n_Children n = {} \<and> n_Parents n = {}"
proof -
  have none: "g_names (abs (sv_state sv)) nm = None" unfolding g(2) by simp
  have room: "Suc (g_next (abs (sv_state sv))) < 4294967296" unfolding g(3) by simp
  let ?n = "new_node ty (MBytes '''') nm 1"
  obtain s' where s': "AddNode st (sv_state sv) ty (MBytes '''') nm = (s', Inr ?n)"
    "abs s' = (abs (sv_state sv))\<lparr>g_nodes := (g_nodes (abs (sv_state sv)))(1 \<mapsto> norm ?n),
       g_names := (g_names (abs (sv_state sv)))(nm \<mapsto> 1),
       g_caches := (g_caches (abs (sv_state sv)))(1 \<mapsto> NewNodeCache 1 {} {}),
       g_pending := insert 1 (g_pending (abs (sv_state sv))),
       g_next := Suc (g_next (abs (sv_state sv)))\<rparr>"
    using AddNode_new [OF sv(2) none room, of ty "MBytes ''''"] unfolding g(3) by auto
  let ?sv1 = "invalidateLibraries (sv\<lparr>sv_state := s'\<rparr>)"
  obtain r where "AddNode_handler libs sv (Some (request_node ty nm)) = (?sv1, r)"
    using s'(1) sv(1) by (simp add: AddNode_handler_def request_node_def Let_def)
  from served.add_node [where ab = abs, OF served.start room this] have "served abs libs sv ?sv1" .
  moreover have "g_nodes (abs s') = [1 \<mapsto> norm ?n]" "g_names (abs s') = [nm \<mapsto> 1]" "g_next (abs s') = 1"
    unfolding s'(2) using g by simp_all
  moreover have "n_ID (norm ?n) = 1 \<and> n_Name (norm ?n) = nm \<and> n_Type (norm ?n) = ty \<and> n_Children (norm ?n) = {} \<and> n_Parents (norm ?n) = {}"
    unfolding norm_simps by (simp add: new_node_def)
  ultimately show ?thesis by (intro exI [of _ ?sv1] exI [of _ "norm ?n"]) (simp add: invalidateLibraries_def)
qed

end

lemma sample_board_query:
  assumes "li_parse (sample_board_libs libs) x = Inr e"
  shows "denote (query_meaning g d) e = of_type (g_nodes g) ''library'' (reach (g_nodes g) ChildrenDirection (the (g_names g d)))"
    and "flat_with (query_known g d) e \<longleftrightarrow> g_names g d \<noteq> None"
  using assms by (auto simp: sample_board_libs_def query_meaning_def query_known_def query_name_def query_dir_def)

section \<open>Properties\<close>

text \<open>
  C7. The service over an SQL database that starts empty: after every sequence of requests the graph is
  consistent, and the index of libraries that the service keeps between requests, when it has one, lists
  exactly the libraries that are in the graph, although only some of the requests drop it.
\<close>

theorem sql_service_index:
  assumes "served sql_abs libs (NewService sql_storage (empty_sqldb cd doc_like) c) sv" and "codec_ok b64 cd"
  shows "sql_wf b64 (sv_state sv) \<and> graph_ok (sql_abs (sv_state sv))
    \<and> (\<forall>idx. sv_libraries sv = Some idx \<longrightarrow>
         (\<forall>x i info. (i, info) \<in> set (idx x) \<longleftrightarrow>
           library_of (ol_purl (li_osv libs)) (g_nodes (sql_abs (sv_state sv))) i info \<and> pi_Name info = x))"
proof -
  have "service_ok sql_storage (sql_wf b64) sql_abs (ol_purl (li_osv libs)) (NewService sql_storage (empty_sqldb cd doc_like) c)"
    using empty_sqldb_ok [OF assms(2)] by (simp add: service_ok_def NewService_def)
  note service_okD [OF sq.served_ok [OF assms(1) this]]
  then show ?thesis unfolding index_fresh_def by blast
qed

text \<open>
  C8. After every sequence of requests, \<open>IngestVulnerability\<close> links exactly the affected libraries, as the
  ingestion that reads the whole graph does, whether it builds the index or uses the one it kept.
\<close>

theorem sql_IngestVulnerability_links:
  assumes "served sql_abs libs (NewService sql_storage (empty_sqldb cd doc_like) c) sv" and "codec_ok b64 cd"
    and "range_ok ro" and "vuln_room (sql_abs (sv_state sv)) (vu_ID vuln)"
    and "data \<noteq> ''''" and "ol_Unmarshal (li_osv libs) data = Inr vuln" and "ol_Marshal (li_osv libs) vuln = Inr d"
    and "\<forall>i info. library_of (ol_purl (li_osv libs)) (g_nodes (sql_abs (sv_state sv))) i info
      \<longrightarrow> g_names (sql_abs (sv_state sv)) (vu_ID vuln) \<noteq> Some i"
  shows "\<exists>sv'. IngestVulnerability_handler libs ro sv data = (sv', Inr ())
    \<and> linked (sql_abs (sv_state sv)) (vu_ID vuln)
        {i. \<exists>info. library_of (ol_purl (li_osv libs)) (g_nodes (sql_abs (sv_state sv))) i info
           \<and> isPackageAffected (ol_semver (li_osv libs)) vuln info} (sql_abs (sv_state sv'))"
proof -
  have "service_ok sql_storage (sql_wf b64) sql_abs (ol_purl (li_osv libs)) (NewService sql_storage (empty_sqldb cd doc_like) c)"
    using empty_sqldb_ok [OF assms(2)] by (simp add: service_ok_def NewService_def)
  note sv = sq.served_ok [OF assms(1) this]
  from sq.IngestVulnerability_ok [OF sv assms(3-8)] show ?thesis .
qed

text \<open>
  C9. On Redis the service recovers from \<open>Clear\<close>: after every sequence of requests from an empty store, a
  \<open>Clear\<close> and then a \<open>Cache\<close> succeed, and the leaderboard then answers with every named node and the set
  that the script denotes for it in the graph, largest first.
\<close>

theorem redis_leaderboard_recovers:
  assumes "served redis_abs libs (NewService redis_storage (empty_redis cd match) c) sv"
    and "codec_ok b64 cd" and "prefix_patterns match"
    and "Clear_handler sv = (sv1, r)" and "no_collision (li_sha libs) (g_nodes (redis_abs (sv_state sv)))"
    and "range_ok ro" and "range_ok ro'" and "\<And>j. range_ok (pros j)" and "0 < sv_concurrency sv"
    and "schedule_ok (nat (sv_concurrency sv)) (card (named_nodes (g_nodes (redis_abs (sv_state sv))))) sc"
    and "li_parse libs script = Inr e"
    and "\<forall>i n. g_nodes (redis_abs (sv_state sv)) i = Some n \<longrightarrow> n_Name n \<noteq> '''' \<longrightarrow>
      flat_with (query_known (redis_abs (sv_state sv)) (n_Name n)) e"
    and "\<forall>i n. g_nodes (redis_abs (sv_state sv)) i = Some n \<longrightarrow> NodeToServiceNode (li_Marshal libs) n = Inr (f n)"
  shows "r = Inr () \<and> (\<exists>sv2 ns. Cache_handler libs ro sv1 = Some (sv2, Inr ())
    \<and> CustomLeaderboard_handler libs ro' pros sc sv2 script
      = Some (Inr (map (\<lambda>n. (f n, to_array (denote (query_meaning (redis_abs (sv_state sv)) (n_Name n)) e))) ns))
    \<and> distinct ns
    \<and> (\<forall>n. n \<in> set ns \<longleftrightarrow> g_nodes (redis_abs (sv_state sv)) (n_ID n) = Some n \<and> n_Name n \<noteq> '''')
    \<and> sorted_wrt (\<lambda>a b. length (to_array (denote (query_meaning (redis_abs (sv_state sv)) (n_Name b)) e))
        \<le> length (to_array (denote (query_meaning (redis_abs (sv_state sv)) (n_Name a)) e))) ns)"
proof -
  let ?sv0 = "NewService redis_storage (empty_redis cd match) c"
  have sv0: "service_ok redis_storage (redis_wf b64) redis_abs (ol_purl (li_osv libs)) ?sv0"
    using empty_redis_ok [OF assms(2,3)] by (simp add: service_ok_def NewService_def)
  have cov0: "covered (redis_abs (sv_state ?sv0))"
    by (simp add: NewService_def covered_def empty_redis_def kv_empty)
  show ?thesis
    by (rule rd.leaderboard_recovers [OF rd.served_ok [OF assms(1) sv0] rd.served_covered [OF assms(1) sv0 cov0] assms(4-11)])
      (use assms(12,13) in blast)+
qed

definition vuln_libs :: "(unit, unit) service_libs \<Rightarrow> (unit, unit) service_libs" where
  "vuln_libs libs = libs\<lparr>li_osv := sample_libs\<rparr>"

lemma sample_info_pkg: "PURLToPackage (ol_purl sample_libs) x = Inr \<lparr>pi_Name = ''a'', pi_Version = ''1.0'', pi_Ecosystem = ''npm'', pi_Commit = ''''\<rparr>"
  by (simp add: PURLToPackage_def sample_libs_def getPURLEcosystem_def purlEcosystems_def)

lemma one_library:
  "\<exists>sv n. served sql_abs (vuln_libs libs) (NewService sql_storage (empty_sqldb (tree_codec rev) doc_like) 1) sv
    \<and> g_nodes (sql_abs (sv_state sv)) = [1 \<mapsto> n] \<and> g_names (sql_abs (sv_state sv)) = [''pkg:a'' \<mapsto> 1]
    \<and> g_next (sql_abs (sv_state sv)) = 1 \<and> n_Children n = {}
    \<and> (\<forall>i info. library_of (ol_purl sample_libs) (g_nodes (sql_abs (sv_state sv))) i info \<longleftrightarrow> i = 1
         \<and> info = \<lparr>pi_Name = ''a'', pi_Version = ''1.0'', pi_Ecosystem = ''npm'', pi_Commit = ''''\<rparr>)"
proof -
  let ?db = "empty_sqldb (tree_codec rev) doc_like :: (bitmap, bitmap node_aux + bitmap cache_aux) sqldb"
  let ?sv = "NewService sql_storage ?db 1"
  have "sv_storage ?sv = sql_storage" "sql_wf rev (sv_state ?sv)" "g_nodes (sql_abs (sv_state ?sv)) = Map.empty"
    "g_names (sql_abs (sv_state ?sv)) = Map.empty" "g_next (sql_abs (sv_state ?sv)) = 0"
    using empty_sqldb_ok [OF tree_codec_ok [of rev]] by (simp_all add: NewService_def empty_sqldb_def kv_empty)
  from sq.first_request [OF this, of "vuln_libs libs" "''pkg:a''" LibraryType]
  obtain sv n where sv: "served sql_abs (vuln_libs libs) ?sv sv" "g_nodes (sql_abs (sv_state sv)) = [1 \<mapsto> n]"
    "g_names (sql_abs (sv_state sv)) = [''pkg:a'' \<mapsto> 1]" "g_next (sql_abs (sv_state sv)) = 1"
    "n_Name n = ''pkg:a''" "n_Type n = LibraryType" "n_Children n = {}"
    by - (elim exE conjE, rule that; assumption)
  have "library_of (ol_purl sample_libs) (g_nodes (sql_abs (sv_state sv))) i info \<longleftrightarrow> i = 1
      \<and> info = \<lparr>pi_Name = ''a'', pi_Version = ''1.0'', pi_Ecosystem = ''npm'', pi_Commit = ''''\<rparr>" for i info
    unfolding sv(2) using sv(5,6) by (auto simp: library_of_def sample_info_pkg pkg_prefix_def has_prefix_def)
  with sv(1-4,7) show ?thesis by blast
qed

theorem sql_service_index_witness:
  "\<forall>libs. \<exists>sv idx info. served sql_abs (vuln_libs libs) (NewService sql_storage (empty_sqldb (tree_codec rev) doc_like) 1) sv
    \<and> sv_libraries sv = Some idx \<and> (1, info) \<in> set (idx ''a'')"
proof
  fix libs :: "(unit, unit) service_libs"
  obtain sv n where sv: "served sql_abs (vuln_libs libs) (NewService sql_storage (empty_sqldb (tree_codec rev) doc_like) 1) sv"
    "g_next (sql_abs (sv_state sv)) = 1"
    "\<forall>i info. library_of (ol_purl sample_libs) (g_nodes (sql_abs (sv_state sv))) i info \<longleftrightarrow> i = 1
         \<and> info = \<lparr>pi_Name = ''a'', pi_Version = ''1.0'', pi_Ecosystem = ''npm'', pi_Commit = ''''\<rparr>"
    using one_library [of libs] by blast
  obtain sv1 r where sv1: "IngestVulnerability_handler (vuln_libs libs) in_order sv '''' = (sv1, r)" by fastforce
  have room: "Suc (Suc (g_next (sql_abs (sv_state sv)))) < 4294967296" unfolding sv(2) by simp
  note run = served.ingest_vulnerability [OF sv(1) range_ok_in_order room sv1]
  have "service_ok sql_storage (sql_wf rev) sql_abs (ol_purl (li_osv (vuln_libs libs)))
      (NewService sql_storage (empty_sqldb (tree_codec rev) doc_like) 1)"
    using empty_sqldb_ok [OF tree_codec_ok [of rev]] by (simp add: service_ok_def NewService_def)
  from sq.IngestVulnerability_index [OF sq.served_ok [OF sv(1) this] range_ok_in_order, of "''''"]
  obtain idx where idx: "sv_libraries sv1 = Some idx" "sv_state sv1 = sv_state sv"
    using sv1 by (auto simp: VulnerabilitiesWithIndex_def Let_def)
  have "ol_purl (li_osv (vuln_libs libs)) = ol_purl sample_libs" by (simp add: vuln_libs_def)
  with sql_service_index [OF run tree_codec_ok] idx sv(3) have "(1, \<lparr>pi_Name = ''a'', pi_Version = ''1.0'', pi_Ecosystem = ''npm'', pi_Commit = ''''\<rparr>) \<in> set (idx ''a'')"
    by simp
  with run idx(1) show "\<exists>sv idx info. served sql_abs (vuln_libs libs) (NewService sql_storage (empty_sqldb (tree_codec rev) doc_like) 1) sv
    \<and> sv_libraries sv = Some idx \<and> (1, info) \<in> set (idx ''a'')" by blast
qed

theorem sql_IngestVulnerability_links_witness:
  "\<forall>libs. \<exists>(sv :: (bitmap, bitmap node_aux + bitmap cache_aux) sqldb service) sv' v.
     edges (g_nodes (sql_abs (sv_state sv))) ChildrenDirection = {}
     \<and> IngestVulnerability_handler (vuln_libs libs) in_order sv ''json'' = (sv', Inr ())
     \<and> g_names (sql_abs (sv_state sv')) ''GO-1'' = Some v
     \<and> edges (g_nodes (sql_abs (sv_state sv'))) ChildrenDirection = {(1, v)}"
proof
  fix libs :: "(unit, unit) service_libs"
  obtain sv n where sv: "served sql_abs (vuln_libs libs) (NewService sql_storage (empty_sqldb (tree_codec rev) doc_like) 1) sv"
    "g_nodes (sql_abs (sv_state sv)) = [1 \<mapsto> n]" "g_names (sql_abs (sv_state sv)) = [''pkg:a'' \<mapsto> 1]"
    "g_next (sql_abs (sv_state sv)) = 1" "n_Children n = {}"
    "\<forall>i info. library_of (ol_purl sample_libs) (g_nodes (sql_abs (sv_state sv))) i info \<longleftrightarrow> i = 1
         \<and> info = \<lparr>pi_Name = ''a'', pi_Version = ''1.0'', pi_Ecosystem = ''npm'', pi_Commit = ''''\<rparr>"
    using one_library [of libs] by blast
  have libs: "li_osv (vuln_libs libs) = sample_libs" by (simp add: vuln_libs_def)
  have room: "vuln_room (sql_abs (sv_state sv)) (vu_ID sample_vuln)"
    unfolding vuln_room_def sv(3,4) by (simp add: sample_vuln_def)
  have data: "''json'' \<noteq> ''''" "ol_Unmarshal sample_libs ''json'' = Inr sample_vuln" "ol_Marshal sample_libs sample_vuln = Inr ''osv''"
    by (simp_all add: sample_libs_def)
  have other: "\<forall>i info. library_of (ol_purl sample_libs) (g_nodes (sql_abs (sv_state sv))) i info
      \<longrightarrow> g_names (sql_abs (sv_state sv)) (vu_ID sample_vuln) \<noteq> Some i"
    unfolding sv(3) by (simp add: sample_vuln_def)
  have aff: "isPackageAffected (ol_semver sample_libs) sample_vuln
      \<lparr>pi_Name = ''a'', pi_Version = ''1.0'', pi_Ecosystem = ''npm'', pi_Commit = ''''\<rparr>"
    by (simp add: isPackageAffected_iff sample_vuln_def)
  have "{i. \<exists>info. library_of (ol_purl sample_libs) (g_nodes (sql_abs (sv_state sv))) i info
      \<and> isPackageAffected (ol_semver sample_libs) sample_vuln info} = {1}" unfolding sv(6) [rule_format] using aff by auto
  with sql_IngestVulnerability_links [OF sv(1) tree_codec_ok range_ok_in_order room data(1), unfolded libs, OF data(2,3) other]
  obtain sv' where sv': "IngestVulnerability_handler (vuln_libs libs) in_order sv ''json'' = (sv', Inr ())"
    "linked (sql_abs (sv_state sv)) (vu_ID sample_vuln) {1} (sql_abs (sv_state sv'))" by auto
  then obtain v where v: "linked_by (sql_abs (sv_state sv)) ''GO-1'' {1} v (sql_abs (sv_state sv'))"
    by (auto simp: linked_def sample_vuln_def)
  have none: "edges (g_nodes (sql_abs (sv_state sv))) ChildrenDirection = {}"
    unfolding sv(2) using sv(5) by (auto simp: edges_def nbrs_def split: if_splits)
  show "\<exists>(sv :: (bitmap, bitmap node_aux + bitmap cache_aux) sqldb service) sv' v.
     edges (g_nodes (sql_abs (sv_state sv))) ChildrenDirection = {}
     \<and> IngestVulnerability_handler (vuln_libs libs) in_order sv ''json'' = (sv', Inr ())
     \<and> g_names (sql_abs (sv_state sv')) ''GO-1'' = Some v
     \<and> edges (g_nodes (sql_abs (sv_state sv'))) ChildrenDirection = {(1, v)}"
    using none sv'(1) linked_byD [OF v] by (intro exI [of _ sv] exI [of _ sv'] exI [of _ v]) simp
qed

theorem redis_leaderboard_recovers_witness:
  "\<forall>libs. \<exists>(sv :: (bitmap, bitmap node_aux + bitmap cache_aux) redis service) sv1 sv2 sn. Clear_handler sv = (sv1, Inr ()) \<and> g_caches (redis_abs (sv_state sv1)) = Map.empty
     \<and> Cache_handler (sample_board_libs libs\<lparr>li_sha := (\<lambda>t. t)\<rparr>) in_order sv1 = Some (sv2, Inr ())
     \<and> CustomLeaderboard_handler (sample_board_libs libs\<lparr>li_sha := (\<lambda>t. t)\<rparr>) in_order (\<lambda>_. in_order)
         \<lparr>sc_order = [0], sc_seen = 1\<rparr> sv2 ''s'' = Some (Inr [(sn, [1])]) \<and> nd_Name sn = ''a''"
proof
  fix libs0 :: "(unit, unit) service_libs"
  let ?libs = "sample_board_libs libs0\<lparr>li_sha := (\<lambda>t. t)\<rparr>"
  let ?match = "\<lambda>p k. has_prefix k (butlast p)"
  let ?db = "empty_redis (tree_codec rev) ?match :: (bitmap, bitmap node_aux + bitmap cache_aux) redis"
  let ?sv0 = "NewService redis_storage ?db 2"
  have pat: "prefix_patterns ?match" by (simp add: prefix_patterns_def)
  note db = empty_redis_ok [OF tree_codec_ok pat]
  have "sv_storage ?sv0 = redis_storage" "redis_wf rev (sv_state ?sv0)" "g_nodes (redis_abs (sv_state ?sv0)) = Map.empty"
    "g_names (redis_abs (sv_state ?sv0)) = Map.empty" "g_next (redis_abs (sv_state ?sv0)) = 0"
    using db by (simp_all add: NewService_def empty_redis_def kv_empty)
  from rd.first_request [OF this, of ?libs "''a''" "''library''"]
  obtain sv n where sv: "served redis_abs ?libs ?sv0 sv" "g_nodes (redis_abs (sv_state sv)) = [1 \<mapsto> n]"
    "g_names (redis_abs (sv_state sv)) = [''a'' \<mapsto> 1]" "sv_concurrency sv = sv_concurrency ?sv0"
    "n_ID n = 1" "n_Name n = ''a''" "n_Type n = ''library''" "n_Children n = {}"
    by - (elim exE conjE, rule that; assumption)
  let ?g = "redis_abs (sv_state sv)"
  define f where "f n = \<lparr>nd_Id = n_ID n, nd_Name = n_Name n, nd_Type = n_Type n, nd_Metadata = ''null'',
      nd_Dependencies = to_array (n_Children n), nd_Dependents = to_array (n_Parents n)\<rparr>" for n :: node
  obtain e where e: "li_parse ?libs ''s'' = Inr e" by (simp add: sample_board_libs_def)
  have "service_ok redis_storage (redis_wf rev) redis_abs (ol_purl (li_osv ?libs)) ?sv0"
    using db by (simp add: service_ok_def NewService_def)
  note s = service_okD [OF rd.served_ok [OF sv(1) this]]
  obtain s1 p where s1: "st_RemoveAllCaches redis_storage (sv_state sv) = (s1, Inr ())"
    "redis_abs s1 = ?g\<lparr>g_caches := Map.empty, g_pending := p\<rparr>"
    using rd.RemoveAllCaches [OF s(2)] by blast
  have clear: "Clear_handler sv = (sv\<lparr>sv_state := s1\<rparr>, Inr ())" using s(1) s1(1) by (simp add: Clear_handler_def Let_def)
  have empty: "g_caches (redis_abs s1) = Map.empty" unfolding s1(2) by simp
  have node: "m = n \<and> i = 1" if "g_nodes ?g i = Some m" for i m using that unfolding sv(2) by (simp split: if_splits)
  have e': "li_parse (sample_board_libs libs0) ''s'' = Inr e" using e by simp
  note query = sample_board_query [OF e']
  have "flat_with (query_known ?g (n_Name m)) e" if "g_nodes ?g i = Some m" for i m
    using node [OF that] sv(6) unfolding query(2) sv(3) by simp
  then have known: "\<forall>i m. g_nodes ?g i = Some m \<longrightarrow> n_Name m \<noteq> '''' \<longrightarrow> flat_with (query_known ?g (n_Name m)) e" by blast
  have conv: "\<forall>i m. g_nodes ?g i = Some m \<longrightarrow> NodeToServiceNode (li_Marshal ?libs) m = Inr (f m)"
    by (simp add: NodeToServiceNode_def sample_board_libs_def f_def)
  have "named_nodes (g_nodes ?g) = {1}" unfolding sv(2) using sv(6) by (auto simp: named_nodes_def)
  then have sc: "schedule_ok (nat (sv_concurrency sv)) (card (named_nodes (g_nodes ?g))) \<lparr>sc_order = [0], sc_seen = 1\<rparr>"
    by (simp add: schedule_ok_def sv(4) NewService_def)
  have "edges (g_nodes ?g) ChildrenDirection = {}" unfolding sv(2) using sv(8) by (auto simp: edges_def nbrs_def split: if_splits)
  then have "reach (g_nodes ?g) ChildrenDirection 1 = {1}" by (simp add: reach_def)
  then have "denote (query_meaning ?g (n_Name n)) e = {1}"
    unfolding query(1) sv(2,3,6) using sv(7) by (simp add: of_type_def)
  then have out: "to_array (denote (query_meaning ?g (n_Name n)) e) = [1]" by (simp add: to_array_def)
  have c: "0 < sv_concurrency sv" unfolding sv(4) by (simp add: NewService_def)
  have sha: "no_collision (li_sha ?libs) (g_nodes ?g)" using no_collision_id by simp
  obtain sv2 ns where ns: "Cache_handler ?libs in_order (sv\<lparr>sv_state := s1\<rparr>) = Some (sv2, Inr ())"
    "CustomLeaderboard_handler ?libs in_order (\<lambda>_. in_order) \<lparr>sc_order = [0], sc_seen = 1\<rparr> sv2 ''s''
      = Some (Inr (map (\<lambda>n. (f n, to_array (denote (query_meaning ?g (n_Name n)) e))) ns))" "distinct ns"
    "\<forall>n. n \<in> set ns \<longleftrightarrow> g_nodes ?g (n_ID n) = Some n \<and> n_Name n \<noteq> ''''"
    using redis_leaderboard_recovers [OF sv(1) tree_codec_ok pat clear sha range_ok_in_order range_ok_in_order
        range_ok_in_order c sc e known conv] by blast
  have "m \<in> set ns \<longleftrightarrow> m = n" for m
  proof
    assume "m \<in> set ns"
    then show "m = n" using ns(4) node by blast
  next
    assume "m = n"
    moreover have "g_nodes ?g (n_ID n) = Some n" unfolding sv(2,5) by simp
    moreover have "n_Name n \<noteq> ''''" unfolding sv(6) by simp
    ultimately show "m \<in> set ns" using ns(4) by blast
  qed
  then have "set ns = {n}" by blast
  then have "ns = [n]" using ns(3) by (cases ns; cases "tl ns") auto
  then have "CustomLeaderboard_handler ?libs in_order (\<lambda>_. in_order) \<lparr>sc_order = [0], sc_seen = 1\<rparr> sv2 ''s'' = Some (Inr [(f n, [1])])"
    using ns(2) out by simp
  moreover have "nd_Name (f n) = ''a''" by (simp add: f_def sv(6))
  ultimately show "\<exists>(sv :: (bitmap, bitmap node_aux + bitmap cache_aux) redis service) sv1 sv2 sn.
     Clear_handler sv = (sv1, Inr ()) \<and> g_caches (redis_abs (sv_state sv1)) = Map.empty
     \<and> Cache_handler ?libs in_order sv1 = Some (sv2, Inr ())
     \<and> CustomLeaderboard_handler ?libs in_order (\<lambda>_. in_order)
         \<lparr>sc_order = [0], sc_seen = 1\<rparr> sv2 ''s'' = Some (Inr [(sn, [1])]) \<and> nd_Name sn = ''a''"
    using clear empty ns(1) by (intro exI [of _ sv] exI [of _ "sv\<lparr>sv_state := s1\<rparr>"] exI [of _ sv2] exI [of _ "f n"]) simp
qed

end
