(* ===== verification/Data_Files.thy ===== *)
theory Data_Files
  imports Service
begin

text \<open>
  What the commands share, \<open>cmd/helpers\<close> and \<open>pkg/utils/datadir.go\<close>: the address of the server, reading
  documents from files, folders and ZIP archives, and turning nodes into text. The part of the Go packages
  \<open>path/filepath\<close> and \<open>fmt\<close> that they use is modelled, for systems whose separator is \<open>/\<close>.
\<close>

section \<open>Text\<close>

definition trim_right :: "char \<Rightarrow> string \<Rightarrow> string" where
  "trim_right c s = rev (dropWhile (\<lambda>x. x = c) (rev s))"

definition equal_fold :: "string \<Rightarrow> string \<Rightarrow> bool" where
  "equal_fold a b \<longleftrightarrow> to_lower a = to_lower b"

definition Itoa :: "int \<Rightarrow> string" where
  "Itoa i = (if i < 0 then CHR ''-'' # FormatUint (nat (- i)) else FormatUint (nat i))"

definition newline :: string where "newline = [CHR 0x0A]"

text \<open>\<open>%.2f\<close> and its like: the nearest decimal with \<open>d\<close> digits after the point, the even one of two.\<close>

definition pad_left :: "nat \<Rightarrow> string \<Rightarrow> string" where
  "pad_left n s = replicate (n - length s) CHR ''0'' @ s"

definition round_even :: "rat \<Rightarrow> int" where
  "round_even x =
     (let f = \<lfloor>x\<rfloor>; r = x - of_int f
      in if r < 1 / 2 then f else if 1 / 2 < r then f + 1 else if even f then f else f + 1)"

fun format_fixed :: "nat \<Rightarrow> float64 \<Rightarrow> string" where
  "format_fixed d (float64.Fin x) =
     (let m = nat (round_even (\<bar>x\<bar> * 10 ^ d))
      in (if x < 0 then ''-'' else '''') @ FormatUint (m div 10 ^ d) @ ''.'' @ pad_left d (FormatUint (m mod 10 ^ d)))"
| "format_fixed d PInf = ''+Inf''"
| "format_fixed d NInf = ''-Inf''"
| "format_fixed d NaN = ''NaN''"

text \<open>\<open>addr.go\<close> and \<open>common.go\<close>.\<close>

definition ServerURL :: "string \<Rightarrow> string" where
  "ServerURL addr =
     (let a = trim_space addr
      in if a = '''' then ''http://localhost:8089''
         else if str_contains a ''://'' then trim_right CHR ''/'' a
         else ''http://'' @ trim_right CHR ''/'' a)"

definition ellipsis :: string where "ellipsis = ''...''"

definition TruncateString :: "string \<Rightarrow> int \<Rightarrow> string" where
  "TruncateString str maxLength =
     (if maxLength < 4 then str
      else if int (length str) \<le> maxLength then str
      else ellipsis @ drop (nat (int (length str) - maxLength + int (length ellipsis))) str)"

section \<open>Paths\<close>

text \<open>
  \<open>Clean\<close> goes through the elements of a path; the kept elements are in reverse. \<open>..\<close> removes the element
  before it, unless that is \<open>..\<close> itself, and stays only at the start of a path that is not rooted.
\<close>

definition clean_step :: "bool \<Rightarrow> string list \<Rightarrow> string \<Rightarrow> string list" where
  "clean_step rooted out e =
     (if e = '''' \<or> e = ''.'' then out
      else if e = ''..'' then
        (case out of [] \<Rightarrow> if rooted then [] else [e] | t # ts \<Rightarrow> if t = ''..'' then e # out else ts)
      else e # out)"

definition path_Clean :: "string \<Rightarrow> string" where
  "path_Clean p =
     (if p = '''' then ''.''
      else
        let rooted = (hd p = CHR ''/'');
            body = join_with ''/'' (rev (foldl (clean_step rooted) [] (split_on CHR ''/'' p)))
        in if rooted then CHR ''/'' # body else if body = '''' then ''.'' else body)"

definition path_Join :: "string list \<Rightarrow> string" where
  "path_Join es =
     (case dropWhile (\<lambda>e. e = '''') es of [] \<Rightarrow> '''' | e # rest \<Rightarrow> path_Clean (join_with ''/'' (e # rest)))"

definition path_Ext :: "string \<Rightarrow> string" where
  "path_Ext p =
     (let base = takeWhile (\<lambda>c. c \<noteq> CHR ''/'') (rev p)
      in if CHR ''.'' \<in> set base then CHR ''.'' # rev (takeWhile (\<lambda>c. c \<noteq> CHR ''.'') base) else '''')"

text \<open>\<open>datadir.go\<close>. The environment is a function, in which a variable that is not set is empty.\<close>

record environment =
  en_Getenv :: "string \<Rightarrow> string"
  en_GOOS :: string
  en_HomeDir :: "string res"
  en_MkdirAll :: "string \<Rightarrow> unit res"

definition DataDir :: "environment \<Rightarrow> string res" where
  "DataDir env =
     (if en_Getenv env ''SAPPER_DATA_DIR'' \<noteq> '''' then Inr (en_Getenv env ''SAPPER_DATA_DIR'')
      else if en_Getenv env ''XDG_DATA_HOME'' \<noteq> '''' then Inr (path_Join [en_Getenv env ''XDG_DATA_HOME'', ''sapper''])
      else if en_GOOS env = ''windows'' \<and> en_Getenv env ''LOCALAPPDATA'' \<noteq> '''' then
        Inr (path_Join [en_Getenv env ''LOCALAPPDATA'', ''sapper''])
      else if en_GOOS env = ''darwin'' then
        bind_res (en_HomeDir env) (\<lambda>home. Inr (path_Join [home, ''Library'', ''Application Support'', ''sapper'']))
      else bind_res (en_HomeDir env) (\<lambda>home. Inr (path_Join [home, ''.local'', ''share'', ''sapper''])))"

definition DefaultDatabasePath :: "environment \<Rightarrow> string res" where
  "DefaultDatabasePath env =
     bind_res (DataDir env) (\<lambda>dir.
     bind_res (en_MkdirAll env dir) (\<lambda>_. Inr (path_Join [dir, ''sapper.db''])))"

section \<open>Documents\<close>

record document =
  da_Path :: string
  da_Data :: string

text \<open>
  What lies under a path: nothing that \<open>os.Stat\<close> can see, a file (reading it can fail), a folder that
  cannot be listed, or a folder with its entries.
\<close>

datatype file_tree =
    Missing fault
  | File "string res"
  | Unreadable fault
  | Folder folder
and folder =
    NoEntry
  | Entry string file_tree folder

text \<open>
  An entry of an archive: its name, whether it is a folder, the size that its header states, and what
  opening it gives: the bytes that can be read, and the error that reading them ends with, if any.
\<close>

record zip_entry =
  ze_Name :: string
  ze_IsDir :: bool
  ze_UncompressedSize64 :: nat
  ze_Open :: "(string \<times> fault option) res"

definition maxZipEntrySize :: nat where "maxZipEntrySize = 67108864"

text \<open>The reader is limited to one byte more than the largest size: an error after that is not seen.\<close>

definition readZipEntry :: "zip_entry \<Rightarrow> string res" where
  "readZipEntry f =
     bind_res (ctx ''failed to open in zip'' (ze_Open f)) (\<lambda>(bytes, end).
     bind_res
       (ctx ''failed to read in zip''
         (if length bytes \<le> maxZipEntrySize then
            (case end of Some e \<Rightarrow> Inl e | None \<Rightarrow> Inr bytes)
          else Inr (take (maxZipEntrySize + 1) bytes)))
       (\<lambda>data. if maxZipEntrySize < length data then Inl (Err ''larger than the limit'') else Inr data))"

definition is_json :: "string \<Rightarrow> bool" where
  "is_json name \<longleftrightarrow> equal_fold (path_Ext name) ''.json''"

fun read_entries :: "string \<Rightarrow> zip_entry list \<Rightarrow> document list \<Rightarrow> document list res" where
  "read_entries filePath [] result = Inr result"
| "read_entries filePath (f # fs) result =
     (if ze_IsDir f \<or> \<not> is_json (ze_Name f) then read_entries filePath fs result
      else if maxZipEntrySize < ze_UncompressedSize64 f then Inl (Err ''larger than the limit'')
      else bind_res (readZipEntry f) (\<lambda>data.
        read_entries filePath fs (result @ [\<lparr>da_Path = filePath @ ''!'' @ ze_Name f, da_Data = data\<rparr>])))"

text \<open>\<open>unzip\<close> is the reader of archives, from the bytes of the file.\<close>

definition readZipFile :: "(string \<Rightarrow> zip_entry list res) \<Rightarrow> string \<Rightarrow> string res \<Rightarrow> document list res" where
  "readZipFile unzip filePath content =
     bind_res (ctx ''failed to open zip file'' (bind_res content unzip)) (\<lambda>fs. read_entries filePath fs [])"

definition load_file :: "(string \<Rightarrow> zip_entry list res) \<Rightarrow> string \<Rightarrow> string res \<Rightarrow> document list res" where
  "load_file unzip p content =
     (if to_lower (path_Ext p) = ''.zip'' then ctx ''failed to process zip file'' (readZipFile unzip p content)
      else if to_lower (path_Ext p) = ''.json'' then
        bind_res (ctx ''failed to read JSON file'' content) (\<lambda>data. Inr [\<lparr>da_Path = p, da_Data = data\<rparr>])
      else Inr [])"

text \<open>The loop over a folder collects the documents and the errors.\<close>

fun LoadDataFromPath :: "(string \<Rightarrow> zip_entry list res) \<Rightarrow> string \<Rightarrow> file_tree \<Rightarrow> document list res"
  and load_entries :: "(string \<Rightarrow> zip_entry list res) \<Rightarrow> string \<Rightarrow> folder \<Rightarrow> document list \<times> fault list
    \<Rightarrow> document list \<times> fault list" where
  "LoadDataFromPath unzip p (Missing e) = Inl (wrap ''error accessing path'' e)"
| "LoadDataFromPath unzip p (Unreadable e) = Inl (wrap ''failed to read directory'' e)"
| "LoadDataFromPath unzip p (Folder entries) =
     (let (result, errs) = load_entries unzip p entries ([], [])
      in if errs \<noteq> [] then Inl (Err ''errors occurred during data ingestion'') else Inr result)"
| "LoadDataFromPath unzip p (File content) = load_file unzip p content"
| "load_entries unzip p NoEntry acc = acc"
| "load_entries unzip p (Entry name t rest) (result, errs) =
     (case LoadDataFromPath unzip (path_Join [p, name]) t of
        Inl e \<Rightarrow> load_entries unzip p rest (result, errs @ [wrap ''failed to load data from path'' e])
      | Inr sub \<Rightarrow> load_entries unzip p rest (result @ sub, errs))"

section \<open>Nodes as text\<close>

text \<open>\<open>formatter.go\<close>. JSON is an argument: \<open>js_Unmarshal\<close> reads an object, \<open>js_MarshalIndent\<close> writes a list.\<close>

record 'j node_output =
  no_Name :: string
  no_Type :: string
  no_ID :: string
  no_Metadata :: "'j option"

record 'j json_lib =
  js_Unmarshal :: "string \<Rightarrow> 'j res"
  js_MarshalIndent :: "'j node_output list \<Rightarrow> string res"

definition node_output_of :: "'j json_lib \<Rightarrow> service_node \<Rightarrow> 'j node_output res" where
  "node_output_of js n =
     bind_res
       (if nd_Metadata n \<noteq> '''' then
          bind_res (ctx ''failed to unmarshal metadata for node'' (js_Unmarshal js (nd_Metadata n))) (\<lambda>m. Inr (Some m))
        else Inr None)
       (\<lambda>metadata. Inr \<lparr>no_Name = nd_Name n, no_Type = nd_Type n, no_ID = FormatUint (unat (nd_Id n)),
                         no_Metadata = metadata\<rparr>)"

definition FormatNodeJSON :: "'j json_lib \<Rightarrow> service_node list option \<Rightarrow> string res" where
  "FormatNodeJSON js nodes =
     (case nodes of
        None \<Rightarrow> Inl (Err ''nodes cannot be nil'')
      | Some ns \<Rightarrow>
          if ns = [] then Inl (Err ''no nodes found'')
          else bind_res (map_res (node_output_of js) ns) (js_MarshalIndent js))"

text \<open>The answer of a leaderboard: a node, which is a pointer, and the identifiers found for it.\<close>

type_synonym query_message = "service_node option \<times> id list"

definition FormatCustomQueriesJSON :: "'j json_lib \<Rightarrow> query_message list option \<Rightarrow> string res" where
  "FormatCustomQueriesJSON js answers =
     (case answers of
        None \<Rightarrow> Inl (Err ''queries cannot be nil'')
      | Some qs \<Rightarrow>
          if qs = [] then Inl (Err ''no queries found'')
          else
            bind_res
              (map_res (\<lambda>q. case fst q of
                   None \<Rightarrow> Inl (Err ''node cannot be nil for query'')
                 | Some n \<Rightarrow> node_output_of js n) qs)
              (js_MarshalIndent js))"

text \<open>\<open>getAdditionalInfo.go\<close>, with the decoders of the metadata of scorecards and vulnerabilities.\<close>

record info_lib =
  il_Scorecard :: "string \<Rightarrow> float64 scorecard_result res"
  il_Vulnerability :: "string \<Rightarrow> vulnerability res"

definition score_details :: "float64 scorecard_result \<Rightarrow> string" where
  "score_details r =
     (let checks = sd_Checks (sr_Scorecard r)
      in join_with newline
        ((''Score: '' @ format_fixed 2 (sd_Score (sr_Scorecard r))) #
         (if checks \<noteq> [] then ''Checks:'' # map (\<lambda>c. ''- '' @ ck_Name c @ '': '' @ Itoa (ck_Score c)) checks else [])))"

definition fixed_info :: "vulnerability \<Rightarrow> string list" where
  "fixed_info v =
     concat (map (\<lambda>a. concat (map (\<lambda>r. map (\<lambda>e. op_Purl (af_Package a) @ '' : '' @ ev_Fixed e)
       (filter (\<lambda>e. ev_Fixed e \<noteq> '''') (vr_Events r))) (af_Ranges a))) (vu_Affected v))"

definition ComputeAdditionalInfo :: "info_lib \<Rightarrow> service_node \<Rightarrow> string" where
  "ComputeAdditionalInfo il n =
     (if nd_Metadata n = '''' then ''''
      else if nd_Type n = ScorecardType then
        (case il_Scorecard il (nd_Metadata n) of Inl e \<Rightarrow> '''' | Inr r \<Rightarrow> score_details r)
      else if nd_Type n = VulnerabilityType then
        (case il_Vulnerability il (nd_Metadata n) of
           Inl e \<Rightarrow> ''''
         | Inr v \<Rightarrow>
             if fixed_info v \<noteq> [] then
               ''Affected Package PURL (Package URL) : Fixed Version'' @ newline @ newline @ join_with newline (fixed_info v)
             else '''')
      else '''')"

section \<open>What is loaded\<close>

text \<open>
  Which documents lie under a path, without reading anything twice: a JSON file is one, and so is every
  JSON entry of an archive that is small enough and can be read.
\<close>

inductive holds :: "(string \<Rightarrow> zip_entry list res) \<Rightarrow> string \<Rightarrow> file_tree \<Rightarrow> document \<Rightarrow> bool"
  and folder_holds :: "(string \<Rightarrow> zip_entry list res) \<Rightarrow> string \<Rightarrow> folder \<Rightarrow> document \<Rightarrow> bool"
  for unzip where
  json: "to_lower (path_Ext p) = ''.json'' \<Longrightarrow> holds unzip p (File (Inr data)) \<lparr>da_Path = p, da_Data = data\<rparr>"
| zipped: "to_lower (path_Ext p) = ''.zip'' \<Longrightarrow> unzip bytes = Inr fs \<Longrightarrow> f \<in> set fs \<Longrightarrow> \<not> ze_IsDir f \<Longrightarrow>
    is_json (ze_Name f) \<Longrightarrow> ze_Open f = Inr (data, None) \<Longrightarrow> length data \<le> maxZipEntrySize \<Longrightarrow>
    holds unzip p (File (Inr bytes)) \<lparr>da_Path = p @ ''!'' @ ze_Name f, da_Data = data\<rparr>"
| inside: "folder_holds unzip p es d \<Longrightarrow> holds unzip p (Folder es) d"
| here: "holds unzip (path_Join [p, name]) t d \<Longrightarrow> folder_holds unzip p (Entry name t es) d"
| later: "folder_holds unzip p es d \<Longrightarrow> folder_holds unzip p (Entry name t es) d"

text \<open>What stops the loading: something that has to be read and cannot be, or is too large.\<close>

inductive broken :: "(string \<Rightarrow> zip_entry list res) \<Rightarrow> string \<Rightarrow> file_tree \<Rightarrow> bool"
  and folder_broken :: "(string \<Rightarrow> zip_entry list res) \<Rightarrow> string \<Rightarrow> folder \<Rightarrow> bool"
  for unzip where
  missing: "broken unzip p (Missing e)"
| unreadable: "broken unzip p (Unreadable e)"
| file_error: "to_lower (path_Ext p) = ''.json'' \<or> to_lower (path_Ext p) = ''.zip'' \<Longrightarrow> broken unzip p (File (Inl e))"
| no_archive: "to_lower (path_Ext p) = ''.zip'' \<Longrightarrow> unzip bytes = Inl e \<Longrightarrow> broken unzip p (File (Inr bytes))"
| bad_entry: "to_lower (path_Ext p) = ''.zip'' \<Longrightarrow> unzip bytes = Inr fs \<Longrightarrow> f \<in> set fs \<Longrightarrow> \<not> ze_IsDir f \<Longrightarrow>
    is_json (ze_Name f) \<Longrightarrow>
    maxZipEntrySize < ze_UncompressedSize64 f \<or> (\<forall>data. ze_Open f = Inr (data, None) \<longrightarrow> maxZipEntrySize < length data) \<Longrightarrow>
    broken unzip p (File (Inr bytes))"
| broken_inside: "folder_broken unzip p es \<Longrightarrow> broken unzip p (Folder es)"
| broken_here: "broken unzip (path_Join [p, name]) t \<Longrightarrow> folder_broken unzip p (Entry name t es)"
| broken_later: "folder_broken unzip p es \<Longrightarrow> folder_broken unzip p (Entry name t es)"

inductive_simps holds_simps [simp]:
  "holds unzip p (Missing e) d" "holds unzip p (Unreadable e) d" "holds unzip p (File content) d" "holds unzip p (Folder es) d"
  "folder_holds unzip p NoEntry d" "folder_holds unzip p (Entry name t es) d"

inductive_simps broken_simps [simp]:
  "broken unzip p (Missing e)" "broken unzip p (Unreadable e)" "broken unzip p (File content)" "broken unzip p (Folder es)"
  "folder_broken unzip p NoEntry" "folder_broken unzip p (Entry name t es)"

lemma readZipEntry_iff:
  "readZipEntry f = Inr data \<longleftrightarrow> ze_Open f = Inr (data, None) \<and> length data \<le> maxZipEntrySize"
proof (cases "ze_Open f")
  case (Inl e)
  then show ?thesis by (simp add: readZipEntry_def)
next
  case (Inr r)
  obtain bytes ending where r: "r = (bytes, ending)" by fastforce
  show ?thesis unfolding readZipEntry_def Inr r by (auto split: option.splits)
qed

lemma read_entries_iff:
  "read_entries p fs acc = Inr ds \<longleftrightarrow>
     (\<forall>f \<in> set fs. \<not> ze_IsDir f \<longrightarrow> is_json (ze_Name f) \<longrightarrow>
        ze_UncompressedSize64 f \<le> maxZipEntrySize \<and> (\<exists>data. readZipEntry f = Inr data))
     \<and> ds = acc @ map (\<lambda>f. \<lparr>da_Path = p @ ''!'' @ ze_Name f, da_Data = projr (readZipEntry f)\<rparr>)
         (filter (\<lambda>f. \<not> ze_IsDir f \<and> is_json (ze_Name f)) fs)"
proof (induction fs arbitrary: acc)
  case Nil
  then show ?case by auto
next
  case (Cons f fs)
  show ?case
  proof (cases "readZipEntry f")
    case (Inl e)
    then show ?thesis using Cons.IH by auto
  next
    case (Inr data)
    then show ?thesis using Cons.IH by auto
  qed
qed

lemma load_file_ok:
  "(\<exists>e. load_file unzip p content = Inl e) \<longleftrightarrow> broken unzip p (File content)"
  "load_file unzip p content = Inr ds \<Longrightarrow> d \<in> set ds \<longleftrightarrow> holds unzip p (File content) d"
proof -
  show "(\<exists>e. load_file unzip p content = Inl e) \<longleftrightarrow> broken unzip p (File content)"
  proof (cases "to_lower (path_Ext p) = ''.zip''")
    case False
    then show ?thesis by (cases content) (auto simp: load_file_def)
  next
    case zip: True
    consider e where "content = Inl e" | bytes e where "content = Inr bytes" "unzip bytes = Inl e"
      | bytes fs where "content = Inr bytes" "unzip bytes = Inr fs"
      by (cases content; cases "unzip (projr content)") auto
    then show ?thesis
    proof cases
      case 1
      with zip show ?thesis by (simp add: load_file_def readZipFile_def)
    next
      case 2
      with zip show ?thesis by (simp add: load_file_def readZipFile_def)
    next
      case 3
      have "(\<exists>e. read_entries p fs [] = Inl e) \<longleftrightarrow> (\<exists>f \<in> set fs. \<not> ze_IsDir f \<and> is_json (ze_Name f)
          \<and> (maxZipEntrySize < ze_UncompressedSize64 f \<or> (\<forall>data. ze_Open f = Inr (data, None) \<longrightarrow> maxZipEntrySize < length data)))"
        using read_entries_iff [of p fs "[]"] unfolding readZipEntry_iff
        by (cases "read_entries p fs []") (auto simp: not_le not_less)
      moreover have "(\<exists>e. load_file unzip p content = Inl e) \<longleftrightarrow> (\<exists>e. read_entries p fs [] = Inl e)"
        using zip 3 by (cases "read_entries p fs []") (auto simp: load_file_def readZipFile_def)
      ultimately show ?thesis using zip 3 by auto
    qed
  qed
next
  assume run: "load_file unzip p content = Inr ds"
  show "d \<in> set ds \<longleftrightarrow> holds unzip p (File content) d"
  proof (cases "to_lower (path_Ext p) = ''.zip''")
    case False
    then show ?thesis using run by (cases content) (auto simp: load_file_def split: if_splits)
  next
    case zip: True
    then obtain bytes fs where fs: "content = Inr bytes" "unzip bytes = Inr fs" "read_entries p fs [] = Inr ds"
      using run by (auto simp: load_file_def readZipFile_def bind_res_Inr_iff)
    note read = fs(3) [unfolded read_entries_iff]
    have readable: "readZipEntry f = Inr (projr (readZipEntry f))" if "f \<in> set fs" "\<not> ze_IsDir f" "is_json (ze_Name f)" for f
      using read that by fastforce
    have "d \<in> set ds \<longleftrightarrow> (\<exists>f data. f \<in> set fs \<and> \<not> ze_IsDir f \<and> is_json (ze_Name f) \<and> readZipEntry f = Inr data
        \<and> d = \<lparr>da_Path = p @ ''!'' @ ze_Name f, da_Data = data\<rparr>)"
    proof
      assume "d \<in> set ds"
      then show "\<exists>f data. f \<in> set fs \<and> \<not> ze_IsDir f \<and> is_json (ze_Name f) \<and> readZipEntry f = Inr data
        \<and> d = \<lparr>da_Path = p @ ''!'' @ ze_Name f, da_Data = data\<rparr>"
        using read readable by (auto simp del: append_Cons)
    qed (use read in force)
    then show ?thesis using zip fs unfolding readZipEntry_iff by auto
  qed
qed

lemma load_tree_ok:
  "((\<exists>e. LoadDataFromPath unzip p t = Inl e) \<longleftrightarrow> broken unzip p t)
    \<and> (\<forall>ds d. LoadDataFromPath unzip p t = Inr ds \<longrightarrow> (d \<in> set ds \<longleftrightarrow> holds unzip p t d))"
  "(\<forall>ds errs. load_entries unzip p es acc = (ds, errs) \<longrightarrow>
     (errs = [] \<longleftrightarrow> snd acc = [] \<and> \<not> folder_broken unzip p es)
     \<and> (errs = [] \<longrightarrow> (\<forall>d. d \<in> set ds \<longleftrightarrow> d \<in> set (fst acc) \<or> folder_holds unzip p es d)))"
proof (induction unzip p t and unzip p es acc rule: LoadDataFromPath_load_entries.induct)
  case (3 unzip p entries)
  obtain ds errs where run: "load_entries unzip p entries ([], []) = (ds, errs)" by fastforce
  with 3 show ?case by auto
next
  case (4 unzip p content)
  then show ?case using load_file_ok by simp
next
  case (6 unzip p name t rest result errs)
  show ?case
  proof (cases "LoadDataFromPath unzip (path_Join [p, name]) t")
    case (Inl e)
    then have "broken unzip (path_Join [p, name]) t" using "6.IH"(1) by blast
    with "6.IH"(2) [OF Inl] Inl show ?thesis by auto
  next
    case (Inr sub)
    then have "\<not> broken unzip (path_Join [p, name]) t" "\<forall>d. d \<in> set sub \<longleftrightarrow> holds unzip (path_Join [p, name]) t d"
      using "6.IH"(1) by auto
    with "6.IH"(3) [OF Inr] Inr show ?thesis by auto
  qed
qed auto


section \<open>Properties\<close>

text \<open>
  C26. Loading is all or nothing, and bounded: a path loads exactly when everything under it that has to be
  read can be read, and then the documents are exactly the JSON files and the JSON entries of archives under
  it; and no document that is read from an archive is larger than the limit, whatever the headers of the
  archive state and whatever its entries expand to.
\<close>

theorem LoadDataFromPath_exact:
  "(case LoadDataFromPath unzip p t of
      Inl e \<Rightarrow> broken unzip p t
    | Inr ds \<Rightarrow> \<not> broken unzip p t \<and> set ds = {d. holds unzip p t d})
    \<and> list_all (\<lambda>d. length (da_Data d) \<le> 67108864)
        (case readZipFile unzip p content of Inl e \<Rightarrow> [] | Inr ds \<Rightarrow> ds)"
proof
  show "case LoadDataFromPath unzip p t of
      Inl e \<Rightarrow> broken unzip p t
    | Inr ds \<Rightarrow> \<not> broken unzip p t \<and> set ds = {d. holds unzip p t d}"
    using load_tree_ok(1) [of unzip p t] by (cases "LoadDataFromPath unzip p t") auto
  show "list_all (\<lambda>d. length (da_Data d) \<le> 67108864)
        (case readZipFile unzip p content of Inl e \<Rightarrow> [] | Inr ds \<Rightarrow> ds)"
  proof (cases "readZipFile unzip p content")
    case (Inr ds)
    then obtain fs where "read_entries p fs [] = Inr ds" by (auto simp: readZipFile_def bind_res_Inr_iff)
    note read = this [unfolded read_entries_iff]
    have "length (projr (readZipEntry f)) \<le> 67108864" if f: "f \<in> set fs" "\<not> ze_IsDir f" "is_json (ze_Name f)" for f
    proof -
      obtain data where "readZipEntry f = Inr data" using read f by blast
      then show ?thesis using readZipEntry_iff [of f data] by (simp add: maxZipEntrySize_def)
    qed
    then show ?thesis using Inr read by (auto simp: list_all_iff)
  qed simp
qed

end
