(* ===== verification/Client_Ingest.thy ===== *)
theory Client_Ingest
  imports Service_Runs Data_Files
begin

text \<open>
  The commands that change the server, \<open>cmd/ingest\<close> and \<open>cmd/cache\<close>, and how the server starts,
  \<open>cmd/server\<close>. The calls of the server are arguments; the properties put the handlers of the service in
  their place. Standard output takes all that is written.
\<close>

section \<open>Starting the server\<close>

record server_options =
  so_concurrency :: int
  so_addr :: string
  so_StorageType :: string
  so_StorageAddr :: string
  so_StoragePath :: string
  so_UseInMemory :: bool

definition server_defaultAddr :: string where "server_defaultAddr = ''localhost:8089''"
definition redisStorageType :: string where "redisStorageType = ''redis''"
definition sqliteStorageType :: string where "sqliteStorageType = ''sqlite''"

definition server_flags :: server_options where
  "server_flags =
     \<lparr>so_concurrency = 10, so_addr = server_defaultAddr, so_StorageType = sqliteStorageType,
      so_StorageAddr = ''localhost:6379'', so_StoragePath = '''', so_UseInMemory = False\<rparr>"

text \<open>Opening a back end gives its methods and its state.\<close>

record 's openers =
  on_Redis :: "string \<Rightarrow> ('s storage \<times> 's) res"
  on_SQL :: "string \<Rightarrow> bool \<Rightarrow> ('s storage \<times> 's) res"

definition ProvideStorage :: "'s openers \<Rightarrow> server_options \<Rightarrow> ('s storage \<times> 's) res" where
  "ProvideStorage open_as o' =
     (if so_StorageType o' = redisStorageType then on_Redis open_as (so_StorageAddr o')
      else if so_StorageType o' = sqliteStorageType then on_SQL open_as (so_StoragePath o') (so_UseInMemory o')
      else Inl (Err ''unknown storage type''))"

definition PersistentPreRunE :: "environment \<Rightarrow> server_options \<Rightarrow> server_options res" where
  "PersistentPreRunE env o' =
     (if so_StorageType o' \<noteq> redisStorageType \<and> so_StorageType o' \<noteq> sqliteStorageType then
        Inl (Err ''invalid storage-type'')
      else bind_res
        (if so_StorageType o' = sqliteStorageType \<and> so_StoragePath o' = '''' \<and> \<not> so_UseInMemory o' then
           bind_res (ctx ''cannot find a folder for the database'' (DefaultDatabasePath env)) (\<lambda>path.
             Inr (o'\<lparr>so_StoragePath := path\<rparr>))
         else Inr o')
        (\<lambda>o1. if so_StorageType o1 = redisStorageType \<and> so_StorageAddr o1 = '''' then
                 Inl (Err ''storage-addr is required when using Redis'')
               else Inr o1))"

definition setupServer :: "'s storage \<Rightarrow> 's \<Rightarrow> server_options \<Rightarrow> (string \<times> 's service) res" where
  "setupServer st s o' =
     (if so_concurrency o' \<le> 0 then Inl (Err ''concurrency must be greater than zero'')
      else Inr (if so_addr o' = '''' then server_defaultAddr else so_addr o', NewService st s (so_concurrency o')))"

definition server_Run :: "'s openers \<Rightarrow> server_options \<Rightarrow> (string \<times> 's service) res" where
  "server_Run open_as o' =
     bind_res (ctx ''failed to initialize storage'' (ProvideStorage open_as o')) (\<lambda>(st, s).
       ctx ''failed to setup server'' (setupServer st s o'))"

text \<open>No request changes the number of slots, so on a server that has started the leaderboard never blocks.\<close>

lemma served_concurrency: "served ab libs sv0 sv \<Longrightarrow> sv_concurrency sv = sv_concurrency sv0"
proof (induction rule: served.induct)
  case (add_node sv req sv' r)
  then show ?case by (auto simp: AddNode_handler_def invalidateLibraries_def Let_def split: option.splits)
next
  case (set_dependency sv a b sv' r)
  then show ?case by (auto simp: SetDependency_handler_def Let_def split: sum.splits)
next
  case (ingest_sbom sv data sv' r)
  then show ?case by (auto simp: IngestSBOM_handler_def invalidateLibraries_def Let_def)
next
  case (ingest_vulnerability sv ro data sv' r)
  then show ?case by (auto simp: IngestVulnerability_handler_def Let_def split: sum.splits option.splits)
next
  case (ingest_scorecard sv ro data sv' r)
  then show ?case by (auto simp: IngestScorecard_handler_def Let_def)
next
  case (build_cache sv ro sv' r)
  then show ?case by (auto simp: Cache_handler_def)
next
  case (clear sv sv' r)
  then show ?case by (auto simp: Clear_handler_def Let_def)
qed (auto simp: IngestKEV_handler_def IngestEPSS_handler_def IngestVEX_handler_def counted_def)

lemma collect_leaders_answers: "0 < c \<Longrightarrow> collect_leaders marshal c sc results \<noteq> None"
  by (auto simp: collect_leaders_def Let_def split: option.split)

lemma started_leaderboard_answers:
  assumes "server_Run open_as o' = Inr (addr, sv0)" and "served ab libs sv0 sv"
  shows "CustomLeaderboard_handler libs ro pros sc sv script \<noteq> None"
proof -
  have "0 < sv_concurrency sv0"
    using assms(1) by (auto simp: server_Run_def setupServer_def NewService_def bind_res_Inr_iff split: if_splits)
  with served_concurrency [OF assms(2)] have "0 < sv_concurrency sv" by simp
  from collect_leaders_answers [OF this] show ?thesis
    by (auto simp: CustomLeaderboard_handler_def Let_def split: sum.split)
qed

section \<open>Ingesting files\<close>

text \<open>Escape sequences of the terminal: a line is overwritten with spaces, then the progress is printed.\<close>

definition esc :: "string \<Rightarrow> string" where "esc s = CHR 0x1B # s"
definition carriage :: string where "carriage = [CHR 0x0D]"

definition erase_line :: string where
  "erase_line = carriage @ esc ''[1;36m'' @ replicate 80 CHR '' '' @ esc ''[0m''"

text \<open>The parts of the messages in which the commands differ.\<close>

record ingest_texts =
  it_load_error :: string
  it_send_error :: string
  it_clear :: string
  it_what :: string
  it_current :: string
  it_done :: string

definition osv_texts :: ingest_texts where
  "osv_texts = \<lparr>it_load_error = ''failed to load vulnerabilities'', it_send_error = ''failed to ingest vulnerabilities'',
     it_clear = esc ''[K'', it_what = ''vulnerabilities'', it_current = ''Current: '', it_done = ''Vulnerabilities''\<rparr>"

definition sbom_texts :: ingest_texts where
  "sbom_texts = \<lparr>it_load_error = ''failed to ingest SBOM'', it_send_error = ''failed to ingest SBOM'',
     it_clear = '''', it_what = ''SBOMs'', it_current = '''', it_done = ''SBOMs''\<rparr>"

definition scorecard_texts :: ingest_texts where
  "scorecard_texts = \<lparr>it_load_error = ''failed to ingest SBOM'', it_send_error = ''failed to ingest Scorecard'',
     it_clear = '''', it_what = ''Scorecards'', it_current = '''', it_done = ''Scorecards''\<rparr>"

definition progress :: "ingest_texts \<Rightarrow> nat \<Rightarrow> nat \<Rightarrow> string \<Rightarrow> string" where
  "progress tx done len path =
     erase_line @ carriage @ it_clear tx @ esc ''[1;36m'' @ ''Ingested '' @ FormatUint done @ ''/'' @ FormatUint len @
     '' '' @ it_what tx @ esc ''[0m'' @ '' | '' @ esc ''[1;34m'' @ it_current tx @ TruncateString path 50 @ esc ''[0m''"

definition finished :: "ingest_texts \<Rightarrow> string" where
  "finished tx = newline @ it_done tx @ '' ingested successfully'' @ newline"

text \<open>
  The loop sends one document after the other and stops at the first error; \<open>call k\<close> is the call for the
  document with the index \<open>k\<close>.
\<close>

fun send_documents ::
  "ingest_texts \<Rightarrow> (nat \<Rightarrow> 's \<Rightarrow> string \<Rightarrow> 's \<times> unit res) \<Rightarrow> nat \<Rightarrow> nat \<Rightarrow> document list \<Rightarrow> 's \<Rightarrow> string
    \<Rightarrow> 's \<times> string \<times> unit res" where
  "send_documents tx call index len [] s out = (s, out @ finished tx, Inr ())"
| "send_documents tx call index len (d # ds) s out =
     (case call index s (da_Data d) of
        (s', Inl e) \<Rightarrow> (s', out, Inl (wrap (it_send_error tx) e))
      | (s', Inr _) \<Rightarrow>
          send_documents tx call (index + 1) len ds s' (out @ progress tx (index + 1) len (da_Path d)))"

definition ingest_Run ::
  "ingest_texts \<Rightarrow> (nat \<Rightarrow> 's \<Rightarrow> string \<Rightarrow> 's \<times> unit res) \<Rightarrow> (string \<Rightarrow> zip_entry list res) \<Rightarrow> string \<Rightarrow> file_tree \<Rightarrow> 's
    \<Rightarrow> 's \<times> string \<times> unit res" where
  "ingest_Run tx call unzip path tree s =
     (case LoadDataFromPath unzip path tree of
        Inl e \<Rightarrow> (s, '''', Inl (wrap (it_load_error tx) e))
      | Inr result \<Rightarrow> send_documents tx call 0 (length result) result s '''')"

text \<open>The three commands on a service. The numbers of the range orders count the calls.\<close>

definition osv_Run ::
  "('v, 'f) service_libs \<Rightarrow> (nat \<Rightarrow> range_order) \<Rightarrow> (string \<Rightarrow> zip_entry list res) \<Rightarrow> string \<Rightarrow> file_tree \<Rightarrow> 's service
    \<Rightarrow> 's service \<times> string \<times> unit res" where
  "osv_Run libs ros = ingest_Run osv_texts (\<lambda>k sv data. IngestVulnerability_handler libs (ros k) sv data)"

definition sbom_Run ::
  "('v, 'f) service_libs \<Rightarrow> (string \<Rightarrow> zip_entry list res) \<Rightarrow> string \<Rightarrow> file_tree \<Rightarrow> 's service
    \<Rightarrow> 's service \<times> string \<times> unit res" where
  "sbom_Run libs = ingest_Run sbom_texts (\<lambda>k sv data. IngestSBOM_handler libs sv data)"

definition scorecard_Run ::
  "('v, 'f) service_libs \<Rightarrow> (nat \<Rightarrow> range_order) \<Rightarrow> (string \<Rightarrow> zip_entry list res) \<Rightarrow> string \<Rightarrow> file_tree \<Rightarrow> 's service
    \<Rightarrow> 's service \<times> string \<times> unit res" where
  "scorecard_Run libs ros = ingest_Run scorecard_texts (\<lambda>k sv data. IngestScorecard_handler libs (ros k) sv data)"

section \<open>Data on exploitation, and the cache\<close>

text \<open>\<open>ingest/data\<close>: one file, and a count in the answer.\<close>

definition data_command ::
  "string \<Rightarrow> ('s \<Rightarrow> string \<Rightarrow> 's \<times> nat res) \<Rightarrow> string res \<Rightarrow> 's \<Rightarrow> 's \<times> string \<times> unit res" where
  "data_command what call content s =
     (case ctx ''failed to read'' content of
        Inl e \<Rightarrow> (s, '''', Inl e)
      | Inr bytes \<Rightarrow>
          (case call s bytes of
             (s', Inl e) \<Rightarrow> (s', '''', Inl e)
           | (s', Inr stored_count) \<Rightarrow> (s', ''Stored '' @ FormatUint stored_count @ '' '' @ what @ newline, Inr ())))"

definition kev_command :: "('v, 'f) service_libs \<Rightarrow> string res \<Rightarrow> 's service \<Rightarrow> 's service \<times> string \<times> unit res" where
  "kev_command libs = data_command ''KEV entries'' (IngestKEV_handler libs)"

definition epss_command ::
  "('v, 'f) service_libs \<Rightarrow> range_order \<Rightarrow> string res \<Rightarrow> 's service \<Rightarrow> 's service \<times> string \<times> unit res" where
  "epss_command libs ro = data_command ''EPSS scores'' (IngestEPSS_handler libs ro)"

definition vex_command :: "('v, 'f) service_libs \<Rightarrow> string res \<Rightarrow> 's service \<Rightarrow> 's service \<times> string \<times> unit res" where
  "vex_command libs = data_command ''VEX statements'' (IngestVEX_handler libs)"

definition clearCache :: "'s service \<Rightarrow> 's service \<times> string \<times> unit res" where
  "clearCache sv =
     (case Clear_handler sv of
        (sv', Inl e) \<Rightarrow> (sv', '''', Inl (wrap ''failed to clear cache'' e))
      | (sv', Inr _) \<Rightarrow> (sv', ''Cache cleared successfully'' @ newline, Inr ()))"

definition populateCache ::
  "('v, 'f) service_libs \<Rightarrow> range_order \<Rightarrow> 's service \<Rightarrow> ('s service \<times> string \<times> unit res) option" where
  "populateCache libs ro sv =
     map_option (\<lambda>r. case r of
         (sv', Inl e) \<Rightarrow> (sv', '''', Inl (wrap ''failed to populate cache'' e))
       | (sv', Inr _) \<Rightarrow> (sv', ''Graph fully cached'' @ newline, Inr ())) (Cache_handler libs ro sv)"

definition cache_Run ::
  "('v, 'f) service_libs \<Rightarrow> range_order \<Rightarrow> bool \<Rightarrow> 's service \<Rightarrow> ('s service \<times> string \<times> unit res) option" where
  "cache_Run libs ro clear sv = (if clear then Some (clearCache sv) else populateCache libs ro sv)"

section \<open>What a successful \<open>ingest osv\<close> leaves\<close>

lemma linked_gained:
  assumes g: "graph_ok g" and link: "linked g vid L g'"
  shows "gained (L \<times> {vid}) g g'"
proof (cases "L = {}")
  case True
  with g link show ?thesis by (simp add: linked_def gained_refl)
next
  case False
  then obtain v where v: "linked_by g vid L v g'" using linkedE [OF link] by blast
  note vD = linked_byD [OF v]
  have "g_names g vid = None \<or> g_names g vid = Some v" using v by (cases "g_names g vid") (simp_all add: linked_by_def)
  then have "g_names g \<subseteq>\<^sub>m g_names g'" unfolding vD(1) by (auto simp: map_le_def)
  then have "grown g g'" using linkedD [OF link] by (simp add: grown_def)
  moreover have "snd ` (L \<times> {vid}) = {vid}" using False by auto
  ultimately show ?thesis unfolding gained_def vD by auto
qed

text \<open>A node of the first graph has the same name in the second.\<close>

lemma grown_old_name:
  assumes "grown g h" and "graph_ok g" and "i \<in> dom (g_nodes g)" and "g_names h x = Some i"
  shows "g_names g x = Some i"
proof -
  obtain m where m: "g_nodes g i = Some m" using assms(3) by blast
  then obtain n where n: "g_nodes h i = Some n" "same_node m n"
    using assms(1) keeps_nodesD [of "g_nodes g" "g_nodes h"] unfolding grown_def by blast
  have "n_Name n = x" using assms(1,4) n(1) unfolding grown_def graph_ok_def names_ok_def by fastforce
  then have "n_Name m = x" using n(2) by (simp add: same_node_def)
  then show ?thesis using assms(2) m unfolding graph_ok_def names_ok_def by blast
qed

definition affected_by ::
  "('v, 'f) service_libs \<Rightarrow> (id \<rightharpoonup> node) \<Rightarrow> vulnerability \<Rightarrow> id set" where
  "affected_by libs nodes vuln = {i. \<exists>info. library_of (ol_purl (li_osv libs)) nodes i info
     \<and> isPackageAffected (ol_semver (li_osv libs)) vuln info}"

text \<open>The pairs of a library and the name of a vulnerability that the documents state.\<close>

definition stated ::
  "('v, 'f) service_libs \<Rightarrow> (id \<rightharpoonup> node) \<Rightarrow> document set \<Rightarrow> (id \<times> string) set" where
  "stated libs nodes ds = {(i, x). \<exists>d \<in> ds. \<exists>vuln. ol_Unmarshal (li_osv libs) (da_Data d) = Inr vuln
     \<and> x = vu_ID vuln \<and> i \<in> affected_by libs nodes vuln}"

lemma stated_insert:
  "ol_Unmarshal (li_osv libs) (da_Data d) = Inr vuln \<Longrightarrow>
    stated libs nodes (insert d ds) = affected_by libs nodes vuln \<times> {vu_ID vuln} \<union> stated libs nodes ds"
  by (auto simp: stated_def)

text \<open>A document that the ingestion can decode and encode again.\<close>

definition decodes :: "('v, 'f) service_libs \<Rightarrow> document \<Rightarrow> bool" where
  "decodes libs d \<longleftrightarrow> da_Data d \<noteq> '''' \<and> (\<exists>vuln x. ol_Unmarshal (li_osv libs) (da_Data d) = Inr vuln
     \<and> ol_Marshal (li_osv libs) vuln = Inr x)"

text \<open>No record has the name of a library.\<close>

definition apart_from_libraries :: "('v, 'f) service_libs \<Rightarrow> gstate \<Rightarrow> document set \<Rightarrow> bool" where
  "apart_from_libraries libs g ds \<longleftrightarrow> (\<forall>d \<in> ds. \<forall>vuln. ol_Unmarshal (li_osv libs) (da_Data d) = Inr vuln \<longrightarrow>
     (\<forall>i info. library_of (ol_purl (li_osv libs)) (g_nodes g) i info \<longrightarrow> g_names g (vu_ID vuln) \<noteq> Some i))"

lemma affected_by_same: "same_libraries f g \<Longrightarrow> affected_by libs g v = affected_by libs f v"
  unfolding affected_by_def by (simp add: same_libraries_of)

lemma stated_same: "same_libraries f g \<Longrightarrow> stated libs g ds = stated libs f ds"
  unfolding stated_def by (simp add: affected_by_same)

lemma library_dom: "library_of purl nodes i info \<Longrightarrow> i \<in> dom nodes"
  by (auto simp: library_of_def)

lemma apart_from_libraries_step:
  assumes "apart_from_libraries libs g ds" and "grown g h" and "graph_ok g" and "same_libraries (g_nodes g) (g_nodes h)"
  shows "apart_from_libraries libs h ds"
  unfolding apart_from_libraries_def
proof (intro ballI allI impI)
  fix d vuln i info
  assume d: "d \<in> ds" "ol_Unmarshal (li_osv libs) (da_Data d) = Inr vuln"
    and lib: "library_of (ol_purl (li_osv libs)) (g_nodes h) i info"
  from lib have lib': "library_of (ol_purl (li_osv libs)) (g_nodes g) i info" using same_libraries_of [OF assms(4)] by blast
  with assms(1) d have "g_names g (vu_ID vuln) \<noteq> Some i" unfolding apart_from_libraries_def by blast
  then show "g_names h (vu_ID vuln) \<noteq> Some i"
    using grown_old_name [OF assms(2,3) library_dom [OF lib']] by blast
qed

context graph_store
begin

text \<open>One document.\<close>

lemma send_vulnerability:
  assumes sv: "service_ok st wf abs (ol_purl (li_osv libs)) sv" and ro: "range_ok ro"
    and room: "Suc (Suc (g_next (abs (sv_state sv)))) < 4294967296"
    and apart: "apart_from_libraries libs (abs (sv_state sv)) ds" "d \<in> ds"
    and data: "da_Data d \<noteq> ''''" "ol_Unmarshal (li_osv libs) (da_Data d) = Inr vuln" "ol_Marshal (li_osv libs) vuln = Inr x"
  shows "\<exists>sv'. IngestVulnerability_handler libs ro sv (da_Data d) = (sv', Inr ())
    \<and> service_ok st wf abs (ol_purl (li_osv libs)) sv'
    \<and> gained (affected_by libs (g_nodes (abs (sv_state sv))) vuln \<times> {vu_ID vuln}) (abs (sv_state sv)) (abs (sv_state sv'))
    \<and> same_libraries (g_nodes (abs (sv_state sv))) (g_nodes (abs (sv_state sv')))
    \<and> g_next (abs (sv_state sv')) \<le> Suc (g_next (abs (sv_state sv)))"
proof -
  note s = service_okD [OF sv]
  let ?g = "abs (sv_state sv)"
  have other: "\<forall>i info. library_of (ol_purl (li_osv libs)) (g_nodes ?g) i info \<longrightarrow> g_names ?g (vu_ID vuln) \<noteq> Some i"
    using apart data(2) unfolding apart_from_libraries_def by blast
  have "vuln_room ?g (vu_ID vuln)" using room by (simp add: vuln_room_def)
  from IngestVulnerability_ok [OF sv ro this data other] obtain sv' where
    run: "IngestVulnerability_handler libs ro sv (da_Data d) = (sv', Inr ())"
    and link: "linked ?g (vu_ID vuln) (affected_by libs (g_nodes ?g) vuln) (abs (sv_state sv'))"
    unfolding affected_by_def by blast
  have "same_libraries (g_nodes ?g) (g_nodes (abs (sv_state sv')))"
    using store_steps_ok [OF ingest_state(2) [OF sv ro room run] s(2,3)]
    by (simp add: VulnerabilityType_def LibraryType_def)
  moreover have "g_next (abs (sv_state sv')) \<le> Suc (g_next ?g)"
    using link by (auto simp: linked_def linked_by_def split: if_splits option.splits)
  ultimately show ?thesis
    using run IngestVulnerability_keeps [OF sv ro room run] linked_gained [OF s(3) link] by blast
qed

text \<open>All of them.\<close>

lemma send_all_vulnerabilities:
  assumes "service_ok st wf abs (ol_purl (li_osv libs)) sv" and "\<forall>k. range_ok (ros k)"
    and "Suc (g_next (abs (sv_state sv)) + length ds) < 4294967296"
    and "apart_from_libraries libs (abs (sv_state sv)) (set ds)" and "\<forall>d \<in> set ds. decodes libs d"
  shows "\<exists>sv' out'. send_documents tx (\<lambda>k sv data. IngestVulnerability_handler libs (ros k) sv data) k n ds sv out
      = (sv', out', Inr ())
    \<and> gained (stated libs (g_nodes (abs (sv_state sv))) (set ds)) (abs (sv_state sv)) (abs (sv_state sv'))"
  using assms
proof (induction ds arbitrary: sv k out)
  case Nil
  then show ?case using service_okD(3) [OF Nil(1)] by (simp add: gained_refl stated_def)
next
  case (Cons d ds)
  note sv = Cons.prems(1)
  let ?g = "abs (sv_state sv)"
  obtain vuln x where v: "da_Data d \<noteq> ''''" "ol_Unmarshal (li_osv libs) (da_Data d) = Inr vuln" "ol_Marshal (li_osv libs) vuln = Inr x"
    using Cons.prems(5) by (auto simp: decodes_def)
  have room: "Suc (Suc (g_next ?g)) < 4294967296" using Cons.prems(3) by simp
  have d: "d \<in> set (d # ds)" by simp
  obtain sv1 where sv1: "IngestVulnerability_handler libs (ros k) sv (da_Data d) = (sv1, Inr ())"
    "service_ok st wf abs (ol_purl (li_osv libs)) sv1"
    "gained (affected_by libs (g_nodes ?g) vuln \<times> {vu_ID vuln}) ?g (abs (sv_state sv1))"
    "same_libraries (g_nodes ?g) (g_nodes (abs (sv_state sv1)))" "g_next (abs (sv_state sv1)) \<le> Suc (g_next ?g)"
    using send_vulnerability [OF sv spec [OF Cons.prems(2)] room Cons.prems(4) d v] by blast
  have grown: "grown ?g (abs (sv_state sv1))" using sv1(3) by (simp add: gained_def)
  have "apart_from_libraries libs ?g (set ds)" using Cons.prems(4) by (simp add: apart_from_libraries_def)
  note apart = apart_from_libraries_step [OF this grown service_okD(3) [OF sv] sv1(4)]
  have "Suc (g_next (abs (sv_state sv1)) + length ds) < 4294967296" using Cons.prems(3) sv1(5) by simp
  moreover have "\<forall>d \<in> set ds. decodes libs d" using Cons.prems(5) by simp
  ultimately obtain sv' out' where IH:
    "send_documents tx (\<lambda>k sv data. IngestVulnerability_handler libs (ros k) sv data) (k + 1) n ds sv1
       (out @ progress tx (k + 1) n (da_Path d)) = (sv', out', Inr ())"
    "gained (stated libs (g_nodes (abs (sv_state sv1))) (set ds)) (abs (sv_state sv1)) (abs (sv_state sv'))"
    using Cons.IH [OF sv1(2) Cons.prems(2) _ apart] by blast
  from gained_trans [OF sv1(3) IH(2)] IH(1) sv1(1) show ?case
    by (simp add: stated_insert [OF v(2)] stated_same [OF sv1(4)])
qed

lemma osv_Run_exact:
  assumes sv: "service_ok st wf abs (ol_purl (li_osv libs)) sv" and ros: "\<forall>k. range_ok (ros k)"
    and load: "LoadDataFromPath unzip path tree = Inr ds"
    and room: "Suc (g_next (abs (sv_state sv)) + length ds) < 4294967296"
    and apart: "apart_from_libraries libs (abs (sv_state sv)) {d. holds unzip path tree d}"
    and dec: "\<forall>d. holds unzip path tree d \<longrightarrow> decodes libs d"
  shows "\<exists>sv' out. osv_Run libs ros unzip path tree sv = (sv', out, Inr ())
    \<and> gained (stated libs (g_nodes (abs (sv_state sv))) {d. holds unzip path tree d}) (abs (sv_state sv)) (abs (sv_state sv'))"
proof -
  have ds: "set ds = {d. holds unzip path tree d}" using load_tree_ok(1) [of unzip path tree] load by blast
  have "apart_from_libraries libs (abs (sv_state sv)) (set ds)" "\<forall>d \<in> set ds. decodes libs d"
    using apart dec unfolding ds by simp_all
  from send_all_vulnerabilities [OF sv ros room this, of osv_texts 0 "length ds" "''''"]
  show ?thesis unfolding ds by (simp add: osv_Run_def ingest_Run_def load)
qed

end

section \<open>Properties\<close>

text \<open>
  C10. From a folder to the graph: on a service over SQL, after any sequence of requests, \<open>sapper ingest osv\<close>
  on a path whose documents can all be read and decoded succeeds, and it adds exactly the edges from every
  library to every record under the path that affects it, in files, folders and archives alike, and the
  nodes of those records; no node is lost and no other edge changes.
\<close>

theorem sql_ingest_osv_exact:
  assumes "served sql_abs libs (NewService sql_storage (empty_sqldb cd doc_like) c) sv" and "codec_ok b64 cd"
    and "\<forall>k. range_ok (ros k)" and "LoadDataFromPath unzip path tree = Inr ds"
    and "Suc (g_next (sql_abs (sv_state sv)) + length ds) < 4294967296"
    and "apart_from_libraries libs (sql_abs (sv_state sv)) {d. holds unzip path tree d}"
    and "\<forall>d. holds unzip path tree d \<longrightarrow> decodes libs d"
  shows "\<exists>sv' out. osv_Run libs ros unzip path tree sv = (sv', out, Inr ())
    \<and> keeps_nodes (g_nodes (sql_abs (sv_state sv))) (g_nodes (sql_abs (sv_state sv')))
    \<and> dom (g_names (sql_abs (sv_state sv'))) = dom (g_names (sql_abs (sv_state sv)))
        \<union> {x. \<exists>d vuln. holds unzip path tree d \<and> ol_Unmarshal (li_osv libs) (da_Data d) = Inr vuln
             \<and> x = vu_ID vuln \<and> affected_by libs (g_nodes (sql_abs (sv_state sv))) vuln \<noteq> {}}
    \<and> edges (g_nodes (sql_abs (sv_state sv'))) ChildrenDirection = edges (g_nodes (sql_abs (sv_state sv))) ChildrenDirection
        \<union> {(i, v). \<exists>d vuln. holds unzip path tree d \<and> ol_Unmarshal (li_osv libs) (da_Data d) = Inr vuln
             \<and> i \<in> affected_by libs (g_nodes (sql_abs (sv_state sv))) vuln
             \<and> g_names (sql_abs (sv_state sv')) (vu_ID vuln) = Some v}"
proof -
  have "service_ok sql_storage (sql_wf b64) sql_abs (ol_purl (li_osv libs)) (NewService sql_storage (empty_sqldb cd doc_like) c)"
    using empty_sqldb_ok [OF assms(2)] by (simp add: service_ok_def NewService_def)
  from sq.osv_Run_exact [OF sq.served_ok [OF assms(1) this] assms(3-7)]
  obtain sv' out where run: "osv_Run libs ros unzip path tree sv = (sv', out, Inr ())"
    and g: "gained (stated libs (g_nodes (sql_abs (sv_state sv))) {d. holds unzip path tree d})
      (sql_abs (sv_state sv)) (sql_abs (sv_state sv'))" by blast
  have "{(i, v). \<exists>x. (i, x) \<in> stated libs (g_nodes (sql_abs (sv_state sv))) {d. holds unzip path tree d}
        \<and> g_names (sql_abs (sv_state sv')) x = Some v}
      = {(i, v). \<exists>d vuln. holds unzip path tree d \<and> ol_Unmarshal (li_osv libs) (da_Data d) = Inr vuln
             \<and> i \<in> affected_by libs (g_nodes (sql_abs (sv_state sv))) vuln
             \<and> g_names (sql_abs (sv_state sv')) (vu_ID vuln) = Some v}" unfolding stated_def by blast
  moreover have "snd ` stated libs (g_nodes (sql_abs (sv_state sv))) {d. holds unzip path tree d}
      = {x. \<exists>d vuln. holds unzip path tree d \<and> ol_Unmarshal (li_osv libs) (da_Data d) = Inr vuln
           \<and> x = vu_ID vuln \<and> affected_by libs (g_nodes (sql_abs (sv_state sv))) vuln \<noteq> {}}"
    unfolding stated_def by force
  ultimately show ?thesis using run g unfolding gained_def grown_def by (intro exI [of _ sv'] exI [of _ out]) simp
qed

definition sample_tree :: file_tree where
  "sample_tree = Folder (Entry ''go.zip'' (File (Inr ''zip'')) (Entry ''notes.md'' (File (Inr ''text'')) NoEntry))"

definition sample_unzip :: "string \<Rightarrow> zip_entry list res" where
  "sample_unzip bytes =
     Inr [\<lparr>ze_Name = ''GO-1.JSON'', ze_IsDir = False, ze_UncompressedSize64 = 4, ze_Open = Inr (''json'', None)\<rparr>,
          \<lparr>ze_Name = ''README'', ze_IsDir = False, ze_UncompressedSize64 = 4, ze_Open = Inl (Err ''bad checksum'')\<rparr>]"

lemma sample_paths:
  "path_Join [''dumps'', ''go.zip''] = ''dumps/go.zip'' \<and> path_Join [''dumps'', ''notes.md''] = ''dumps/notes.md''"
  "to_lower (path_Ext ''dumps/go.zip'') = ''.zip''" "to_lower (path_Ext ''dumps/notes.md'') = ''.md''"
  "is_json ''GO-1.JSON'' \<and> \<not> is_json ''README''"
  by code_simp+

lemma sample_tree_loads:
  "LoadDataFromPath sample_unzip ''dumps'' sample_tree = Inr [\<lparr>da_Path = ''dumps/go.zip!GO-1.JSON'', da_Data = ''json''\<rparr>]"
  by (simp add: sample_tree_def sample_paths load_file_def readZipFile_def sample_unzip_def maxZipEntrySize_def readZipEntry_def)

lemma sample_tree_holds:
  "holds sample_unzip ''dumps'' sample_tree d \<longleftrightarrow> d = \<lparr>da_Path = ''dumps/go.zip!GO-1.JSON'', da_Data = ''json''\<rparr>"
  using load_tree_ok(1) [of sample_unzip "''dumps''" sample_tree] sample_tree_loads by auto

theorem sql_ingest_osv_exact_witness:
  "\<forall>libs. \<exists>(sv :: (bitmap, bitmap node_aux + bitmap cache_aux) sqldb service) sv' out v.
     edges (g_nodes (sql_abs (sv_state sv))) ChildrenDirection = {}
     \<and> osv_Run (vuln_libs libs) (\<lambda>_. in_order) sample_unzip ''dumps'' sample_tree sv = (sv', out, Inr ())
     \<and> g_names (sql_abs (sv_state sv')) ''GO-1'' = Some v
     \<and> edges (g_nodes (sql_abs (sv_state sv'))) ChildrenDirection = {(1, v)}"
proof
  fix libs :: "(unit, unit) service_libs"
  obtain sv n where sv: "served sql_abs (vuln_libs libs) (NewService sql_storage (empty_sqldb (tree_codec rev) doc_like) 1) sv"
    "g_nodes (sql_abs (sv_state sv)) = [1 \<mapsto> n]" "g_names (sql_abs (sv_state sv)) = [''pkg:a'' \<mapsto> 1]"
    "g_next (sql_abs (sv_state sv)) = 1" "n_Children n = {}"
    "\<forall>i info. library_of (ol_purl sample_libs) (g_nodes (sql_abs (sv_state sv))) i info \<longleftrightarrow> i = 1
         \<and> info = \<lparr>pi_Name = ''a'', pi_Version = ''1.0'', pi_Ecosystem = ''npm'', pi_Commit = ''''\<rparr>"
    using one_library [of libs] by blast
  have libs: "li_osv (vuln_libs libs) = sample_libs" by (simp add: vuln_libs_def)
  have osv: "ol_Unmarshal sample_libs ''json'' = Inr sample_vuln" "ol_Marshal sample_libs sample_vuln = Inr ''osv''"
    "vu_ID sample_vuln = ''GO-1''"
    by (simp_all add: sample_libs_def sample_vuln_def)
  have affected: "isPackageAffected (ol_semver sample_libs) sample_vuln
      \<lparr>pi_Name = ''a'', pi_Version = ''1.0'', pi_Ecosystem = ''npm'', pi_Commit = ''''\<rparr>"
    by (simp add: isPackageAffected_iff sample_vuln_def)
  define A where "A = affected_by (vuln_libs libs) (g_nodes (sql_abs (sv_state sv)))"
  have aff: "A sample_vuln = {1}"
    using affected unfolding A_def affected_by_def libs sv(6) [rule_format] by auto
  have room: "Suc (g_next (sql_abs (sv_state sv)) + length [\<lparr>da_Path = ''dumps/go.zip!GO-1.JSON'', da_Data = ''json''\<rparr>]) < 4294967296"
    unfolding sv(4) by simp
  have apart: "apart_from_libraries (vuln_libs libs) (sql_abs (sv_state sv)) {d. holds sample_unzip ''dumps'' sample_tree d}"
    unfolding apart_from_libraries_def sample_tree_holds libs sv(3) using osv by auto
  have dec: "\<forall>d. holds sample_unzip ''dumps'' sample_tree d \<longrightarrow> decodes (vuln_libs libs) d"
    unfolding sample_tree_holds decodes_def libs using osv by simp
  have "\<forall>k :: nat. range_ok in_order" using range_ok_in_order by blast
  from sql_ingest_osv_exact [where ros = "\<lambda>_. in_order", OF sv(1) tree_codec_ok this sample_tree_loads room apart dec,
      folded A_def]
  obtain sv' out where run: "osv_Run (vuln_libs libs) (\<lambda>_. in_order) sample_unzip ''dumps'' sample_tree sv = (sv', out, Inr ())"
    and names: "dom (g_names (sql_abs (sv_state sv'))) = dom (g_names (sql_abs (sv_state sv))) \<union> {''GO-1''}"
    and edges: "edges (g_nodes (sql_abs (sv_state sv'))) ChildrenDirection = edges (g_nodes (sql_abs (sv_state sv))) ChildrenDirection
        \<union> {(i, v). i \<in> {1} \<and> g_names (sql_abs (sv_state sv')) ''GO-1'' = Some v}"
    unfolding sample_tree_holds libs by (auto simp: osv aff)
  from names obtain v where v: "g_names (sql_abs (sv_state sv')) ''GO-1'' = Some v" by blast
  have none: "edges (g_nodes (sql_abs (sv_state sv))) ChildrenDirection = {}"
    unfolding sv(2) using sv(5) by (auto simp: edges_def nbrs_def split: if_splits)
  show "\<exists>(sv :: (bitmap, bitmap node_aux + bitmap cache_aux) sqldb service) sv' out v.
     edges (g_nodes (sql_abs (sv_state sv))) ChildrenDirection = {}
     \<and> osv_Run (vuln_libs libs) (\<lambda>_. in_order) sample_unzip ''dumps'' sample_tree sv = (sv', out, Inr ())
     \<and> g_names (sql_abs (sv_state sv')) ''GO-1'' = Some v
     \<and> edges (g_nodes (sql_abs (sv_state sv'))) ChildrenDirection = {(1, v)}"
    using none run v edges by (intro exI [of _ sv] exI [of _ sv'] exI [of _ out] exI [of _ v]) auto
qed

end
