(* ===== verification/Client_Query.thy ===== *)
theory Client_Query
  imports Data_Files
begin

text \<open>
  The commands that ask the server, \<open>cmd/query\<close>, \<open>cmd/leaderboard\<close>, \<open>cmd/report\<close> and \<open>cmd/llm\<close>: what each
  sends, how it turns the answer into text, and which answers it reports as errors. The call of the server
  is an argument, as the client in the options is. A list that the server left out of its message is
  \<open>None\<close>. The printers of tables and of JSON are arguments; standard output takes all that is written.
\<close>

section \<open>Tables\<close>

text \<open>The printer gets whether rows are separated by lines, the header and the rows.\<close>

type_synonym table_printer = "bool \<Rightarrow> string list \<Rightarrow> string list list \<Rightarrow> string"

record 'j printers =
  pt_json :: "'j json_lib"
  pt_info :: info_lib
  pt_table :: table_printer

definition listed :: "'a list option \<Rightarrow> 'a list" where
  "listed xs = (case xs of None \<Rightarrow> [] | Some ys \<Rightarrow> ys)"

text \<open>An error that is printed into the message of a new one, not wrapped.\<close>

definition opaque :: "string \<Rightarrow> 'a res \<Rightarrow> 'a res" where
  "opaque m r = (case r of Inl e \<Rightarrow> Inl (if is_panic e then e else Err m) | Inr x \<Rightarrow> Inr x)"

definition node_header :: "string list" where "node_header = [''Name'', ''Type'', ''ID'']"

definition node_row :: "service_node \<Rightarrow> string list" where
  "node_row n = [nd_Name n, nd_Type n, FormatUint (unat (nd_Id n))]"

definition with_info_header :: "bool \<Rightarrow> string list \<Rightarrow> string list" where
  "with_info_header showInfo headers = (if showInfo then headers @ [''Info''] else headers)"

definition with_info :: "info_lib \<Rightarrow> bool \<Rightarrow> service_node \<Rightarrow> string list \<Rightarrow> string list" where
  "with_info il showInfo n row = (if showInfo then row @ [ComputeAdditionalInfo il n] else row)"

text \<open>The loops stop after \<open>maxOutput\<close> rows.\<close>

definition custom_formatTable :: "'j printers \<Rightarrow> service_node list \<Rightarrow> int \<Rightarrow> bool \<Rightarrow> string" where
  "custom_formatTable pt nodes maxOutput showInfo =
     pt_table pt True (with_info_header showInfo node_header)
       (map (\<lambda>n. with_info (pt_info pt) showInfo n (node_row n)) (take (nat maxOutput) nodes))"

definition globsearch_formatTable :: "'j printers \<Rightarrow> service_node list \<Rightarrow> int \<Rightarrow> string" where
  "globsearch_formatTable pt nodes maxOutput =
     pt_table pt False node_header (map node_row (take (nat maxOutput) nodes))"

section \<open>Queries\<close>

text \<open>\<open>query/custom\<close>.\<close>

record query_options =
  qo_maxOutput :: int
  qo_showInfo :: bool
  qo_output :: string

definition custom_Run ::
  "'j printers \<Rightarrow> query_options \<Rightarrow> (string \<Rightarrow> service_node list option res) \<Rightarrow> string list \<Rightarrow> string res" where
  "custom_Run pt o' call args =
     (let script = join_with '' '' args
      in if trim_space script = '''' then Inl (Err ''script cannot be empty'')
         else bind_res (opaque ''query failed'' (call script)) (\<lambda>nodes.
           if length (listed nodes) = 0 then Inl (Err ''no nodes found for script'')
           else if qo_output o' = ''json'' then
             bind_res (ctx ''failed to format nodes as JSON'' (FormatNodeJSON (pt_json pt) nodes)) (\<lambda>out. Inr (out @ newline))
           else if qo_output o' = ''table'' then
             Inr (custom_formatTable pt (listed nodes) (qo_maxOutput o') (qo_showInfo o'))
           else Inl (Err ''unknown output format'')))"

text \<open>\<open>query/globsearch\<close>.\<close>

definition globsearch_Run ::
  "'j printers \<Rightarrow> query_options \<Rightarrow> (string \<Rightarrow> service_node list option res) \<Rightarrow> string \<Rightarrow> string res" where
  "globsearch_Run pt o' call pattern =
     (if pattern = '''' then Inl (Err ''pattern is required'')
      else bind_res (ctx ''query failed'' (call pattern)) (\<lambda>nodes.
        if length (listed nodes) = 0 then Inl (Err ''no nodes found matching pattern'')
        else if qo_output o' = ''json'' then
          bind_res (ctx ''failed to format nodes as JSON'' (FormatNodeJSON (pt_json pt) nodes)) (\<lambda>out. Inr (out @ newline))
        else if qo_output o' = ''table'' then Inr (globsearch_formatTable pt (listed nodes) (qo_maxOutput o'))
        else Inl (Err ''unknown output format'')))"

text \<open>\<open>query/getMetadata\<close>. The output is printed or written to a file.\<close>

datatype command_output = Printed string | Written string string

record metadata_options =
  mo_outputFile :: string
  mo_output :: string

definition fetchNode :: "(string \<Rightarrow> service_node option res) \<Rightarrow> string \<Rightarrow> service_node res" where
  "fetchNode call nodeName =
     (if nodeName = '''' then Inl (Err ''node name is required'')
      else bind_res (opaque ''query failed'' (call nodeName)) (\<lambda>node.
        case node of None \<Rightarrow> Inl (Err ''node not found'') | Some n \<Rightarrow> Inr n))"

definition handleJSONOutput ::
  "'j printers \<Rightarrow> metadata_options \<Rightarrow> (string \<Rightarrow> string \<Rightarrow> unit res) \<Rightarrow> service_node \<Rightarrow> command_output res" where
  "handleJSONOutput pt o' write_file node =
     bind_res (opaque ''failed to format node as JSON'' (FormatNodeJSON (pt_json pt) (Some [node]))) (\<lambda>out.
       if mo_outputFile o' \<noteq> '''' then
         bind_res (opaque ''failed to write output file'' (write_file (mo_outputFile o') out)) (\<lambda>_.
           Inr (Written (mo_outputFile o') out))
       else Inr (Printed (out @ newline)))"

definition formatAndDisplayOutput ::
  "'j printers \<Rightarrow> metadata_options \<Rightarrow> (string \<Rightarrow> string \<Rightarrow> unit res) \<Rightarrow> service_node \<Rightarrow> command_output res" where
  "formatAndDisplayOutput pt o' write_file node =
     (if mo_output o' = ''json'' then handleJSONOutput pt o' write_file node
      else if mo_output o' = ''table'' then Inr (Printed (pt_table pt False node_header [node_row node]))
      else Inl (Err ''unknown output format''))"

definition getMetadata_Run ::
  "'j printers \<Rightarrow> metadata_options \<Rightarrow> (string \<Rightarrow> string \<Rightarrow> unit res) \<Rightarrow> (string \<Rightarrow> service_node option res)
    \<Rightarrow> string \<Rightarrow> command_output res" where
  "getMetadata_Run pt o' write_file call nodeName =
     bind_res (fetchNode call nodeName) (formatAndDisplayOutput pt o' write_file)"

section \<open>Leaderboards\<close>

text \<open>\<open>leaderboard/custom\<close>. \<open>fmt.Sprint\<close> of a list of numbers. A node that is missing is dereferenced.\<close>

definition sprint_ids :: "id list \<Rightarrow> string" where
  "sprint_ids ids = ''['' @ join_with '' '' (map (\<lambda>i. FormatUint (unat i)) ids) @ '']''"

definition query_row :: "info_lib \<Rightarrow> bool \<Rightarrow> bool \<Rightarrow> query_message \<Rightarrow> string list res" where
  "query_row il all showInfo q =
     (case fst q of
        None \<Rightarrow> Inl (Panic ''nil pointer dereference'')
      | Some n \<Rightarrow> Inr (with_info il showInfo n
          [nd_Name n, nd_Type n, FormatUint (unat (nd_Id n)),
           if all then sprint_ids (snd q) else FormatUint (length (snd q))]))"

definition leaderboard_renderTable ::
  "'j printers \<Rightarrow> query_message list option \<Rightarrow> bool \<Rightarrow> int \<Rightarrow> bool \<Rightarrow> string res" where
  "leaderboard_renderTable pt answers showInfo maxOutput all =
     (case answers of
        None \<Rightarrow> Inl (Err ''queries data is invalid'')
      | Some qs \<Rightarrow>
          if length qs = 0 then Inr (''No data available'' @ newline)
          else bind_res (map_res (query_row (pt_info pt) all showInfo) (take (nat maxOutput) qs)) (\<lambda>rows.
            Inr (pt_table pt True (with_info_header showInfo (node_header @ [''Output''])) rows)))"

record leaderboard_options =
  lo_all :: bool
  lo_maxOutput :: int
  lo_showInfo :: bool
  lo_output :: string

definition leaderboard_custom_Run ::
  "'j printers \<Rightarrow> leaderboard_options \<Rightarrow> (string \<Rightarrow> query_message list option res) \<Rightarrow> string list \<Rightarrow> string res" where
  "leaderboard_custom_Run pt o' call args =
     bind_res (opaque ''query failed'' (call (join_with '' '' args))) (\<lambda>answers.
       if lo_output o' = ''json'' then ctx ''failed to format queries as JSON'' (FormatCustomQueriesJSON (pt_json pt) answers)
       else if lo_output o' = ''table'' then
         ctx ''failed to render table'' (leaderboard_renderTable pt answers (lo_showInfo o') (lo_maxOutput o') (lo_all o'))
       else Inl (Err ''invalid output format specified''))"

text \<open>
  A list without elements is left out of the message that the server sends, so the client reads it as nil
  and reports an error for an empty leaderboard.
\<close>

definition sent :: "'a list \<Rightarrow> 'a list option" where
  "sent xs = (if xs = [] then None else Some xs)"

lemma empty_leaderboard_is_error:
  "lo_output o' = ''table'' \<Longrightarrow> leaderboard_custom_Run pt o' (\<lambda>script. Inr (sent [])) args
    = Inl (Wrap ''failed to render table'' (Err ''queries data is invalid''))"
  by (simp add: leaderboard_custom_Run_def leaderboard_renderTable_def sent_def opaque_def)

text \<open>\<open>leaderboard/keys\<close>.\<close>

definition keys_renderTable :: "'j printers \<Rightarrow> service_node list option \<Rightarrow> bool \<Rightarrow> int \<Rightarrow> string res" where
  "keys_renderTable pt nodes showInfo maxOutput =
     (case nodes of
        None \<Rightarrow> Inl (Err ''nodes data is invalid'')
      | Some ns \<Rightarrow> Inr (pt_table pt True (with_info_header showInfo node_header)
          (map (\<lambda>n. with_info (pt_info pt) showInfo n (node_row n)) (take (nat maxOutput) ns))))"

definition keys_Run :: "'j printers \<Rightarrow> query_options \<Rightarrow> service_node list option res \<Rightarrow> string res" where
  "keys_Run pt o' answer =
     bind_res (ctx ''failed to retrieve all keys'' answer) (\<lambda>nodes.
       if qo_output o' = ''json'' then ctx ''failed to format nodes as JSON'' (FormatNodeJSON (pt_json pt) nodes)
       else if qo_output o' = ''table'' then
         ctx ''failed to render table'' (keys_renderTable pt nodes (qo_showInfo o') (qo_maxOutput o'))
       else Inl (Err ''invalid output format specified''))"

section \<open>The report\<close>

definition alias_title :: "finding_message \<Rightarrow> string list \<Rightarrow> string" where
  "alias_title f as =
     (case filter (\<lambda>a. has_prefix (to_upper a) ''CVE-'' \<and> \<not> equal_fold a (fm_Id f)) as of
        [] \<Rightarrow> fm_Id f
      | a # rest \<Rightarrow> fm_Id f @ '' / '' @ a)"

definition title :: "finding_message \<Rightarrow> string" where
  "title f = alias_title f (fm_Aliases f)"

definition severityLabel :: "string \<Rightarrow> string" where
  "severityLabel s =
     (if has_prefix s ''CVSS:'' then (case cut_at CHR ''/'' s of Some (version, rest) \<Rightarrow> version | None \<Rightarrow> s) else s)"

definition finding_row :: "finding_message \<Rightarrow> string list" where
  "finding_row f =
     [title f, severityLabel (fm_Severity f),
      case fm_Kev f of None \<Rightarrow> '''' | Some k \<Rightarrow> ''yes, due '' @ km_DueDate k,
      case fm_Epss f of None \<Rightarrow> '''' | Some e \<Rightarrow> format_fixed 3 (fst e),
      FormatUint (length (fm_Products f)) @
        (if fm_Suppressed f \<noteq> [] then '' (+'' @ FormatUint (length (fm_Suppressed f)) @ '' VEX)'' else ''''),
      case fm_Products f of [] \<Rightarrow> '''' | p # ps \<Rightarrow> join_with '' > '' (im_Path p)]"

definition writeTable :: "table_printer \<Rightarrow> finding_message list \<Rightarrow> string" where
  "writeTable table findings =
     (if length findings = 0 then ''No vulnerabilities reach your products.'' @ newline
      else table False [''Vulnerability'', ''Severity'', ''KEV'', ''EPSS'', ''Products'', ''Example path'']
        (map finding_row findings))"

text \<open>The arrow is written in UTF-8.\<close>

definition arrow :: string where "arrow = [CHR '' '', CHR 0xE2, CHR 0x86, CHR 0x92, CHR '' '']"

definition product_line :: "product_impact \<Rightarrow> string" where
  "product_line p =
     ''- `'' @ im_Name p @ ''` via '' @ join_with arrow (im_Path p) @
     (case im_Vex p of None \<Rightarrow> '''' | Some v \<Rightarrow> '' (VEX: '' @ vs_Status v @ '')'') @ newline"

text \<open>The statement of a suppressed product is read without a test for nil.\<close>

definition suppressed_line :: "product_impact \<Rightarrow> string res" where
  "suppressed_line p =
     (case im_Vex p of
        None \<Rightarrow> Inl (Panic ''nil pointer dereference'')
      | Some v \<Rightarrow> Inr (''- `'' @ im_Name p @ ''`: '' @ vs_Status v @
          (if vs_Justification v \<noteq> '''' then '' ('' @ vs_Justification v @ '')'' else '''') @ newline))"

definition kev_line :: "kev_message \<Rightarrow> string" where
  "kev_line k =
     ''- **Known exploited** (CISA KEV since '' @ km_DateAdded k @ '', action due '' @ km_DueDate k @
     (if equal_fold (km_KnownRansomwareCampaignUse k) ''Known'' then '', used in ransomware campaigns'' else '''') @
     '')'' @ newline"

definition epss_line :: "float64 \<times> float64 \<times> string \<Rightarrow> string" where
  "epss_line e =
     ''- EPSS: '' @ format_fixed 3 (fst e) @ '' (percentile '' @ format_fixed 2 (fst (snd e)) @
     (if snd (snd e) \<noteq> '''' then '', '' @ snd (snd e) else '''') @ '')'' @ newline"

definition finding_section :: "finding_message \<Rightarrow> string res" where
  "finding_section f =
     bind_res (map_res suppressed_line (fm_Suppressed f)) (\<lambda>suppressed.
       Inr (''## '' @ title f @ newline @ newline @
         (if fm_Summary f \<noteq> '''' then fm_Summary f @ newline @ newline else '''') @
         (if fm_Severity f \<noteq> '''' then ''- Severity: '' @ fm_Severity f @ newline else '''') @
         (case fm_Kev f of None \<Rightarrow> '''' | Some k \<Rightarrow> kev_line k) @
         (case fm_Epss f of None \<Rightarrow> '''' | Some e \<Rightarrow> epss_line e) @
         (if fm_Packages f \<noteq> [] then ''- Vulnerable packages: `'' @ join_with ''`, `'' (fm_Packages f) @ ''`'' @ newline else '''') @
         newline @ ''**Affected products ('' @ FormatUint (length (fm_Products f)) @ '')**'' @ newline @ newline @
         concat (map product_line (fm_Products f)) @
         (if fm_Suppressed f \<noteq> [] then
            newline @ ''**Not affected or fixed according to VEX ('' @ FormatUint (length (fm_Suppressed f)) @ '')**'' @
            newline @ newline @ concat suppressed
          else '''') @
         newline))"

definition writeMarkdown :: "finding_message list \<Rightarrow> string res" where
  "writeMarkdown findings =
     bind_res (map_res finding_section findings) (\<lambda>sections.
       Inr (''# Vulnerability report'' @ newline @ newline @
         (if length findings = 0 then ''No vulnerabilities reach your products.'' @ newline else '''') @
         concat sections))"

record report_options =
  ro_format :: string
  ro_kevOnly :: bool
  ro_minEPSS :: float64
  ro_limit :: int

definition report_request :: "report_options \<Rightarrow> string list \<Rightarrow> options" where
  "report_request o' args =
     \<lparr>opt_Vulnerability = (case args of [a] \<Rightarrow> a | _ \<Rightarrow> ''''), opt_KEVOnly = ro_kevOnly o', opt_MinEPSS = ro_minEPSS o'\<rparr>"

definition report_Run ::
  "table_printer \<Rightarrow> (finding_message list \<Rightarrow> string res) \<Rightarrow> report_options \<Rightarrow> (options \<Rightarrow> finding_message list res)
    \<Rightarrow> string list \<Rightarrow> string res" where
  "report_Run table protojson o' call args =
     bind_res (ctx ''failed to get the report'' (call (report_request o' args))) (\<lambda>all.
       let findings = (if 0 < ro_limit o' \<and> ro_limit o' < int (length all) then take (nat (ro_limit o')) all else all)
       in if ro_format o' = ''json'' then bind_res (protojson findings) (\<lambda>out. Inr (out @ newline))
          else if ro_format o' = ''markdown'' \<or> ro_format o' = ''md'' then writeMarkdown findings
          else if ro_format o' = ''table'' then Inr (writeTable table findings)
          else Inl (Err ''unknown format''))"

section \<open>Chat sessions\<close>

text \<open>
  \<open>cmd/llm\<close>: the model answers with a prefix that says which kind of query follows. The dialogue is the
  list of messages that is sent each time. The chat service is a function of the model and the messages to
  the choices it returns; the text of the system prompt is an argument.
\<close>

datatype chat_role = System | User | Assistant

type_synonym chat_message = "chat_role \<times> string"

record llm_clients =
  lc_leaderboard :: "string \<Rightarrow> query_message list option res"
  lc_query :: "string \<Rightarrow> service_node list option res"
  lc_glob :: "string \<Rightarrow> service_node list option res"

text \<open>A result as text: an error or an empty answer is a sentence, and an output format that is neither is empty.\<close>

definition llm_result ::
  "string \<Rightarrow> string \<Rightarrow> 'a list option res \<Rightarrow> ('a list option \<Rightarrow> string res) \<Rightarrow> ('a list \<Rightarrow> string res) \<Rightarrow> string res" where
  "llm_result failed output answer json table =
     (case answer of
        Inl e \<Rightarrow> if is_panic e then Inl e else Inr failed
      | Inr xs \<Rightarrow>
          if length (listed xs) = 0 then Inr ''No results found''
          else if output = ''json'' then
            (case json xs of Inl e \<Rightarrow> if is_panic e then Inl e else Inr ''Failed to format JSON: '' | Inr out \<Rightarrow> Inr out)
          else if output = ''table'' then table (listed xs)
          else Inr '''')"

definition formatLeaderboardTable :: "'j printers \<Rightarrow> query_message list \<Rightarrow> int \<Rightarrow> bool \<Rightarrow> string res" where
  "formatLeaderboardTable pt answers maxOutput showInfo =
     bind_res (map_res (query_row (pt_info pt) False showInfo) (take (nat maxOutput) answers)) (\<lambda>rows.
       Inr (pt_table pt True (with_info_header showInfo (node_header @ [''Output''])) rows))"

definition llm_answer :: "'j printers \<Rightarrow> query_options \<Rightarrow> llm_clients \<Rightarrow> string \<Rightarrow> string res" where
  "llm_answer pt o' lc script =
     (let s = trim_space script
      in if s = '''' then Inr ''''
         else if has_prefix s ''leaderboard:'' then
           llm_result ''Leaderboard query failed: '' (qo_output o') (lc_leaderboard lc (trim_prefix s ''leaderboard:''))
             (FormatCustomQueriesJSON (pt_json pt)) (\<lambda>qs. formatLeaderboardTable pt qs (qo_maxOutput o') (qo_showInfo o'))
         else if has_prefix s ''query:'' then
           llm_result ''Query failed: '' (qo_output o') (lc_query lc (trim_prefix s ''query:''))
             (FormatNodeJSON (pt_json pt)) (\<lambda>ns. Inr (custom_formatTable pt ns (qo_maxOutput o') (qo_showInfo o')))
         else if has_prefix s ''globsearch:'' then
           llm_result ''Query failed: '' (qo_output o') (lc_glob lc (trim_prefix s ''globsearch:''))
             (FormatNodeJSON (pt_json pt)) (\<lambda>ns. Inr (globsearch_formatTable pt ns (qo_maxOutput o')))
         else Inr ''Sorry the query failed, please try again.'')"

definition feedback :: "string \<Rightarrow> string" where
  "feedback queryResult =
     ''Here are the results of the query:'' @ newline @ queryResult @ newline @ ''What else would you like to know?''"

text \<open>
  The loop over the lines of standard input, which ends in an error at the end of the input. It returns the
  dialogue; what is printed is the feedback of each round between fixed texts.
\<close>

fun llm_loop ::
  "'j printers \<Rightarrow> query_options \<Rightarrow> llm_clients \<Rightarrow> (chat_message list \<Rightarrow> string list res) \<Rightarrow> string list \<Rightarrow> chat_message list
    \<Rightarrow> chat_message list \<times> unit res" where
  "llm_loop pt o' lc chat [] messages = (messages, Inl (Wrap ''error reading input'' (Err ''EOF'')))"
| "llm_loop pt o' lc chat (line # lines) messages =
     (let input = trim_space line
      in if to_lower input = ''exit'' then (messages, Inr ())
         else
           (let asked = messages @ [(User, input)]
            in case ctx ''failed to create chat completion'' (chat asked) of
                 Inl e \<Rightarrow> (asked, Inl e)
               | Inr [] \<Rightarrow> (asked, Inl (Err ''the model returned no answer''))
               | Inr (script # choices) \<Rightarrow>
                   (case llm_answer pt o' lc script of
                      Inl e \<Rightarrow> (asked @ [(Assistant, script)], Inl e)
                    | Inr queryResult \<Rightarrow>
                        llm_loop pt o' lc chat lines
                          (asked @ [(Assistant, script), (Assistant, feedback queryResult)]))))"

definition envOr :: "environment \<Rightarrow> string \<Rightarrow> string \<Rightarrow> string" where
  "envOr env name fallback = (if en_Getenv env name \<noteq> '''' then en_Getenv env name else fallback)"

definition llm_Run ::
  "environment \<Rightarrow> string \<Rightarrow> string \<Rightarrow> 'j printers \<Rightarrow> query_options \<Rightarrow> llm_clients
    \<Rightarrow> (string \<Rightarrow> string \<Rightarrow> chat_message list \<Rightarrow> string list res) \<Rightarrow> string list \<Rightarrow> chat_message list \<times> unit res" where
  "llm_Run env baseURL prompt pt o' lc chat lines =
     (let apiKey = envOr env ''SAPPER_LLM_API_KEY'' (en_Getenv env ''OPENAI_API_KEY'')
      in if apiKey = '''' \<and> baseURL = '''' then ([], Inl (Err ''set SAPPER_LLM_API_KEY''))
         else llm_loop pt o' lc (chat apiKey (trim_right CHR ''/'' baseURL)) lines [(System, prompt)])"

end
