(* ===== verification/Client_Report.thy ===== *)
theory Client_Report
  imports Client_Query
begin

text \<open>
  Every product that a report lists as suppressed has a VEX statement that suppresses it. The printer of
  Markdown relies on it: it reads the statement without a test for nil.
\<close>

definition vouched :: "finding \<Rightarrow> bool" where
  "vouched f \<longleftrightarrow> list_all (\<lambda>p. suppresses (pr_VEX p)) (fd_Suppressed f)"

lemma vouched_cong: "fd_Suppressed f = fd_Suppressed g \<Longrightarrow> vouched f = vouched g"
  by (simp add: vouched_def)

lemma better_score_Suppressed [simp]: "fd_Suppressed (better_score sc f) = fd_Suppressed f"
  by (simp add: better_score_def split: option.split)

lemma rank_finding_Suppressed: "rank_finding libs st s names f = Inr f' \<Longrightarrow> fd_Suppressed f' = fd_Suppressed f"
proof (induction names arbitrary: f)
  case (Cons nm nms)
  then show ?case by (fastforce simp: bind_res_Inr_iff split: if_splits)
qed simp

lemma file_products_vouched:
  "file_products nodes nxt v vex xs f = Some (Inr f') \<Longrightarrow> vouched f \<Longrightarrow> vouched f'"
proof (induction xs arbitrary: f)
  case (Cons x xs)
  obtain n path where n: "nodes x = Some n" "path_from nodes nxt v x [] = Some (Inr path)"
    using Cons.prems(1) by (auto split: option.splits sum.splits)
  let ?p = "product_of vex (n_Name n) path"
  let ?f = "if suppresses (pr_VEX ?p) then f\<lparr>fd_Suppressed := fd_Suppressed f @ [?p]\<rparr>
    else f\<lparr>fd_Products := fd_Products f @ [?p]\<rparr>"
  have "file_products nodes nxt v vex xs ?f = Some (Inr f')" using Cons.prems(1) n by (simp add: Let_def)
  moreover have "vouched ?f" using Cons.prems(2) by (simp add: vouched_def)
  ultimately show ?case by (rule Cons.IH)
qed simp

lemma buildFinding_vouched:
  assumes "buildFinding ro k libs st s nodes n names = Some (Inr f)"
  shows "vouched f"
proof -
  obtain f1 vex f3 where f1: "rank_finding libs st s names (described libs n) = Inr f1"
    and f3: "file_products nodes (uw_next (up_walk_loop nodes (n_ID n) (start_walk (n_ID n)))) (n_ID n) vex
      (uw_products (up_walk_loop nodes (n_ID n) (start_walk (n_ID n))))
      (f1\<lparr>fd_Packages := sort_Strings (uw_packages (up_walk_loop nodes (n_ID n) (start_walk (n_ID n))))\<rparr>) = Some (Inr f3)"
    and f: "f = f3\<lparr>fd_Products := stable_sort product_less (fd_Products f3),
      fd_Suppressed := stable_sort product_less (fd_Suppressed f3)\<rparr>"
    using assms unfolding buildFinding_def by (auto simp: Let_def split: sum.splits option.splits)
  have "fd_Suppressed f1 = []"
    using rank_finding_Suppressed [OF f1] by (simp add: described_def Let_def split: sum.splits)
  then have "vouched f3" using file_products_vouched [OF f3] by (simp add: vouched_def)
  then show ?thesis unfolding f vouched_def by (simp add: list_all_iff)
qed

lemma build_findings_vouched:
  "build_findings ro k libs st s nodes ns = Some (Inr (k', fs)) \<Longrightarrow> list_all vouched fs"
proof (induction ns arbitrary: k k' fs)
  case (Cons n ns)
  then show ?case
    using buildFinding_vouched
    by (fastforce simp: Let_def bind_res_Inr_iff split: if_splits option.splits sum.splits)
qed simp

lemma fold_merge_suppressed:
  "snd ` set (ms_suppressed (fold merge_one fs m)) \<subseteq> snd ` set (ms_suppressed m) \<union> (\<Union>f \<in> set fs. set (fd_Suppressed f))"
proof (induction fs arbitrary: m)
  case (Cons f fs)
  have "snd ` set (ms_suppressed (merge_one f m)) \<subseteq> snd ` set (ms_suppressed m) \<union> set (fd_Suppressed f)"
    unfolding merge_one_fields(3) by (rule fold_add_product_values)
  with Cons.IH [of "merge_one f m"] show ?case by auto
qed simp

lemma mergeGroup_vouched:
  assumes ro: "range_ok ro" and fs: "list_all vouched fs" and run: "mergeGroup ro k fs = Inr f"
  shows "vouched f"
proof (cases "length fs = 1")
  case True
  then show ?thesis using fs run by (cases fs) (auto simp: mergeGroup_def)
next
  case False
  let ?s = "stable_sort (\<lambda>a b. idRank (fd_ID a) < idRank (fd_ID b)) fs"
  from False run obtain first rest where s: "?s = first # rest" by (auto simp: mergeGroup_def split: list.splits)
  define m where "m = fold merge_one (first # rest)
    \<lparr>ms_out = first, ms_names = {to_upper (fd_ID first)}, ms_aliases = [], ms_packages = [],
     ms_products = [], ms_suppressed = []\<rparr>"
  have "fd_Suppressed f = (if 0 < length (ms_suppressed m) then sortedProducts ro (k + 3) (ms_suppressed m) else [])"
    using run False by (auto simp: mergeGroup_def s Let_def m_def)
  then have "set (fd_Suppressed f) \<subseteq> snd ` set (ms_suppressed m)"
    using ro by (simp add: sortedProducts_def split: if_splits)
  also have "\<dots> \<subseteq> (\<Union>f \<in> set (first # rest). set (fd_Suppressed f))"
    using fold_merge_suppressed [of "first # rest"] unfolding m_def by fastforce
  also have "set (first # rest) = set fs" unfolding s [symmetric] by simp
  finally show ?thesis using fs by (auto simp: vouched_def list_all_iff)
qed

lemma merge_groups_vouched:
  assumes "range_ok ro"
  shows "list_all (list_all vouched) gs \<Longrightarrow> merge_groups ro k gs = Inr out \<Longrightarrow> list_all vouched out"
proof (induction gs arbitrary: k out)
  case (Cons g gs)
  then show ?case using mergeGroup_vouched [OF assms] by (fastforce simp: bind_res_Inr_iff)
qed simp

lemma mergeAliases_vouched:
  assumes "range_ok ro" and "list_all vouched fs" and "mergeAliases ro k fs = Some (Inr out)"
  shows "list_all vouched out"
proof -
  obtain R where "mergeAliases ro k fs = Some (merge_groups ro k (map (block fs R) (firsts (map R [0..<length fs]))))"
    using mergeAliases_groups by blast
  moreover have "list_all (list_all vouched) (map (block fs R) (firsts (map R [0..<length fs])))"
    using assms(2) by (auto simp: list_all_iff set_block)
  ultimately show ?thesis using merge_groups_vouched [OF assms(1)] assms(3) by simp
qed

lemma Build_vouched:
  assumes "range_ok ro" and "Build ro libs st s opts = Some (Inr fs)"
  shows "list_all vouched fs"
proof -
  obtain k nodes findings merged where
    found: "build_findings ro 1 libs st s (map_of nodes) (map snd (go_range ro 0 nodes)) = Some (Inr (k, findings))"
    and merged: "mergeAliases ro k findings = Some (Inr merged)" "fs = stable_sort more_urgent (filter (keeps opts) merged)"
    using assms(2) unfolding Build_def by (auto simp: bind_res_Inr_iff split: sum.splits option.splits)
  from mergeAliases_vouched [OF assms(1) build_findings_vouched [OF found] merged(1)] show ?thesis unfolding merged(2) by (simp add: list_all_iff)
qed

text \<open>What the message of a finding keeps.\<close>

lemma Report_vouched:
  assumes "range_ok ro" and "Report_handler libs ro sv opts = Some (Inr ms)"
  shows "\<forall>f \<in> set ms. \<forall>p \<in> set (fm_Suppressed f). \<exists>v. im_Vex p = Some v \<and> (vs_Status v = ''not_affected'' \<or> vs_Status v = ''fixed'')"
proof -
  obtain fs where fs: "Build ro (li_prio libs) (sv_storage sv) (sv_state sv) opts = Some (Inr fs)" "ms = map findingToProto fs"
    using assms(2) by (auto simp: Report_handler_def bind_res_Inr_iff)
  from Build_vouched [OF assms(1) fs(1)] show ?thesis
    unfolding fs(2) vouched_def list_all_iff
    by (fastforce simp: findingToProto_def productsToProto_def suppresses_def split: option.splits)
qed

lemma writeMarkdown_prints:
  assumes "\<forall>f \<in> set fs. \<forall>p \<in> set (fm_Suppressed f). im_Vex p \<noteq> None"
  shows "\<exists>out. writeMarkdown fs = Inr out"
proof -
  have "\<exists>out. finding_section f = Inr out" if "f \<in> set fs" for f
  proof -
    have "suppressed_line p = Inr (projr (suppressed_line p))" if "p \<in> set (fm_Suppressed f)" for p
      using assms \<open>f \<in> set fs\<close> that by (auto simp: suppressed_line_def split: option.split)
    then have "map_res suppressed_line (fm_Suppressed f) = Inr (map (\<lambda>p. projr (suppressed_line p)) (fm_Suppressed f))"
      by (rule map_res_Inr)
    then show ?thesis unfolding finding_section_def by (simp only: bind_res_simps sum.inject simp_thms)
  qed
  then have "finding_section f = Inr (projr (finding_section f))" if "f \<in> set fs" for f using that by fastforce
  then have "map_res finding_section fs = Inr (map (\<lambda>f. projr (finding_section f)) fs)" by (rule map_res_Inr)
  then show ?thesis unfolding writeMarkdown_def by simp
qed

section \<open>Properties\<close>

text \<open>
  C22. Whatever back end the server runs on and whatever it holds, \<open>sapper report\<close> prints every report that
  the service answers with, as Markdown too, where it reads the VEX statement of each suppressed product
  without a test for nil: each of them has one, and it says not affected or fixed.
\<close>

theorem report_never_panics:
  assumes "range_ok ro" and "Report_handler libs ro sv (report_request o' args) = Some (Inr ms)"
    and "ro_format o' \<in> {''markdown'', ''md'', ''table''}"
  shows "(\<exists>out. report_Run table protojson o' (\<lambda>opts. the (Report_handler libs ro sv opts)) args = Inr out)
    \<and> (\<forall>f \<in> set ms. \<forall>p \<in> set (fm_Suppressed f). \<exists>v. im_Vex p = Some v \<and> (vs_Status v = ''not_affected'' \<or> vs_Status v = ''fixed''))"
proof -
  let ?fs = "if 0 < ro_limit o' \<and> ro_limit o' < int (length ms) then take (nat (ro_limit o')) ms else ms"
  have "set ?fs \<subseteq> set ms" by (auto dest: in_set_takeD)
  then have "\<exists>out. writeMarkdown ?fs = Inr out"
    using Report_vouched [OF assms(1,2)] by (intro writeMarkdown_prints) fastforce
  then have "\<exists>out. report_Run table protojson o' (\<lambda>opts. the (Report_handler libs ro sv opts)) args = Inr out"
    using assms(2,3) by (auto simp: report_Run_def Let_def)
  with Report_vouched [OF assms(1,2)] show ?thesis by blast
qed

text \<open>A vulnerability in an application, and a statement that the application has a fix.\<close>

definition fixed_mock :: mock where
  "fixed_mock = NewMockStorage
     \<lparr>m_nodes := [(1, (lone_node ''vuln'' ''GO-1'' (MBytes ''osv''))\<lparr>n_Parents := {2}\<rparr>),
                  (2, (lone_node ''library'' ''app'' MNil)\<lparr>n_ID := 2, n_Children := {1}\<rparr>)],
      m_nameToID := [''GO-1'' \<mapsto> 1, ''app'' \<mapsto> 2], m_idCounter := 2,
      m_db := [colon_key VEXTag ''GO-1'' \<mapsto> [(''app'', ''fixed'')]]\<rparr>"

lemma fixed_report:
  "map_option (map_sum id (map (\<lambda>f. (fd_Products f, map pr_Name (fd_Suppressed f)))))
     (Build in_order sample_prio mock_storage fixed_mock everything) = Some (Inr [([], [''app''])])"
  by code_simp

definition markdown_report :: report_options where
  "markdown_report = \<lparr>ro_format = ''markdown'', ro_kevOnly = False, ro_minEPSS = float64.Fin 0, ro_limit = 0\<rparr>"

theorem report_never_panics_witness:
  "\<forall>libs :: (unit, unit) service_libs. \<exists>ms out.
     Report_handler (libs\<lparr>li_prio := sample_prio\<rparr>) in_order (NewService mock_storage fixed_mock 1) everything = Some (Inr ms)
     \<and> map (\<lambda>f. map im_Name (fm_Suppressed f)) ms = [[''app'']]
     \<and> report_Run (\<lambda>_ _ _. '''') (\<lambda>_. Inr '''') markdown_report
         (\<lambda>opts. the (Report_handler (libs\<lparr>li_prio := sample_prio\<rparr>) in_order (NewService mock_storage fixed_mock 1) opts)) []
       = Inr out"
proof
  fix libs :: "(unit, unit) service_libs"
  let ?libs = "libs\<lparr>li_prio := sample_prio\<rparr>" and ?sv = "NewService mock_storage fixed_mock 1"
  obtain fs where fs: "Build in_order sample_prio mock_storage fixed_mock everything = Some (Inr fs)"
    "map (\<lambda>f. (fd_Products f, map pr_Name (fd_Suppressed f))) fs = [([], [''app''])]"
    using fixed_report by (cases "Build in_order sample_prio mock_storage fixed_mock everything"; cases "the (Build in_order sample_prio mock_storage fixed_mock everything)") auto
  have rep: "Report_handler ?libs in_order ?sv everything = Some (Inr (map findingToProto fs))"
    by (simp add: Report_handler_def NewService_def fs(1))
  have req: "report_request markdown_report [] = everything"
    by (simp add: report_request_def markdown_report_def everything_def)
  have "map (\<lambda>f. map im_Name (fm_Suppressed f)) (map findingToProto fs) = map snd (map (\<lambda>f. (fd_Products f, map pr_Name (fd_Suppressed f))) fs)"
    by (simp add: findingToProto_def productsToProto_def)
  then have "map (\<lambda>f. map im_Name (fm_Suppressed f)) (map findingToProto fs) = [[''app'']]" unfolding fs(2) by simp
  moreover have "ro_format markdown_report \<in> {''markdown'', ''md'', ''table''}" by (simp add: markdown_report_def)
  from report_never_panics [where o' = markdown_report and args = "[]" and table = "\<lambda>_ _ _. ''''" and protojson = "\<lambda>_. Inr ''''",
      unfolded req, OF range_ok_in_order rep this]
  obtain out where "report_Run (\<lambda>_ _ _. '''') (\<lambda>_. Inr '''') markdown_report (\<lambda>opts. the (Report_handler ?libs in_order ?sv opts)) [] = Inr out"
    by (elim conjE exE) (rule that)
  ultimately show "\<exists>ms out. Report_handler ?libs in_order ?sv everything = Some (Inr ms)
     \<and> map (\<lambda>f. map im_Name (fm_Suppressed f)) ms = [[''app'']]
     \<and> report_Run (\<lambda>_ _ _. '''') (\<lambda>_. Inr '''') markdown_report (\<lambda>opts. the (Report_handler ?libs in_order ?sv opts)) [] = Inr out"
    using rep by (intro exI conjI)
qed

end
