(* ===== verification/Spec2Isabelle.thy ===== *)
theory Spec2Isabelle
  imports Graph_Props Report_Props Weighted Client_Ingest Client_Report
begin

text \<open>
  Sapper keeps a graph of packages, vulnerabilities and scorecards, and answers questions about who
  depends on what. This development models the implementation under \<open>src/pkg\<close>, the handlers under
  \<open>src/api/v1\<close> and the commands under \<open>src/cmd\<close>; the theorems are about those models, and every model
  follows the Go code statement by statement where a statement changes state or decides a result.

  \<^bold>\<open>The program and its parts.\<close> A back end (\<open>Storage\<close>) stores nodes under 32-bit identifiers, an
  index from names to identifiers, a cache entry per node, a list of identifiers that wait to be
  cached, and custom data. Ingesters decode files and add nodes and dependencies through the graph
  operations. \<open>Cache\<close> computes the closure of every node, with one shared value per strongly connected
  component. Queries read closures, either by walking the graph or from the cache; the query language
  combines them; the report, the weighted ranking and the leaderboard are built on queries. The service
  holds a back end and a cached index of the libraries, and its handlers call everything else. The commands
  read files, call the service and print what it answers.

  \<^bold>\<open>What models what\<close> (paths are under \<open>src/pkg\<close> unless they start with \<open>api\<close> or \<open>cmd\<close>).

  \<^item> \<open>Sapper_Prelude\<close>: types of identifiers and bitmaps, errors as values, lemmas on lists and maps that
    the components share, the collections of facts. No code of the program.
  \<^item> \<open>Convert\<close>: \<open>utils/convert.go\<close>. \<open>Go_Match\<close>, \<open>Go_Sort\<close>, \<open>Go_Float\<close>, \<open>Go_Heap\<close>: what the sources use of
    the Go standard library (\<open>filepath.Match\<close>, \<open>sort\<close>, \<open>float64\<close>, \<open>container/heap\<close>).
  \<^item> \<open>Graph_Data\<close>, \<open>Graph_Ops\<close>: \<open>graph/graph.go\<close> and \<open>graph/storage.go\<close>. \<open>Bind_Map\<close>: \<open>graph/bindMap.go\<close>.
  \<^item> \<open>Tarjan\<close>, \<open>Cache\<close>: \<open>graph/cache.go\<close>; \<open>Tarjan_Correct\<close>, \<open>Cache_Walk\<close>, \<open>Cache_Correct\<close>: their
    correctness; \<open>Cache_Props\<close>: their properties on the back ends.
  \<^item> \<open>Mock_Storage\<close>: \<open>graph/mockGraph.go\<close>. \<open>Store_Keys\<close>, \<open>Sql_Storage\<close>, \<open>Redis_Storage\<close>:
    \<open>storages/storage.go\<close>, \<open>storages/sql.go\<close>, \<open>storages/redis_storage.go\<close>.
  \<^item> \<open>Query_Lang\<close>: \<open>graph/parser.go\<close>. \<open>Graph_Runs\<close>, \<open>Graph_Props\<close>: runs of graph operations, and the
    properties of graphs on the back ends.
  \<^item> \<open>Purl\<close>, \<open>Versions\<close>, \<open>Vuln_Ingest\<close>, \<open>Sbom\<close>, \<open>Scorecard\<close>, \<open>Prioritize\<close>: the files of \<open>tools/ingest\<close>
    (\<open>helpers.go\<close>, \<open>vuln.go\<close> in two halves, \<open>sbom.go\<close>, \<open>scorecard.go\<close>, \<open>prioritize.go\<close>) and
    \<open>tools/types.go\<close>. \<open>Ingest_Steps\<close>, \<open>Ingest_Growth\<close>: the two steps that all of them take, and what a
    sequence of such steps does to a graph.
  \<^item> \<open>Report\<close>, \<open>Report_Merge\<close>: \<open>report/report.go\<close>, \<open>report/merge.go\<close>; \<open>Report_Walk\<close>, \<open>Report_Props\<close>: what
    the breadth-first search finds, and the properties of reports.
  \<^item> \<open>Weighted\<close>: \<open>tools/weightedNACD\<close>.
  \<^item> \<open>Service\<close>: \<open>api/v1/service.go\<close> and \<open>api/v1/report.go\<close>; \<open>Leaderboard\<close>: the properties of its heap and
    its goroutines; \<open>Store_Steps\<close>, \<open>Ingest_Runs\<close>, \<open>Service_Runs\<close>: the service over time.
  \<^item> \<open>Data_Files\<close>: \<open>cmd/helpers\<close> and \<open>utils/datadir.go\<close>. \<open>Client_Ingest\<close>: \<open>cmd/ingest\<close>, \<open>cmd/cache\<close> and the
    start of \<open>cmd/server\<close>. \<open>Client_Query\<close>: \<open>cmd/query\<close>, \<open>cmd/leaderboard\<close>, \<open>cmd/report\<close> and \<open>cmd/llm\<close>;
    \<open>Client_Report\<close>: what the report command relies on.

  \<^bold>\<open>State.\<close> A Go struct is a record with one field per field that is read, and a Go interface value is
  the record \<open>storage\<close> of its methods as functions on the back end's own state; a method that changes the
  state returns the new one. The states are \<open>mock\<close> (the maps of \<open>MockStorage\<close>), \<open>sqldb\<close> (the four tables)
  and \<open>redis\<close> (the key space, by the type of the values). A Go error is \<open>Inl\<close> of a value that names where
  it comes from, a nil pointer that the code compares with nil is \<open>None\<close>, and dereferencing nil is the
  value \<open>Panic\<close>. Identifiers are 32-bit words, and a counter of them wraps around.

  \<^bold>\<open>The contract.\<close> \<open>gstate\<close> is the abstract graph, with one update per method of \<open>Storage\<close>. The locale
  \<open>graph_store\<close> of \<open>Store_Interface\<close> states that the methods return and leave what the abstract graph
  prescribes; what the graph operations, the cache, the queries, the ingesters and the report do is proved
  once in its context. \<open>recaching_store\<close> extends it by what \<open>RemoveAllCaches\<close> must do for a rebuild, which
  SQL does not satisfy. The interpretations are \<open>ms\<close> (in memory), \<open>sq\<close> (SQL) and \<open>rd\<close> (Redis), in the
  theory of each back end. \<open>min_queue\<close> is the interface of the leaderboard's heap, interpreted as \<open>qh\<close>.

  \<^bold>\<open>What the lemmas show.\<close>

  \<^item> Storage (C1 to C3): each back end implements the contract. The round trips of nodes, cache entries,
    numbers and OSV records (C29) carry the encodings; the glob patterns of two back ends agree (C39).
  \<^item> Cache (C4 to C6): \<open>findCycles\<close> gives the strongly connected components, and \<open>Cache\<close> ends, with exact
    entries for everything that a waiting node is connected to.
  \<^item> Service and commands (C7 to C10, C26): every ingester is a sequence of three kinds of calls, also when it
    fails half way, so the graph and the cached index stay consistent after every sequence of requests; a
    rebuild on Redis always recovers; a folder of records becomes exactly the edges that they state.
  \<^item> Queries (C11, C17): a walk without the cache is reachability, and a script denotes a set of nodes, which
    both ways of evaluation return. Ranking: C12 and C36.
  \<^item> Ingestion (C13, C15, C16, C23 to C25, C34): exactly the stated nodes, edges and data are added, also when
    versions and ranges decide.
  \<^item> Report (C14, C18 to C22, C27, C28): the findings are exactly the products that vulnerabilities reach,
    merged by shared names; filtering commutes with building; the printers find what they dereference.
  \<^item> Behaviour that is wrong or surprising is proved as such: C30 to C33, C35, C37, C38 and C40.

  \<^bold>\<open>Parameters.\<close> Code outside the repository is an argument. Hypotheses about it state documented
  behaviour: codecs (\<open>encoding/json\<close>, base64, bitmaps) decode what they encode; \<open>sha\<close> does not collide on
  the groups of one graph; \<open>LIKE\<close>, the order of rows without \<open>ORDER BY\<close>, the \<open>SCAN\<close> batches and the
  statements that fail are part of the state of a data base and never change; the order of a \<open>range\<close> over a
  map is a function that permutes; parsers (participle, protobom, packageurl, semver, OSV and VEX
  documents) are functions to the data that is read; rounding and the exponential are functions on floats;
  a schedule orders what goroutines do; a tree of files and a reader of archives stand for the disk; the
  printers of tables and of JSON are functions to text. Every property with such a hypothesis has a witness with
  concrete functions for the parameters.

  \<^bold>\<open>Loops.\<close> \<open>findCycles\<close> is a function with its termination proof (nodes without a number decrease).
  \<open>walk_loop\<close> (the stack of \<open>buildCache\<close>), \<open>path_from\<close> (the way back of the search) and \<open>uf_find\<close>
  (union-find) are partial functions; C4 and C5, C14 and C20, and C27 prove that they return. There is no
  fuel. The premise \<open>g_next < 2 ^ 32\<close>, or room for a number of new nodes, excludes that a counter wraps
  around and hands out an identifier twice. The bound on entries of archives is that of the source, 64 MiB.

  \<^bold>\<open>Simplifications.\<close> Methods of a back end, and requests, run one after the other; only the goroutines of
  the leaderboard interleave. A stored pointer is a value. Log messages, progress callbacks and time stamps
  are left out. A float is a rational number, an infinity or NaN, without the sign of zero.

  \<^bold>\<open>Not modelled.\<close> The registration of commands and flags, the connections to data bases and servers, the
  routes and the life of the HTTP server are input and output without a decision of the program; of the
  chat command the texts between the answers; \<open>gen\<close> is generated from the protocol definition.
\<close>

end
